(* ===== verification/CinBase64.thy ===== *)
theory CinBase64
  imports Prelude
begin

text \<open>
  The two Base64 encoders of cinatra, \<open>base64_encode\<close> of \<open>utils.hpp\<close> (a state machine over
  three bytes) and \<open>code_utils::base64_encode\<close> of \<open>url_encode_decode.hpp\<close> (24-bit groups, with a
  URL-safe alphabet), and the definition of RFC 4648 they are compared with.
\<close>

section \<open>The code\<close>

definition base64_chars :: string where
  "base64_chars = ''ABCDEFGHIJKLMNOPQRSTUVWXYZabcdefghijklmnopqrstuvwxyz0123456789+/''"

definition MAP_URL_ENCODED :: string where
  "MAP_URL_ENCODED = ''ABCDEFGHIJKLMNOPQRSTUVWXYZabcdefghijklmnopqrstuvwxyz0123456789-_''"

text \<open>\<open>char_array_4\<close> from \<open>char_array_3\<close>.\<close>

definition char_array_4 :: "byte \<Rightarrow> byte \<Rightarrow> byte \<Rightarrow> byte list" where
  "char_array_4 a b c =
     [drop_bit 2 (a AND 0xfc),
      push_bit 4 (a AND 0x03) + drop_bit 4 (b AND 0xf0),
      push_bit 2 (b AND 0x0f) + drop_bit 6 (c AND 0xc0),
      c AND 0x3f]"

text \<open>
  The loop: \<open>acc\<close> holds the first \<open>i\<close> elements of \<open>char_array_3\<close>; at the end the rest is
  padded with zeros, \<open>i + 1\<close> characters and \<open>3 - i\<close> signs \<open>=\<close> are written.
\<close>

fun base64_loop :: "bytes \<Rightarrow> bytes \<Rightarrow> string \<Rightarrow> string" where
  "base64_loop [] acc ret =
     (if acc = [] then ret
      else let a = acc @ replicate (3 - length acc) 0
           in ret @ map (\<lambda>n. base64_chars ! unat n)
                      (take (length acc + 1) (char_array_4 (a ! 0) (a ! 1) (a ! 2)))
                  @ replicate (3 - length acc) CHR ''='')"
| "base64_loop (x # xs) acc ret =
     (let a = acc @ [x]
      in if length a = 3
         then base64_loop xs [] (ret @ map (\<lambda>n. base64_chars ! unat n)
                                         (char_array_4 (a ! 0) (a ! 1) (a ! 2)))
         else base64_loop xs a ret)"

definition base64_encode :: "bytes \<Rightarrow> string" where
  "base64_encode str = base64_loop str [] []"

text \<open>\<open>code_utils::base64_encode\<close>: \<open>map\<close> is the alphabet, \<open>quad\<close> the 24 bits.\<close>

definition quad_chars :: "string \<Rightarrow> u32 \<Rightarrow> string" where
  "quad_chars alphabet quad =
     [alphabet ! unat (drop_bit 18 quad), alphabet ! unat (drop_bit 12 quad AND 63),
      alphabet ! unat (drop_bit 6 quad AND 63), alphabet ! unat (quad AND 63)]"

fun h2o_loop :: "bool \<Rightarrow> string \<Rightarrow> bytes \<Rightarrow> string" where
  "h2o_loop url_encoded alphabet (x # y # z # src) =
     quad_chars alphabet (push_bit 16 (ucast x) OR push_bit 8 (ucast y) OR ucast z) @
     h2o_loop url_encoded alphabet src"
| "h2o_loop url_encoded alphabet [x, y] =
     (let quad = push_bit 16 (ucast x) :: u32;
          c = alphabet ! unat (drop_bit 18 quad);
          quad = quad OR push_bit 8 (ucast y)
      in [c, alphabet ! unat (drop_bit 12 quad AND 63), alphabet ! unat (drop_bit 6 quad AND 63)] @
         (if url_encoded then '''' else ''=''))"
| "h2o_loop url_encoded alphabet [x] =
     (let quad = push_bit 16 (ucast x) :: u32
      in [alphabet ! unat (drop_bit 18 quad), alphabet ! unat (drop_bit 12 quad AND 63)] @
         (if url_encoded then '''' else ''==''))"
| "h2o_loop url_encoded alphabet [] = ''''"

definition h2o_base64_encode :: "bytes \<Rightarrow> bool \<Rightarrow> string" where
  "h2o_base64_encode src url_encoded =
     h2o_loop url_encoded (if url_encoded then MAP_URL_ENCODED else base64_chars) src"

section \<open>RFC 4648\<close>

text \<open>
  The bytes as a string of bits, zero bits up to a multiple of six, six bits for each
  character, and \<open>=\<close> up to a multiple of four characters.
\<close>

definition byte_bits :: "byte \<Rightarrow> bool list" where
  "byte_bits b = map (bit b) (rev [0..<8])"

primrec bits_value :: "bool list \<Rightarrow> nat" where
  "bits_value [] = 0"
| "bits_value (b # bs) = of_bool b * 2 ^ length bs + bits_value bs"

fun sextets :: "bool list \<Rightarrow> nat list" where
  "sextets [] = []"
| "sextets bs = bits_value (take 6 (bs @ replicate 6 False)) # sextets (drop 6 bs)"

definition rfc4648 :: "string \<Rightarrow> bytes \<Rightarrow> string" where
  "rfc4648 alphabet bs = map (\<lambda>n. alphabet ! n) (sextets (concat (map byte_bits bs)))"

definition rfc4648_padded :: "string \<Rightarrow> bytes \<Rightarrow> string" where
  "rfc4648_padded alphabet bs =
     (let s = rfc4648 alphabet bs in s @ replicate ((4 - length s mod 4) mod 4) CHR ''='')"

section \<open>Six bits at a time\<close>

lemma upt_8: "[0..<8] = [0, 1, 2, 3, 4, 5, 6, 7 :: nat]"
  by code_simp

lemma upt_6: "[0..<6] = [0, 1, 2, 3, 4, 5 :: nat]"
  by code_simp

lemma byte_bits_eq: "byte_bits b = [bit b 7, bit b 6, bit b 5, bit b 4, bit b 3, bit b 2, bit b 1, bit b 0]"
  by (simp add: byte_bits_def upt_8)

lemma bits_value_take_bit: "bits_value (map (bit w) (rev [0..<n])) = take_bit n (unat w)"
  for w :: "'a::len word"
  by (induction n) (simp_all add: take_bit_Suc_from_most bit_unsigned_iff of_bool_def mult.commute)

lemma sextet_of_word:
  fixes w :: "'a::len word"
  assumes "w = take_bit 6 w"
  shows "unat w = bits_value [bit w 5, bit w 4, bit w 3, bit w 2, bit w 1, bit w 0]"
proof -
  have "unat w = take_bit 6 (unat w)" using assms by (metis unsigned_take_bit_eq)
  also have "\<dots> = bits_value (map (bit w) (rev [0..<6]))" by (rule bits_value_take_bit [symmetric])
  finally show ?thesis by (simp only: upt_6 rev.simps append.simps list.map)
qed

text \<open>The masks of the code as ranges of bits.\<close>

lemma masks: "(0x03 :: byte) = mask 2" "(0xf0 :: byte) = NOT (mask 4)" "(0x0f :: byte) = mask 4"
  "(0xc0 :: byte) = NOT (mask 6)" "(0x3f :: byte) = mask 6" "(0xfc :: byte) = NOT (mask 2)"
  "(63 :: u32) = mask 6"
  by (simp_all add: mask_eq_exp_minus_1)

lemma sextets_6: "length bs = 6 \<Longrightarrow> sextets (bs @ cs) = bits_value bs # sextets cs"
  by (cases bs) simp_all

lemma char_array_4_or:
  "char_array_4 a b c =
     [drop_bit 2 (a AND NOT (mask 2)),
      push_bit 4 (a AND mask 2) OR drop_bit 4 (b AND NOT (mask 4)),
      push_bit 2 (b AND mask 4) OR drop_bit 6 (c AND NOT (mask 6)),
      c AND mask 6]"
proof -
  have "push_bit 4 (a AND mask 2) + drop_bit 4 (b AND NOT (mask 4)) =
      push_bit 4 (a AND mask 2) OR drop_bit 4 (b AND NOT (mask 4))"
    by (rule disjunctive_add) (auto simp: bit_simps)
  moreover have "push_bit 2 (b AND mask 4) + drop_bit 6 (c AND NOT (mask 6)) =
      push_bit 2 (b AND mask 4) OR drop_bit 6 (c AND NOT (mask 6))"
    by (rule disjunctive_add) (auto simp: bit_simps)
  ultimately show ?thesis unfolding char_array_4_def masks by simp
qed

lemma char_array_4_bits:
  "map unat (char_array_4 a b c) = sextets (byte_bits a @ byte_bits b @ byte_bits c)"
proof -
  have 6: "drop_bit 2 (a AND NOT (mask 2)) = take_bit 6 (drop_bit 2 (a AND NOT (mask 2)))"
    "push_bit 4 (a AND mask 2) OR drop_bit 4 (b AND NOT (mask 4)) =
      take_bit 6 (push_bit 4 (a AND mask 2) OR drop_bit 4 (b AND NOT (mask 4)))"
    "push_bit 2 (b AND mask 4) OR drop_bit 6 (c AND NOT (mask 6)) =
      take_bit 6 (push_bit 2 (b AND mask 4) OR drop_bit 6 (c AND NOT (mask 6)))"
    "c AND mask 6 = take_bit 6 (c AND mask 6)"
    by (rule bit_word_eqI; auto simp: bit_simps)+
  show ?thesis
    unfolding char_array_4_or list.map 6 [THEN sextet_of_word]
    by (simp add: byte_bits_eq bit_simps)
qed

lemma bit_byte_ge: "8 \<le> n \<Longrightarrow> \<not> bit (b :: byte) n"
  by (auto dest: bit_imp_le_length)

lemma quad_bits:
  fixes x y z :: byte
  defines "quad \<equiv> push_bit 16 (ucast x) OR push_bit 8 (ucast y) OR ucast z :: u32"
  shows "[unat (drop_bit 18 quad), unat (drop_bit 12 quad AND 63), unat (drop_bit 6 quad AND 63),
      unat (quad AND 63)] = sextets (byte_bits x @ byte_bits y @ byte_bits z)"
proof -
  have 6: "drop_bit 18 quad = take_bit 6 (drop_bit 18 quad)"
    "drop_bit 12 quad AND mask 6 = take_bit 6 (drop_bit 12 quad AND mask 6)"
    "drop_bit 6 quad AND mask 6 = take_bit 6 (drop_bit 6 quad AND mask 6)"
    "quad AND mask 6 = take_bit 6 (quad AND mask 6)"
    unfolding quad_def by (rule bit_word_eqI; auto simp: bit_simps dest: bit_imp_le_length)+
  show ?thesis
    unfolding masks 6 [THEN sextet_of_word] unfolding quad_def
    by (simp add: byte_bits_eq bit_simps bit_byte_ge)
qed

section \<open>Both encoders write RFC 4648\<close>

lemma replicate_6: "replicate 6 False = [False, False, False, False, False, False]"
  by code_simp

lemma sextets_tail:
  "sextets (byte_bits x) = take 2 (sextets (byte_bits x @ byte_bits 0 @ byte_bits 0))"
  "sextets (byte_bits x @ byte_bits y) = take 3 (sextets (byte_bits x @ byte_bits y @ byte_bits 0))"
  by (simp_all add: byte_bits_eq replicate_6)

lemma length_char_array_4 [simp]: "length (char_array_4 a b c) = 4"
  by (simp add: char_array_4_def)

lemma sextets_24:
  "sextets (byte_bits x @ byte_bits y @ byte_bits z @ bs) =
     sextets (byte_bits x @ byte_bits y @ byte_bits z) @ sextets bs"
  by (simp add: byte_bits_eq)

lemma rfc4648_step:
  "rfc4648 alphabet (x # y # z # bs) =
     map (\<lambda>n. alphabet ! unat n) (char_array_4 x y z) @ rfc4648 alphabet bs"
  unfolding rfc4648_def list.map concat.simps sextets_24 char_array_4_bits [symmetric] map_append
  by simp

lemma rfc4648_tail:
  "rfc4648 alphabet [x] = take 2 (map (\<lambda>n. alphabet ! unat n) (char_array_4 x 0 0))"
  "rfc4648 alphabet [x, y] = take 3 (map (\<lambda>n. alphabet ! unat n) (char_array_4 x y 0))"
  by (simp_all add: rfc4648_def sextets_tail char_array_4_bits [symmetric] take_map)

lemma rfc4648_padded_step:
  "rfc4648_padded alphabet (x # y # z # bs) =
     map (\<lambda>n. alphabet ! unat n) (char_array_4 x y z) @ rfc4648_padded alphabet bs"
  unfolding rfc4648_padded_def rfc4648_step Let_def by simp

lemma three_induct:
  "(\<And>x y z bs. P bs \<Longrightarrow> P (x # y # z # bs)) \<Longrightarrow> (\<And>x y. P [x, y]) \<Longrightarrow> (\<And>x. P [x]) \<Longrightarrow> P [] \<Longrightarrow>
   P bs" for P :: "bytes \<Rightarrow> bool"
  by (rule h2o_loop.induct [where P = "\<lambda>_ _ bs. P bs"]) blast+

lemma late_byte: "drop_bit 18 (push_bit 8 (ucast (y :: byte)) :: u32) = 0"
  by (rule bit_word_eqI) (auto simp: bit_simps dest: bit_imp_le_length)

lemma Suc_3: "Suc (Suc (Suc 0)) = 3"
  by simp

lemma base64_loop_rfc: "base64_loop bs [] ret = ret @ rfc4648_padded base64_chars bs"
proof (induction bs arbitrary: ret rule: three_induct)
  case (1 x y z bs)
  then show ?case by (simp add: rfc4648_padded_step)
next
  case (2 x y)
  then show ?case
    by (simp add: rfc4648_padded_def rfc4648_tail take_map Suc_3 del: One_nat_def)
next
  case (3 x)
  then show ?case by (simp add: rfc4648_padded_def rfc4648_tail take_map numeral_2_eq_2)
next
  case 4
  then show ?case by (simp add: rfc4648_padded_def rfc4648_def)
qed

lemma quad_take:
  "take k (map (\<lambda>n. alphabet ! unat n) (char_array_4 x y z)) =
     take k (map ((!) alphabet)
       [unat (drop_bit 18 (push_bit 16 (ucast x) OR push_bit 8 (ucast y) OR ucast z :: u32)),
        unat (drop_bit 12 (push_bit 16 (ucast x) OR push_bit 8 (ucast y) OR ucast z :: u32) AND 63),
        unat (drop_bit 6 (push_bit 16 (ucast x) OR push_bit 8 (ucast y) OR ucast z :: u32) AND 63),
        unat ((push_bit 16 (ucast x) OR push_bit 8 (ucast y) OR ucast z :: u32) AND 63)])"
  unfolding quad_bits char_array_4_bits [symmetric] by (simp add: comp_def)

lemma h2o_loop_rfc:
  "h2o_loop url_encoded alphabet bs =
     (if url_encoded then rfc4648 alphabet bs else rfc4648_padded alphabet bs)"
proof (induction url_encoded alphabet bs rule: h2o_loop.induct)
  case (1 url_encoded alphabet x y z bs)
  have "quad_chars alphabet (push_bit 16 (ucast x) OR push_bit 8 (ucast y) OR ucast z) =
      map (\<lambda>n. alphabet ! n) (map unat (char_array_4 x y z))"
    unfolding char_array_4_bits quad_bits [symmetric] by (simp add: quad_chars_def)
  with 1 show ?case by (simp add: rfc4648_padded_step rfc4648_step comp_def)
next
  case (2 url_encoded alphabet x y)
  then show ?case
    by (simp add: rfc4648_padded_def rfc4648_tail quad_take late_byte Let_def)
next
  case (3 url_encoded alphabet x)
  then show ?case
    by (simp add: rfc4648_padded_def rfc4648_tail quad_take Let_def numeral_2_eq_2)
next
  case 4
  then show ?case by (simp add: rfc4648_padded_def rfc4648_def)
qed

text \<open>
  C32 (equivalence). The two Base64 encoders of cinatra agree with RFC 4648 on every byte string:
  both write the padded Base64 text, and with \<open>url_encoded\<close> the second one writes the unpadded
  text in the URL-safe alphabet.
\<close>
theorem base64_encoders_rfc4648:
  "base64_encode bs = rfc4648_padded base64_chars bs \<and>
   h2o_base64_encode bs False = base64_encode bs \<and>
   h2o_base64_encode bs True = rfc4648 MAP_URL_ENCODED bs"
  by (simp_all add: base64_encode_def base64_loop_rfc h2o_base64_encode_def h2o_loop_rfc)

end
