(* ===== verification/CinSha1.thy ===== *)
theory CinSha1
  imports Prelude
begin

text \<open>
  SHA-1 of cinatra (\<open>sha1.hpp\<close>), with the streaming interface \<open>init\<close>, \<open>update\<close>, \<open>finish\<close>,
  and its equivalence with the definition of FIPS 180-4.
\<close>

section \<open>The code\<close>

definition rol :: "u32 \<Rightarrow> nat \<Rightarrow> u32" where
  "rol v bits = push_bit bits v OR drop_bit (32 - bits) v"

definition blk :: "u32 list \<Rightarrow> nat \<Rightarrow> u32" where
  "blk block i =
     rol (block ! ((i + 13) mod 16) XOR block ! ((i + 8) mod 16) XOR block ! ((i + 2) mod 16) XOR
          block ! i) 1"

text \<open>
  \<open>R0\<close> to \<open>R4\<close>: the reference parameters \<open>w\<close> and \<open>z\<close> and the array are returned. The index
  masks \<open>& 15\<close> are written \<open>mod 16\<close>.
\<close>

definition R0 :: "u32 list \<Rightarrow> u32 \<Rightarrow> u32 \<Rightarrow> u32 \<Rightarrow> u32 \<Rightarrow> u32 \<Rightarrow> nat \<Rightarrow> u32 list \<times> u32 \<times> u32" where
  "R0 block v w x y z i =
     (block, rol w 30,
      z + (((w AND (x XOR y)) XOR y) + block ! i + 0x5a827999 + rol v 5))"

definition R1 :: "u32 list \<Rightarrow> u32 \<Rightarrow> u32 \<Rightarrow> u32 \<Rightarrow> u32 \<Rightarrow> u32 \<Rightarrow> nat \<Rightarrow> u32 list \<times> u32 \<times> u32" where
  "R1 block v w x y z i =
     (let block = block[i := blk block i]
      in (block, rol w 30,
          z + (((w AND (x XOR y)) XOR y) + block ! i + 0x5a827999 + rol v 5)))"

definition R2 :: "u32 list \<Rightarrow> u32 \<Rightarrow> u32 \<Rightarrow> u32 \<Rightarrow> u32 \<Rightarrow> u32 \<Rightarrow> nat \<Rightarrow> u32 list \<times> u32 \<times> u32" where
  "R2 block v w x y z i =
     (let block = block[i := blk block i]
      in (block, rol w 30, z + ((w XOR x XOR y) + block ! i + 0x6ed9eba1 + rol v 5)))"

definition R3 :: "u32 list \<Rightarrow> u32 \<Rightarrow> u32 \<Rightarrow> u32 \<Rightarrow> u32 \<Rightarrow> u32 \<Rightarrow> nat \<Rightarrow> u32 list \<times> u32 \<times> u32" where
  "R3 block v w x y z i =
     (let block = block[i := blk block i]
      in (block, rol w 30,
          z + ((((w OR x) AND y) OR (w AND x)) + block ! i + 0x8f1bbcdc + rol v 5)))"

definition R4 :: "u32 list \<Rightarrow> u32 \<Rightarrow> u32 \<Rightarrow> u32 \<Rightarrow> u32 \<Rightarrow> u32 \<Rightarrow> nat \<Rightarrow> u32 list \<times> u32 \<times> u32" where
  "R4 block v w x y z i =
     (let block = block[i := blk block i]
      in (block, rol w 30, z + ((w XOR x XOR y) + block ! i + 0xca62c1d6 + rol v 5)))"

definition make_block :: "bytes \<Rightarrow> u32 list" where
  "make_block p = map (\<lambda>i. ucast (p ! (4 * i + 3)) OR push_bit 8 (ucast (p ! (4 * i + 2))) OR
     push_bit 16 (ucast (p ! (4 * i + 1))) OR push_bit 24 (ucast (p ! (4 * i + 0)))) [0..<16]"

text \<open>
  The eighty calls of \<open>transform\<close>. Call number \<open>t\<close> works on \<open>block[t mod 16]\<close>, and instead of
  moving the five variables the code passes them rotated by one place more each time:
  \<open>(a,b,c,d,e)\<close>, \<open>(e,a,b,c,d)\<close>, \<open>(d,e,a,b,c)\<close>, ...; \<open>variable t j\<close> is the \<open>j\<close>-th argument.
\<close>

definition round_function ::
  "nat \<Rightarrow> u32 list \<Rightarrow> u32 \<Rightarrow> u32 \<Rightarrow> u32 \<Rightarrow> u32 \<Rightarrow> u32 \<Rightarrow> nat \<Rightarrow> u32 list \<times> u32 \<times> u32" where
  "round_function t =
     (if t < 16 then R0 else if t < 20 then R1 else if t < 40 then R2 else if t < 60 then R3 else R4)"

definition variable :: "nat \<Rightarrow> nat \<Rightarrow> nat" where
  "variable t j = (j + 4 * t) mod 5"

definition round_call :: "nat \<Rightarrow> u32 list \<times> u32 list \<Rightarrow> u32 list \<times> u32 list" where
  "round_call t = (\<lambda>(block, vars).
     (case round_function t block (vars ! variable t 0) (vars ! variable t 1) (vars ! variable t 2)
             (vars ! variable t 3) (vars ! variable t 4) (t mod 16) of
        (block', w, z) \<Rightarrow> (block', vars[variable t 1 := w, variable t 4 := z])))"

definition transform :: "u32 list \<Rightarrow> u32 list \<Rightarrow> u32 list" where
  "transform digest block =
     (case fold round_call [0..<80] (block, digest) of (_, vars) \<Rightarrow> map2 (+) digest vars)"

record sha1_context =
  buflen :: nat
  blocks :: u64
  digest :: "u32 list"
  sha_buf :: bytes

text \<open>\<open>init\<close>; the array \<open>buf\<close> has any contents.\<close>

definition sha1_init :: "bytes \<Rightarrow> sha1_context" where
  "sha1_init garbage = \<lparr>buflen = 0, blocks = 0,
     digest = [0x67452301, 0xefcdab89, 0x98badcfe, 0x10325476, 0xc3d2e1f0], sha_buf = garbage\<rparr>"

function sha1_update :: "sha1_context \<Rightarrow> bytes \<Rightarrow> sha1_context" where
  "sha1_update ctx p =
     (let n = min (length p) (64 - buflen ctx);
          ctx = ctx\<lparr>sha_buf := take (buflen ctx) (sha_buf ctx) @ take n p @ drop (buflen ctx + n) (sha_buf ctx),
                    buflen := buflen ctx + n\<rparr>
      in if buflen ctx \<noteq> 64 then ctx
         else sha1_update
                (ctx\<lparr>buflen := 0, digest := transform (digest ctx) (make_block (sha_buf ctx)),
                     blocks := blocks ctx + 1\<rparr>)
                (drop n p))"
  by pat_completeness auto
termination
  by (relation "measure (\<lambda>(ctx, p). length p + buflen ctx)") (auto simp: min_def split: if_splits)

declare sha1_update.simps [simp del]

definition sha1_finish :: "sha1_context \<Rightarrow> bytes" where
  "sha1_finish ctx =
     (let total_bits = (blocks ctx * 64 + word_of_nat (buflen ctx)) * 8;
          len = buflen ctx + 1;
          bs = (sha_buf ctx)[buflen ctx := 0x80];
          block = make_block (take len bs @ replicate (64 - len) 0 @ drop 64 bs);
          (d, block) = (if len > 64 - 8 then (transform (digest ctx) block, replicate 14 0 @ [0, 0])
                        else (digest ctx, block));
          block = block[15 := ucast (total_bits AND 0xffffffff), 14 := ucast (drop_bit 32 total_bits)];
          d = transform d block
      in concat (map (\<lambda>h. [ucast (drop_bit 24 h AND 0xff), ucast (drop_bit 16 h AND 0xff),
                           ucast (drop_bit 8 h AND 0xff), ucast (h AND 0xff)]) d))"

section \<open>FIPS 180-4\<close>

definition Ch :: "u32 \<Rightarrow> u32 \<Rightarrow> u32 \<Rightarrow> u32" where
  "Ch x y z = (x AND y) XOR (NOT x AND z)"

definition Parity :: "u32 \<Rightarrow> u32 \<Rightarrow> u32 \<Rightarrow> u32" where
  "Parity x y z = x XOR y XOR z"

definition Maj :: "u32 \<Rightarrow> u32 \<Rightarrow> u32 \<Rightarrow> u32" where
  "Maj x y z = (x AND y) XOR (x AND z) XOR (y AND z)"

definition fips_f :: "nat \<Rightarrow> u32 \<Rightarrow> u32 \<Rightarrow> u32 \<Rightarrow> u32" where
  "fips_f t = (if t < 20 then Ch else if t < 40 then Parity else if t < 60 then Maj else Parity)"

definition fips_K :: "nat \<Rightarrow> u32" where
  "fips_K t = (if t < 20 then 0x5a827999 else if t < 40 then 0x6ed9eba1
     else if t < 60 then 0x8f1bbcdc else 0xca62c1d6)"

fun fips_W :: "u32 list \<Rightarrow> nat \<Rightarrow> u32" where
  "fips_W M t = (if t < 16 then M ! t
     else rol (fips_W M (t - 3) XOR fips_W M (t - 8) XOR fips_W M (t - 14) XOR fips_W M (t - 16)) 1)"

declare fips_W.simps [simp del]

type_synonym sha1_state = "u32 \<times> u32 \<times> u32 \<times> u32 \<times> u32"

definition fips_round :: "u32 list \<Rightarrow> nat \<Rightarrow> sha1_state \<Rightarrow> sha1_state" where
  "fips_round M t = (\<lambda>(a, b, c, d, e).
     (rol a 5 + fips_f t b c d + e + fips_K t + fips_W M t, a, rol b 30, c, d))"

definition fips_compress :: "sha1_state \<Rightarrow> u32 list \<Rightarrow> sha1_state" where
  "fips_compress H M =
     (case H of (h0, h1, h2, h3, h4) \<Rightarrow>
      case fold (fips_round M) [0..<80] H of (a, b, c, d, e) \<Rightarrow>
        (a + h0, b + h1, c + h2, d + h3, e + h4))"

text \<open>A block as sixteen big-endian words, and the message with its padding.\<close>

primrec fips_words :: "nat \<Rightarrow> bytes \<Rightarrow> u32 list" where
  "fips_words 0 bs = []"
| "fips_words (Suc n) bs = word_of_nat (be_nat (take 4 bs)) # fips_words n (drop 4 bs)"

function fips_blocks :: "sha1_state \<Rightarrow> bytes \<Rightarrow> sha1_state" where
  "fips_blocks H bs =
     (if length bs < 64 then H
      else fips_blocks (fips_compress H (fips_words 16 bs)) (drop 64 bs))"
  by pat_completeness auto
termination
  by (relation "measure (\<lambda>(H, bs). length bs)") auto

declare fips_blocks.simps [simp del]

definition fips_pad :: "bytes \<Rightarrow> bytes" where
  "fips_pad m = m @ [0x80] @ replicate ((119 - length m mod 64) mod 64) 0 @ be_bytes 8 (8 * length m)"

definition fips_H0 :: sha1_state where
  "fips_H0 = (0x67452301, 0xefcdab89, 0x98badcfe, 0x10325476, 0xc3d2e1f0)"

definition fips_sha1 :: "bytes \<Rightarrow> bytes" where
  "fips_sha1 m =
     (case fips_blocks fips_H0 (fips_pad m) of (h0, h1, h2, h3, h4) \<Rightarrow>
        concat (map (\<lambda>h. be_bytes 4 (unat h)) [h0, h1, h2, h3, h4]))"

section \<open>One round\<close>

lemma variable_Suc: "variable (Suc t) (Suc j) = variable t j" "variable (Suc t) 0 = variable t 4"
proof -
  have "Suc j + 4 * Suc t = (j + 4 * t) + 5" by simp
  then show "variable (Suc t) (Suc j) = variable t j"
    unfolding variable_def by (simp only: mod_add_self2)
  show "variable (Suc t) 0 = variable t 4" by (simp add: variable_def)
qed

lemma variable_lt [simp]: "variable t j < 5"
  by (simp add: variable_def)

lemma variable_distinct:
  "i < 5 \<Longrightarrow> j < 5 \<Longrightarrow> variable t i = variable t j \<longleftrightarrow> i = j"
  unfolding variable_def
proof
  assume ij: "i < 5" "j < 5" and eq: "(i + 4 * t) mod 5 = (j + 4 * t) mod 5"
  have "(i + 5 * t) mod 5 = (j + 5 * t) mod 5"
    using mod_add_cong [OF eq refl, of t] by (simp add: add.assoc)
  with ij show "i = j" by simp
qed simp

definition view :: "nat \<Rightarrow> u32 list \<Rightarrow> sha1_state" where
  "view t vars = (vars ! variable t 0, vars ! variable t 1, vars ! variable t 2,
     vars ! variable t 3, vars ! variable t 4)"

lemma view_step:
  assumes "length vars = 5"
  shows "view (Suc t) (vars[variable t 1 := w, variable t 4 := z]) =
    (z, vars ! variable t 0, w, vars ! variable t 2, vars ! variable t 3)"
proof -
  have "variable (Suc t) 1 = variable t 0" "variable (Suc t) 2 = variable t 1"
    "variable (Suc t) 3 = variable t 2" "variable (Suc t) 4 = variable t 3"
    using variable_Suc(1) [of t 0] variable_Suc(1) [of t 1] variable_Suc(1) [of t 2]
      variable_Suc(1) [of t 3]
    by (simp_all add: eval_nat_numeral)
  with assms show ?thesis
    by (simp add: view_def nth_list_update variable_distinct variable_Suc(2))
qed

text \<open>The three ways the code computes the functions of FIPS 180-4.\<close>

lemma Ch_eq: "(w AND (x XOR y)) XOR y = Ch w x y"
  by (rule bit_word_eqI) (auto simp: Ch_def bit_simps)

lemma Maj_eq: "((w OR x) AND y) OR (w AND x) = Maj w x y"
  by (rule bit_word_eqI) (auto simp: Maj_def bit_simps)

text \<open>The array holds the last sixteen words of the message schedule.\<close>

definition schedule :: "u32 list \<Rightarrow> nat \<Rightarrow> u32 list \<Rightarrow> bool" where
  "schedule M t block \<longleftrightarrow> length block = 16 \<and>
     (\<forall>s. s < max 16 t \<and> max 16 t \<le> s + 16 \<longrightarrow> block ! (s mod 16) = fips_W M s)"

lemma schedule_start: "length M = 16 \<Longrightarrow> schedule M 0 M"
  by (simp add: schedule_def fips_W.simps)

lemma schedule_early: "schedule M t block \<Longrightarrow> t < 16 \<Longrightarrow>
    schedule M (Suc t) block \<and> block ! (t mod 16) = fips_W M t"
  by (auto simp: schedule_def max_def)

lemma back_16: "c \<le> t \<Longrightarrow> c \<le> 16 \<Longrightarrow> (t mod 16 + (16 - c)) mod 16 = (t - c) mod (16 :: nat)"
proof -
  assume c: "c \<le> t" "c \<le> 16"
  have "(t mod 16 + (16 - c)) mod 16 = (t + (16 - c)) mod 16" by (rule mod_add_left_eq)
  also have "t + (16 - c) = (t - c) + 16" using c by simp
  also have "\<dots> mod 16 = (t - c) mod 16" by (rule mod_add_self2)
  finally show ?thesis .
qed

lemma schedule_blk:
  assumes s: "schedule M t block" and t: "16 \<le> t"
  shows "schedule M (Suc t) (block[t mod 16 := blk block (t mod 16)])"
    and "block[t mod 16 := blk block (t mod 16)] ! (t mod 16) = fips_W M t"
proof -
  have W: "block ! (s mod 16) = fips_W M s" if "s < t" "t \<le> s + 16" for s
    using s that t by (simp add: schedule_def)
  have i: "(t mod 16 + 13) mod 16 = (t - 3) mod 16" "(t mod 16 + 8) mod 16 = (t - 8) mod 16"
    "(t mod 16 + 2) mod 16 = (t - 14) mod 16"
    using back_16 [of 3 t] back_16 [of 8 t] back_16 [of 14 t] t by simp_all
  have i4: "t mod 16 = (t - 16) mod 16"
    using mod_add_self2 [of "t - 16" 16] t by (simp only: le_add_diff_inverse2)
  have W4: "block ! ((t - 3) mod 16) = fips_W M (t - 3)" "block ! ((t - 8) mod 16) = fips_W M (t - 8)"
    "block ! ((t - 14) mod 16) = fips_W M (t - 14)" "block ! ((t - 16) mod 16) = fips_W M (t - 16)"
    by (rule W; use t in simp)+
  have b16: "block ! (t mod 16) = fips_W M (t - 16)"
    using W4(4) i4 by argo
  have "blk block (t mod 16) = fips_W M t"
    using t by (simp only: blk_def i b16 W4 fips_W.simps [of M t] not_less [symmetric] if_False)
  moreover have len: "length block = 16" using s by (simp add: schedule_def)
  ultimately show at: "block[t mod 16 := blk block (t mod 16)] ! (t mod 16) = fips_W M t"
    by simp
  have ne: "t mod 16 \<noteq> s mod 16" if "s < t" "Suc t \<le> s + 16" for s
  proof
    assume "t mod 16 = s mod 16"
    then have "16 dvd t - s" using that mod_eq_dvd_iff_nat [of s t 16] by simp
    then have "16 \<le> t - s" using that by (intro dvd_imp_le) simp_all
    with that show False by simp
  qed
  show "schedule M (Suc t) (block[t mod 16 := blk block (t mod 16)])"
    unfolding schedule_def
  proof (intro conjI allI impI)
    show "length (block[t mod 16 := blk block (t mod 16)]) = 16" using len by simp
    fix s assume s: "s < max 16 (Suc t) \<and> max 16 (Suc t) \<le> s + 16"
    show "block[t mod 16 := blk block (t mod 16)] ! (s mod 16) = fips_W M s"
    proof (cases "s = t")
      case True
      with at show ?thesis by simp
    next
      case False
      with s t have "s < t" "Suc t \<le> s + 16" by auto
      then show ?thesis using W ne by simp
    qed
  qed
qed

text \<open>Each call of the code is one round of the standard.\<close>

lemma round_call_fips:
  assumes s: "schedule M t block" and l: "length vars = 5"
    and rc: "round_call t (block, vars) = (block', vars')"
  shows "schedule M (Suc t) block'" "length vars' = 5"
    "view (Suc t) vars' = fips_round M t (view t vars)"
proof -
  let ?v = "\<lambda>j. vars ! variable t j"
  have early: "schedule M (Suc t) block" "block ! (t mod 16) = fips_W M t" if "t < 16"
    using schedule_early [OF s that] by simp_all
  have late: "schedule M (Suc t) (block[t mod 16 := blk block (t mod 16)])"
    "block[t mod 16 := blk block (t mod 16)] ! (t mod 16) = fips_W M t" if "\<not> t < 16"
    using schedule_blk [OF s] that by simp_all
  have "\<exists>block'. round_function t block (?v 0) (?v 1) (?v 2) (?v 3) (?v 4) (t mod 16) =
      (block', rol (?v 1) 30,
       ?v 4 + (fips_f t (?v 1) (?v 2) (?v 3) + fips_W M t + fips_K t + rol (?v 0) 5)) \<and>
      schedule M (Suc t) block'"
    using early late
    by (auto simp: round_function_def R0_def R1_def R2_def R3_def R4_def fips_f_def fips_K_def
        Ch_eq Maj_eq Parity_def Let_def)
  then obtain b where b: "round_function t block (?v 0) (?v 1) (?v 2) (?v 3) (?v 4) (t mod 16) =
      (b, rol (?v 1) 30,
       ?v 4 + (fips_f t (?v 1) (?v 2) (?v 3) + fips_W M t + fips_K t + rol (?v 0) 5))"
      "schedule M (Suc t) b"
    by blast
  then have e: "block' = b" "vars' = vars[variable t 1 := rol (?v 1) 30, variable t 4 :=
      ?v 4 + (fips_f t (?v 1) (?v 2) (?v 3) + fips_W M t + fips_K t + rol (?v 0) 5)]"
    using rc by (simp_all add: round_call_def)
  show "schedule M (Suc t) block'" using b e by simp
  show "length vars' = 5" using e l by simp
  show "view (Suc t) vars' = fips_round M t (view t vars)"
    unfolding e view_step [OF l] by (simp add: fips_round_def view_def algebra_simps)
qed

lemma rounds:
  "schedule M 0 block \<Longrightarrow> length vars = 5 \<Longrightarrow>
   \<exists>block' vars'. fold round_call [0..<n] (block, vars) = (block', vars') \<and>
     schedule M n block' \<and> length vars' = 5 \<and>
     view n vars' = fold (fips_round M) [0..<n] (view 0 vars)"
proof (induction n)
  case 0
  then show ?case by simp
next
  case (Suc n)
  then obtain b v where bv: "fold round_call [0..<n] (block, vars) = (b, v)" "schedule M n b"
    "length v = 5" "view n v = fold (fips_round M) [0..<n] (view 0 vars)"
    by blast
  obtain b' v' where s: "round_call n (b, v) = (b', v')" by (cases "round_call n (b, v)")
  from round_call_fips [OF bv(2,3) s] bv(1,4) s show ?case by simp
qed

definition state_of :: "u32 list \<Rightarrow> sha1_state" where
  "state_of d = (d ! 0, d ! 1, d ! 2, d ! 3, d ! 4)"

lemma view_multiple: "view 0 d = state_of d" "view 80 d = state_of d"
  by (simp_all add: view_def state_of_def variable_def)

lemma list_5: "length d = 5 \<Longrightarrow> \<exists>a b c e f. d = [a, b, c, e, f]"
  by (auto simp: length_Suc_conv numeral_eq_Suc)

lemma transform_fips:
  assumes "length M = 16" "length d = 5"
  shows "state_of (transform d M) = fips_compress (state_of d) M \<and> length (transform d M) = 5"
proof -
  obtain b v where bv: "fold round_call [0..<80] (M, d) = (b, v)" "length v = 5"
    "view 80 v = fold (fips_round M) [0..<80] (view 0 d)"
    using rounds [OF schedule_start [OF assms(1)] assms(2), of 80] by blast
  note bv(1,2) bv(3) [symmetric]
  moreover obtain a0 a1 a2 a3 a4 where "d = [a0, a1, a2, a3, a4]" using list_5 [OF assms(2)] by blast
  moreover obtain c0 c1 c2 c3 c4 where "v = [c0, c1, c2, c3, c4]" using list_5 [OF bv(2)] by blast
  ultimately show ?thesis
    by (simp add: transform_def fips_compress_def state_of_def view_multiple add.commute
        del: upt_Suc split: prod.split)
qed

section \<open>Blocks of bytes\<close>

lemma be_nat_4: "be_nat [a, b, c, d] = unat d + 256 * (unat c + 256 * (unat b + 256 * unat a))"
  by (simp add: be_nat_def)

lemma or_shift: "n \<le> k \<Longrightarrow> (\<And>i. bit x i \<Longrightarrow> i < n) \<Longrightarrow> x OR push_bit k y = x + push_bit k (y :: u32)"
  by (rule disjunctive_add [symmetric]) (force simp: bit_simps)

lemma word_of_bytes:
  "ucast d OR push_bit 8 (ucast c) OR push_bit 16 (ucast b) OR push_bit 24 (ucast a) =
     (word_of_nat (be_nat [a, b, c, d]) :: u32)" for a b c d :: byte
proof -
  have 1: "ucast d OR push_bit 8 (ucast c) = ucast d + push_bit 8 (ucast c :: u32)"
    by (rule or_shift [where n = 8]) (auto simp: bit_simps dest: bit_imp_le_length)
  have 2: "(ucast d OR push_bit 8 (ucast c)) OR push_bit 16 (ucast b) =
      (ucast d OR push_bit 8 (ucast c)) + push_bit 16 (ucast b :: u32)"
    by (rule or_shift [where n = 16]) (auto simp: bit_simps dest: bit_imp_le_length)
  have 3: "((ucast d OR push_bit 8 (ucast c)) OR push_bit 16 (ucast b)) OR push_bit 24 (ucast a) =
      ((ucast d OR push_bit 8 (ucast c)) OR push_bit 16 (ucast b)) + push_bit 24 (ucast a :: u32)"
    by (rule or_shift [where n = 24]) (auto simp: bit_simps dest: bit_imp_le_length)
  have u: "word_of_nat (unat x) = (ucast x :: u32)" for x :: byte
    by simp
  show ?thesis
    unfolding or.assoc [symmetric] unfolding 3 unfolding 2 unfolding 1
    by (simp add: be_nat_4 u push_bit_eq_mult algebra_simps)
qed

lemma take_4_drop: "i + 4 \<le> length p \<Longrightarrow> take 4 (drop i p) = [p ! i, p ! (i + 1), p ! (i + 2), p ! (i + 3)]"
  by (auto simp: list_eq_iff_nth_eq less_Suc_eq numeral_eq_Suc)

lemma fips_words_nth: "i < n \<Longrightarrow> fips_words n bs ! i = word_of_nat (be_nat (take 4 (drop (4 * i) bs)))"
proof (induction n arbitrary: i bs)
  case (Suc n)
  then show ?case by (cases i) (simp_all add: add.commute)
qed simp

lemma length_fips_words [simp]: "length (fips_words n bs) = n"
  by (induction n arbitrary: bs) simp_all

lemma length_make_block [simp]: "length (make_block p) = 16"
  by (simp add: make_block_def)

lemma make_block_fips: "length p = 64 \<Longrightarrow> make_block p = fips_words 16 p"
  by (rule nth_equalityI)
    (simp_all add: make_block_def fips_words_nth take_4_drop word_of_bytes add.commute del: upt_Suc)

lemma fips_blocks_append:
  "length bs mod 64 = 0 \<Longrightarrow> fips_blocks H (bs @ cs) = fips_blocks (fips_blocks H bs) cs"
proof (induction H bs rule: fips_blocks.induct)
  case (1 H bs)
  show ?case
  proof (cases "length bs < 64")
    case True
    then show ?thesis using "1.prems" by (simp add: fips_blocks.simps [of H])
  next
    case False
    have w: "fips_words n (bs @ cs) = fips_words n bs" if "4 * n \<le> length bs" for n bs
      using that
    proof (induction n arbitrary: bs)
      case (Suc n)
      then have "4 \<le> length bs" by simp
      with Suc show ?case by simp
    qed simp
    have "length (drop 64 bs) mod 64 = 0" using "1.prems" False by (simp add: mod_if [of "length bs"])
    with 1 False show ?thesis
      by (simp add: fips_blocks.simps [of H] w)
  qed
qed

lemma fips_blocks_short [simp]: "length bs < 64 \<Longrightarrow> fips_blocks H bs = H"
  by (simp add: fips_blocks.simps)

lemma fips_blocks_one: "length bs = 64 \<Longrightarrow> fips_blocks H bs = fips_compress H (fips_words 16 bs)"
  by (simp add: fips_blocks.simps [of H])

section \<open>Streaming\<close>

text \<open>The context has absorbed the message \<open>m\<close>: whole blocks in the digest, the rest in \<open>buf\<close>.\<close>

definition absorbed :: "sha1_context \<Rightarrow> bytes \<Rightarrow> bool" where
  "absorbed ctx m \<longleftrightarrow> (\<exists>m1 k. m = m1 @ take (buflen ctx) (sha_buf ctx) \<and> length m1 = 64 * k \<and>
     buflen ctx < 64 \<and> length (sha_buf ctx) = 64 \<and> blocks ctx = word_of_nat k \<and>
     length (digest ctx) = 5 \<and> state_of (digest ctx) = fips_blocks fips_H0 m1)"

lemma absorbed_init: "length garbage = 64 \<Longrightarrow> absorbed (sha1_init garbage) []"
  by (simp add: absorbed_def sha1_init_def state_of_def fips_H0_def)

lemma absorbed_update: "absorbed ctx m \<Longrightarrow> absorbed (sha1_update ctx p) (m @ p)"
proof (induction ctx p arbitrary: m rule: sha1_update.induct)
  case (1 ctx p)
  obtain m1 k where m: "m = m1 @ take (buflen ctx) (sha_buf ctx)" "length m1 = 64 * k"
    "buflen ctx < 64" "length (sha_buf ctx) = 64" "blocks ctx = word_of_nat k"
    "length (digest ctx) = 5" "state_of (digest ctx) = fips_blocks fips_H0 m1"
    using "1.prems" by (auto simp: absorbed_def)
  define n where "n = min (length p) (64 - buflen ctx)"
  define b where "b = take (buflen ctx) (sha_buf ctx) @ take n p @ drop (buflen ctx + n) (sha_buf ctx)"
  have n: "n \<le> length p" "buflen ctx + n \<le> 64" using m(3) by (simp_all add: n_def)
  have b: "length b = 64" "take (buflen ctx + n) b = take (buflen ctx) (sha_buf ctx) @ take n p"
    using m n by (simp_all add: b_def)
  let ?c = "ctx\<lparr>sha_buf := b, buflen := buflen ctx + n\<rparr>"
  show ?case
  proof (cases "buflen ctx + n = 64")
    case False
    then have "n = length p" using m(3) by (simp add: n_def min_def split: if_splits)
    moreover have "sha1_update ctx p = ?c"
      using False by (subst sha1_update.simps) (simp add: Let_def n_def [symmetric] b_def)
    ultimately show ?thesis
      using m b False n by (auto simp: absorbed_def intro!: exI [of _ m1] exI [of _ k])
  next
    case True
    let ?d = "ctx\<lparr>sha_buf := b, buflen := 0, digest := transform (digest ctx) (make_block b),
      blocks := blocks ctx + 1\<rparr>"
    let ?m1 = "m1 @ b"
    have full: "b = take (buflen ctx) (sha_buf ctx) @ take n p" using b True by simp
    have "fips_blocks fips_H0 ?m1 = fips_compress (state_of (digest ctx)) (fips_words 16 b)"
      using m b by (simp add: fips_blocks_append fips_blocks_one)
    then have "absorbed ?d (m @ take n p)"
      using m b full transform_fips [of "make_block b" "digest ctx"]
      by (auto simp: absorbed_def make_block_fips intro!: exI [of _ ?m1] exI [of _ "Suc k"])
    then have "absorbed (sha1_update ?d (drop n p)) ((m @ take n p) @ drop n p)"
      using "1.IH" [OF n_def refl, of "m @ take n p"] True
      by (simp add: b_def)
    moreover have "sha1_update ctx p = sha1_update ?d (drop n p)"
      using True by (subst sha1_update.simps) (simp add: Let_def n_def [symmetric] b_def)
    ultimately show ?thesis by simp
  qed
qed

section \<open>The padding\<close>

lemma le_bytes_add: "le_bytes (m + n) v = le_bytes m v @ le_bytes n (v div 256 ^ m)"
  by (induction m arbitrary: v) (simp_all add: div_mult2_eq)

lemma be_bytes_8: "be_bytes 8 v = be_bytes 4 (v div 4294967296) @ be_bytes 4 v"
  using le_bytes_add [of 4 4 v] by (simp add: be_bytes_def)

lemma word_be_bytes: "word_of_nat (be_nat (be_bytes 4 v)) = (word_of_nat v :: u32)"
proof -
  have "be_nat (be_bytes 4 v) = v mod 4294967296"
    by (simp add: be_nat_def be_bytes_def le_nat_le_bytes)
  then show ?thesis
    by (simp add: word_unat_eq_iff unat_of_nat)
qed

lemma pad_words:
  assumes "length xs = 56"
  shows "(make_block (xs @ replicate 8 0))
      [15 := ucast ((word_of_nat v :: u64) AND 0xffffffff),
       14 := ucast (drop_bit 32 (word_of_nat v :: u64))] =
    fips_words 16 (xs @ be_bytes 8 v)"
proof (rule nth_equalityI)
  fix i assume "i < length ((make_block (xs @ replicate 8 0))
      [15 := ucast ((word_of_nat v :: u64) AND 0xffffffff),
       14 := ucast (drop_bit 32 (word_of_nat v :: u64))])"
  then consider "i < 14" | "i = 14" | "i = 15" by force
  then show "(make_block (xs @ replicate 8 0))
      [15 := ucast ((word_of_nat v :: u64) AND 0xffffffff),
       14 := ucast (drop_bit 32 (word_of_nat v :: u64))] ! i =
    fips_words 16 (xs @ be_bytes 8 v) ! i"
  proof cases
    case 1
    then show ?thesis
      using assms by (simp add: make_block_fips fips_words_nth)
  next
    case 2
    have "unat (word_of_nat v :: u64) div 4294967296 mod 4294967296 = v div 4294967296 mod 4294967296"
      using mod_mult2_eq [of v 4294967296 4294967296] by (simp add: unat_of_nat)
    then have "(ucast (drop_bit 32 (word_of_nat v :: u64)) :: u32) = word_of_nat (v div 4294967296)"
      by (simp add: word_unat_eq_iff unsigned_ucast_eq take_bit_eq_mod unat_drop_bit_div unat_of_nat)
    with 2 assms show ?thesis
      by (simp add: make_block_fips fips_words_nth be_bytes_8 word_be_bytes)
  next
    case 3
    have "(ucast ((word_of_nat v :: u64) AND 0xffffffff) :: u32) = word_of_nat v"
    proof -
      have "(word_of_nat v :: u64) AND 0xffffffff = word_of_nat v AND mask 32"
        by (simp add: mask_eq_exp_minus_1)
      moreover have "v mod 18446744073709551616 mod 4294967296 = v mod 4294967296"
        by (simp add: mod_mod_cancel)
      ultimately show ?thesis
        by (simp only: word_unat_eq_iff unsigned_ucast_eq take_bit_eq_mod unat_and_mask_mod)
          (simp add: unat_of_nat)
    qed
    with 3 assms show ?thesis
      by (simp add: make_block_fips fips_words_nth be_bytes_8 word_be_bytes)
  qed
qed simp

text \<open>The bytes of a hash value.\<close>

lemma ucast_low: "ucast (h AND 0xff :: u32) = (word_of_nat (unat h) :: byte)"
proof -
  have "h AND 0xff = h AND mask 8" by (simp add: mask_eq_exp_minus_1)
  then show ?thesis
    by (simp only: word_unat_eq_iff unsigned_ucast_eq take_bit_eq_mod unat_and_mask_mod
        unat_byte_of_nat) simp
qed

lemma hash_bytes:
  "[ucast (drop_bit 24 h AND 0xff), ucast (drop_bit 16 h AND 0xff),
    ucast (drop_bit 8 h AND 0xff), ucast (h AND 0xff)] = be_bytes 4 (unat (h :: u32))"
proof -
  have 4: "(4 :: nat) = Suc (Suc (Suc (Suc 0)))" by simp
  have "be_bytes 4 v = [word_of_nat (v div 16777216), word_of_nat (v div 65536),
      word_of_nat (v div 256), word_of_nat v]" for v
    unfolding be_bytes_def 4 by (simp add: div_mult2_eq [symmetric])
  then show ?thesis unfolding ucast_low unat_drop_bit_div by simp
qed

lemma mod_64: "(64 * k + n) mod 64 = (n mod 64 :: nat)"
  by simp

lemma absorbed_finish:
  assumes "absorbed ctx m"
  shows "sha1_finish ctx = fips_sha1 m"
proof -
  obtain m1 k where m: "m = m1 @ take (buflen ctx) (sha_buf ctx)" "length m1 = 64 * k"
    "buflen ctx < 64" "length (sha_buf ctx) = 64" "blocks ctx = word_of_nat k"
    "length (digest ctx) = 5" "state_of (digest ctx) = fips_blocks fips_H0 m1"
    using assms by (auto simp: absorbed_def)
  define l where "l = buflen ctx"
  define r where "r = take l (sha_buf ctx) @ [0x80]"
  have r: "length r = l + 1" "l < 64" using m by (simp_all add: r_def l_def)
  have len: "length m = 64 * k + l" using m by (simp add: l_def)
  have bits: "(blocks ctx * 64 + word_of_nat l) * 8 = (word_of_nat (8 * length m) :: u64)"
    unfolding len m(5) by (simp add: algebra_simps)
  have front: "take (l + 1) ((sha_buf ctx)[l := 0x80]) = r"
    using m by (simp add: r_def l_def take_Suc_conv_app_nth)
  have pad: "fips_pad m = m1 @ r @ replicate ((119 - l) mod 64) 0 @ be_bytes 8 (8 * length m)"
    using m r len by (simp add: fips_pad_def r_def l_def)
  define d where "d = (if l < 56 then digest ctx
    else transform (digest ctx) (make_block (r @ replicate (63 - l) 0)))"
  define w where "w = (if l < 56 then r @ replicate (55 - l) 0 else replicate 56 0)"
  have w: "length w = 56" using r by (simp add: w_def)
  have out: "state_of (transform d (fips_words 16 (w @ be_bytes 8 (8 * length m)))) =
      fips_blocks fips_H0 (fips_pad m) \<and> length (transform d (fips_words 16 (w @ be_bytes 8 (8 * length m)))) = 5"
  proof (cases "l < 56")
    case True
    then have "(119 - l) mod 64 = 55 - l"
      using mod_64 [of 1 "55 - l"] by simp
    then have "fips_pad m = m1 @ (w @ be_bytes 8 (8 * length m))"
      unfolding pad w_def using True by simp
    then show ?thesis
      using True m w transform_fips [of "fips_words 16 (w @ be_bytes 8 (8 * length m))" "digest ctx"]
      by (simp add: d_def fips_blocks_append fips_blocks_one)
  next
    case False
    have "replicate (119 - l) (0 :: byte) = replicate (63 - l) 0 @ w"
      using False r by (simp add: w_def replicate_add [symmetric])
    then have "fips_pad m = m1 @ (r @ replicate (63 - l) 0) @ (w @ be_bytes 8 (8 * length m))"
      unfolding pad using False r by simp
    moreover have "length (r @ replicate (63 - l) 0) = 64" using r by simp
    ultimately show ?thesis
      using False m w transform_fips [of "fips_words 16 (w @ be_bytes 8 (8 * length m))" d]
        transform_fips [of "make_block (r @ replicate (63 - l) 0)" "digest ctx"]
      by (simp add: d_def fips_blocks_append fips_blocks_one make_block_fips
          del: append_assoc replicate_add)
  qed
  have "sha1_finish ctx =
      concat (map (\<lambda>h. be_bytes 4 (unat h)) (transform d (fips_words 16 (w @ be_bytes 8 (8 * length m)))))"
  proof (cases "l < 56")
    case True
    have "replicate (64 - (l + 1)) (0 :: byte) = replicate (55 - l) 0 @ replicate 8 0"
      using True by (simp add: replicate_add [symmetric])
    then have "r @ replicate (64 - (l + 1)) 0 = w @ replicate 8 0" using True by (simp add: w_def)
    then show ?thesis
      using True m r pad_words [OF w, of "8 * length m"]
      unfolding sha1_finish_def Let_def l_def [symmetric] bits front hash_bytes
      by (simp add: d_def)
  next
    case False
    have z: "replicate 14 0 @ [0, 0] = make_block (w @ replicate 8 0)"
    proof -
      have "replicate 14 0 @ [0, 0 :: u32] = replicate 16 0"
        using replicate_add [of 14 2 "0 :: u32"] by (simp add: numeral_2_eq_2)
      also have "\<dots> = make_block (replicate 64 0)"
        by (rule nth_equalityI) (simp_all add: make_block_def del: upt_Suc)
      finally show ?thesis using False by (simp add: w_def replicate_add [symmetric])
    qed
    show ?thesis
      using False m r pad_words [OF w, of "8 * length m"]
      unfolding sha1_finish_def Let_def l_def [symmetric] bits front hash_bytes z
      by (simp add: d_def)
  qed
  then show ?thesis
    using out list_5 [of "transform d (fips_words 16 (w @ be_bytes 8 (8 * length m)))"]
    by (auto simp: fips_sha1_def state_of_def split: prod.split)
qed

text \<open>
  C9 (equivalence). \<open>init\<close>, \<open>update\<close> with a message in pieces of any sizes and \<open>finish\<close> give the
  SHA-1 value of FIPS 180-4 of the whole message, whatever the uninitialised array held.
\<close>
theorem sha1_is_fips180:
  assumes "length garbage = 64"
  shows "sha1_finish (fold (\<lambda>p ctx. sha1_update ctx p) pieces (sha1_init garbage)) =
    fips_sha1 (concat pieces)"
proof -
  have "absorbed ctx m \<Longrightarrow>
      absorbed (fold (\<lambda>p ctx. sha1_update ctx p) pieces ctx) (m @ concat pieces)" for ctx m
  proof (induction pieces arbitrary: ctx m)
    case (Cons p pieces)
    from Cons.IH [OF absorbed_update [OF Cons.prems, of p]] show ?case by simp
  qed simp
  from absorbed_finish [OF this [OF absorbed_init [OF assms]]] show ?thesis by simp
qed

text \<open>A message of two pieces.\<close>

lemma sha1_is_fips180_witness:
  "sha1_finish (sha1_update (sha1_update (sha1_init (replicate 64 7)) [0x61]) [0x62, 0x63]) =
     fips_sha1 [0x61, 0x62, 0x63]"
  using sha1_is_fips180 [of "replicate 64 7" "[[0x61], [0x62, 0x63]]"] by simp

end
