(* ===== verification/CinUrl.thy ===== *)
theory CinUrl
  imports Prelude
begin

text \<open>
  Percent encoding of cinatra (\<open>url_encode_decode.hpp\<close>), on the bytes of a string: a \<open>char\<close> is
  a byte whose comparisons are signed (\<open>sint\<close>).
\<close>

section \<open>The code\<close>

definition char_between :: "byte \<Rightarrow> byte \<Rightarrow> byte \<Rightarrow> bool" where
  "char_between lo hi chr \<longleftrightarrow> sint lo \<le> sint chr \<and> sint chr \<le> sint hi"

definition url_safe :: "byte \<Rightarrow> bool" where
  "url_safe chr \<longleftrightarrow> char_between 0x30 0x39 chr \<or> char_between 0x41 0x5a chr \<or>
     char_between 0x61 0x7a chr \<or> chr = 0x2d \<or> chr = 0x2e \<or> chr = 0x5f \<or> chr = 0x7e"

definition hex_chars :: bytes where
  "hex_chars = [0x30, 0x31, 0x32, 0x33, 0x34, 0x35, 0x36, 0x37, 0x38, 0x39,
     0x41, 0x42, 0x43, 0x44, 0x45, 0x46]"

primrec url_encode :: "bytes \<Rightarrow> bytes" where
  "url_encode [] = []"
| "url_encode (chr # value) =
     (if \<not> url_safe chr
      then [0x25, hex_chars ! unat (drop_bit 4 chr), hex_chars ! unat (chr AND 15)]
      else [chr]) @ url_encode value"

definition toupper :: "byte \<Rightarrow> byte" where
  "toupper c = (if char_between 0x61 0x7a c then c - 32 else c)"

text \<open>\<open>std::find(hex, hex + 16, c) - hex\<close>\<close>

primrec find_index :: "'a \<Rightarrow> 'a list \<Rightarrow> nat" where
  "find_index x [] = 0"
| "find_index x (y # ys) = (if y = x then 0 else Suc (find_index x ys))"

definition hex_index :: "byte \<Rightarrow> nat" where
  "hex_index c = find_index (toupper c) hex_chars"

fun url_decode :: "bytes \<Rightarrow> bytes" where
  "url_decode [] = []"
| "url_decode (ch # str) =
     (if ch = 0x25 then
        (case str of
           h # l # str' \<Rightarrow>
             if hex_index h \<ge> 16 \<or> hex_index l \<ge> 16 then [0x3f]
             else word_of_nat (push_bit 4 (hex_index h) + hex_index l) # url_decode str'
         | _ \<Rightarrow> [0x3f])
      else if ch = 0x2b then 0x20 # url_decode str
      else ch # url_decode str)"

section \<open>Properties\<close>

lemma hex_digits: "map hex_index hex_chars = [0..<16]"
  by code_simp

lemma length_hex_chars [simp]: "length hex_chars = 16"
  by (simp add: hex_chars_def)

lemma hex_digit: "n < 16 \<Longrightarrow> hex_index (hex_chars ! n) = n"
  using arg_cong [OF hex_digits, of "\<lambda>xs. xs ! n"] by simp

lemma nibbles: "word_of_nat (push_bit 4 (unat (drop_bit 4 b)) + unat (b AND 15)) = (b :: byte)"
proof -
  have "unat (b AND 15) = unat b mod 16"
    using unat_and_mask_mod [of b 4] by (simp add: mask_eq_exp_minus_1)
  then have "push_bit 4 (unat (drop_bit 4 b)) + unat (b AND 15) = unat b"
    by (simp add: unat_drop_bit_div push_bit_eq_mult)
  then show ?thesis by simp
qed

lemma nibble_lt: "unat (drop_bit 4 (b :: byte)) < 16" "unat (b AND 15) < 16"
proof -
  show "unat (drop_bit 4 b) < 16"
    using unat_byte_lt [of b] by (simp add: unat_drop_bit_div less_mult_imp_div_less)
  have "unat (b AND 15) = unat b mod 16"
    using unat_and_mask_mod [of b 4] by (simp add: mask_eq_exp_minus_1)
  then show "unat (b AND 15) < 16" by simp
qed

lemma url_safe_plain: "url_safe chr \<Longrightarrow> chr \<noteq> 0x25 \<and> chr \<noteq> 0x2b"
  by (auto simp: url_safe_def char_between_def)

lemma url_decode_encode_append: "url_decode (url_encode value @ str) = value @ url_decode str"
  using nibble_lt
  by (induction "value")
    (simp_all add: hex_digit nibbles url_safe_plain not_le [symmetric] del: of_nat_add)

text \<open>
  \<open>url_decode\<close> inverts \<open>url_encode\<close> on every byte string, and the encoded text
  uses only the unreserved characters of RFC 3986, the percent sign and upper-case hexadecimal
  digits, so that none of it is mistaken for \<open>+\<close> or a separator.
\<close>
theorem url_roundtrip:
  "url_decode (url_encode value) = value \<and>
   set (url_encode value) \<subseteq> {c. url_safe c} \<union> {0x25}"
proof
  show "url_decode (url_encode value) = value"
    using url_decode_encode_append [of "value" "[]"] by simp
  have "url_safe (hex_chars ! n)" if "n < 16" for n
  proof -
    have "hex_chars ! n \<in> set hex_chars" using that by (intro nth_mem) simp
    then show ?thesis by (auto simp: hex_chars_def url_safe_def char_between_def)
  qed
  then show "set (url_encode value) \<subseteq> {c. url_safe c} \<union> {0x25}"
    by (induction "value") (auto simp: nibble_lt)
qed

text \<open>
  A percent sign that is not followed by two hexadecimal digits ends the decoding:
  what precedes it is decoded, a question mark stands for it, and the rest of the text is lost.
\<close>
theorem url_decode_malformed:
  assumes "length str < 2 \<or> hex_index (str ! 0) \<ge> 16 \<or> hex_index (str ! 1) \<ge> 16"
  shows "url_decode (url_encode value @ 0x25 # str) = value @ [0x3f]"
proof -
  have "url_decode (0x25 # str) = [0x3f]"
    using assms by (auto split: list.splits)
  then show ?thesis by (simp only: url_decode_encode_append)
qed

text \<open>The text \<open>a%zz=1\<close>.\<close>

lemma url_decode_malformed_witness:
  "url_decode [0x61, 0x25, 0x7a, 0x7a, 0x3d, 0x31] = [0x61, 0x3f]"
proof -
  have "url_encode [0x61] = [0x61]" by (simp add: url_safe_def char_between_def)
  then show ?thesis
    using url_decode_malformed [of "[0x7a, 0x7a, 0x3d, 0x31]" "[0x61]"]
    by (simp add: hex_index_def hex_chars_def toupper_def char_between_def)
qed

end
