(* ===== verification/CinUtf8.thy ===== *)
theory CinUtf8
  imports Prelude
begin

text \<open>
  \<open>is_valid_utf8\<close> of \<open>cinatra/utils.hpp\<close>, the check of the text in a WebSocket close frame, and
  its equivalence with the definition of UTF-8 in RFC 3629: the accepted byte strings are the
  encodings of the sequences of Unicode scalar values.
\<close>

section \<open>The code\<close>

text \<open>The inner loop \<open>while (!(*s & 0x80)) if (++s == e) return true;\<close>: \<open>[]\<close> stands for \<open>s == e\<close>.\<close>

primrec skip_ascii :: "bytes \<Rightarrow> bytes" where
  "skip_ascii [] = []"
| "skip_ascii (b # s) = (if b AND 0x80 = 0 then skip_ascii s else b # s)"

text \<open>\<open>*(uint32_t *)s\<close> on a little-endian machine.\<close>

definition load_u32 :: "bytes \<Rightarrow> u32" where
  "load_u32 s = word_of_nat (le_nat (take 4 s))"

lemma length_skip_ascii: "length (skip_ascii s) \<le> length s"
  by (induction s) simp_all

function is_valid_utf8 :: "bytes \<Rightarrow> bool" where
  "is_valid_utf8 s =
     (if s = [] then True
      else if 4 \<le> length s \<and> load_u32 s AND 0x80808080 = 0 then is_valid_utf8 (drop 4 s)
      else
        let s = skip_ascii s in
        if s = [] then True
        else if s ! 0 AND 0x60 = 0x40 then
          (if 1 \<ge> length s \<or> s ! 1 AND 0xc0 \<noteq> 0x80 \<or> s ! 0 AND 0xfe = 0xc0 then False
           else is_valid_utf8 (drop 2 s))
        else if s ! 0 AND 0xf0 = 0xe0 then
          (if 2 \<ge> length s \<or> s ! 1 AND 0xc0 \<noteq> 0x80 \<or> s ! 2 AND 0xc0 \<noteq> 0x80 \<or>
              (s ! 0 = 0xe0 \<and> s ! 1 AND 0xe0 = 0x80) \<or> (s ! 0 = 0xed \<and> s ! 1 AND 0xe0 = 0xa0)
           then False else is_valid_utf8 (drop 3 s))
        else if s ! 0 AND 0xf8 = 0xf0 then
          (if 3 \<ge> length s \<or> s ! 1 AND 0xc0 \<noteq> 0x80 \<or> s ! 2 AND 0xc0 \<noteq> 0x80 \<or>
              s ! 3 AND 0xc0 \<noteq> 0x80 \<or> (s ! 0 = 0xf0 \<and> s ! 1 AND 0xf0 = 0x80) \<or>
              (s ! 0 = 0xf4 \<and> s ! 1 > 0x8f) \<or> s ! 0 > 0xf4
           then False else is_valid_utf8 (drop 4 s))
        else False)"
  by pat_completeness auto
termination
proof (relation "measure length", goal_cases)
  case 1
  show ?case by simp
next
  case (2 s)
  then show ?case by simp
next
  case (3 s x)
  then show ?case using length_skip_ascii [of s] by (cases s) (auto simp: Let_def)
next
  case (4 s x)
  then show ?case using length_skip_ascii [of s] by (cases s) (auto simp: Let_def)
next
  case (5 s x)
  then show ?case using length_skip_ascii [of s] by (cases s) (auto simp: Let_def)
qed

declare is_valid_utf8.simps [simp del]

section \<open>UTF-8\<close>

text \<open>Unicode scalar values and their encodings (RFC 3629, section 3).\<close>

definition scalar_value :: "nat \<Rightarrow> bool" where
  "scalar_value n \<longleftrightarrow> n < 0xD800 \<or> (0xE000 \<le> n \<and> n \<le> 0x10FFFF)"

definition utf8_tail :: "nat \<Rightarrow> byte" where
  "utf8_tail n = word_of_nat (0x80 + n mod 64)"

definition utf8_encode :: "nat \<Rightarrow> bytes" where
  "utf8_encode n =
     (if n < 0x80 then [word_of_nat n]
      else if n < 0x800 then [word_of_nat (0xC0 + n div 64), utf8_tail n]
      else if n < 0x10000 then [word_of_nat (0xE0 + n div 4096), utf8_tail (n div 64), utf8_tail n]
      else [word_of_nat (0xF0 + n div 262144), utf8_tail (n div 4096), utf8_tail (n div 64),
            utf8_tail n])"

section \<open>The same check, one character at a time\<close>

definition tail_byte :: "nat \<Rightarrow> bool" where
  "tail_byte b \<longleftrightarrow> 0x80 \<le> b \<and> b < 0xC0"

fun utf8_ok :: "nat list \<Rightarrow> bool" where
  "utf8_ok [] = True"
| "utf8_ok (a # s) =
     (if a < 0x80 then utf8_ok s
      else if a < 0xC2 then False
      else if a < 0xE0 then (case s of b # s' \<Rightarrow> tail_byte b \<and> utf8_ok s' | _ \<Rightarrow> False)
      else if a < 0xF0 then
        (case s of b # c # s' \<Rightarrow> tail_byte b \<and> tail_byte c \<and> \<not> (a = 0xE0 \<and> b < 0xA0) \<and>
           \<not> (a = 0xED \<and> 0xA0 \<le> b) \<and> utf8_ok s' | _ \<Rightarrow> False)
      else if a < 0xF5 then
        (case s of b # c # d # s' \<Rightarrow> tail_byte b \<and> tail_byte c \<and> tail_byte d \<and>
           \<not> (a = 0xF0 \<and> b < 0x90) \<and> \<not> (a = 0xF4 \<and> 0x90 \<le> b) \<and> utf8_ok s' | _ \<Rightarrow> False)
      else False)"

text \<open>The bit tests, as ranges of the byte's value.\<close>

lemma unat_high_mask: "unat (b AND NOT (mask k) :: byte) = unat b div 2 ^ k * 2 ^ k"
proof -
  have "b AND NOT (mask k) = push_bit k (drop_bit k b)"
    by (rule bit_word_eqI) (auto simp: bit_simps)
  moreover have "unat b div 2 ^ k * 2 ^ k < 256"
    by (rule le_less_trans [OF div_times_less_eq_dividend]) simp
  ultimately show ?thesis
    by (simp only: unsigned_push_bit_eq unat_drop_bit_div)
      (simp add: push_bit_eq_mult take_bit_eq_mod)
qed

lemma high_masks: "(0x80 :: byte) = NOT (mask 7)" "(0xc0 :: byte) = NOT (mask 6)"
  "(0xe0 :: byte) = NOT (mask 5)" "(0xf0 :: byte) = NOT (mask 4)" "(0xf8 :: byte) = NOT (mask 3)"
  "(0xfe :: byte) = NOT (mask 1)" "(0x60 :: byte) = NOT (mask 5) AND mask 7"
  by (simp_all add: mask_eq_exp_minus_1)

lemma unat_middle_mask:
  "unat (b AND (NOT (mask 5) AND mask 7) :: byte) = unat b div 32 * 32 mod 128"
  using unat_and_mask_mod [of "b AND NOT (mask 5)" 7] by (simp add: unat_high_mask and.assoc)

lemma div_range: "0 < k \<Longrightarrow> (n div k * k = q * k) = (q * k \<le> n \<and> n < q * k + k)" for n k q :: nat
  by (auto simp: dividend_less_div_times mult.commute [of k] intro!: div_nat_eqI)
    (metis dividend_less_div_times add.commute)

lemma byte_masks:
  fixes b :: byte
  shows "(b AND 0x80 = 0) = (unat b < 0x80)"
    and "(b AND 0x60 = 0x40) = (unat b div 32 mod 4 = 2)"
    and "(b AND 0xc0 = 0x80) = tail_byte (unat b)"
    and "(b AND 0xfe = 0xc0) = (unat b = 0xC0 \<or> unat b = 0xC1)"
    and "(b AND 0xf0 = 0xe0) = (0xE0 \<le> unat b \<and> unat b < 0xF0)"
    and "(b AND 0xf8 = 0xf0) = (0xF0 \<le> unat b \<and> unat b < 0xF8)"
    and "(b AND 0xe0 = 0x80) = (0x80 \<le> unat b \<and> unat b < 0xA0)"
    and "(b AND 0xe0 = 0xa0) = (0xA0 \<le> unat b \<and> unat b < 0xC0)"
    and "(b AND 0xf0 = 0x80) = (0x80 \<le> unat b \<and> unat b < 0x90)"
proof -
  have m: "(b AND m = x) = (unat (b AND m) = unat x)" for m x :: byte
    by (simp add: word_unat_eq_iff)
  note lt = unat_byte_lt [of b]
  show "(b AND 0x80 = 0) = (unat b < 0x80)"
    unfolding m unfolding high_masks(1) unat_high_mask using div_range [of 128 "unat b" 0] lt by auto
  show "(b AND 0x60 = 0x40) = (unat b div 32 mod 4 = 2)"
    unfolding m unfolding high_masks(7) unat_middle_mask
    using mod_mult_mult2 [of "unat b div 32" 32 4] by simp
  show "(b AND 0xc0 = 0x80) = tail_byte (unat b)"
    unfolding m tail_byte_def unfolding high_masks(2) unat_high_mask using div_range [of 64 "unat b" 2] lt by auto
  show "(b AND 0xfe = 0xc0) = (unat b = 0xC0 \<or> unat b = 0xC1)"
    unfolding m unfolding high_masks(6) unat_high_mask using div_range [of 2 "unat b" 96] lt by auto
  show "(b AND 0xf0 = 0xe0) = (0xE0 \<le> unat b \<and> unat b < 0xF0)"
    unfolding m unfolding high_masks(4) unat_high_mask using div_range [of 16 "unat b" 14] lt by auto
  show "(b AND 0xf8 = 0xf0) = (0xF0 \<le> unat b \<and> unat b < 0xF8)"
    unfolding m unfolding high_masks(5) unat_high_mask using div_range [of 8 "unat b" 30] lt by auto
  show "(b AND 0xe0 = 0x80) = (0x80 \<le> unat b \<and> unat b < 0xA0)"
    unfolding m unfolding high_masks(3) unat_high_mask using div_range [of 32 "unat b" 4] lt by auto
  show "(b AND 0xe0 = 0xa0) = (0xA0 \<le> unat b \<and> unat b < 0xC0)"
    unfolding m unfolding high_masks(3) unat_high_mask using div_range [of 32 "unat b" 5] lt by auto
  show "(b AND 0xf0 = 0x80) = (0x80 \<le> unat b \<and> unat b < 0x90)"
    unfolding m unfolding high_masks(4) unat_high_mask using div_range [of 16 "unat b" 8] lt by auto
qed

lemma All_less_4: "(\<forall>i < (4 :: nat). P i) \<longleftrightarrow> P 0 \<and> P 1 \<and> P 2 \<and> P 3"
  by (auto simp: less_Suc_eq numeral_eq_Suc)

lemma byte_compare:
  fixes b :: byte
  shows "(b = 0xe0) = (unat b = 0xE0)" "(b = 0xed) = (unat b = 0xED)" "(b = 0xf0) = (unat b = 0xF0)"
    "(b = 0xf4) = (unat b = 0xF4)" "(0x8f < b) = (0x8F < unat b)" "(0xf4 < b) = (0xF4 < unat b)"
  by (simp_all add: word_unat_eq_iff word_less_nat_alt)

lemma fast_path:
  assumes "4 \<le> length s"
  shows "load_u32 s AND 0x80808080 = 0 \<longleftrightarrow> (\<forall>i < 4. unat (s ! i) < 0x80)"
proof -
  obtain a b c d s' where s: "s = a # b # c # d # s'"
    using assms by (auto simp: Suc_le_length_iff numeral_eq_Suc)
  define n where "n = le_nat [a, b, c, d]"
  have n: "n = unat a + 256 * (unat b + 256 * (unat c + 256 * unat d))"
    by (simp add: n_def)
  have mask: "(0x80808080 :: u32) = 2 ^ 7 OR (2 ^ 15 OR (2 ^ 23 OR 2 ^ 31))"
    by simp
  have w: "load_u32 s = word_of_nat n"
    by (simp add: load_u32_def s n_def)
  have "load_u32 s AND 0x80808080 = 0 \<longleftrightarrow>
      \<not> bit n 7 \<and> \<not> bit n 15 \<and> \<not> bit n 23 \<and> \<not> bit n 31"
    unfolding mask w
    by (simp only: bit.conj_disj_distrib or_eq_0_iff and_exp_eq_0_iff_not_bit bit_of_nat_iff)
      (simp add: possible_bit_word)
  moreover have "bit n 7 \<longleftrightarrow> 0x80 \<le> unat a" "bit n 15 \<longleftrightarrow> 0x80 \<le> unat b"
    "bit n 23 \<longleftrightarrow> 0x80 \<le> unat c" "bit n 31 \<longleftrightarrow> 0x80 \<le> unat d"
  proof -
    note lt = unat_byte_lt [of a] unat_byte_lt [of b] unat_byte_lt [of c] unat_byte_lt [of d]
    have shift: "(x + 256 * y) div 256 = y" if "x < 256" for x y :: nat
      using that by simp
    have odd_top: "odd ((x + 256 * y) div 128) \<longleftrightarrow> 128 \<le> x" if "x < 256" for x y :: nat
    proof -
      have "(x + 128 * (2 * y)) div 128 = 2 * y + x div 128" by simp
      then have "(x + 256 * y) div 128 = 2 * y + x div 128" by (simp add: mult.assoc [symmetric])
      with that show ?thesis using div_range [of 128 x 0] div_range [of 128 x 1] by auto
    qed
    have e: "n div 2 ^ 7 = n div 128" "n div 2 ^ 15 = n div 256 div 128"
      "n div 2 ^ 23 = n div 256 div 256 div 128" "n div 2 ^ 31 = n div 256 div 256 div 256 div 128"
      by (simp_all add: div_mult2_eq [symmetric])
    show "bit n 7 \<longleftrightarrow> 0x80 \<le> unat a" "bit n 15 \<longleftrightarrow> 0x80 \<le> unat b"
      "bit n 23 \<longleftrightarrow> 0x80 \<le> unat c" "bit n 31 \<longleftrightarrow> 0x80 \<le> unat d"
      unfolding bit_iff_odd e unfolding n
      by (simp_all only: shift odd_top lt odd_top [OF lt(4), of 0, unfolded mult_0_right add_0_right])
  qed
  ultimately show ?thesis
    by (simp add: s All_less_4 not_le)
qed

lemma utf8_ok_ascii: "utf8_ok (map unat s) = utf8_ok (map unat (skip_ascii s))"
  by (induction s) (simp_all add: byte_masks)

lemma skip_ascii_head: "skip_ascii s = b # t \<Longrightarrow> 0x80 \<le> unat b"
  by (induction s) (auto simp: byte_masks split: if_splits)

lemma lead_bytes:
  assumes "0x80 \<le> unat (a :: byte)"
  shows "(a AND 0x60 = 0x40) = (0xC0 \<le> unat a \<and> unat a < 0xE0)"
proof -
  have "unat a div 32 < 8" "4 \<le> unat a div 32"
    using assms unat_byte_lt [of a] by (simp_all add: less_mult_imp_div_less div_le_mono [of 128, simplified])
  then have "unat a div 32 \<in> {4, 5, 6, 7}" by auto
  moreover have "unat a div 32 = 6 \<longleftrightarrow> 0xC0 \<le> unat a \<and> unat a < 0xE0"
    using div_range [of 32 "unat a" 6] by auto
  ultimately show ?thesis by (auto simp: byte_masks)
qed

lemma is_valid_utf8_slow:
  assumes "\<not> (4 \<le> length s \<and> load_u32 s AND 0x80808080 = 0)" "skip_ascii s = a # t"
  shows "is_valid_utf8 s =
     (if 0xC0 \<le> unat a \<and> unat a < 0xE0 then
        t \<noteq> [] \<and> tail_byte (unat (t ! 0)) \<and> unat a \<noteq> 0xC0 \<and> unat a \<noteq> 0xC1 \<and>
        is_valid_utf8 (drop 1 t)
      else if 0xE0 \<le> unat a \<and> unat a < 0xF0 then
        1 < length t \<and> tail_byte (unat (t ! 0)) \<and> tail_byte (unat (t ! 1)) \<and>
        \<not> (unat a = 0xE0 \<and> 0x80 \<le> unat (t ! 0) \<and> unat (t ! 0) < 0xA0) \<and>
        \<not> (unat a = 0xED \<and> 0xA0 \<le> unat (t ! 0) \<and> unat (t ! 0) < 0xC0) \<and>
        is_valid_utf8 (drop 2 t)
      else if 0xF0 \<le> unat a \<and> unat a < 0xF8 then
        2 < length t \<and> tail_byte (unat (t ! 0)) \<and> tail_byte (unat (t ! 1)) \<and>
        tail_byte (unat (t ! 2)) \<and>
        \<not> (unat a = 0xF0 \<and> 0x80 \<le> unat (t ! 0) \<and> unat (t ! 0) < 0x90) \<and>
        \<not> (unat a = 0xF4 \<and> 0x8F < unat (t ! 0)) \<and> \<not> 0xF4 < unat a \<and> is_valid_utf8 (drop 3 t)
      else False)"
proof -
  have s: "s \<noteq> []" using assms by auto
  have at: "(a # t = []) = False" "(a # t) ! 0 = a" "(a # t) ! 1 = t ! 0" "(a # t) ! 2 = t ! 1" "(a # t) ! 3 = t ! 2"
    "drop 2 (a # t) = drop 1 t" "drop 3 (a # t) = drop 2 t" "drop 4 (a # t) = drop 3 t"
    "length (a # t) \<le> 1 \<longleftrightarrow> t = []" "length (a # t) \<le> 2 \<longleftrightarrow> \<not> 1 < length t"
    "length (a # t) \<le> 3 \<longleftrightarrow> \<not> 2 < length t"
    by (auto simp: numeral_eq_Suc)
  have split: "(if c then False else x) = (\<not> c \<and> x)" for c x by simp
  show ?thesis
    unfolding is_valid_utf8.simps [of s, unfolded Let_def assms(2)]
    unfolding if_not_P [OF assms(1)] if_not_P [OF s] at if_False split
    unfolding lead_bytes [OF skip_ascii_head [OF assms(2)]]
    unfolding byte_masks
    unfolding byte_compare
    by (intro if_cong refl) (simp_all only: de_Morgan_disj not_not conj_assoc not_less not_le)
qed

lemma is_valid_utf8_ok: "is_valid_utf8 s = utf8_ok (map unat s)"
proof (induction s rule: measure_induct_rule [where f = length])
  case (less s)
  show ?case
  proof (cases "4 \<le> length s \<and> load_u32 s AND 0x80808080 = 0")
    case True
    then obtain a b c d s' where s: "s = a # b # c # d # s'"
      by (auto simp: Suc_le_length_iff numeral_eq_Suc)
    have "\<forall>i < 4. unat (s ! i) < 0x80" using True fast_path by blast
    then have "unat a < 0x80" "unat b < 0x80" "unat c < 0x80" "unat d < 0x80"
      unfolding s by (simp_all add: All_less_4)
    moreover have "is_valid_utf8 s' = utf8_ok (map unat s')" by (rule less) (simp add: s)
    moreover have "is_valid_utf8 s = is_valid_utf8 s'"
      using True s by (subst is_valid_utf8.simps) simp
    ultimately show ?thesis by (simp add: s)
  next
    case slow: False
    show ?thesis
    proof (cases "skip_ascii s")
      case Nil
      then show ?thesis
        using slow utf8_ok_ascii [of s] by (subst is_valid_utf8.simps) (auto simp: Let_def)
    next
      case (Cons a t)
      have a: "0x80 \<le> unat a" using skip_ascii_head [OF Cons] .
      have IH: "is_valid_utf8 (drop n t) = utf8_ok (map unat (drop n t))" for n
        by (rule less) (use length_skip_ascii [of s] Cons in simp)
      have "utf8_ok (map unat s) = utf8_ok (map unat (a # t))"
        using utf8_ok_ascii [of s] Cons by simp
      moreover have "is_valid_utf8 s = utf8_ok (map unat (a # t))"
        unfolding is_valid_utf8_slow [OF slow Cons] IH using a unat_byte_lt [of a]
        by (cases t; cases "tl t"; cases "tl (tl t)") (auto simp: tail_byte_def)
      ultimately show ?thesis by simp
    qed
  qed
qed

section \<open>Equivalence with the definition\<close>

text \<open>The encoding as numbers, and its decoding by linear arithmetic.\<close>

lemma scalar_le: "scalar_value n \<Longrightarrow> n < 1114112"
  by (auto simp: scalar_value_def)

lemma unat_utf8_tail: "unat (utf8_tail n) = 128 + n mod 64"
proof -
  have "128 + n mod 64 < 256" using mod_less_divisor [of 64 n] by simp
  then show ?thesis unfolding utf8_tail_def unat_byte_of_nat by (rule mod_less)
qed

definition utf8_nats :: "nat \<Rightarrow> nat list" where
  "utf8_nats n =
     (if n < 0x80 then [n]
      else if n < 0x800 then [0xC0 + n div 64, 128 + n mod 64]
      else if n < 0x10000 then [0xE0 + n div 4096, 128 + n div 64 mod 64, 128 + n mod 64]
      else [0xF0 + n div 262144, 128 + n div 4096 mod 64, 128 + n div 64 mod 64, 128 + n mod 64])"

lemma unat_of_nat_byte: "n < 256 \<Longrightarrow> unat (word_of_nat n :: byte) = n"
  by (simp only: unat_byte_of_nat mod_less)

lemma map_unat_utf8_encode: "scalar_value n \<Longrightarrow> map unat (utf8_encode n) = utf8_nats n"
proof -
  assume "scalar_value n"
  then have "n div 262144 < 5" using scalar_le [of n] by (simp add: less_mult_imp_div_less)
  moreover have "n < 0x10000 \<Longrightarrow> n div 4096 < 16" "n < 0x800 \<Longrightarrow> n div 64 < 32"
    by (simp_all add: less_mult_imp_div_less)
  ultimately show ?thesis
    unfolding utf8_encode_def utf8_nats_def if_distrib [of "map unat"] list.map unat_utf8_tail
    by (intro if_cong refl) (intro arg_cong2 [of _ _ _ _ Cons] refl unat_of_nat_byte, force)+
qed

lemma div_parts: "n = 64 * (n div 64) + n mod 64" "n div 64 = 64 * (n div 4096) + n div 64 mod 64"
  "n div 4096 = 64 * (n div 262144) + n div 4096 mod 64" for n :: nat
  by (simp_all add: div_mult2_eq [of n 64 64, simplified] div_mult2_eq [of n 4096 64, simplified])

lemma utf8_ok_encode: "scalar_value n \<Longrightarrow> utf8_ok (map unat (utf8_encode n) @ s) = utf8_ok s"
proof -
  assume n: "scalar_value n"
  note parts = div_parts [of n] mod_less_divisor [of 64 n] mod_less_divisor [of 64 "n div 64"]
    mod_less_divisor [of 64 "n div 4096"]
  have tail: "tail_byte (128 + k mod 64)" for k
    using mod_less_divisor [of 64 k] by (simp add: tail_byte_def)
  consider "n < 0x80" | "0x80 \<le> n" "n < 0x800" | "0x800 \<le> n" "n < 0x10000" | "0x10000 \<le> n"
    by linarith
  then show ?thesis
  proof cases
    case 1
    then show ?thesis by (simp add: utf8_encode_def)
  next
    case 2
    then have "2 \<le> n div 64" "n div 64 < 32" by (simp_all add: less_mult_imp_div_less div_le_mono [of 128, simplified])
    with 2 show ?thesis by (simp add: map_unat_utf8_encode [OF n] utf8_nats_def tail)
  next
    case 3
    then have r: "n div 4096 < 16" by (simp add: less_mult_imp_div_less)
    have "n div 64 mod 64 \<ge> 32" if "n div 4096 = 0" using 3 parts that by linarith
    moreover have "n div 64 mod 64 < 32" if "n div 4096 = 13"
      using n 3 parts that unfolding scalar_value_def by linarith
    ultimately show ?thesis using 3 r
      by (auto simp: map_unat_utf8_encode [OF n] utf8_nats_def tail)
  next
    case 4
    then have r: "n div 262144 < 5" using scalar_le [OF n] by (simp add: less_mult_imp_div_less)
    have "n div 4096 mod 64 \<ge> 16" if "n div 262144 = 0" using 4 parts that by linarith
    moreover have "n div 4096 mod 64 < 16" if "n div 262144 = 4"
      using scalar_le [OF n] parts that by linarith
    ultimately show ?thesis using 4 r
      by (auto simp: map_unat_utf8_encode [OF n] utf8_nats_def tail)
  qed
qed

lemma utf8_ok_concat: "\<forall>n \<in> set ns. scalar_value n \<Longrightarrow> utf8_ok (map unat (concat (map utf8_encode ns)))"
  by (induction ns) (simp_all add: utf8_ok_encode)

text \<open>Every accepted byte sequence is the encoding of its decoded scalar values.\<close>

fun utf8_decode :: "nat list \<Rightarrow> nat list" where
  "utf8_decode [] = []"
| "utf8_decode (a # s) =
     (if a < 0x80 then a # utf8_decode s
      else if a < 0xE0 then
        (case s of b # s' \<Rightarrow> ((a - 0xC0) * 64 + (b - 0x80)) # utf8_decode s' | _ \<Rightarrow> [])
      else if a < 0xF0 then
        (case s of b # c # s' \<Rightarrow>
           ((a - 0xE0) * 4096 + (b - 0x80) * 64 + (c - 0x80)) # utf8_decode s' | _ \<Rightarrow> [])
      else
        (case s of b # c # d # s' \<Rightarrow>
           ((a - 0xF0) * 262144 + (b - 0x80) * 4096 + (c - 0x80) * 64 + (d - 0x80)) # utf8_decode s'
         | _ \<Rightarrow> []))"

lemma nats_2:
  assumes "0xC2 \<le> a" "a < 0xE0" "tail_byte b"
  shows "utf8_nats ((a - 0xC0) * 64 + (b - 0x80)) = [a, b]"
    and "scalar_value ((a - 0xC0) * 64 + (b - 0x80))"
proof -
  obtain x y where xy: "a = 0xC0 + x" "b = 0x80 + y" "2 \<le> x" "x < 32" "y < 64"
    using assms by (auto simp: tail_byte_def le_iff_add)
  then show "utf8_nats ((a - 0xC0) * 64 + (b - 0x80)) = [a, b]"
    "scalar_value ((a - 0xC0) * 64 + (b - 0x80))"
    by (simp_all add: utf8_nats_def scalar_value_def)
qed

lemma low_digit: "z < 64 \<Longrightarrow> (x * 4096 + y * 64 + z) mod 64 = z" for x y z :: nat
proof -
  have "x * 4096 + y * 64 + z = z + 64 * (x * 64 + y)" by simp
  then show "z < 64 \<Longrightarrow> (x * 4096 + y * 64 + z) mod 64 = z"
    by (simp only: mod_mult_self2 mod_less)
qed

lemma nats_3:
  assumes "0xE0 \<le> a" "a < 0xF0" "tail_byte b" "tail_byte c"
    "\<not> (a = 0xE0 \<and> b < 0xA0)" "\<not> (a = 0xED \<and> 0xA0 \<le> b)"
  shows "utf8_nats ((a - 0xE0) * 4096 + (b - 0x80) * 64 + (c - 0x80)) = [a, b, c]"
    and "scalar_value ((a - 0xE0) * 4096 + (b - 0x80) * 64 + (c - 0x80))"
proof -
  obtain x y z where xyz: "a = 0xE0 + x" "b = 0x80 + y" "c = 0x80 + z" "x < 16" "y < 64" "z < 64"
    using assms(1-4) by (auto simp: tail_byte_def le_iff_add)
  let ?n = "x * 4096 + y * 64 + z"
  have "x \<le> 12 \<or> x = 13 \<or> 14 \<le> x" by linarith
  then have "scalar_value ?n"
    using assms(5,6) xyz by (auto simp: scalar_value_def)
  moreover have "0x800 \<le> ?n" "?n < 0x10000"
    using assms(5,6) xyz by auto
  moreover have "?n div 4096 = x" "?n div 64 = x * 64 + y" "?n mod 64 = z"
    using xyz by (auto simp: low_digit)
  ultimately show "utf8_nats ((a - 0xE0) * 4096 + (b - 0x80) * 64 + (c - 0x80)) = [a, b, c]"
    "scalar_value ((a - 0xE0) * 4096 + (b - 0x80) * 64 + (c - 0x80))"
    using xyz by (simp_all add: utf8_nats_def)
qed

lemma nats_4:
  assumes "0xF0 \<le> a" "a < 0xF5" "tail_byte b" "tail_byte c" "tail_byte d"
    "\<not> (a = 0xF0 \<and> b < 0x90)" "\<not> (a = 0xF4 \<and> 0x90 \<le> b)"
  shows "utf8_nats ((a - 0xF0) * 262144 + (b - 0x80) * 4096 + (c - 0x80) * 64 + (d - 0x80)) =
      [a, b, c, d]"
    and "scalar_value ((a - 0xF0) * 262144 + (b - 0x80) * 4096 + (c - 0x80) * 64 + (d - 0x80))"
proof -
  obtain x y z w where xyz: "a = 0xF0 + x" "b = 0x80 + y" "c = 0x80 + z" "d = 0x80 + w"
    "x < 5" "y < 64" "z < 64" "w < 64"
    using assms(1-5) by (auto simp: tail_byte_def le_iff_add)
  let ?n = "x * 262144 + y * 4096 + z * 64 + w"
  have "0x10000 \<le> ?n" "scalar_value ?n"
    using assms(6,7) xyz by (auto simp: scalar_value_def)
  moreover have "?n mod 64 = w" "(4096 * x + y * 64 + z) mod 64 = z"
    using low_digit [OF xyz(8), of "x * 64 + y" z] low_digit [OF xyz(7), of x y]
    by (simp_all add: algebra_simps)
  moreover have "?n div 262144 = x" "?n div 4096 = x * 64 + y"
    "?n div 64 = (x * 64 + y) * 64 + z"
    using xyz by auto
  ultimately show
    "utf8_nats ((a - 0xF0) * 262144 + (b - 0x80) * 4096 + (c - 0x80) * 64 + (d - 0x80)) = [a, b, c, d]"
    "scalar_value ((a - 0xF0) * 262144 + (b - 0x80) * 4096 + (c - 0x80) * 64 + (d - 0x80))"
    using xyz by (simp_all add: utf8_nats_def)
qed

lemma nats_1: "a < 0x80 \<Longrightarrow> utf8_nats a = [a]" "a < 0x80 \<Longrightarrow> scalar_value a"
  by (simp_all add: utf8_nats_def scalar_value_def)

lemma utf8_ok_decode:
  "utf8_ok xs \<Longrightarrow> (\<forall>n \<in> set (utf8_decode xs). scalar_value n) \<and>
     concat (map utf8_nats (utf8_decode xs)) = xs"
proof (induction xs rule: utf8_ok.induct)
  case 1
  show ?case by simp
next
  case (2 a s)
  consider "a < 0x80" | "0xC2 \<le> a" "a < 0xE0" | "0xE0 \<le> a" "a < 0xF0" | "0xF0 \<le> a" "a < 0xF5"
    using "2.prems" by (auto split: if_splits)
  then show ?case
  proof cases
    case 1
    with "2.IH"(1) "2.prems" show ?thesis by (simp add: nats_1)
  next
    case 2
    with "2.prems" obtain b s' where "s = b # s'" "tail_byte b" "utf8_ok s'"
      by (auto split: list.splits)
    with "2.IH"(2) 2 show ?thesis by (simp add: nats_2)
  next
    case 3
    with "2.prems" obtain b c s' where "s = b # c # s'" "tail_byte b" "tail_byte c" "utf8_ok s'"
      "\<not> (a = 0xE0 \<and> b < 0xA0)" "\<not> (a = 0xED \<and> 0xA0 \<le> b)"
      by (auto split: list.splits)
    with "2.IH"(3) 3 show ?thesis by (simp add: nats_3)
  next
    case 4
    with "2.prems" obtain b c d s' where "s = b # c # d # s'" "tail_byte b" "tail_byte c"
      "tail_byte d" "utf8_ok s'" "\<not> (a = 0xF0 \<and> b < 0x90)" "\<not> (a = 0xF4 \<and> 0x90 \<le> b)"
      by (auto split: list.splits)
    with "2.IH"(4) 4 show ?thesis by (simp add: nats_4)
  qed
qed

lemma is_valid_utf8_spec:
  "is_valid_utf8 s =
     (\<exists>ns. (\<forall>n \<in> set ns. scalar_value n) \<and> s = concat (map utf8_encode ns))"
proof
  assume "is_valid_utf8 s"
  then have ok: "utf8_ok (map unat s)" by (simp add: is_valid_utf8_ok)
  define ns where "ns = utf8_decode (map unat s)"
  have ns: "\<forall>n \<in> set ns. scalar_value n" "concat (map utf8_nats ns) = map unat s"
    using utf8_ok_decode [OF ok] by (simp_all add: ns_def)
  have "map unat (concat (map utf8_encode ns)) = concat (map utf8_nats ns)"
    using ns(1) by (induction ns) (simp_all add: map_unat_utf8_encode)
  with ns(2) have "concat (map utf8_encode ns) = s"
    by (auto intro: map_injective injI simp: word_unat_eq_iff)
  with ns(1) show "\<exists>ns. (\<forall>n \<in> set ns. scalar_value n) \<and> s = concat (map utf8_encode ns)" by metis
next
  assume "\<exists>ns. (\<forall>n \<in> set ns. scalar_value n) \<and> s = concat (map utf8_encode ns)"
  then show "is_valid_utf8 s" by (auto simp: is_valid_utf8_ok utf8_ok_concat)
qed

text \<open>
  C22 (equivalence). \<open>is_valid_utf8\<close>, with its word-wise fast path and its bit tests, accepts
  exactly the UTF-8 texts of RFC 3629: the concatenations of the shortest encodings of Unicode
  scalar values. Overlong forms, surrogates, values above U+10FFFF and truncated characters are
  rejected.
\<close>
theorem is_valid_utf8_rfc3629:
  "is_valid_utf8 s =
     (\<exists>ns. (\<forall>n \<in> set ns. scalar_value n) \<and> s = concat (map utf8_encode ns))"
  by (rule is_valid_utf8_spec)

text \<open>The letter e with an acute accent.\<close>

lemma is_valid_utf8_rfc3629_witness: "is_valid_utf8 [0xc3, 0xa9]"
proof -
  have "(\<forall>n \<in> set [0xE9]. scalar_value n) \<and> [0xc3, 0xa9] = concat (map utf8_encode [0xE9])"
    by (simp add: scalar_value_def utf8_encode_def utf8_tail_def)
  then have "\<exists>ns. (\<forall>n \<in> set ns. scalar_value n) \<and> [0xc3, 0xa9] = concat (map utf8_encode ns)"
    by blast
  then show ?thesis by (subst is_valid_utf8_rfc3629)
qed

end
