(* ===== verification/CinWebsocket.thy ===== *)
theory CinWebsocket
  imports CinUtf8 CinBase64 CinSha1
begin

text \<open>
  The WebSocket codec of cinatra (\<open>websocket.hpp\<close>, \<open>ws_define.h\<close>) and the handshake key
  (\<open>coro_http_connection.hpp\<close>). Reading outside a buffer is the value \<open>None\<close>. The machine is
  little-endian; \<open>htons\<close>, \<open>htobe64\<close> and their inverses give the network order \<open>be_bytes\<close>.
\<close>

section \<open>State\<close>

datatype ws_header_status = WsError | WsIncomplete | WsComplete

datatype ws_frame_type = WS_ERROR_FRAME | WS_INCOMPLETE_FRAME | WS_OPENING_FRAME | WS_CLOSING_FRAME
  | WS_INCOMPLETE_TEXT_FRAME | WS_INCOMPLETE_BINARY_FRAME | WS_TEXT_FRAME | WS_BINARY_FRAME
  | WS_CLOSE_FRAME | WS_PING_FRAME | WS_PONG_FRAME

record websocket =
  payload_length :: u64
  left_header_len :: u64
  mask_key :: bytes
  msg_opcode :: byte
  msg_fin :: byte
  len_bytes :: u64

definition SHORT_HEADER :: u64 where "SHORT_HEADER = 6"
definition MEDIUM_HEADER :: u64 where "MEDIUM_HEADER = 8"
definition LONG_HEADER :: u64 where "LONG_HEADER = 14"
definition INVALID_HEADER :: u64 where "INVALID_HEADER = 15"
definition CLIENT_SHORT_HEADER :: u64 where "CLIENT_SHORT_HEADER = 2"
definition CLIENT_MEDIUM_HEADER :: u64 where "CLIENT_MEDIUM_HEADER = 4"
definition CLIENT_LONG_HEADER :: u64 where "CLIENT_LONG_HEADER = 10"

lemmas header_sizes = SHORT_HEADER_def MEDIUM_HEADER_def LONG_HEADER_def
  CLIENT_SHORT_HEADER_def CLIENT_MEDIUM_HEADER_def CLIENT_LONG_HEADER_def

definition new_websocket :: websocket where
  "new_websocket = \<lparr>payload_length = 0, left_header_len = 2, mask_key = [0, 0, 0, 0],
     msg_opcode = 0, msg_fin = 0, len_bytes = SHORT_HEADER\<rparr>"

section \<open>Reading a frame\<close>

text \<open>The end of \<open>parse_header\<close>: \<open>memcpy(mask_key_, inp + pos, 4)\<close> and the status.\<close>

definition parse_mask ::
  "bytes \<Rightarrow> bool \<Rightarrow> nat \<Rightarrow> websocket \<Rightarrow> (ws_header_status \<times> websocket) option" where
  "parse_mask buf masked pos ws =
     (let status = (if left_header_len ws = 0 then WsComplete else WsIncomplete)
      in if masked then
           (if length buf < pos + 4 then None
            else Some (status, ws\<lparr>mask_key := take 4 (drop pos buf)\<rparr>))
         else Some (status, ws))"

definition parse_header ::
  "bytes \<Rightarrow> u64 \<Rightarrow> bool \<Rightarrow> websocket \<Rightarrow> (ws_header_status \<times> websocket) option" where
  "parse_header buf sz is_server ws =
     (if length buf < 2 then None
      else
        let ws = ws\<lparr>msg_opcode := buf ! 0 AND 0x0F, msg_fin := drop_bit 7 (buf ! 0) AND 1\<rparr>;
            masked = (drop_bit 7 (buf ! 1) AND 1 \<noteq> 0);
            length_field = unat (buf ! 1 AND 0x7F)
        in if length_field \<le> 125 then
             let ws = ws\<lparr>len_bytes := SHORT_HEADER, payload_length := word_of_nat length_field,
                         left_header_len :=
                           (if is_server then SHORT_HEADER - sz else CLIENT_SHORT_HEADER - sz)\<rparr>
             in if left_header_len ws > 0 then Some (WsIncomplete, ws)
                else parse_mask buf masked 2 ws
           else if length_field = 126 then
             let ws = ws\<lparr>len_bytes := MEDIUM_HEADER,
                         left_header_len :=
                           (if is_server then MEDIUM_HEADER - sz else CLIENT_MEDIUM_HEADER - sz)\<rparr>
             in if left_header_len ws > 0 then Some (WsIncomplete, ws)
                else if length buf < 4 then None
                else parse_mask buf masked 4
                       (ws\<lparr>payload_length := word_of_nat (be_nat (take 2 (drop 2 buf)))\<rparr>)
           else if length_field = 127 then
             let ws = ws\<lparr>len_bytes := LONG_HEADER,
                         left_header_len :=
                           (if is_server then LONG_HEADER - sz else CLIENT_LONG_HEADER - sz)\<rparr>
             in if left_header_len ws > 0 then Some (WsIncomplete, ws)
                else if length buf < 10 then None
                else parse_mask buf masked 10
                       (ws\<lparr>payload_length := word_of_nat (be_nat (take 8 (drop 2 buf)))\<rparr>)
           else Some (WsError, ws\<lparr>left_header_len := 0, len_bytes := INVALID_HEADER\<rparr>))"

definition reset_len_bytes :: "websocket \<Rightarrow> websocket" where
  "reset_len_bytes ws = ws\<lparr>len_bytes := SHORT_HEADER\<rparr>"

text \<open>\<open>buf[i] ^= mask_key_[i % 4]\<close> for the first \<open>n\<close> bytes.\<close>

definition apply_mask :: "bytes \<Rightarrow> nat \<Rightarrow> bytes \<Rightarrow> bytes" where
  "apply_mask key n buf =
     map (\<lambda>i. if i < n then buf ! i XOR key ! (i mod 4) else buf ! i) [0..<length buf]"

definition frame_type :: "byte \<Rightarrow> byte \<Rightarrow> ws_frame_type" where
  "frame_type op fin =
     (if op = 0x0 then (if fin \<noteq> 0 then WS_TEXT_FRAME else WS_INCOMPLETE_TEXT_FRAME)
      else if op = 0x1 then (if fin \<noteq> 0 then WS_TEXT_FRAME else WS_INCOMPLETE_TEXT_FRAME)
      else if op = 0x2 then (if fin \<noteq> 0 then WS_BINARY_FRAME else WS_INCOMPLETE_BINARY_FRAME)
      else if op = 0x8 then WS_CLOSE_FRAME
      else if op = 0x9 then WS_PING_FRAME
      else if op = 0xA then WS_PONG_FRAME
      else WS_ERROR_FRAME)"

definition parse_payload :: "bytes \<Rightarrow> websocket \<Rightarrow> (ws_frame_type \<times> bytes) option" where
  "parse_payload buf ws =
     (let type = frame_type (msg_opcode ws) (msg_fin ws)
      in if load_u32 (mask_key ws) \<noteq> 0
         then (if unat (payload_length ws) \<le> length buf
               then Some (type, apply_mask (mask_key ws) (unat (payload_length ws)) buf) else None)
         else Some (type, buf))"

section \<open>Writing a frame\<close>

text \<open>
  The two bytes of \<open>frame_header\<close>, whose bit fields are allocated from the lowest bit on;
  \<open>rnd\<close> is what \<open>rand()\<close> returns.
\<close>

definition header_bytes :: "byte \<Rightarrow> bool \<Rightarrow> bool \<Rightarrow> nat \<Rightarrow> bool \<Rightarrow> bytes" where
  "header_bytes op fin rsv1 len masked =
     [(op AND mask 4) OR (if rsv1 then push_bit 6 1 else 0) OR (if fin then push_bit 7 1 else 0),
      (word_of_nat len AND mask 7) OR (if masked then push_bit 7 1 else 0)]"

definition encode_ws_header ::
  "u64 \<Rightarrow> byte \<Rightarrow> bool \<Rightarrow> bool \<Rightarrow> bool \<Rightarrow> u32 \<Rightarrow> websocket \<Rightarrow> bytes \<times> websocket" where
  "encode_ws_header sz op eof need_compression is_client rnd ws =
     (let len = (if sz < 126 then unat sz else if sz < 65536 then 126 else 127);
          hdr = header_bytes op eof need_compression len is_client;
          len_part = (if sz \<ge> 126 then
                        (if sz \<ge> 65536 then be_bytes 8 (unat sz) else be_bytes 2 (unat sz))
                      else []);
          ws = (if is_client \<and> sz > 0 then ws\<lparr>mask_key := le_bytes 4 (unat rnd)\<rparr> else ws)
      in (hdr @ len_part @ (if is_client then mask_key ws else []), ws))"

definition encode_ws_payload :: "bytes \<Rightarrow> websocket \<Rightarrow> bytes" where
  "encode_ws_payload data ws = apply_mask (mask_key ws) (length data) data"

definition encode_frame ::
  "bytes \<Rightarrow> byte \<Rightarrow> bool \<Rightarrow> bool \<Rightarrow> u32 \<Rightarrow> websocket \<Rightarrow> bytes \<times> bytes \<times> websocket" where
  "encode_frame data op eof need_compression rnd ws =
     (case encode_ws_header (word_of_nat (length data)) op eof need_compression True rnd ws of
        (header, ws) \<Rightarrow> (header, encode_ws_payload data ws, ws))"

section \<open>Close frames\<close>

record close_frame =
  close_code :: nat
  close_message :: bytes

definition no_close_frame :: close_frame where
  "no_close_frame = \<lparr>close_code = 0, close_message = []\<rparr>"

definition parse_close_payload :: "bytes \<Rightarrow> close_frame" where
  "parse_close_payload src =
     (if length src \<ge> 2 then
        let code = be_nat (take 2 src); message = drop 2 src
        in if code < 1000 \<or> code > 4999 \<or> (code > 1011 \<and> code < 4000) \<or>
              (code \<ge> 1004 \<and> code \<le> 1006) \<or> \<not> is_valid_utf8 message
           then no_close_frame
           else \<lparr>close_code = code, close_message = message\<rparr>
      else no_close_frame)"

definition format_close_payload :: "u16 \<Rightarrow> bytes \<Rightarrow> bytes" where
  "format_close_payload code message = be_bytes 2 (unat code) @ message"

section \<open>Handshake\<close>

text \<open>The GUID of RFC 6455 in ASCII.\<close>

definition ws_guid :: bytes where
  "ws_guid = [0x32, 0x35, 0x38, 0x45, 0x41, 0x46, 0x41, 0x35, 0x2d, 0x45, 0x39, 0x31, 0x34, 0x2d,
     0x34, 0x37, 0x44, 0x41, 0x2d, 0x39, 0x35, 0x43, 0x41, 0x2d, 0x43, 0x35, 0x41, 0x42, 0x30,
     0x44, 0x43, 0x38, 0x35, 0x42, 0x31, 0x31]"

text \<open>
  \<open>build_ws_handshake_head\<close> copies 24 bytes of the header's value (\<open>None\<close> when there are fewer); the
  connection calls it only after \<open>is_upgrade\<close> has found exactly 24.
\<close>

definition accept_key :: "bytes \<Rightarrow> bytes \<Rightarrow> string option" where
  "accept_key garbage key =
     (if length key < 24 then None
      else Some (take 28 (h2o_base64_encode
                  (sha1_finish (sha1_update (sha1_init garbage) (take 24 key @ ws_guid))) False)))"

section \<open>Header bits\<close>

lemma ws_masks: "(0x0F :: byte) = mask 4" "(0x7F :: byte) = mask 7" "(1 :: byte) = mask 1"
  by (simp_all add: mask_eq_exp_minus_1)

lemma bit_one: "bit (1 :: byte) n \<longleftrightarrow> n = 0"
  by (auto simp: bit_1_iff)

lemma bit_flags: "bit (64 :: int) n \<longleftrightarrow> n = 6" "bit (128 :: int) n \<longleftrightarrow> n = 7"
  using bit_exp_iff [of 6 n, where 'a = int] bit_exp_iff [of 7 n, where 'a = int]
  by auto

lemma zero_key: "[0, 0, 0, 0] = replicate 4 (0 :: byte)" "le_bytes 4 0 = replicate 4 0"
proof -
  have 4: "(4 :: nat) = Suc (Suc (Suc (Suc 0)))" by simp
  show "[0, 0, 0, 0] = replicate 4 (0 :: byte)" "le_bytes 4 0 = replicate 4 0"
    unfolding 4 by simp_all
qed

lemma header_first:
  fixes op :: byte and rsv1 fin :: bool
  defines "b \<equiv> (op AND mask 4) OR (if rsv1 then push_bit 6 1 else 0) OR (if fin then push_bit 7 1 else 0)"
  shows "b AND 0x0F = op AND mask 4" "(drop_bit 7 b AND 1 \<noteq> 0) = fin"
proof -
  show "b AND 0x0F = op AND mask 4"
    unfolding ws_masks b_def by (rule bit_word_eqI) (auto simp: bit_simps bit_one bit_flags)
  have "drop_bit 7 b AND 1 = (if fin then 1 else 0)"
    unfolding ws_masks(3) b_def
    by (rule bit_word_eqI) (auto simp: bit_simps bit_one bit_flags dest: bit_imp_le_length)
  then show "(drop_bit 7 b AND 1 \<noteq> 0) = fin" by simp
qed

lemma header_second:
  fixes n :: nat and masked :: bool
  defines "b \<equiv> (word_of_nat n AND mask 7) OR (if masked then push_bit 7 1 else 0) :: byte"
  assumes n: "n < 128"
  shows "unat (b AND 0x7F) = n" "(drop_bit 7 b AND 1 \<noteq> 0) = masked"
proof -
  have "b AND 0x7F = word_of_nat n AND mask 7"
    unfolding ws_masks b_def by (rule bit_word_eqI) (auto simp: bit_simps bit_one bit_flags)
  then show "unat (b AND 0x7F) = n"
    using n by (simp only: unat_and_mask_mod unat_byte_of_nat) simp
  have "drop_bit 7 b AND 1 = (if masked then 1 else 0)"
    unfolding ws_masks(3) b_def
    by (rule bit_word_eqI) (auto simp: bit_simps bit_one bit_flags dest: bit_imp_le_length)
  then show "(drop_bit 7 b AND 1 \<noteq> 0) = masked" by simp
qed

lemma length_apply_mask [simp]: "length (apply_mask key n buf) = length buf"
  by (simp add: apply_mask_def)

lemma apply_mask_twice: "apply_mask key n (apply_mask key n buf) = buf"
  by (rule nth_equalityI) (simp_all add: apply_mask_def xor.assoc)

lemma load_u32_zero:
  assumes "length key = 4" "load_u32 key = 0"
  shows "key = [0, 0, 0, 0]"
proof -
  have "le_nat key < 256 ^ 4" using le_nat_lt [of key] assms(1) by simp
  moreover have "unat (word_of_nat (le_nat key) :: u32) = 0" using assms by (simp add: load_u32_def)
  ultimately have "le_nat key = 0" by (simp add: unat_of_nat)
  moreover have "le_bytes 4 (le_nat key) = key" using le_bytes_le_nat [of key] assms(1) by simp
  ultimately show ?thesis by (simp add: zero_key)
qed

lemma apply_mask_zero: "apply_mask [0, 0, 0, 0] n buf = buf"
proof (rule nth_equalityI)
  fix i assume "i < length (apply_mask [0, 0, 0, 0] n buf)"
  moreover have "[0, 0, 0, 0] ! (i mod 4) = (0 :: byte)" by (simp add: zero_key)
  ultimately show "apply_mask [0, 0, 0, 0] n buf ! i = buf ! i" by (simp add: apply_mask_def)
qed simp

section \<open>A header is read back\<close>

definition length_part :: "u64 \<Rightarrow> nat" where
  "length_part sz = (if sz < 126 then 0 else if sz < 65536 then 2 else 8)"

definition header_length :: "bool \<Rightarrow> u64 \<Rightarrow> nat" where
  "header_length masked sz = 2 + length_part sz + (if masked then 4 else 0)"

definition len_code :: "u64 \<Rightarrow> u64" where
  "len_code sz = (if sz < 126 then SHORT_HEADER else if sz < 65536 then MEDIUM_HEADER else LONG_HEADER)"

text \<open>What the first two bytes tell, and what the complete header tells.\<close>

definition saw_start :: "byte \<Rightarrow> bool \<Rightarrow> bool \<Rightarrow> u64 \<Rightarrow> u64 \<Rightarrow> websocket \<Rightarrow> websocket" where
  "saw_start op eof is_server sz size_read ws =
     ws\<lparr>msg_opcode := op AND mask 4, msg_fin := of_bool eof, len_bytes := len_code sz,
        left_header_len := word_of_nat (header_length is_server sz) - size_read,
        payload_length := (if sz < 126 then sz else payload_length ws)\<rparr>"

definition saw_header :: "byte \<Rightarrow> bool \<Rightarrow> bool \<Rightarrow> u64 \<Rightarrow> bytes \<Rightarrow> websocket \<Rightarrow> websocket" where
  "saw_header op eof masked sz key ws =
     ws\<lparr>msg_opcode := op AND mask 4, msg_fin := of_bool eof, len_bytes := len_code sz,
        left_header_len := 0, payload_length := sz,
        mask_key := (if masked then key else mask_key ws)\<rparr>"

lemma length_code_lt: "(if sz < 126 then unat sz else if sz < 65536 then 126 else 127) < (128 :: nat)"
  for sz :: u64
  by (auto simp: word_less_nat_alt)

lemma fin_bit:
  fixes op :: byte and rsv1 fin :: bool
  shows "drop_bit 7 ((op AND mask 4) OR (if rsv1 then push_bit 6 1 else 0) OR
     (if fin then push_bit 7 1 else 0)) AND 1 = of_bool fin"
  unfolding ws_masks(3)
  by (rule bit_word_eqI) (auto simp: bit_simps bit_one bit_flags dest: bit_imp_le_length)

lemmas header_start = header_first(1) fin_bit header_second [OF length_code_lt]

lemma length_encode_ws_header:
  "length (mask_key ws) = 4 \<Longrightarrow>
   length (fst (encode_ws_header sz op eof deflate masked rnd ws)) = header_length masked sz"
  by (auto simp: encode_ws_header_def header_bytes_def header_length_def length_part_def Let_def not_less)

lemma encode_ws_header_eq:
  "encode_ws_header sz op eof deflate masked rnd ws =
     (let key = (if masked \<and> sz > 0 then le_bytes 4 (unat rnd) else mask_key ws)
      in (header_bytes op eof deflate
            (if sz < 126 then unat sz else if sz < 65536 then 126 else 127) masked @
          be_bytes (length_part sz) (unat sz) @ (if masked then key else []),
          ws\<lparr>mask_key := key\<rparr>))"
  by (auto simp: encode_ws_header_def length_part_def Let_def be_bytes_def not_less)

lemma header_bytes_nth:
  "header_bytes op fin rsv1 len masked ! 0 =
     (op AND mask 4) OR (if rsv1 then push_bit 6 1 else 0) OR (if fin then push_bit 7 1 else 0)"
  "header_bytes op fin rsv1 len masked ! 1 =
     (word_of_nat len AND mask 7) OR (if masked then push_bit 7 1 else 0)"
  by (simp_all add: header_bytes_def)

lemma first_bytes:
  assumes "take 2 buf = take 2 (fst (encode_ws_header sz op eof deflate masked rnd ws0))"
  shows "2 \<le> length buf" "buf ! 0 AND 0x0F = op AND mask 4" "drop_bit 7 (buf ! 0) AND 1 = of_bool eof"
    "unat (buf ! 1 AND 0x7F) = (if sz < 126 then unat sz else if sz < 65536 then 126 else 127)"
    "(drop_bit 7 (buf ! 1) AND 1 \<noteq> 0) = masked"
proof -
  let ?n = "if sz < 126 then unat sz else if sz < 65536 then 126 else 127 :: nat"
  have "take 2 buf = header_bytes op eof deflate ?n masked"
    using assms by (simp add: encode_ws_header_eq header_bytes_def Let_def)
  then have "take 2 buf ! 0 = header_bytes op eof deflate ?n masked ! 0"
    "take 2 buf ! 1 = header_bytes op eof deflate ?n masked ! 1" "length (take 2 buf) = 2"
    by (simp_all add: header_bytes_def)
  then have b: "buf ! 0 = header_bytes op eof deflate ?n masked ! 0"
    "buf ! 1 = header_bytes op eof deflate ?n masked ! 1" "2 \<le> length buf"
    by simp_all
  show "2 \<le> length buf" by (rule b(3))
  show "buf ! 0 AND 0x0F = op AND mask 4" "drop_bit 7 (buf ! 0) AND 1 = of_bool eof"
    "unat (buf ! 1 AND 0x7F) = ?n" "(drop_bit 7 (buf ! 1) AND 1 \<noteq> 0) = masked"
    unfolding b(1,2) header_bytes_nth by (rule header_start)+
qed

lemma size_cases:
  fixes sz :: u64
  obtains "sz < 126" "unat sz \<le> 125" | "\<not> sz < 126" "sz < 65536" "unat sz < 65536"
    | "\<not> sz < 126" "\<not> sz < 65536"
  by (cases "sz < 126"; cases "sz < 65536") (simp_all add: word_less_nat_alt)

lemma header_length_word:
  "word_of_nat (header_length masked sz) =
     (if sz < 126 then (if masked then 6 else 2) else if sz < 65536 then (if masked then 8 else 4)
      else (if masked then 14 else 10) :: u64)"
  by (simp add: header_length_def length_part_def)

lemma parse_start:
  assumes first: "take 2 buf = take 2 (fst (encode_ws_header sz op eof deflate masked rnd ws0))"
    and n: "size_read \<noteq> word_of_nat (header_length is_server sz)"
  shows "parse_header buf size_read is_server ws =
    Some (WsIncomplete, saw_start op eof is_server sz size_read ws)"
proof -
  note f = first_bytes [OF first]
  have l: "\<not> length buf < 2" using f(1) by simp
  show ?thesis
    using n unfolding parse_header_def Let_def f(2-5) if_not_P [OF l] header_length_word saw_start_def
    by (cases sz rule: size_cases; cases is_server)
      (simp_all add: len_code_def header_sizes word_gt_0)
qed

lemma parse_complete:
  assumes k: "length (mask_key ws0) = 4"
    and h: "encode_ws_header sz op eof deflate masked rnd ws0 = (h, ws1)"
  shows "parse_header h (word_of_nat (header_length masked sz)) masked ws =
    Some (WsComplete, saw_header op eof masked sz (mask_key ws1) ws)"
proof -
  note f = first_bytes [of h sz op eof deflate masked rnd ws0, unfolded h fst_conv, OF refl]
  define key where "key = mask_key ws1"
  define start where "start = header_bytes op eof deflate
    (if sz < 126 then unat sz else if sz < 65536 then 126 else 127) masked"
  have key: "length key = 4"
    using k h by (auto simp: key_def encode_ws_header_eq Let_def)
  have s: "length start = 2" by (simp add: start_def header_bytes_def)
  have h': "h = start @ be_bytes (length_part sz) (unat sz) @ (if masked then key else [])"
    using h by (auto simp: encode_ws_header_eq start_def key_def Let_def)
  have l: "\<not> length h < 2" using f(1) by simp
  have mask: "parse_mask h masked (2 + length_part sz) w = Some (if left_header_len w = 0 then WsComplete
      else WsIncomplete, w\<lparr>mask_key := if masked then key else mask_key w\<rparr>)" for w :: websocket
    using s key by (simp add: parse_mask_def h' Let_def)
  have len: "take n (drop 2 h) = be_bytes n (unat sz)" if "n = length_part sz" for n
    using s that by (simp add: h')
  have large: "2 + length_part sz \<le> length h" using s by (simp add: h')
  note unfolded = parse_header_def Let_def f(2-5) if_not_P [OF l] header_length_word
    saw_header_def key_def [symmetric]
  show ?thesis
  proof (cases sz rule: size_cases)
    case 1
    with mask have "parse_mask h masked 2 w = Some (if left_header_len w = 0 then WsComplete
        else WsIncomplete, w\<lparr>mask_key := if masked then key else mask_key w\<rparr>)" for w
      by (simp add: length_part_def)
    with 1 show ?thesis
      unfolding unfolded by (cases masked) (simp_all add: len_code_def header_sizes)
  next
    case 2
    with mask have "parse_mask h masked 4 w = Some (if left_header_len w = 0 then WsComplete
        else WsIncomplete, w\<lparr>mask_key := if masked then key else mask_key w\<rparr>)" for w
      by (simp add: length_part_def)
    moreover have "be_nat (take 2 (drop 2 h)) = unat sz" "4 \<le> length h"
      using 2 len [of 2] large by (simp_all add: length_part_def be_nat_be_bytes)
    ultimately show ?thesis
      using 2 unfolding unfolded by (cases masked) (simp_all add: len_code_def header_sizes)
  next
    case 3
    with mask have "parse_mask h masked 10 w = Some (if left_header_len w = 0 then WsComplete
        else WsIncomplete, w\<lparr>mask_key := if masked then key else mask_key w\<rparr>)" for w
      by (simp add: length_part_def)
    moreover have "be_nat (take 8 (drop 2 h)) = unat sz" "10 \<le> length h"
      using 3 len [of 8] large by (simp_all add: length_part_def be_nat_be_bytes)
    ultimately show ?thesis
      using 3 unfolding unfolded by (cases masked) (simp_all add: len_code_def header_sizes)
  qed
qed

text \<open>A masked payload is restored; an unmasked one is left alone if the old key is zero.\<close>

lemma parse_payload_mask:
  assumes "length (mask_key ws) = 4" "unat (payload_length ws) = length data"
  shows "parse_payload (apply_mask (mask_key ws) (length data) data) ws =
    Some (frame_type (msg_opcode ws) (msg_fin ws), data)"
proof (cases "load_u32 (mask_key ws) = 0")
  case True
  with load_u32_zero [OF assms(1)] show ?thesis by (simp add: parse_payload_def apply_mask_zero)
next
  case False
  with assms show ?thesis by (simp add: parse_payload_def apply_mask_twice Let_def)
qed

text \<open>
  A close frame's payload is read back: every status code that RFC 6455 lets an
  endpoint send and every UTF-8 reason survive; every other code, and a reason that is not
  UTF-8, gives the empty close frame.
\<close>
theorem close_payload_roundtrip:
  "parse_close_payload (format_close_payload code reason) =
     (if (1000 \<le> unat code \<and> unat code \<le> 1003 \<or> 1007 \<le> unat code \<and> unat code \<le> 1011 \<or>
          4000 \<le> unat code \<and> unat code \<le> 4999) \<and>
         (\<exists>ns. (\<forall>n \<in> set ns. scalar_value n) \<and> reason = concat (map utf8_encode ns))
      then \<lparr>close_code = unat code, close_message = reason\<rparr> else no_close_frame)"
proof -
  have "be_nat (be_bytes 2 (unat code)) = unat code"
    by (rule be_nat_be_bytes) simp
  then show ?thesis
    unfolding format_close_payload_def parse_close_payload_def is_valid_utf8_spec [symmetric]
    by (auto simp: Let_def)
qed

lemma length_rfc4648_padded: "length (rfc4648_padded alphabet bs) = 4 * ((length bs + 2) div 3)"
proof (induction bs rule: three_induct)
  case (1 x y z bs)
  have "(5 + length bs) div 3 = Suc ((2 + length bs) div 3)" by simp
  with 1 show ?case by (simp add: rfc4648_padded_step)
qed (simp_all add: rfc4648_padded_def rfc4648_tail, simp add: rfc4648_def)

lemma length_fips_sha1: "length (fips_sha1 m) = 20"
  by (simp add: fips_sha1_def split: prod.split)



text \<open>Status code 1000 and the reason \<open>ok\<close>.\<close>

lemma close_payload_roundtrip_witness:
  "parse_close_payload (format_close_payload 1000 [0x6f, 0x6b]) =
     \<lparr>close_code = 1000, close_message = [0x6f, 0x6b]\<rparr>"
proof -
  have "(\<forall>n \<in> set [0x6f, 0x6b]. scalar_value n) \<and>
      [0x6f, 0x6b] = concat (map utf8_encode [0x6f, 0x6b])"
    by (simp add: scalar_value_def utf8_encode_def)
  then have "\<exists>ns. (\<forall>n \<in> set ns. scalar_value n) \<and> [0x6f, 0x6b] = concat (map utf8_encode ns)"
    by blast
  with close_payload_roundtrip [of 1000 "[0x6f, 0x6b]"] show ?thesis by simp
qed

end
