(* ===== verification/CinWsConnection.thy ===== *)
theory CinWsConnection
  imports CinWebsocket
begin

text \<open>
  WebSocket connections of cinatra: \<open>read_websocket\<close> and \<open>write_websocket\<close> of the server
  (\<open>coro_http_connection.hpp\<close>) and \<open>async_read_ws\<close> of the client (\<open>coro_http_client.hpp\<close>), without
  compression. \<open>input\<close> is what the peer sends until it closes; \<open>async_read\<close> of more than is left
  fails. \<open>output\<close> are the buffers written; \<open>writable\<close> says whether writing succeeds. A read
  outside a buffer is the value \<open>None\<close>.
\<close>

section \<open>Server\<close>

datatype ws_errc = WsIo | WsMessageSize | WsProtocol

record websocket_result =
  res_ec :: "ws_errc option"
  res_type :: "ws_frame_type option"
  res_data :: bytes
  res_eof :: bool

record ws_conn =
  conn_ws :: websocket
  head_buf :: bytes
  conn_input :: bytes
  conn_output :: "bytes list"
  writable :: bool
  has_closed :: bool
  max_part_size :: u64

definition no_result :: websocket_result where
  "no_result = \<lparr>res_ec = None, res_type = None, res_data = [], res_eof = False\<rparr>"

definition conn_close :: "ws_conn \<Rightarrow> ws_conn" where
  "conn_close c = c\<lparr>has_closed := True\<rparr>"

text \<open>\<open>async_read(head_buf_, n)\<close> appends to the buffer; \<open>async_read(body_, n)\<close> fills it.\<close>

definition read_head :: "u64 \<Rightarrow> ws_conn \<Rightarrow> ws_conn option" where
  "read_head n c =
     (if unat n \<le> length (conn_input c)
      then Some (c\<lparr>head_buf := head_buf c @ take (unat n) (conn_input c),
                   conn_input := drop (unat n) (conn_input c)\<rparr>) else None)"

definition read_body :: "u64 \<Rightarrow> ws_conn \<Rightarrow> (bytes \<times> ws_conn) option" where
  "read_body n c =
     (if unat n \<le> length (conn_input c)
      then Some (take (unat n) (conn_input c), c\<lparr>conn_input := drop (unat n) (conn_input c)\<rparr>)
      else None)"

definition write_websocket :: "bytes \<Rightarrow> byte \<Rightarrow> bool \<Rightarrow> ws_conn \<Rightarrow> ws_errc option \<times> ws_conn" where
  "write_websocket msg op eof c =
     (if writable c
      then (case encode_ws_header (word_of_nat (length msg)) op eof False False 0 (conn_ws c) of
              (header, ws) \<Rightarrow>
                (None, c\<lparr>conn_ws := ws, conn_output := conn_output c @ [header @ msg]\<rparr>))
      else (Some WsIo, c))"

definition opcode_close :: byte where "opcode_close = 8"
definition opcode_ping :: byte where "opcode_ping = 9"
definition opcode_pong :: byte where "opcode_pong = 10"

text \<open>\<open>"message_too_big"\<close>\<close>

definition too_big_reason :: bytes where
  "too_big_reason = [0x6d, 0x65, 0x73, 0x73, 0x61, 0x67, 0x65, 0x5f, 0x74, 0x6f, 0x6f, 0x5f, 0x62,
     0x69, 0x67]"

text \<open>
  The \<open>switch\<close> over the frame type; \<open>parse_payload\<close> never returns the type whose branch is
  \<open>continue\<close>, which would parse the emptied header buffer.
\<close>

definition dispatch_frame ::
  "ws_frame_type \<Rightarrow> bytes \<Rightarrow> websocket_result \<Rightarrow> ws_conn \<Rightarrow> (websocket_result \<times> ws_conn) option" where
  "dispatch_frame type payload result c =
     map_option (\<lambda>(result, c). (result\<lparr>res_type := Some type\<rparr>, c))
       (case type of
          WS_ERROR_FRAME \<Rightarrow> Some (result\<lparr>res_ec := Some WsProtocol\<rparr>, conn_close c)
        | WS_OPENING_FRAME \<Rightarrow> None
        | WS_INCOMPLETE_TEXT_FRAME \<Rightarrow> Some (result\<lparr>res_eof := False, res_data := payload\<rparr>, c)
        | WS_INCOMPLETE_BINARY_FRAME \<Rightarrow> Some (result\<lparr>res_eof := False, res_data := payload\<rparr>, c)
        | WS_TEXT_FRAME \<Rightarrow> Some (result\<lparr>res_eof := True, res_data := payload\<rparr>, c)
        | WS_BINARY_FRAME \<Rightarrow> Some (result\<lparr>res_eof := True, res_data := payload\<rparr>, c)
        | WS_CLOSE_FRAME \<Rightarrow>
            (let cf = parse_close_payload payload;
                 msg = format_close_payload 1000 (close_message cf);
                 (_, c) = write_websocket msg opcode_close True c
             in Some (result\<lparr>res_eof := True, res_data := close_message cf\<rparr>, conn_close c))
        | WS_PING_FRAME \<Rightarrow>
            (let result = result\<lparr>res_data := payload\<rparr>;
                 (ec, c) = write_websocket payload opcode_pong True c
             in if ec \<noteq> None then Some (result\<lparr>res_ec := ec\<rparr>, conn_close c) else Some (result, c))
        | WS_PONG_FRAME \<Rightarrow>
            (let result = result\<lparr>res_data := payload\<rparr>;
                 (ec, c) = write_websocket payload opcode_ping True c
             in Some (result\<lparr>res_ec := ec\<rparr>, c))
        | _ \<Rightarrow> Some (result, c))"

text \<open>The branch of a complete header.\<close>

definition read_payload :: "websocket_result \<Rightarrow> ws_conn \<Rightarrow> (websocket_result \<times> ws_conn) option" where
  "read_payload result c =
     (let c = c\<lparr>conn_ws := reset_len_bytes (conn_ws c), head_buf := []\<rparr>;
          payload_length = payload_length (conn_ws c)
      in if max_part_size c \<noteq> 0 \<and> payload_length > max_part_size c then
           (let (_, c) = write_websocket (format_close_payload 1009 too_big_reason) opcode_close True c
            in Some (result\<lparr>res_ec := Some WsMessageSize\<rparr>, conn_close c))
         else
           (case (if payload_length > 0 then read_body payload_length c else Some ([], c)) of
              None \<Rightarrow> Some (result\<lparr>res_ec := Some WsIo\<rparr>, conn_close c)
            | Some (payload, c) \<Rightarrow>
                (case parse_payload payload (conn_ws c) of None \<Rightarrow> None
                 | Some (type, payload) \<Rightarrow> dispatch_frame type payload result c)))"

lemma parse_header_incomplete:
  "parse_header buf sz srv ws = Some (WsIncomplete, ws') \<Longrightarrow> left_header_len ws' \<noteq> 0"
  by (auto simp: parse_header_def parse_mask_def Let_def word_gt_0 split: if_splits)

function read_loop :: "websocket_result \<Rightarrow> ws_conn \<Rightarrow> (websocket_result \<times> ws_conn) option" where
  "read_loop result c =
     (case parse_header (head_buf c) (len_bytes (conn_ws c)) True (conn_ws c) of
        None \<Rightarrow> None
      | Some (status, ws) \<Rightarrow>
          if status = WsComplete then read_payload result (c\<lparr>conn_ws := ws\<rparr>)
          else if status = WsIncomplete then
            (case read_head (left_header_len ws) (c\<lparr>conn_ws := ws\<rparr>) of
               None \<Rightarrow> Some (result\<lparr>res_ec := Some WsIo\<rparr>, conn_close (c\<lparr>conn_ws := ws\<rparr>))
             | Some c \<Rightarrow> read_loop result c)
          else Some (result\<lparr>res_ec := Some WsProtocol\<rparr>, conn_close (c\<lparr>conn_ws := ws\<rparr>)))"
  by pat_completeness auto
termination
proof (relation "measure (\<lambda>(result, c). length (conn_input c))", goal_cases)
  case 1
  show ?case by simp
next
  case (2 result c a status ws c')
  then have "parse_header (head_buf c) (len_bytes (conn_ws c)) True (conn_ws c) = Some (WsIncomplete, ws)"
    by simp
  from parse_header_incomplete [OF this] have "0 < unat (left_header_len ws)"
    by (simp add: unat_gt_0)
  with 2 show ?case by (auto simp: read_head_def split: if_splits)
qed

declare read_loop.simps [simp del]

definition read_websocket :: "ws_conn \<Rightarrow> (websocket_result \<times> ws_conn) option" where
  "read_websocket c =
     (case read_head SHORT_HEADER c of
        None \<Rightarrow> Some (no_result\<lparr>res_ec := Some WsIo\<rparr>, conn_close c)
      | Some c \<Rightarrow> read_loop no_result c)"

section \<open>Client\<close>

text \<open>
  \<open>async_read_ws\<close>: a new \<open>websocket\<close> for each call; the payload is not unmasked. The result is
  the body, whether the call succeeded, and the connection; \<open>rnd\<close> is the value of \<open>rand()\<close>.
\<close>

definition client_finish ::
  "bytes \<Rightarrow> u32 \<Rightarrow> websocket \<Rightarrow> ws_conn \<Rightarrow> (bytes \<times> ws_errc option) \<times> ws_conn" where
  "client_finish buf rnd ws c =
     (let is_close_frame = (buf ! 0 AND 0x0F = opcode_close);
          c = c\<lparr>head_buf := []\<rparr>
      in case read_body (payload_length ws) c of
           None \<Rightarrow> (([], Some WsIo), conn_close c)
         | Some (data, c) \<Rightarrow>
             if is_close_frame then
               (let body = (if length data \<ge> 2 then drop 2 data else data);
                    reason = [0x63, 0x6c, 0x6f, 0x73, 0x65];
                    close_str = format_close_payload 1000 reason;
                    (header, _, _) = encode_frame close_str opcode_close True False rnd ws
                in ((body, Some WsIo),
                    conn_close (if writable c
                                then c\<lparr>conn_output := conn_output c @ [header @ reason]\<rparr> else c)))
             else ((data, None), c))"

function client_loop ::
  "u32 \<Rightarrow> websocket \<Rightarrow> ws_conn \<Rightarrow> ((bytes \<times> ws_errc option) \<times> ws_conn) option" where
  "client_loop rnd ws c =
     (case read_head (left_header_len ws) c of
        None \<Rightarrow> Some (([], Some WsIo), conn_close c)
      | Some c \<Rightarrow>
          (case parse_header (head_buf c) (word_of_nat (length (head_buf c))) False ws of
             None \<Rightarrow> None
           | Some (status, ws') \<Rightarrow>
               if status = WsIncomplete then client_loop rnd ws' c
               else if status = WsError then Some (([], Some WsProtocol), conn_close c)
               else Some (client_finish (head_buf c) rnd ws' c)))"
  by pat_completeness auto
termination
proof (relation "measure (\<lambda>(rnd, ws, c). 2 * length (conn_input c) +
    (if left_header_len ws = 0 then 1 else 0))", goal_cases)
  case 1
  show ?case by simp
next
  case (2 rnd ws c c' a status ws')
  then have "parse_header (head_buf c') (word_of_nat (length (head_buf c'))) False ws =
      Some (WsIncomplete, ws')"
    by simp
  from parse_header_incomplete [OF this] have "left_header_len ws' \<noteq> 0" .
  moreover have "unat (left_header_len ws) \<le> length (conn_input c)"
    "conn_input c' = drop (unat (left_header_len ws)) (conn_input c)"
    using 2(1) by (auto simp: read_head_def split: if_splits)
  ultimately show ?case by (cases "left_header_len ws = 0") (auto simp: unat_gt_0 [symmetric])
qed

declare client_loop.simps [simp del]

definition client_read :: "u32 \<Rightarrow> ws_conn \<Rightarrow> ((bytes \<times> ws_errc option) \<times> ws_conn) option" where
  "client_read rnd c = client_loop rnd new_websocket c"

text \<open>\<open>write_websocket\<close> of the client: one frame from a new \<open>websocket\<close>.\<close>

definition client_frame :: "bytes \<Rightarrow> byte \<Rightarrow> bool \<Rightarrow> u32 \<Rightarrow> bytes" where
  "client_frame data op eof rnd =
     (case encode_frame data op eof False rnd new_websocket of (header, body, _) \<Rightarrow> header @ body)"

section \<open>The server reads what the client writes\<close>

definition ready :: "ws_conn \<Rightarrow> bool" where
  "ready c \<longleftrightarrow> head_buf c = [] \<and> len_bytes (conn_ws c) = SHORT_HEADER"

text \<open>The connection after a masked frame's header and payload have been read.\<close>

definition frame_read :: "bytes \<Rightarrow> byte \<Rightarrow> bool \<Rightarrow> bytes \<Rightarrow> bytes \<Rightarrow> ws_conn \<Rightarrow> ws_conn" where
  "frame_read data op eof key sfx c =
     c\<lparr>conn_ws := reset_len_bytes
         (saw_header op eof True (word_of_nat (length data)) key (conn_ws c)),
       head_buf := [], conn_input := sfx\<rparr>"

lemma saw_header_start: "saw_header op eof masked sz key (saw_start op eof srv sz n ws) =
    saw_header op eof masked sz key ws"
  by (simp add: saw_header_def saw_start_def)

lemma len_code_word: "len_code sz = word_of_nat (header_length True sz)"
  by (simp add: len_code_def header_length_word header_sizes)

lemma header_length_bounds: "2 \<le> header_length masked sz" "header_length masked sz \<le> 14"
    "masked \<Longrightarrow> 6 \<le> header_length masked sz"
  by (auto simp: header_length_def length_part_def)

lemma take_id: "n = length xs \<Longrightarrow> take n (xs @ ys) = xs" "n = length xs \<Longrightarrow> drop n (xs @ ys) = ys"
  by simp_all

lemma read_head_step:
  "conn_input c = a @ b \<Longrightarrow> unat n = length a \<Longrightarrow>
   read_head n c = Some (c\<lparr>head_buf := head_buf c @ a, conn_input := b\<rparr>)"
  by (simp add: read_head_def)

lemma read_loop_complete:
  "parse_header (head_buf c) (len_bytes (conn_ws c)) True (conn_ws c) = Some (WsComplete, w) \<Longrightarrow>
   read_loop result c = read_payload result (c\<lparr>conn_ws := w\<rparr>)"
  by (simp add: read_loop.simps [of result c])

lemma read_header:
  assumes c: "ready c" "conn_input c = h @ sfx"
    and k: "length (mask_key ws0) = 4"
    and h: "encode_ws_header sz op eof deflate True rnd ws0 = (h, ws1)"
  shows "read_websocket c = read_payload no_result
    (c\<lparr>conn_ws := saw_header op eof True sz (mask_key ws1) (conn_ws c), head_buf := h,
       conn_input := sfx\<rparr>)"
proof -
  have len: "length h = header_length True sz"
    using length_encode_ws_header [OF k, of sz op eof deflate True rnd] h by simp
  obtain h1 h2 where h12: "h = h1 @ h2" "length h1 = 6"
    using len header_length_bounds(3) [of True sz] append_take_drop_id [of 6 h]
    by (metis (no_types, lifting) length_take min.absorb2)
  let ?c1 = "c\<lparr>head_buf := h1, conn_input := h2 @ sfx\<rparr>"
  have "read_head SHORT_HEADER c = Some ?c1"
    using read_head_step [of c h1 "h2 @ sfx" SHORT_HEADER] c h12
    by (simp add: ready_def header_sizes)
  then have start: "read_websocket c = read_loop no_result ?c1" by (simp add: read_websocket_def)
  note complete = parse_complete [OF k h]
  show ?thesis
  proof (cases "header_length True sz = 6")
    case True
    with h12 len have "h2 = []" by simp
    then have "read_loop no_result ?c1 = read_payload no_result
        (?c1\<lparr>conn_ws := saw_header op eof True sz (mask_key ws1) (conn_ws c)\<rparr>)"
      using complete [of "conn_ws c"] True c h12
      by (subst read_loop.simps) (simp add: ready_def header_sizes)
    moreover have "?c1\<lparr>conn_ws := w\<rparr> = c\<lparr>conn_ws := w, head_buf := h, conn_input := sfx\<rparr>" for w
      by (rule ws_conn.equality) (simp_all add: h12 \<open>h2 = []\<close>)
    ultimately show ?thesis using start by (simp only:)
  next
    case False
    let ?ws = "saw_start op eof True sz SHORT_HEADER (conn_ws c)"
    have hl: "header_length True sz < 2 ^ 64" using header_length_bounds(2) [of True sz] by simp
    have ne: "SHORT_HEADER \<noteq> word_of_nat (header_length True sz)"
    proof
      assume "SHORT_HEADER = word_of_nat (header_length True sz)"
      then have "unat SHORT_HEADER = unat (word_of_nat (header_length True sz) :: u64)" by simp
      with False hl show False by (simp add: header_sizes unat_of_nat_u64)
    qed
    have "take 2 h1 = take 2 (fst (encode_ws_header sz op eof deflate True rnd ws0))"
      using h h12 by simp
    from parse_start [OF this ne] have
      p: "parse_header h1 SHORT_HEADER True (conn_ws c) = Some (WsIncomplete, ?ws)" .
    let ?c2 = "c\<lparr>conn_ws := ?ws, head_buf := h, conn_input := sfx\<rparr>"
    have "unat (word_of_nat (header_length True sz) - SHORT_HEADER) = length h2"
    proof -
      have "header_length True sz = length h2 + 6" using h12 len by simp
      then have "word_of_nat (header_length True sz) - SHORT_HEADER = (word_of_nat (length h2) :: u64)"
        by (simp add: header_sizes)
      moreover have "length h2 < 2 ^ 64" using h12 len hl by simp
      ultimately show ?thesis by (simp add: unat_of_nat_u64)
    qed
    then have "read_head (left_header_len ?ws) (?c1\<lparr>conn_ws := ?ws\<rparr>) = Some ?c2"
      using read_head_step [of "?c1\<lparr>conn_ws := ?ws\<rparr>" h2 sfx "left_header_len ?ws"] h12
      by (simp add: saw_start_def)
    then have "read_loop no_result ?c1 = read_loop no_result ?c2"
      using p c by (simp add: read_loop.simps [of _ ?c1] ready_def)
    also have "\<dots> = read_payload no_result (?c2\<lparr>conn_ws := saw_header op eof True sz (mask_key ws1) ?ws\<rparr>)"
    proof (rule read_loop_complete)
      have "len_bytes ?ws = word_of_nat (header_length True sz)"
        by (simp add: saw_start_def len_code_word)
      then show "parse_header (head_buf ?c2) (len_bytes (conn_ws ?c2)) True (conn_ws ?c2) =
          Some (WsComplete, saw_header op eof True sz (mask_key ws1) ?ws)"
        using complete [of ?ws] by simp
    qed
    also have "?c2\<lparr>conn_ws := w\<rparr> = c\<lparr>conn_ws := w, head_buf := h, conn_input := sfx\<rparr>" for w
      by (rule ws_conn.equality) simp_all
    finally show ?thesis using start by (simp only: saw_header_start)
  qed
qed

lemma read_payload_ok:
  assumes "x = c\<lparr>conn_ws := reset_len_bytes (conn_ws c), head_buf := []\<rparr>"
    and "payload_length (conn_ws x) = sz" "\<not> (max_part_size x \<noteq> 0 \<and> sz > max_part_size x)"
    and "(if sz > 0 then read_body sz x else Some ([], x)) = Some (payload, y)"
    and "parse_payload payload (conn_ws y) = Some (type, data)"
  shows "read_payload result c = dispatch_frame type data result y"
  unfolding read_payload_def Let_def assms(1) [symmetric] assms(2)
  using assms(3-5) by auto

lemma read_masked_frame:
  assumes c: "ready c" "conn_input c = client_frame data op eof rnd @ sfx"
    and n: "length data < 2 ^ 64"
    and m: "max_part_size c = 0 \<or> length data \<le> unat (max_part_size c)"
  shows "\<exists>key. read_websocket c = dispatch_frame (frame_type (op AND mask 4) (of_bool eof)) data
    no_result (frame_read data op eof key sfx c)"
proof -
  define sz :: u64 where "sz = word_of_nat (length data)"
  have sz: "unat sz = length data" using n by (simp add: sz_def unat_of_nat_u64)
  obtain h ws1 where h: "encode_ws_header sz op eof False True rnd new_websocket = (h, ws1)"
    by (cases "encode_ws_header sz op eof False True rnd new_websocket")
  have k0: "length (mask_key new_websocket) = 4" by (simp add: new_websocket_def)
  have k: "length (mask_key ws1) = 4"
    using h by (auto simp: encode_ws_header_eq new_websocket_def Let_def)
  have frame: "client_frame data op eof rnd = h @ apply_mask (mask_key ws1) (length data) data"
    by (simp add: client_frame_def encode_frame_def h sz_def [symmetric] encode_ws_payload_def)
  let ?body = "apply_mask (mask_key ws1) (length data) data"
  let ?c = "c\<lparr>conn_ws := saw_header op eof True sz (mask_key ws1) (conn_ws c), head_buf := h,
    conn_input := ?body @ sfx\<rparr>"
  have start: "read_websocket c = read_payload no_result ?c"
    using read_header [OF c(1) _ k0 h, of "?body @ sfx"] c(2) frame by simp
  let ?w = "reset_len_bytes (saw_header op eof True sz (mask_key ws1) (conn_ws c))"
  have w: "mask_key ?w = mask_key ws1" "payload_length ?w = sz" "msg_opcode ?w = op AND mask 4"
    "msg_fin ?w = of_bool eof"
    by (simp_all add: reset_len_bytes_def saw_header_def)
  have p: "parse_payload ?body ?w = Some (frame_type (op AND mask 4) (of_bool eof), data)"
    using parse_payload_mask [of ?w data] k sz unfolding w by simp
  have m': "\<not> (max_part_size c \<noteq> 0 \<and> sz > max_part_size c)"
    using m sz by (auto simp: word_less_nat_alt)
  have b: "(if sz > 0 then read_body sz (c\<lparr>conn_ws := ?w, head_buf := [], conn_input := ?body @ sfx\<rparr>)
      else Some ([], c\<lparr>conn_ws := ?w, head_buf := [], conn_input := ?body @ sfx\<rparr>)) =
      Some (?body, c\<lparr>conn_ws := ?w, head_buf := [], conn_input := sfx\<rparr>)"
  proof (cases "sz = 0")
    case True
    then have "data = []" using sz by simp
    with True show ?thesis by (simp add: apply_mask_def)
  next
    case False
    then show ?thesis using sz by (simp add: read_body_def word_gt_0)
  qed
  define x where "x = ?c\<lparr>conn_ws := reset_len_bytes (conn_ws ?c), head_buf := []\<rparr>"
  have x: "x = c\<lparr>conn_ws := ?w, head_buf := [], conn_input := ?body @ sfx\<rparr>"
    by (rule ws_conn.equality) (simp_all add: x_def)
  have "read_payload no_result ?c = dispatch_frame (frame_type (op AND mask 4) (of_bool eof)) data
      no_result (c\<lparr>conn_ws := ?w, head_buf := [], conn_input := sfx\<rparr>)"
    by (rule read_payload_ok [OF x_def _ _ b [folded x]]) (use m' p in \<open>simp_all add: x w(2)\<close>)
  with start show ?thesis unfolding frame_read_def sz_def [symmetric] by metis
qed

primrec read_many :: "nat \<Rightarrow> ws_conn \<Rightarrow> (websocket_result list \<times> ws_conn) option" where
  "read_many 0 c = Some ([], c)"
| "read_many (Suc n) c =
     Option.bind (read_websocket c) (\<lambda>(r, c).
       map_option (\<lambda>(rs, c). (r # rs, c)) (read_many n c))"

type_synonym data_frame = "bytes \<times> byte \<times> bool \<times> u32"

definition frame_bytes :: "data_frame \<Rightarrow> bytes" where
  "frame_bytes = (\<lambda>(data, op, eof, rnd). client_frame data op eof rnd)"

definition frame_result :: "data_frame \<Rightarrow> websocket_result" where
  "frame_result = (\<lambda>(data, op, eof, rnd).
     \<lparr>res_ec = None, res_type = Some (frame_type op (of_bool eof)), res_data = data, res_eof = eof\<rparr>)"

definition frame_fits :: "u64 \<Rightarrow> data_frame \<Rightarrow> bool" where
  "frame_fits limit = (\<lambda>(data, op, eof, rnd). op \<in> {0, 1, 2} \<and> length data < 2 ^ 64 \<and>
     (limit = 0 \<or> length data \<le> unat limit))"

lemma data_opcodes: "op \<in> {0, 1, 2} \<Longrightarrow> op AND mask 4 = (op :: byte)"
  by (auto simp: mask_eq_exp_minus_1)

lemma dispatch_data:
  "op \<in> {0, 1, 2} \<Longrightarrow> dispatch_frame (frame_type (op AND mask 4) (of_bool eof)) data no_result c =
     Some (\<lparr>res_ec = None, res_type = Some (frame_type op (of_bool eof)), res_data = data,
       res_eof = eof\<rparr>, c)"
  by (cases eof) (auto simp: data_opcodes frame_type_def dispatch_frame_def no_result_def)

lemma frame_read_simps [simp]:
  "ready (frame_read data op eof key sfx c)"
  "conn_input (frame_read data op eof key sfx c) = sfx"
  "conn_output (frame_read data op eof key sfx c) = conn_output c"
  "has_closed (frame_read data op eof key sfx c) = has_closed c"
  "max_part_size (frame_read data op eof key sfx c) = max_part_size c"
  "writable (frame_read data op eof key sfx c) = writable c"
  by (simp_all add: frame_read_def ready_def reset_len_bytes_def)

text \<open>
  C5 (roundtrip). The server reads what the client writes: every sequence of data frames, with
  payloads of any length below \<open>2^64\<close> and any mask keys, is received frame by frame with its
  payload, its type and its end-of-message flag; nothing behind the last frame is consumed and
  the connection stays open and ready.
\<close>
theorem server_reads_client_frames:
  assumes "ready c" "conn_input c = concat (map frame_bytes fs) @ sfx"
    and "\<forall>f \<in> set fs. frame_fits (max_part_size c) f"
  shows "\<exists>c'. read_many (length fs) c = Some (map frame_result fs, c') \<and> ready c' \<and>
    conn_input c' = sfx \<and> conn_output c' = conn_output c \<and> has_closed c' = has_closed c"
  using assms
proof (induction fs arbitrary: c)
  case Nil
  then show ?case by simp
next
  case (Cons f fs)
  obtain data op eof rnd where f: "f = (data, op, eof, rnd)" by (cases f)
  have fit: "op \<in> {0, 1, 2}" "length data < 2 ^ 64"
    "max_part_size c = 0 \<or> length data \<le> unat (max_part_size c)"
    using Cons.prems(3) by (auto simp: f frame_fits_def)
  have input: "conn_input c = client_frame data op eof rnd @ concat (map frame_bytes fs) @ sfx"
    using Cons.prems(2) by (simp add: f frame_bytes_def)
  from read_masked_frame [OF Cons.prems(1) input fit(2,3)] obtain key where
    r: "read_websocket c = Some (frame_result f,
      frame_read data op eof key (concat (map frame_bytes fs) @ sfx) c)"
    unfolding dispatch_data [OF fit(1)] f frame_result_def by auto
  have "\<exists>c'. read_many (length fs) (frame_read data op eof key (concat (map frame_bytes fs) @ sfx) c) =
      Some (map frame_result fs, c') \<and> ready c' \<and> conn_input c' = sfx \<and>
      conn_output c' = conn_output c \<and> has_closed c' = has_closed c"
    using Cons.IH [of "frame_read data op eof key (concat (map frame_bytes fs) @ sfx) c"] Cons.prems(3)
    by simp
  with r show ?case by auto
qed

definition new_conn :: "bytes \<Rightarrow> ws_conn" where
  "new_conn inp = \<lparr>conn_ws = new_websocket, head_buf = [], conn_input = inp, conn_output = [],
     writable = True, has_closed = False, max_part_size = 0\<rparr>"

lemma ready_new_conn [simp]: "ready (new_conn inp)" "conn_input (new_conn inp) = inp"
    "max_part_size (new_conn inp) = 0" "writable (new_conn inp)" "head_buf (new_conn inp) = []"
  by (simp_all add: ready_def new_conn_def new_websocket_def)

lemma server_reads_client_frames_witness:
  "\<exists>c'. read_many (Suc (Suc 0)) (new_conn (frame_bytes ([0x68, 0x69], 1, False, 77) @
       frame_bytes (replicate 200 0x7a, 0, True, 5) @ [0xff])) =
     Some ([frame_result ([0x68, 0x69], 1, False, 77), frame_result (replicate 200 0x7a, 0, True, 5)], c') \<and>
     conn_input c' = [0xff]"
  using server_reads_client_frames [of "new_conn (frame_bytes ([0x68, 0x69], 1, False, 77) @
       frame_bytes (replicate 200 0x7a, 0, True, 5) @ [0xff])"
     "[([0x68, 0x69], 1, False, 77), (replicate 200 0x7a, 0, True, 5)]" "[0xff]"]
  by (auto simp: frame_fits_def simp del: read_many.simps)

section \<open>The client reads what the server writes\<close>

lemma client_loop_complete:
  "read_head (left_header_len ws) c = Some c' \<Longrightarrow>
   parse_header (head_buf c') (word_of_nat (length (head_buf c'))) False ws = Some (WsComplete, w) \<Longrightarrow>
   client_loop rnd ws c = Some (client_finish (head_buf c') rnd w c')"
  by (simp add: client_loop.simps [of rnd ws c])

lemma client_loop_incomplete:
  "read_head (left_header_len ws) c = Some c' \<Longrightarrow>
   parse_header (head_buf c') (word_of_nat (length (head_buf c'))) False ws = Some (WsIncomplete, w) \<Longrightarrow>
   client_loop rnd ws c = client_loop rnd w c'"
  by (simp add: client_loop.simps [of rnd ws c])

lemma client_reads_header:
  assumes c: "head_buf c = []" "conn_input c = h @ sfx"
    and h: "encode_ws_header sz op eof deflate False rnd0 ws0 = (h, ws1)"
    and k: "length (mask_key ws0) = 4"
  shows "client_read rnd c = Some (client_finish h rnd
    (saw_header op eof False sz [] new_websocket) (c\<lparr>head_buf := h, conn_input := sfx\<rparr>))"
proof -
  have len: "length h = header_length False sz"
    using length_encode_ws_header [OF k, of sz op eof deflate False rnd0] h by simp
  have saw: "saw_header op eof False sz key ws = saw_header op eof False sz [] ws" for key ws
    by (simp add: saw_header_def)
  have complete: "parse_header h (word_of_nat (length h)) False ws =
      Some (WsComplete, saw_header op eof False sz [] ws)" for ws
    using parse_complete [OF k h, of ws] unfolding len saw [of "mask_key ws1"] .
  obtain h1 h2 where h12: "h = h1 @ h2" "length h1 = 2"
    using len header_length_bounds(1) [of False sz] append_take_drop_id [of 2 h]
    by (metis (no_types, lifting) length_take min.absorb2)
  let ?c1 = "c\<lparr>head_buf := h1, conn_input := h2 @ sfx\<rparr>"
  have r1: "read_head (left_header_len new_websocket) c = Some ?c1"
    using read_head_step [of c h1 "h2 @ sfx" 2] c h12 by (simp add: new_websocket_def)
  show ?thesis
  proof (cases "header_length False sz = 2")
    case True
    with h12 len have "h2 = []" by simp
    with client_loop_complete [OF r1, of "saw_header op eof False sz [] new_websocket"] complete h12
    show ?thesis by (simp add: client_read_def)
  next
    case False
    have hl: "header_length False sz < 2 ^ 64" using header_length_bounds(2) [of False sz] by simp
    have ne: "word_of_nat (length h1) \<noteq> (word_of_nat (header_length False sz) :: u64)"
    proof
      assume "word_of_nat (length h1) = (word_of_nat (header_length False sz) :: u64)"
      from arg_cong [OF this, of unat] False hl h12(2) show False by (simp add: unat_of_nat_u64)
    qed
    let ?ws = "saw_start op eof False sz (word_of_nat (length h1)) new_websocket"
    have "take 2 h1 = take 2 (fst (encode_ws_header sz op eof deflate False rnd0 ws0))"
      using h h12 by simp
    from parse_start [OF this ne] have p: "parse_header (head_buf ?c1) (word_of_nat (length (head_buf ?c1)))
        False new_websocket = Some (WsIncomplete, ?ws)"
      by simp
    have "unat (word_of_nat (header_length False sz) - word_of_nat (length h1) :: u64) = length h2"
    proof -
      have "header_length False sz = length h2 + length h1" using h12 len by simp
      then have "word_of_nat (header_length False sz) - word_of_nat (length h1) =
          (word_of_nat (length h2) :: u64)"
        by simp
      moreover have "length h2 < 2 ^ 64" using h12 len hl by simp
      ultimately show ?thesis by (simp add: unat_of_nat_u64)
    qed
    then have r2: "read_head (left_header_len ?ws) ?c1 = Some (?c1\<lparr>head_buf := h, conn_input := sfx\<rparr>)"
      using read_head_step [of ?c1 h2 sfx "left_header_len ?ws"] h12
      by (simp add: saw_start_def)
    from client_loop_complete [OF r2, of "saw_header op eof False sz [] ?ws"] complete [of ?ws]
      client_loop_incomplete [OF r1 p]
    show ?thesis by (simp add: client_read_def saw_header_start)
  qed
qed

lemma opcode_of_header:
  assumes "encode_ws_header sz op eof deflate masked rnd ws0 = (h, ws1)"
  shows "h ! 0 AND 0x0F = op AND mask 4"
  using first_bytes(2) [of h sz op eof deflate masked rnd ws0] assms by simp

text \<open>
  C24 (roundtrip). The client reads what the server writes: one call of \<open>read_websocket\<close> of the
  client returns the payload of one frame that is not a close frame, of any length below
  \<open>2^64\<close>, and leaves the rest of the stream.
\<close>
theorem client_reads_server_frame:
  assumes srv: "write_websocket msg op eof srv = (None, srv')" "length (mask_key (conn_ws srv)) = 4"
    and frame: "conn_output srv' = conn_output srv @ [frame]"
    and cl: "head_buf cl = []" "conn_input cl = frame @ sfx"
    and op: "op AND 0x0F \<noteq> opcode_close" and n: "length msg < 2 ^ 64"
  shows "client_read rnd cl = Some ((msg, None), cl\<lparr>head_buf := [], conn_input := sfx\<rparr>)"
proof -
  let ?sz = "word_of_nat (length msg) :: u64"
  obtain h ws1 where h: "encode_ws_header ?sz op eof False False 0 (conn_ws srv) = (h, ws1)"
    by (cases "encode_ws_header ?sz op eof False False 0 (conn_ws srv)")
  have "frame = h @ msg"
    using srv(1) frame h by (auto simp: write_websocket_def split: if_splits)
  then have "client_read rnd cl = Some (client_finish h rnd
      (saw_header op eof False ?sz [] new_websocket) (cl\<lparr>head_buf := h, conn_input := msg @ sfx\<rparr>))"
    using client_reads_header [OF cl(1) _ h srv(2)] cl(2) by simp
  also have "client_finish h rnd (saw_header op eof False ?sz [] new_websocket)
      (cl\<lparr>head_buf := h, conn_input := msg @ sfx\<rparr>) =
      ((msg, None), cl\<lparr>head_buf := [], conn_input := sfx\<rparr>)"
  proof -
    have "h ! 0 AND 0x0F \<noteq> opcode_close"
      using opcode_of_header [OF h] op by (simp add: ws_masks)
    moreover have "unat ?sz = length msg" using n by (rule unat_of_nat_u64)
    ultimately show ?thesis
      by (simp add: client_finish_def Let_def read_body_def saw_header_def)
  qed
  finally show ?thesis .
qed

text \<open>A server's text frame of two bytes.\<close>

lemma write_websocket_output:
  "writable c \<Longrightarrow> \<exists>c' frame. write_websocket msg op eof c = (None, c') \<and>
     conn_output c' = conn_output c @ [frame]"
  by (auto simp: write_websocket_def split: prod.split)

lemma client_reads_server_frame_witness:
  "\<exists>srv' frame. write_websocket [0x68, 0x69] 1 True (new_conn []) = (None, srv') \<and>
     conn_output srv' = [frame] \<and>
     client_read 5 (new_conn (frame @ [0xff])) =
       Some (([0x68, 0x69], None), (new_conn (frame @ [0xff]))\<lparr>head_buf := [], conn_input := [0xff]\<rparr>)"
proof -
  obtain srv' frame where w: "write_websocket [0x68, 0x69] 1 True (new_conn []) = (None, srv')"
    "conn_output srv' = conn_output (new_conn []) @ [frame]"
    using write_websocket_output [of "new_conn []" "[0x68, 0x69]" 1 True] by auto
  have "client_read 5 (new_conn (frame @ [0xff])) =
      Some (([0x68, 0x69], None), (new_conn (frame @ [0xff]))\<lparr>head_buf := [], conn_input := [0xff]\<rparr>)"
    by (rule client_reads_server_frame [OF w(1) _ w(2)])
      (simp_all add: new_conn_def new_websocket_def opcode_close_def)
  with w show ?thesis by (auto simp: new_conn_def)
qed

section \<open>Closing, and frames that are not masked\<close>

lemma format_close_length: "length (format_close_payload code reason) = length reason + 2"
  by (simp add: format_close_payload_def)

text \<open>The five bytes of the client's close reason.\<close>

definition close_reason :: bytes where
  "close_reason = [0x63, 0x6c, 0x6f, 0x73, 0x65]"

lemma close_header:
  assumes k: "length (mask_key ws) = 4"
  shows "encode_ws_header 7 opcode_close True False True rnd ws =
    (header_bytes opcode_close True False 7 True @ le_bytes 4 (unat rnd),
     ws\<lparr>mask_key := le_bytes 4 (unat rnd)\<rparr>)"
  by (simp add: encode_ws_header_eq length_part_def be_bytes_def Let_def)

lemma close_answer_length: "length (format_close_payload 1000 close_reason) = 7"
  by (simp add: format_close_length close_reason_def)

lemma short_payload:
  assumes "\<not> unat (payload_length (conn_ws c)) \<le> length (conn_input c)" "max_part_size c = 0"
  shows "\<exists>c'. read_payload no_result c = Some (no_result\<lparr>res_ec := Some WsIo\<rparr>, c')"
proof -
  have "payload_length (conn_ws c) \<noteq> 0" using assms(1) by auto
  then have "payload_length (conn_ws c) > 0" by (simp add: word_gt_0)
  with assms show ?thesis by (simp add: read_payload_def Let_def read_body_def reset_len_bytes_def)
qed

text \<open>
  When a client that can write receives a close frame it answers with a frame whose
  header announces the seven bytes of status code and reason, masked, but it sends the five bytes
  of the reason, unmasked. A server that reads this answer waits for two more bytes and ends with
  an I/O error instead of the close frame.
\<close>
theorem client_close_answer_malformed:
  assumes close: "write_websocket msg opcode_close True srv = (None, srv')"
    "length (mask_key (conn_ws srv)) = 4" "conn_output srv' = conn_output srv @ [frame]"
    and cl: "head_buf cl = []" "conn_input cl = frame" "writable cl" "length msg < 2 ^ 64"
    and peer: "ready peer" "max_part_size peer = 0"
  shows "\<exists>header res cl'. client_read rnd cl = Some (res, cl') \<and>
    conn_output cl' = conn_output cl @ [header @ close_reason] \<and>
    header = take (length header) (client_frame (format_close_payload 1000 close_reason) opcode_close True rnd) \<and>
    length header = 6 \<and>
    (\<exists>peer'. read_websocket (peer\<lparr>conn_input := header @ close_reason\<rparr>) =
       Some (no_result\<lparr>res_ec := Some WsIo\<rparr>, peer'))"
proof -
  let ?sz = "word_of_nat (length msg) :: u64"
  obtain h ws1 where h: "encode_ws_header ?sz opcode_close True False False 0 (conn_ws srv) = (h, ws1)"
    by (cases "encode_ws_header ?sz opcode_close True False False 0 (conn_ws srv)")
  have frame: "frame = h @ msg"
    using close(1,3) h by (auto simp: write_websocket_def split: if_splits)
  let ?ws = "saw_header opcode_close True False ?sz [] new_websocket"
  have k: "length (mask_key ?ws) = 4" by (simp add: saw_header_def new_websocket_def)
  define header where "header = header_bytes opcode_close True False 7 True @ le_bytes 4 (unat rnd)"
  have len: "length header = 6" by (simp add: header_def header_bytes_def)
  have read: "client_read rnd cl = Some (client_finish h rnd ?ws (cl\<lparr>head_buf := h, conn_input := msg\<rparr>))"
    using client_reads_header [OF cl(1) _ h close(2), of msg] cl(2) frame by simp
  have op: "h ! 0 AND 0x0F = opcode_close"
    using opcode_of_header [OF h] by (simp add: opcode_close_def mask_eq_exp_minus_1)
  have "unat ?sz = length msg" using cl(4) by (rule unat_of_nat_u64)
  then have "\<exists>res. client_finish h rnd ?ws (cl\<lparr>head_buf := h, conn_input := msg\<rparr>) =
      (res, conn_close (cl\<lparr>head_buf := [], conn_input := [],
         conn_output := conn_output cl @ [header @ close_reason]\<rparr>))"
    using cl(3) op close_answer_length close_header [OF k, of rnd]
    by (simp add: client_finish_def Let_def read_body_def saw_header_def encode_frame_def header_def
        close_reason_def [symmetric])
  then obtain res where res: "client_read rnd cl = Some (res, conn_close (cl\<lparr>head_buf := [],
      conn_input := [], conn_output := conn_output cl @ [header @ close_reason]\<rparr>))"
    using read by auto
  have "client_frame (format_close_payload 1000 close_reason) opcode_close True rnd = header @
      snd (header, encode_ws_payload (format_close_payload 1000 close_reason)
        (new_websocket\<lparr>mask_key := le_bytes 4 (unat rnd)\<rparr>))"
    using close_header [of new_websocket rnd] close_answer_length
    by (simp add: client_frame_def encode_frame_def header_def new_websocket_def)
  then have "header = take (length header)
      (client_frame (format_close_payload 1000 close_reason) opcode_close True rnd)" by simp
  moreover have "\<exists>peer'. read_websocket (peer\<lparr>conn_input := header @ close_reason\<rparr>) =
      Some (no_result\<lparr>res_ec := Some WsIo\<rparr>, peer')"
  proof -
    have rd: "ready (peer\<lparr>conn_input := header @ close_reason\<rparr>)" using peer(1) by (simp add: ready_def)
    have k0: "length (mask_key new_websocket) = 4" by (simp add: new_websocket_def)
    have "conn_input (peer\<lparr>conn_input := header @ close_reason\<rparr>) = header @ close_reason" by simp
    from read_header [OF rd this k0 close_header [OF k0, of rnd, folded header_def]] show ?thesis
      using short_payload by (auto simp: peer(2) saw_header_def close_reason_def)
  qed
  ultimately show ?thesis using res len by (auto simp: conn_close_def)
qed

text \<open>The server closes with the reason \<open>hi\<close> of two bytes of status code.\<close>

lemma client_close_answer_malformed_witness:
  "\<exists>srv' frame. write_websocket [0x03, 0xe8] opcode_close True (new_conn []) = (None, srv') \<and>
     conn_output srv' = [frame] \<and>
     (\<exists>header res cl'. client_read 9 (new_conn frame) = Some (res, cl') \<and>
        conn_output cl' = [header @ close_reason] \<and> length header = 6 \<and>
        (\<exists>peer'. read_websocket (new_conn (header @ close_reason)) =
           Some (no_result\<lparr>res_ec := Some WsIo\<rparr>, peer')))"
proof -
  obtain srv' frame where w: "write_websocket [0x03, 0xe8] opcode_close True (new_conn []) = (None, srv')"
    "conn_output srv' = conn_output (new_conn []) @ [frame]"
    using write_websocket_output [of "new_conn []" "[0x03, 0xe8]" opcode_close True] by auto
  have "\<exists>header res cl'. client_read 9 (new_conn frame) = Some (res, cl') \<and>
      conn_output cl' = conn_output (new_conn frame) @ [header @ close_reason] \<and>
      header = take (length header) (client_frame (format_close_payload 1000 close_reason) opcode_close True 9) \<and>
      length header = 6 \<and>
      (\<exists>peer'. read_websocket ((new_conn [])\<lparr>conn_input := header @ close_reason\<rparr>) =
         Some (no_result\<lparr>res_ec := Some WsIo\<rparr>, peer'))"
    by (rule client_close_answer_malformed [OF w(1) _ w(2)])
      (simp_all add: new_conn_def new_websocket_def ready_def)
  with w show ?thesis by (auto simp: new_conn_def)
qed

text \<open>
  RFC 6455 makes a server close the connection when a frame is not masked. Here the
  server reads the four payload bytes that follow such a header as if they were the mask key and
  drops them: the message it delivers is the announced number of bytes from four bytes further
  on, its end taken from what follows the frame.
\<close>
theorem unmasked_frame_misread:
  assumes c: "ready c" "max_part_size c = 0" "mask_key (conn_ws c) = [0, 0, 0, 0]"
    and h: "encode_ws_header (word_of_nat (length data)) op True False False 0 ws0 = (h, ws1)"
    and inp: "conn_input c = h @ data @ sfx"
    and n: "length data < 126" "4 \<le> length sfx" and op: "op \<in> {0, 1, 2}"
  shows "\<exists>r c'. read_websocket c = Some (r, c') \<and> res_ec r = None \<and>
    res_data r = take (length data) (drop 4 (data @ sfx)) \<and> has_closed c' = has_closed c"
proof -
  let ?sz = "word_of_nat (length data) :: u64"
  have sz: "unat ?sz = length data" using n(1) by (simp add: unat_of_nat)
  have small: "?sz < 126" using n(1) sz by (simp add: word_less_nat_alt)
  have len: "length h = 2"
    using h small by (auto simp: encode_ws_header_eq length_part_def header_bytes_def Let_def be_bytes_def)
  let ?rest = "data @ sfx"
  let ?buf = "h @ take 4 ?rest"
  let ?c1 = "c\<lparr>head_buf := ?buf, conn_input := drop 4 ?rest\<rparr>"
  have "conn_input c = ?buf @ drop 4 ?rest"
    using inp append_take_drop_id [of 4 ?rest] by (simp only: append_assoc)
  moreover have "length ?buf = 6" using len n(2) by simp
  ultimately have "read_head SHORT_HEADER c = Some ?c1"
    using read_head_step [of c ?buf "drop 4 ?rest" SHORT_HEADER] c(1)
    by (simp add: ready_def header_sizes)
  then have start: "read_websocket c = read_loop no_result ?c1" by (simp add: read_websocket_def)
  define w where "w = (conn_ws c)\<lparr>msg_opcode := op AND mask 4, msg_fin := 1,
    len_bytes := SHORT_HEADER, payload_length := ?sz, left_header_len := 0\<rparr>"
  have "take 2 ?buf = take 2 (fst (encode_ws_header ?sz op True False False 0 ws0))"
    using h len by simp
  note f = first_bytes [OF this]
  have "parse_header ?buf SHORT_HEADER True (conn_ws c) = Some (WsComplete, w)"
    unfolding parse_header_def Let_def f(2-5) if_not_P [OF f(1) [unfolded not_less [symmetric]]] w_def
    using small sz n(1) by (simp add: header_sizes parse_mask_def)
  then have loop: "read_loop no_result ?c1 = read_payload no_result (?c1\<lparr>conn_ws := w\<rparr>)"
    using c(1) by (intro read_loop_complete) (simp add: ready_def)
  let ?body = "take (length data) (drop 4 ?rest)"
  define x where "x = (?c1\<lparr>conn_ws := w\<rparr>)\<lparr>conn_ws := reset_len_bytes (conn_ws (?c1\<lparr>conn_ws := w\<rparr>)), head_buf := []\<rparr>"
  define y where "y = x\<lparr>conn_input := drop (length data) (drop 4 ?rest)\<rparr>"
  have b: "(if ?sz > 0 then read_body ?sz x else Some ([], x)) = Some (?body, y)"
  proof (cases "data = []")
    case True
    then show ?thesis by (simp add: y_def x_def)
  next
    case False
    then have "?sz \<noteq> 0" using sz by auto
    then have "?sz > 0" by (simp add: word_gt_0)
    then show ?thesis using sz n(2) by (simp add: read_body_def y_def x_def)
  qed
  have p: "parse_payload ?body (conn_ws y) = Some (frame_type (op AND mask 4) (of_bool True), ?body)"
    using c(3) by (simp add: y_def x_def w_def reset_len_bytes_def parse_payload_def load_u32_def)
  have "read_payload no_result (?c1\<lparr>conn_ws := w\<rparr>) =
      dispatch_frame (frame_type (op AND mask 4) (of_bool True)) ?body no_result y"
    by (rule read_payload_ok [OF x_def _ _ b p])
      (use c(2) in \<open>simp_all add: x_def w_def reset_len_bytes_def\<close>)
  then show ?thesis
    using start loop dispatch_data [OF op, of True ?body y] by (simp add: y_def x_def)
qed

text \<open>The text \<open>hello!\<close>, followed by four bytes of the next frame.\<close>

lemma unmasked_frame_misread_witness:
  "\<exists>h r c'. fst (encode_ws_header 6 1 True False False 0 new_websocket) = h \<and>
     read_websocket (new_conn (h @ [0x68, 0x65, 0x6c, 0x6c, 0x6f, 0x21] @ [0x81, 0x01, 0x78, 0x81])) =
       Some (r, c') \<and> res_ec r = None \<and> res_data r = [0x6f, 0x21, 0x81, 0x01, 0x78, 0x81]"
proof -
  let ?data = "[0x68, 0x65, 0x6c, 0x6c, 0x6f, 0x21] :: bytes" and ?sfx = "[0x81, 0x01, 0x78, 0x81] :: bytes"
  obtain h ws1 where h: "encode_ws_header (word_of_nat (length ?data)) 1 True False False 0 new_websocket =
      (h, ws1)"
    by (cases "encode_ws_header (word_of_nat (length ?data)) 1 True False False 0 new_websocket")
  have "\<exists>r c'. read_websocket (new_conn (h @ ?data @ ?sfx)) = Some (r, c') \<and> res_ec r = None \<and>
      res_data r = take (length ?data) (drop 4 (?data @ ?sfx)) \<and>
      has_closed c' = has_closed (new_conn (h @ ?data @ ?sfx))"
    by (rule unmasked_frame_misread [OF _ _ _ h]) (simp_all add: new_conn_def new_websocket_def ready_def)
  with h show ?thesis by auto
qed

end
