(* ===== verification/CioCircleBuffer.thy ===== *)
theory CioCircleBuffer
  imports Prelude
begin

text \<open>
  The ring buffer of \<open>coro_io/detail/circle_buffer.hpp\<close>: the assertions \<open>!full()\<close> and
  \<open>!empty()\<close> are preconditions that only a debug build checks, so \<open>push\<close> and \<open>pop\<close> are defined
  without them. An element that was moved out stays in its slot and is never looked at again.

  The interface \<open>bounded_queue\<close> is what the users of such a buffer rely on; its client facts are
  proved once and used through the interpretation on the ring buffer.
\<close>

section \<open>The buffer\<close>

record 'a circle_buffer =
  queue :: "'a list"
  front_idx :: nat
  end_idx :: nat
  may_empty :: bool

definition make_buffer :: "nat \<Rightarrow> 'a \<Rightarrow> 'a circle_buffer" where
  "make_buffer n x = \<lparr>queue = replicate n x, front_idx = 0, end_idx = 0, may_empty = True\<rparr>"

definition cb_push :: "'a \<Rightarrow> 'a circle_buffer \<Rightarrow> 'a circle_buffer" where
  "cb_push x b =
     (let e = (end_idx b + 1) mod length (queue b)
      in b\<lparr>may_empty := False, end_idx := e, queue := (queue b)[e := x]\<rparr>)"

definition cb_pop :: "'a circle_buffer \<Rightarrow> 'a \<times> 'a circle_buffer" where
  "cb_pop b =
     (let f = (front_idx b + 1) mod length (queue b)
      in (queue b ! f, b\<lparr>front_idx := f, may_empty := True\<rparr>))"

definition cb_back :: "'a circle_buffer \<Rightarrow> 'a" where
  "cb_back b = queue b ! end_idx b"

definition cb_front :: "'a circle_buffer \<Rightarrow> 'a" where
  "cb_front b = queue b ! ((front_idx b + 1) mod length (queue b))"

definition cb_full :: "'a circle_buffer \<Rightarrow> bool" where
  "cb_full b \<longleftrightarrow> end_idx b = front_idx b \<and> \<not> may_empty b"

definition cb_empty :: "'a circle_buffer \<Rightarrow> bool" where
  "cb_empty b \<longleftrightarrow> end_idx b = front_idx b \<and> may_empty b"

definition cb_size :: "'a circle_buffer \<Rightarrow> nat" where
  "cb_size b =
     (if front_idx b > end_idx b then length (queue b) + end_idx b - front_idx b
      else if front_idx b = end_idx b then (if cb_empty b then 0 else length (queue b))
      else end_idx b - front_idx b)"

section \<open>The interface\<close>

locale bounded_queue =
  fixes push :: "'e \<Rightarrow> 's \<Rightarrow> 's" and pop :: "'s \<Rightarrow> 'e \<times> 's"
    and contents :: "'s \<Rightarrow> 'e list" and capacity :: "'s \<Rightarrow> nat" and ok :: "'s \<Rightarrow> bool"
  assumes push_ok: "ok s \<Longrightarrow> length (contents s) < capacity s \<Longrightarrow>
      ok (push x s) \<and> contents (push x s) = contents s @ [x] \<and> capacity (push x s) = capacity s"
    and pop_ok: "ok s \<Longrightarrow> contents s = x # xs \<Longrightarrow>
      fst (pop s) = x \<and> ok (snd (pop s)) \<and> contents (snd (pop s)) = xs \<and>
      capacity (snd (pop s)) = capacity s"
begin

lemma push_all:
  "ok s \<Longrightarrow> length (contents s) + length xs \<le> capacity s \<Longrightarrow>
   ok (foldl (\<lambda>s x. push x s) s xs) \<and>
   contents (foldl (\<lambda>s x. push x s) s xs) = contents s @ xs \<and>
   capacity (foldl (\<lambda>s x. push x s) s xs) = capacity s"
proof (induction xs arbitrary: s)
  case (Cons x xs)
  have one: "ok (push x s) \<and> contents (push x s) = contents s @ [x] \<and> capacity (push x s) = capacity s"
    by (rule push_ok) (use Cons.prems in simp_all)
  have "ok (foldl (\<lambda>s x. push x s) (push x s) xs) \<and>
      contents (foldl (\<lambda>s x. push x s) (push x s) xs) = contents (push x s) @ xs \<and>
      capacity (foldl (\<lambda>s x. push x s) (push x s) xs) = capacity (push x s)"
    by (rule Cons.IH) (use one Cons.prems in simp_all)
  with one show ?case by simp
qed simp

end

section \<open>The buffer implements it\<close>

text \<open>The slots from the one behind \<open>front_idx\<close> to \<open>end_idx\<close>, around the end of the vector.\<close>

definition cb_contents :: "'a circle_buffer \<Rightarrow> 'a list" where
  "cb_contents b =
     map (\<lambda>i. queue b ! ((front_idx b + 1 + i) mod length (queue b))) [0..<cb_size b]"

definition cb_ok :: "'a circle_buffer \<Rightarrow> bool" where
  "cb_ok b \<longleftrightarrow> front_idx b < length (queue b) \<and> end_idx b < length (queue b)"

definition cb_capacity :: "'a circle_buffer \<Rightarrow> nat" where
  "cb_capacity b = length (queue b)"

lemma length_cb_contents [simp]: "length (cb_contents b) = cb_size b"
  by (simp add: cb_contents_def)

lemma cb_size_le: "cb_ok b \<Longrightarrow> cb_size b \<le> length (queue b)"
  by (auto simp: cb_ok_def cb_size_def)

lemma cb_full_size: "cb_ok b \<Longrightarrow> cb_full b \<longleftrightarrow> cb_size b = length (queue b)"
  by (auto simp: cb_ok_def cb_size_def cb_full_def cb_empty_def)

lemma cb_empty_size: "cb_ok b \<Longrightarrow> cb_empty b \<longleftrightarrow> cb_size b = 0"
  by (auto simp: cb_ok_def cb_size_def cb_empty_def)

text \<open>The last element is always at \<open>end_idx\<close>.\<close>

lemma cb_end: "cb_ok b \<Longrightarrow> end_idx b = (front_idx b + cb_size b) mod length (queue b)"
  by (auto simp: cb_ok_def cb_size_def mod_if)

lemma Suc_mod_lt: "e < n \<Longrightarrow> Suc e mod n = (if Suc e = n then 0 else Suc e)"
  by auto

lemma cb_size_push:
  "cb_ok b \<Longrightarrow> \<not> cb_full b \<Longrightarrow> cb_size (cb_push x b) = Suc (cb_size b)"
  by (auto simp: cb_ok_def cb_size_def cb_push_def cb_full_def cb_empty_def Let_def Suc_mod_lt
      split: if_splits)

lemma cb_size_pop:
  "cb_ok b \<Longrightarrow> \<not> cb_empty b \<Longrightarrow> Suc (cb_size (snd (cb_pop b))) = cb_size b"
  by (auto simp: cb_ok_def cb_size_def cb_pop_def cb_empty_def Let_def Suc_mod_lt split: if_splits)

lemma slot_inj: "i < n \<Longrightarrow> j < n \<Longrightarrow> (a + i) mod n = (a + j) mod n \<Longrightarrow> i = (j :: nat)"
proof (induction i j rule: linorder_wlog)
  case (le i j)
  then have "n dvd (a + j) - (a + i)" using mod_eq_dvd_iff_nat [of "a + i" "a + j" n] by simp
  then have "n dvd j - i" by simp
  with le show ?case by (auto dest: dvd_imp_le)
next
  case (sym j i)
  then show ?case by metis
qed

lemma cb_contents_push:
  assumes b: "cb_ok b" and "\<not> cb_full b"
  shows "cb_contents (cb_push x b) = cb_contents b @ [x]"
proof -
  let ?n = "length (queue b)" and ?e = "(end_idx b + 1) mod length (queue b)"
  have n: "0 < ?n" "cb_size b < ?n"
    using assms cb_full_size [OF b] cb_size_le [OF b] by (auto simp: cb_ok_def)
  have e: "?e = (front_idx b + 1 + cb_size b) mod ?n"
    using cb_end [OF b] by (simp add: mod_simps)
  have old: "?e \<noteq> (front_idx b + 1 + i) mod ?n" if "i < cb_size b" for i
    using slot_inj [of i ?n "cb_size b" "front_idx b + 1"] that n e by auto
  have "cb_size (cb_push x b) = Suc (cb_size b)" by (rule cb_size_push [OF assms])
  then show ?thesis
    using old e n by (simp add: cb_contents_def cb_push_def Let_def)
qed

lemma cb_contents_pop:
  assumes b: "cb_ok b" and "\<not> cb_empty b"
  shows "cb_contents b = fst (cb_pop b) # cb_contents (snd (cb_pop b))"
proof -
  obtain k where k: "cb_size b = Suc k" "cb_size (snd (cb_pop b)) = k"
    using cb_size_pop [OF assms] by simp
  have up: "[0..<Suc k] = 0 # map Suc [0..<k]" by (simp add: upt_conv_Cons map_Suc_upt del: upt_Suc)
  have "((front_idx b + 1) mod length (queue b) + 1 + i) mod length (queue b) =
      (front_idx b + 1 + Suc i) mod length (queue b)" for i
    using mod_add_left_eq [of "Suc (front_idx b)" "length (queue b)" "Suc i"] by simp
  then show ?thesis
    using k by (simp add: cb_contents_def cb_pop_def Let_def up del: upt_Suc)
qed

interpretation ring: bounded_queue cb_push cb_pop cb_contents cb_capacity cb_ok
proof unfold_locales
  fix b :: "'a circle_buffer" and x
  assume b: "cb_ok b" and "length (cb_contents b) < cb_capacity b"
  then have "\<not> cb_full b" by (simp add: cb_full_size cb_capacity_def)
  then show "cb_ok (cb_push x b) \<and> cb_contents (cb_push x b) = cb_contents b @ [x] \<and>
      cb_capacity (cb_push x b) = cb_capacity b"
    using b cb_contents_push [OF b]
    by (auto simp: cb_ok_def cb_push_def cb_capacity_def Let_def intro!: mod_less_divisor)
next
  fix b :: "'a circle_buffer" and x xs
  assume b: "cb_ok b" and c: "cb_contents b = x # xs"
  then have "length (cb_contents b) \<noteq> 0" by simp
  then have "\<not> cb_empty b" using b by (simp add: cb_empty_size)
  from cb_contents_pop [OF b this] c b
  show "fst (cb_pop b) = x \<and> cb_ok (snd (cb_pop b)) \<and> cb_contents (snd (cb_pop b)) = xs \<and>
      cb_capacity (snd (cb_pop b)) = cb_capacity b"
    by (auto simp: cb_ok_def cb_pop_def cb_capacity_def Let_def intro!: mod_less_divisor)
qed

section \<open>Any use of the buffer\<close>

datatype 'a queue_op = Push 'a | Pop

text \<open>The elements that come out; \<open>None\<close> when an assertion fails.\<close>

fun cb_run :: "'a queue_op list \<Rightarrow> 'a circle_buffer \<Rightarrow> 'a list option" where
  "cb_run [] b = Some []"
| "cb_run (Push x # ops) b = (if cb_full b then None else cb_run ops (cb_push x b))"
| "cb_run (Pop # ops) b =
     (if cb_empty b then None
      else (case cb_pop b of (x, b') \<Rightarrow> map_option ((#) x) (cb_run ops b')))"

fun fifo_run :: "nat \<Rightarrow> 'a queue_op list \<Rightarrow> 'a list \<Rightarrow> 'a list option" where
  "fifo_run n [] xs = Some []"
| "fifo_run n (Push x # ops) xs = (if length xs = n then None else fifo_run n ops (xs @ [x]))"
| "fifo_run n (Pop # ops) xs =
     (case xs of [] \<Rightarrow> None | x # xs' \<Rightarrow> map_option ((#) x) (fifo_run n ops xs'))"

lemma cb_run_fifo: "cb_ok b \<Longrightarrow> cb_run ops b = fifo_run (cb_capacity b) ops (cb_contents b)"
proof (induction ops arbitrary: b)
  case (Cons op ops)
  show ?case
  proof (cases op)
    case (Push x)
    show ?thesis
    proof (cases "cb_full b")
      case True
      with Push Cons.prems show ?thesis by (simp add: cb_full_size cb_capacity_def)
    next
      case False
      then have "length (cb_contents b) < cb_capacity b"
        using Cons.prems cb_size_le [of b] by (simp add: cb_full_size cb_capacity_def)
      from ring.push_ok [OF Cons.prems this, of x] Cons.IH [of "cb_push x b"] Push False this
      show ?thesis by simp
    qed
  next
    case Pop
    show ?thesis
    proof (cases "cb_contents b")
      case Nil
      then have "cb_empty b" using Cons.prems cb_empty_size [of b] length_cb_contents [of b] by simp
      with Pop Nil show ?thesis by simp
    next
      case (Cons x xs)
      then have "\<not> cb_empty b" using Cons.prems cb_empty_size [of b] length_cb_contents [of b] by simp
      with ring.pop_ok [OF \<open>cb_ok b\<close> Cons] Cons.IH [of "snd (cb_pop b)"] Pop Cons
      show ?thesis by (simp add: case_prod_unfold)
    qed
  qed
qed simp

text \<open>
  C20 (refinement). The ring buffer is a bounded FIFO queue: for every sequence of pushes and
  pops, starting from a new buffer of \<open>n\<close> slots, the operations are allowed (\<open>full\<close> and \<open>empty\<close>
  say no) exactly when they are on a list of at most \<open>n\<close> elements, and the popped elements are
  those of the list.
\<close>
theorem circle_buffer_is_fifo:
  assumes "0 < n"
  shows "cb_run ops (make_buffer n x) = fifo_run n ops []"
proof -
  have "cb_ok (make_buffer n x)" "cb_capacity (make_buffer n x) = n"
    "cb_contents (make_buffer n x) = []"
    using assms
    by (simp_all add: cb_ok_def make_buffer_def cb_capacity_def cb_contents_def cb_size_def
        cb_empty_def)
  with cb_run_fifo [of "make_buffer n x" ops] show ?thesis by simp
qed

theorem circle_buffer_is_fifo_witness:
  "cb_run [Push 1, Push 2, Pop, Push 3, Pop, Push 4, Pop] (make_buffer 2 (0 :: int)) = Some [1, 2, 3] \<and>
   cb_run [Push 1, Push 2, Push 3] (make_buffer 2 (0 :: int)) = None"
  by (simp add: circle_buffer_is_fifo del: cb_run.simps)

end
