(* ===== verification/CioClientPool.thy ===== *)
theory CioClientPool
  imports Prelude "HOL-Library.Multiset"
begin

text \<open>
  The queue of idle connections (\<open>coro_io/detail/client_queue.hpp\<close>) and the pool that uses two
  of them (\<open>coro_io/client_pool.hpp\<close>).

  The lock-free queue underneath is \<open>util/concurrentqueue.h\<close>, used here for one operation at a
  time, as a list that is appended at the end and taken from at the front. The index 0 or 1
  of a queue is a \<open>bool\<close>. \<open>pl\<close> is \<open>get_pipeline_size\<close>, the number of requests a connection is
  waiting for, and is 0 for the clients that do not have it.
\<close>

section \<open>The client queue\<close>

record 'c client_queue =
  queues :: "bool \<Rightarrow> 'c list"
  sizes :: "bool \<Rightarrow> u64"
  selected :: bool

definition new_client_queue :: "'c client_queue" where
  "new_client_queue = \<lparr>queues = (\<lambda>_. []), sizes = (\<lambda>_. 0), selected = False\<rparr>"

definition cq_size :: "'c client_queue \<Rightarrow> u64" where
  "cq_size q = sizes q False + sizes q True"

definition reselect :: "'c client_queue \<Rightarrow> 'c client_queue" where
  "reselect q = q\<lparr>selected := \<not> selected q\<rparr>"

definition raw_enqueue :: "bool \<Rightarrow> 'c \<Rightarrow> 'c client_queue \<Rightarrow> 'c client_queue" where
  "raw_enqueue i c q = q\<lparr>queues := (queues q)(i := queues q i @ [c])\<rparr>"

text \<open>\<open>alloc\<close> says whether the queue below gets the memory for another element.\<close>

definition cq_enqueue :: "bool \<Rightarrow> 'c \<Rightarrow> 'c client_queue \<Rightarrow> u64 \<times> 'c client_queue" where
  "cq_enqueue alloc c q =
     (let i = selected q; cnt = sizes q i + 1;
          q1 = q\<lparr>sizes := (sizes q)(i := cnt)\<rparr>
      in if alloc then (cnt, raw_enqueue i c q1)
         else (0, q1\<lparr>sizes := (sizes q1)(i := sizes q1 i - 1)\<rparr>))"

definition try_dequeue_connect_reuse_impl ::
  "('c \<Rightarrow> nat) \<Rightarrow> 'c \<Rightarrow> bool \<Rightarrow> 'c client_queue \<Rightarrow> 'c \<times> 'c client_queue" where
  "try_dequeue_connect_reuse_impl pl c i q =
     (let (c', q') =
        (if pl c \<ge> 10 \<and> sizes q i > 1 then
           (case queues q i of [] \<Rightarrow> (c, q)
            | c2 # cs \<Rightarrow>
                let q1 = q\<lparr>queues := (queues q)(i := cs)\<rparr>
                in if pl c2 < pl c then (c2, raw_enqueue i c q1) else (c, raw_enqueue i c2 q1))
         else (c, q))
      in (c', q'\<lparr>sizes := (sizes q')(i := sizes q' i - 1)\<rparr>))"

definition cq_try_dequeue :: "('c \<Rightarrow> nat) \<Rightarrow> 'c client_queue \<Rightarrow> 'c option \<times> 'c client_queue" where
  "cq_try_dequeue pl q =
     (let from = (\<lambda>i cs c. let q1 = q\<lparr>queues := (queues q)(i := cs)\<rparr>
                           in map_prod Some id (try_dequeue_connect_reuse_impl pl c i q1))
      in case queues q (selected q) of
           c # cs \<Rightarrow> from (selected q) cs c
         | [] \<Rightarrow> (case queues q (\<not> selected q) of c # cs \<Rightarrow> from (\<not> selected q) cs c
                 | [] \<Rightarrow> (None, q)))"

text \<open>
  The loop of \<open>clear_old\<close>: at most \<open>n\<close> clients leave the queue; those still in use are kept
  aside. The result is the number of iterations, the kept clients and what is left.
\<close>

fun clear_loop :: "('c \<Rightarrow> nat) \<Rightarrow> nat \<Rightarrow> 'c list \<Rightarrow> nat \<times> 'c list \<times> 'c list" where
  "clear_loop pl 0 cs = (0, [], cs)"
| "clear_loop pl (Suc n) [] = (0, [], [])"
| "clear_loop pl (Suc n) (c # cs) =
     (case clear_loop pl n cs of
        (cnt, busy, left) \<Rightarrow> (Suc cnt, if pl c \<noteq> 0 then c # busy else busy, left))"

definition clear_old ::
  "('c \<Rightarrow> nat) \<Rightarrow> nat \<Rightarrow> 'c client_queue \<Rightarrow> (bool \<times> nat) \<times> 'c client_queue" where
  "clear_old pl max_clear_cnt q =
     (let i = (\<not> selected q);
          (clear_cnt, busy, left) = clear_loop pl max_clear_cnt (queues q i);
          real = clear_cnt - length busy
      in ((clear_cnt < max_clear_cnt, real),
          q\<lparr>queues := (queues q)(i := left @ busy),
            sizes := (sizes q)(selected q := sizes q (selected q) - of_nat real)\<rparr>))"

text \<open>What the pool does with a queue, one operation after the other.\<close>

inductive cq_step :: "'c client_queue \<Rightarrow> 'c client_queue \<Rightarrow> bool" where
  enqueue: "cq_step q (snd (cq_enqueue alloc c q))"
| dequeue: "cq_step q (snd (cq_try_dequeue pl q))"
| reselect: "cq_step q (reselect q)"
| clear: "cq_step q (snd (clear_old pl n q))"

inductive cq_reachable :: "'c client_queue \<Rightarrow> bool" where
  start: "cq_reachable new_client_queue"
| step: "cq_reachable q \<Longrightarrow> cq_step q q' \<Longrightarrow> cq_reachable q'"

inductive_cases cq_stepE: "cq_step q q'"

section \<open>Facts\<close>

definition clients_of :: "'c client_queue \<Rightarrow> 'c list" where
  "clients_of q = queues q False @ queues q True"

lemma clients_of_update:
  "mset (clients_of (q\<lparr>queues := (queues q)(i := cs)\<rparr>)) = mset cs + mset (queues q (\<not> i))"
  by (cases i) (simp_all add: clients_of_def)

lemma clients_of_split: "mset (clients_of q) = mset (queues q i) + mset (queues q (\<not> i))"
  by (cases i) (simp_all add: clients_of_def)

lemma sizes_update_sum:
  "cq_size (q\<lparr>sizes := (sizes q)(i := s)\<rparr>) = cq_size q + (s - sizes q i)"
  by (cases i) (simp_all add: cq_size_def)

lemma length_clear_loop:
  "clear_loop pl n cs = (cnt, busy, left) \<Longrightarrow>
     mset left + mset busy + {#c \<in># mset (take cnt cs). pl c = 0#} = mset cs \<and>
     length busy \<le> cnt \<and> cnt \<le> n \<and> length cs = cnt + length left \<and>
     (\<forall>c \<in> set busy. pl c \<noteq> 0)"
  by (induction pl n cs arbitrary: cnt busy left rule: clear_loop.induct)
    (auto split: prod.splits if_splits)

lemma enqueue_facts:
  "cq_size (snd (cq_enqueue alloc c q)) = cq_size q + of_bool alloc"
  "mset (clients_of (snd (cq_enqueue alloc c q))) =
     mset (clients_of q) + (if alloc then {#c#} else {#})"
  by (cases "selected q"; simp add: cq_enqueue_def raw_enqueue_def cq_size_def clients_of_def Let_def)+

lemma reuse_facts:
  assumes "try_dequeue_connect_reuse_impl pl c i q = (c', q')"
  shows "cq_size q' = cq_size q - 1" "add_mset c (mset (clients_of q)) = add_mset c' (mset (clients_of q'))"
  using assms
  by (cases i; auto simp: try_dequeue_connect_reuse_impl_def raw_enqueue_def cq_size_def clients_of_def
      Let_def split: if_splits list.splits)+

lemma dequeue_facts:
  assumes "cq_try_dequeue pl q = (r, q')"
  shows "mset (clients_of q) = mset (clients_of q') + (case r of None \<Rightarrow> {#} | Some c \<Rightarrow> {#c#})"
    and "cq_size q' = cq_size q - (if r = None then 0 else 1)"
    and "r = None \<longleftrightarrow> clients_of q = []"
proof -
  have *: "mset (clients_of q) = add_mset c' (mset (clients_of q2)) \<and> cq_size q2 = cq_size q - 1"
    if "queues q i = c # cs"
      and "try_dequeue_connect_reuse_impl pl c i (q\<lparr>queues := (queues q)(i := cs)\<rparr>) = (c', q2)"
    for i c cs c' q2
    using reuse_facts [OF that(2)] clients_of_split [of q i] clients_of_update [of q i cs] that(1)
    by (simp add: cq_size_def)
  have "mset (clients_of q) = mset (clients_of q') + (case r of None \<Rightarrow> {#} | Some c \<Rightarrow> {#c#}) \<and>
      cq_size q' = cq_size q - (if r = None then 0 else 1) \<and> (r = None \<longleftrightarrow> clients_of q = [])"
  proof (cases "queues q (selected q)")
    case (Cons c cs)
    have "clients_of q \<noteq> []" using Cons by (cases "selected q") (simp_all add: clients_of_def)
    with Cons assms * [OF Cons] show ?thesis
      by (auto simp: cq_try_dequeue_def Let_def map_prod_def split: prod.splits)
  next
    case Nil
    show ?thesis
    proof (cases "queues q (\<not> selected q)")
      case Nil': Nil
      with Nil assms show ?thesis
        by (cases "selected q") (auto simp: cq_try_dequeue_def clients_of_def Let_def)
    next
      case (Cons c cs)
      have "clients_of q \<noteq> []" using Cons by (cases "selected q") (simp_all add: clients_of_def)
      with Nil Cons assms * [OF Cons] show ?thesis
        by (auto simp: cq_try_dequeue_def Let_def map_prod_def split: prod.splits)
    qed
  qed
  then show "mset (clients_of q) = mset (clients_of q') + (case r of None \<Rightarrow> {#} | Some c \<Rightarrow> {#c#})"
    "cq_size q' = cq_size q - (if r = None then 0 else 1)" "r = None \<longleftrightarrow> clients_of q = []"
    by blast+
qed

lemma clear_facts:
  assumes "clear_old pl n q = ((all, real), q')"
  shows "cq_size q' = cq_size q - of_nat real"
    and "\<exists>gone. mset (clients_of q) = mset (clients_of q') + gone \<and> size gone = real \<and>
      (\<forall>c \<in># gone. pl c = 0)"
proof -
  let ?i = "\<not> selected q"
  obtain cnt busy left where l: "clear_loop pl n (queues q ?i) = (cnt, busy, left)"
    by (metis prod_cases3)
  let ?gone = "{#c \<in># mset (take cnt (queues q ?i)). pl c = 0#}"
  note f = length_clear_loop [OF l]
  have q': "q' = q\<lparr>queues := (queues q)(?i := left @ busy),
      sizes := (sizes q)(selected q := sizes q (selected q) - of_nat real)\<rparr>"
    and real: "real = cnt - length busy"
    using assms l by (auto simp: clear_old_def Let_def)
  show "cq_size q' = cq_size q - of_nat real"
    unfolding q' by (cases "selected q") (simp_all add: cq_size_def)
  have "mset (clients_of q') = mset left + mset busy + mset (queues q (selected q))"
    unfolding q' by (cases "selected q") (simp_all add: clients_of_def)
  moreover have "mset (clients_of q) = mset (queues q ?i) + mset (queues q (selected q))"
    using clients_of_split [of q ?i] by simp
  moreover have "mset (queues q ?i) = mset left + mset busy + ?gone" using f by simp
  ultimately have m: "mset (clients_of q) = mset (clients_of q') + ?gone"
    by (simp only: ac_simps)
  have "length left + length busy + size ?gone = length (queues q ?i)"
    using arg_cong [of _ _ size, OF conjunct1 [OF f]] by simp
  then have "size ?gone = real" using f real by linarith
  with m show "\<exists>gone. mset (clients_of q) = mset (clients_of q') + gone \<and> size gone = real \<and>
      (\<forall>c \<in># gone. pl c = 0)" by (intro exI [of _ ?gone]) simp
qed

lemma reselect_facts:
  "cq_size (reselect q) = cq_size q" "mset (clients_of (reselect q)) = mset (clients_of q)"
  by (simp_all add: reselect_def cq_size_def clients_of_def)

definition cq_total :: "'c client_queue \<Rightarrow> bool" where
  "cq_total q \<longleftrightarrow> cq_size q = of_nat (length (clients_of q))"

lemma mset_size_eq: "mset xs = mset ys + M \<Longrightarrow> length xs = length ys + size M"
  by (metis size_mset size_union)

lemma cq_total_enqueue: "cq_total q \<Longrightarrow> cq_total (snd (cq_enqueue alloc c q))"
  using enqueue_facts [of alloc c q] mset_size_eq [OF enqueue_facts(2) [of alloc c q]]
  by (simp add: cq_total_def)

lemma cq_total_dequeue: "cq_total q \<Longrightarrow> cq_total (snd (cq_try_dequeue pl q))"
proof -
  assume q: "cq_total q"
  obtain r q' where d: "cq_try_dequeue pl q = (r, q')" by (cases "cq_try_dequeue pl q")
  from dequeue_facts [OF d] mset_size_eq [OF dequeue_facts(1) [OF d]] q d
  show ?thesis by (auto simp: cq_total_def split: option.splits)
qed

lemma cq_total_clear: "cq_total q \<Longrightarrow> cq_total (snd (clear_old pl n q))"
proof -
  assume q: "cq_total q"
  obtain b real q' where c: "clear_old pl n q = ((b, real), q')" by (metis prod.collapse)
  from clear_facts(2) [OF c] obtain gone where
    "mset (clients_of q) = mset (clients_of q') + gone" "size gone = real" by blast
  from mset_size_eq [OF this(1)] this(2) clear_facts(1) [OF c] q c
  show ?thesis by (simp add: cq_total_def)
qed

lemma cq_total_reselect: "cq_total q \<Longrightarrow> cq_total (reselect q)"
  using reselect_facts [of q] mset_size_eq [of "clients_of (reselect q)" "clients_of q" "{#}"]
  by (simp add: cq_total_def)

text \<open>
  \<open>size()\<close> of a client queue is the number of clients in it, modulo
  \<open>2^64\<close>, in every state that any sequence of its operations reaches, also when allocations
  fail and whatever the pipeline sizes are.
\<close>
theorem client_queue_size:
  assumes "cq_reachable q"
  shows "cq_size q = of_nat (length (clients_of q))"
proof -
  have "cq_total q"
    using assms
  proof (induction rule: cq_reachable.induct)
    case start
    show ?case by (simp add: cq_total_def new_client_queue_def cq_size_def clients_of_def)
  next
    case (step q q')
    from step.hyps(2) show ?case
      by (rule cq_stepE)
        (use step.IH in \<open>auto intro: cq_total_enqueue cq_total_dequeue cq_total_clear cq_total_reselect\<close>)
  qed
  then show ?thesis by (simp add: cq_total_def)
qed

theorem client_queue_size_witness:
  "cq_size (snd (cq_enqueue True (5 :: nat) new_client_queue)) = 1"
  using client_queue_size [OF cq_reachable.step [OF cq_reachable.start cq_step.enqueue
      [of new_client_queue True "5 :: nat"]]]
  by (simp add: cq_enqueue_def new_client_queue_def raw_enqueue_def clients_of_def Let_def)

text \<open>
  \<open>clear_old\<close> decreases the wrong one of the two counters: it takes clients
  from the queue that is not selected and subtracts their number from the counter of the
  selected one. After one idle client has been cleared, both queues are empty, but the
  counters are 1 and \<open>2^64 - 1\<close>, and the next \<open>enqueue\<close>, which succeeds, returns 0, the
  value that stands for failure.
\<close>
theorem clear_old_wrong_counter:
  "let q1 = reselect (snd (cq_enqueue True c new_client_queue));
       ((all, real), q2) = clear_old (\<lambda>_. 0) 1000 q1
   in all \<and> real = 1 \<and> clients_of q2 = [] \<and> sizes q2 False = 1 \<and> sizes q2 True = - 1 \<and>
     fst (cq_enqueue True c q2) = 0"
  by (simp add: clear_old_def cq_enqueue_def new_client_queue_def raw_enqueue_def reselect_def
      clients_of_def Let_def eval_nat_numeral)

section \<open>The pool\<close>

text \<open>
  Connections are numbered; \<open>inusing\<close> are those handed out by \<open>get_client\<close>. \<open>fresh\<close> is the
  connection that \<open>init_config\<close> and \<open>reconnect\<close> give when both queues are empty, if they
  succeed. Not modelled: waiting times, the DNS cache and the alive detection.
\<close>

record 'c pool =
  max_connection :: nat
  free_clients :: "'c client_queue"
  short_connect_clients :: "'c client_queue"
  inusing :: "'c multiset"
  is_alive :: bool

definition new_pool :: "nat \<Rightarrow> 'c pool" where
  "new_pool n = \<lparr>max_connection = n, free_clients = new_client_queue,
     short_connect_clients = new_client_queue, inusing = {#}, is_alive = True\<rparr>"

definition get_client :: "('c \<Rightarrow> nat) \<Rightarrow> 'c option \<Rightarrow> 'c pool \<Rightarrow> 'c option \<times> 'c pool" where
  "get_client pl fresh p =
     (let (r, fq) = cq_try_dequeue pl (free_clients p);
          p1 = p\<lparr>free_clients := fq\<rparr>;
          (r, p2) = (case r of Some c \<Rightarrow> (Some c, p1)
                     | None \<Rightarrow>
                         let (r', sq) = cq_try_dequeue pl (short_connect_clients p1)
                         in (r', p1\<lparr>short_connect_clients := sq\<rparr>));
          r = (case r of Some c \<Rightarrow> Some c | None \<Rightarrow> fresh)
      in (r, p2\<lparr>inusing := inusing p2 + (case r of None \<Rightarrow> {#} | Some c \<Rightarrow> {#c#})\<rparr>))"

definition collect_free_client :: "bool \<Rightarrow> bool \<Rightarrow> bool \<Rightarrow> 'c \<Rightarrow> 'c pool \<Rightarrow> 'c pool" where
  "collect_free_client too_old closed alloc c p =
     (let p1 = p\<lparr>inusing := inusing p - {#c#}\<rparr>
      in if too_old \<or> closed then p1
         else if unat (cq_size (free_clients p1)) < max_connection p1
         then p1\<lparr>free_clients := snd (cq_enqueue alloc c (free_clients p1)), is_alive := True\<rparr>
         else p1\<lparr>short_connect_clients := snd (cq_enqueue alloc c (short_connect_clients p1)),
                is_alive := True\<rparr>)"

definition pool_clients :: "'c pool \<Rightarrow> 'c multiset" where
  "pool_clients p =
     mset (clients_of (free_clients p)) + mset (clients_of (short_connect_clients p)) + inusing p"

text \<open>Steps: a request takes a client, a client comes back, the two collectors.\<close>

inductive pool_step :: "'c pool \<Rightarrow> 'c pool \<Rightarrow> bool" where
  get: "(\<forall>c. fresh = Some c \<longrightarrow> c \<notin># pool_clients p) \<Longrightarrow> pool_step p (snd (get_client pl fresh p))"
| collect: "c \<in># inusing p \<Longrightarrow> pool_step p (collect_free_client too_old closed alloc c p)"
| clear_free: "pool_step p (p\<lparr>free_clients := snd (clear_old pl n (free_clients p))\<rparr>)"
| clear_short: "pool_step p
    (p\<lparr>short_connect_clients := snd (clear_old pl n (short_connect_clients p))\<rparr>)"
| reselect_free: "pool_step p (p\<lparr>free_clients := reselect (free_clients p)\<rparr>)"
| reselect_short: "pool_step p (p\<lparr>short_connect_clients := reselect (short_connect_clients p)\<rparr>)"

inductive pool_reachable :: "nat \<Rightarrow> 'c pool \<Rightarrow> bool" for n where
  start: "pool_reachable n (new_pool n)"
| step: "pool_reachable n p \<Longrightarrow> pool_step p p' \<Longrightarrow> pool_reachable n p'"

definition pool_inv :: "nat \<Rightarrow> 'c pool \<Rightarrow> bool" where
  "pool_inv n p \<longleftrightarrow> max_connection p = n \<and> cq_total (free_clients p) \<and>
     length (clients_of (free_clients p)) \<le> n \<and> (\<forall>c. count (pool_clients p) c \<le> 1)"

lemma clients_of_new [simp]: "clients_of new_client_queue = []"
  by (simp add: clients_of_def new_client_queue_def)

lemma pool_inv_new: "pool_inv n (new_pool n)"
  by (simp add: pool_inv_def new_pool_def pool_clients_def cq_total_def)
    (simp add: new_client_queue_def cq_size_def)

lemma pool_inv_get:
  assumes inv: "pool_inv n p" and fresh: "\<And>c. fresh = Some c \<Longrightarrow> c \<notin># pool_clients p"
  shows "pool_inv n (snd (get_client pl fresh p))"
proof -
  obtain r fq where f: "cq_try_dequeue pl (free_clients p) = (r, fq)" by fastforce
  obtain r' sq where s: "cq_try_dequeue pl (short_connect_clients p) = (r', sq)" by fastforce
  note ff = dequeue_facts [OF f] and sf = dequeue_facts [OF s]
  have tot: "cq_total fq" using cq_total_dequeue [of "free_clients p" pl] inv f by (simp add: pool_inv_def)
  have len: "length (clients_of fq) \<le> n"
    using mset_size_eq [OF ff(1)] inv by (simp add: pool_inv_def)
  let ?p' = "snd (get_client pl fresh p)"
  have cl: "pool_clients ?p' = pool_clients p \<or>
      (\<exists>c. fresh = Some c \<and> pool_clients ?p' = add_mset c (pool_clients p))"
    using f s ff(1,3) sf(1,3)
    by (auto simp: get_client_def pool_clients_def Let_def split: option.splits)
  have "max_connection ?p' = n" "free_clients ?p' = fq"
    using f s inv by (auto simp: get_client_def pool_inv_def Let_def split: option.splits prod.splits)
  moreover have "count (pool_clients ?p') c \<le> 1" for c
    using cl inv fresh by (auto simp: pool_inv_def count_eq_zero_iff)
  ultimately show ?thesis using tot len by (simp add: pool_inv_def)
qed

lemma pool_inv_collect:
  assumes inv: "pool_inv n p" and c: "c \<in># inusing p" and n: "n < 2 ^ 64"
  shows "pool_inv n (collect_free_client too_old closed alloc c p)"
proof -
  let ?f = "free_clients p"
  have "length (clients_of ?f) < 2 ^ 64" using inv n by (simp add: pool_inv_def)
  then have sz: "unat (cq_size ?f) = length (clients_of ?f)"
    using inv by (simp add: pool_inv_def cq_total_def unat_of_nat)
  let ?p' = "collect_free_client too_old closed alloc c p"
  have less: "count (pool_clients ?p') d \<le> count (pool_clients p) d" for d
    using c enqueue_facts(2) [of alloc c ?f] enqueue_facts(2) [of alloc c "short_connect_clients p"]
    by (auto simp: collect_free_client_def pool_clients_def Let_def)
  have "length (clients_of (free_clients ?p')) \<le> n"
    using inv sz mset_size_eq [OF enqueue_facts(2) [of alloc c ?f]]
    by (auto simp: collect_free_client_def pool_inv_def Let_def)
  moreover have "cq_total (free_clients ?p')" "max_connection ?p' = n"
    using inv cq_total_enqueue by (auto simp: collect_free_client_def pool_inv_def Let_def)
  moreover have "count (pool_clients ?p') d \<le> 1" for d
    using le_trans [OF less] inv by (simp add: pool_inv_def)
  ultimately show ?thesis by (simp add: pool_inv_def)
qed

lemma pool_inv_shrink:
  assumes inv: "pool_inv n p" and "mset (clients_of fq) \<subseteq># mset (clients_of (free_clients p))"
    and "mset (clients_of sq) \<subseteq># mset (clients_of (short_connect_clients p))" and "cq_total fq"
  shows "pool_inv n (p\<lparr>free_clients := fq, short_connect_clients := sq\<rparr>)"
proof -
  let ?p' = "p\<lparr>free_clients := fq, short_connect_clients := sq\<rparr>"
  have "pool_clients ?p' \<subseteq># pool_clients p"
    using assms(2,3) by (simp add: pool_clients_def subset_mset.add_mono)
  then have "count (pool_clients ?p') c \<le> 1" for c
    using inv le_trans [OF mset_subset_eq_count] by (fastforce simp: pool_inv_def)
  moreover have "length (clients_of fq) \<le> n"
    using size_mset_mono [OF assms(2)] inv by (simp add: pool_inv_def)
  ultimately show ?thesis using inv assms(4) by (simp add: pool_inv_def)
qed

lemma clear_subset: "mset (clients_of (snd (clear_old pl n q))) \<subseteq># mset (clients_of q)"
  using clear_facts(2) [of pl n q] by (cases "clear_old pl n q"; cases "fst (clear_old pl n q)") auto

lemma pool_inv_step:
  assumes "pool_step p p'" "pool_inv n p" "n < 2 ^ 64"
  shows "pool_inv n p'"
  using assms(1)
proof (cases rule: pool_step.cases)
  case (get fresh pl)
  with pool_inv_get [OF assms(2)] show ?thesis by blast
next
  case (collect c too_old closed alloc)
  with pool_inv_collect [OF assms(2) _ assms(3)] show ?thesis by simp
next
  case (clear_free pl m)
  then show ?thesis
    using pool_inv_shrink [OF assms(2) clear_subset subset_mset.order_refl]
      cq_total_clear [of "free_clients p"] assms(2) by (fastforce simp: pool_inv_def)
next
  case (clear_short pl m)
  then show ?thesis
    using pool_inv_shrink [OF assms(2) subset_mset.order_refl clear_subset] assms(2)
    by (fastforce simp: pool_inv_def)
next
  case reselect_free
  then show ?thesis
    using pool_inv_shrink [OF assms(2), of "reselect (free_clients p)" "short_connect_clients p"]
      cq_total_reselect [of "free_clients p"] reselect_facts(2) [of "free_clients p"] assms(2)
    by (simp add: pool_inv_def)
next
  case reselect_short
  then show ?thesis
    using pool_inv_shrink [OF assms(2), of "free_clients p" "reselect (short_connect_clients p)"]
      reselect_facts(2) [of "short_connect_clients p"] assms(2)
    by (simp add: pool_inv_def)
qed



end
