(* ===== verification/CioLoadBalancer.thy ===== *)
theory CioLoadBalancer
  imports Prelude
begin

text \<open>
  The policies of \<open>coro_io/load_balancer.hpp\<close>: round robin over a 32-bit counter that wraps,
  weighted round robin, and the loop of \<open>send_request\<close> that asks the policy again while the
  selected pool is not alive. The random policy is a number from outside and is not modelled.
\<close>

section \<open>Round robin\<close>

definition rr_next :: "nat \<Rightarrow> u32 \<Rightarrow> nat \<times> u32" where
  "rr_next n index = (unat index mod n, index + 1)"

text \<open>The \<open>do ... while (!client_pool->is_alive() && ++cnt <= size() * 2)\<close> of \<open>send_request\<close>.\<close>

function select_pool :: "nat \<Rightarrow> (nat \<Rightarrow> bool) \<Rightarrow> ('s \<Rightarrow> nat \<times> 's) \<Rightarrow> nat \<Rightarrow> 's \<Rightarrow> nat \<times> 's" where
  "select_pool n alive worker cnt s =
     (case worker s of
        (p, s') \<Rightarrow>
          if \<not> alive p \<and> cnt + 1 \<le> n * 2 then select_pool n alive worker (cnt + 1) s' else (p, s'))"
  by pat_completeness auto
termination
  by (relation "measure (\<lambda>(n, alive, worker, cnt, s). n * 2 - cnt)") auto

declare select_pool.simps [simp del]

definition choose_pool :: "nat \<Rightarrow> (nat \<Rightarrow> bool) \<Rightarrow> ('s \<Rightarrow> nat \<times> 's) \<Rightarrow> 's \<Rightarrow> nat \<times> 's" where
  "choose_pool n alive worker s = (if n > 1 then select_pool n alive worker 0 s else (0, s))"

lemma rr_finds:
  assumes "alive (unat (index + of_nat j) mod n)" "cnt + j \<le> n * 2"
  shows "alive (fst (select_pool n alive (rr_next n) cnt index))"
  using assms
proof (induction j arbitrary: cnt index)
  case 0
  then show ?case by (subst select_pool.simps) (simp add: rr_next_def)
next
  case (Suc j)
  show ?case
  proof (cases "alive (unat index mod n)")
    case True
    then show ?thesis by (subst select_pool.simps) (simp add: rr_next_def)
  next
    case False
    have "alive (fst (select_pool n alive (rr_next n) (cnt + 1) (index + 1)))"
      by (rule Suc.IH) (use Suc.prems in \<open>simp_all add: add.commute add.left_commute\<close>)
    with False Suc.prems show ?thesis
      by (subst select_pool.simps) (simp add: rr_next_def)
  qed
qed

text \<open>
  Round robin finds a pool that is alive whenever there is one, from every value
  of the counter, also when the counter wraps at \<open>2^32\<close> in between (where the order of the
  pools is broken): the \<open>2 n + 1\<close> attempts of \<open>send_request\<close> suffice for up to \<open>2^31\<close> pools.
\<close>
theorem round_robin_finds_alive:
  assumes k: "k < n" "alive k" and n: "n < 2 ^ 31"
  shows "alive (fst (choose_pool n alive (rr_next n) index))"
proof (cases "n > 1")
  case False
  with k(1) have "k = 0" by linarith
  with False k(2) show ?thesis by (simp add: choose_pool_def)
next
  case n1: True
  have lt: "unat index < 2 ^ 32" using unsigned_less [of index, where 'a = nat] by simp
  have "\<exists>j \<le> n * 2. unat (index + of_nat j) mod n = k"
  proof (cases "unat index + n \<le> 2 ^ 32")
    case True
    let ?j = "(k + n - unat index mod n) mod n"
    have j: "?j < n" using k by simp
    then have "unat index + ?j < 2 ^ 32" using True by simp
    then have "unat (index + of_nat ?j) = unat index + ?j" using n j
      by (simp add: unat_word_ariths unat_of_nat)
    moreover have "(unat index + ?j) mod n = k"
    proof -
      have "(unat index + ?j) mod n = (unat index mod n + (k + n - unat index mod n)) mod n"
        by (simp add: mod_simps)
      also have "\<dots> = (k + n) mod n"
        using k(1) mod_less_divisor [of n "unat index"] by (intro arg_cong [where f = "\<lambda>x. x mod n"]) linarith
      finally show ?thesis using k(1) by simp
    qed
    ultimately show ?thesis using j by (intro exI [of _ ?j]) simp
  next
    case False
    let ?j = "2 ^ 32 - unat index + k"
    have "?j \<le> n * 2" using False k(1) by linarith
    moreover have "unat (index + of_nat ?j) = k"
    proof -
      have "unat (of_nat ?j :: u32) = ?j"
        unfolding unat_of_nat by (rule mod_less) (use False k(1) n lt in simp)
      then have "unat (index + of_nat ?j) = (unat index + ?j) mod 2 ^ 32"
        by (simp add: unat_word_ariths)
      also have "unat index + ?j = 2 ^ 32 + k" using lt by linarith
      finally show ?thesis using k(1) n by simp
    qed
    ultimately show ?thesis using k(1) by (intro exI [of _ ?j]) simp
  qed
  with rr_finds [of alive index _ n 0] k(2) n1 show ?thesis by (auto simp: choose_pool_def)
qed

theorem round_robin_finds_alive_witness:
  "fst (choose_pool 3 (\<lambda>i. i = 1) (rr_next 3) 0xFFFFFFFF) = 1"
  using round_robin_finds_alive [where k = 1 and n = 3 and alive = "\<lambda>i. i = 1"] by simp

section \<open>Weighted round robin\<close>

text \<open>\<open>get_max_weight_gcd\<close> and \<open>get_max_weight\<close>.\<close>

definition get_max_weight_gcd :: "int list \<Rightarrow> int" where
  "get_max_weight_gcd ws = foldl (\<lambda>res w. gcd (max res w) (min res w)) (hd ws) ws"

definition get_max_weight :: "int list \<Rightarrow> int" where
  "get_max_weight ws = Max (set ws)"

text \<open>
  \<open>select_host_with_weight_round_robin\<close>, a \<open>while (true)\<close>: the state is \<open>wrr_current_\<close>, which
  starts at -1, and \<open>weight_current_\<close>. The result is the index (or -1) and the new state.
\<close>

partial_function (option) select_host :: "int list \<Rightarrow> int \<Rightarrow> int \<Rightarrow> (int \<times> int \<times> int) option" where
  "select_host ws current weight =
     (let i = (current + 1) mod int (length ws);
          w = (if i \<noteq> 0 then weight
               else if weight - get_max_weight_gcd ws \<le> 0 then get_max_weight ws
               else weight - get_max_weight_gcd ws)
      in if i = 0 \<and> weight - get_max_weight_gcd ws \<le> 0 \<and> w = 0 then Some (-1, i, w)
         else if ws ! nat i \<ge> w then Some (i, i, w)
         else select_host ws i w)"

text \<open>\<open>operator()\<close>: -1 counts as 0, and the selection is written back.\<close>

definition wrr_next :: "int list \<Rightarrow> int \<times> int \<Rightarrow> (nat \<times> int \<times> int) option" where
  "wrr_next ws st =
     (case select_host ws (fst st) (snd st) of None \<Rightarrow> None
      | Some (sel, i, w) \<Rightarrow>
          let sel = (if sel = -1 then 0 else sel) in Some (nat sel mod length ws, sel, w))"

primrec wrr_run :: "int list \<Rightarrow> nat \<Rightarrow> int \<times> int \<Rightarrow> nat list option" where
  "wrr_run ws 0 st = Some []"
| "wrr_run ws (Suc k) st =
     (case wrr_next ws st of None \<Rightarrow> None
      | Some (p, st') \<Rightarrow> map_option ((#) p) (wrr_run ws k st'))"

definition wrr_start :: "int \<times> int" where
  "wrr_start = (-1, 0)"

subsection \<open>One selection\<close>

text \<open>Inside a lap the next server with enough weight is selected.\<close>

lemma select_host_lap:
  assumes "c < j" "j < length ws" "ws ! j \<ge> w" "\<forall>i. c < i \<longrightarrow> i < j \<longrightarrow> ws ! i < w"
  shows "select_host ws (int c) w = Some (int j, int j, w)"
  using assms
proof (induction "j - c" arbitrary: c)
  case 0
  then show ?case by simp
next
  case (Suc d)
  have m: "(int c + 1) mod int (length ws) = int (c + 1)" using Suc.prems by simp
  show ?case
  proof (cases "c + 1 = j")
    case True
    have "select_host ws (int c) w = Some (int (c + 1), int (c + 1), w)"
      unfolding select_host.simps [of ws "int c" w] Let_def m using Suc.prems True by auto
    with True show ?thesis by simp
  next
    case False
    then have "ws ! (c + 1) < w" using Suc.prems by simp
    then have "select_host ws (int c) w = select_host ws (int (c + 1)) w"
      unfolding select_host.simps [of ws "int c" w] Let_def m by (simp add: nat_add_distrib)
    moreover have "select_host ws (int (c + 1)) w = Some (int j, int j, w)"
      by (rule Suc.hyps(1)) (use Suc.hyps(2) Suc.prems False in auto)
    ultimately show ?thesis by simp
  qed
qed

text \<open>At the end of a lap the next one starts, at the next weight.\<close>

definition at_end :: "int list \<Rightarrow> int \<times> int \<Rightarrow> bool" where
  "at_end ws st \<longleftrightarrow> fst st = -1 \<or>
     (0 \<le> fst st \<and> fst st < int (length ws) \<and>
      (\<forall>i. fst st < int i \<longrightarrow> i < length ws \<longrightarrow> ws ! i < snd st))"

definition next_weight :: "int list \<Rightarrow> int \<Rightarrow> int" where
  "next_weight ws w =
     (if w - get_max_weight_gcd ws \<le> 0 then get_max_weight ws else w - get_max_weight_gcd ws)"

lemma select_host_wrap:
  assumes "ws \<noteq> []" "at_end ws (c, w)"
  shows "select_host ws c w =
    (if w - get_max_weight_gcd ws \<le> 0 \<and> get_max_weight ws = 0 then Some (-1, 0, 0)
     else if ws ! 0 \<ge> next_weight ws w then Some (0, 0, next_weight ws w)
     else select_host ws 0 (next_weight ws w))"
proof -
  have zero: "select_host ws c w =
    (if w - get_max_weight_gcd ws \<le> 0 \<and> get_max_weight ws = 0 then Some (-1, 0, 0)
     else if ws ! 0 \<ge> next_weight ws w then Some (0, 0, next_weight ws w)
     else select_host ws 0 (next_weight ws w))" if "(c + 1) mod int (length ws) = 0" for c
    unfolding select_host.simps [of ws c w] Let_def that by (auto simp: next_weight_def)
  show ?thesis
  proof (cases "c = -1")
    case True
    then show ?thesis by (intro zero) simp
  next
    case False
    then obtain k where k: "c = int k" "k < length ws"
      "\<forall>i. k < i \<longrightarrow> i < length ws \<longrightarrow> ws ! i < w"
      using assms(2) by (auto simp: at_end_def intro: that [of "nat c"])
    show ?thesis
      using k
    proof (induction "length ws - k" arbitrary: k c rule: less_induct)
      case less
      show ?case
      proof (cases "k + 1 = length ws")
        case True
        then have "(int k + 1) mod int (length ws) = 0" by (metis mod_self of_nat_1 of_nat_add)
        then show ?thesis unfolding less.prems(1) by (rule zero)
      next
        case False
        then have m: "(int k + 1) mod int (length ws) = int (k + 1)" using less.prems by simp
        have "ws ! (k + 1) < w" using less.prems False by simp
        then have "select_host ws c w = select_host ws (int (k + 1)) w"
          unfolding less.prems(1) select_host.simps [of ws "int k" w] Let_def m
          by (simp add: nat_add_distrib)
        also have "\<dots> = (if w - get_max_weight_gcd ws \<le> 0 \<and> get_max_weight ws = 0 then Some (-1, 0, 0)
            else if ws ! 0 \<ge> next_weight ws w then Some (0, 0, next_weight ws w)
            else select_host ws 0 (next_weight ws w))"
          by (rule less.hyps [of "k + 1"]) (use less.prems False in auto)
        finally show ?thesis .
      qed
    qed
  qed
qed


subsection \<open>A whole lap\<close>

definition lap :: "int list \<Rightarrow> int \<Rightarrow> nat list" where
  "lap ws w = filter (\<lambda>i. ws ! i \<ge> w) [0..<length ws]"

lemma wrr_next_Some:
  "select_host ws c w = Some (int j, int j, w') \<Longrightarrow> j < length ws \<Longrightarrow>
   wrr_next ws (c, w) = Some (j, int j, w')"
  by (simp add: wrr_next_def Let_def)

lemma filter_upt_Cons:
  assumes "filter P [a..<n] = j # js"
  shows "a \<le> j \<and> j < n \<and> P j \<and> (\<forall>i. a \<le> i \<longrightarrow> i < j \<longrightarrow> \<not> P i) \<and> js = filter P [Suc j..<n]"
  using assms
proof (induction "n - a" arbitrary: a)
  case 0
  then show ?case by simp
next
  case (Suc d)
  then have an: "a < n" by simp
  show ?case
  proof (cases "P a")
    case True
    with Suc.prems an show ?thesis by (auto simp: upt_conv_Cons)
  next
    case False
    with Suc.prems an have "filter P [Suc a..<n] = j # js" by (simp add: upt_conv_Cons)
    with Suc.hyps(1) [of "Suc a"] Suc.hyps(2) have
      "Suc a \<le> j \<and> j < n \<and> P j \<and> (\<forall>i. Suc a \<le> i \<longrightarrow> i < j \<longrightarrow> \<not> P i) \<and> js = filter P [Suc j..<n]"
      by simp
    with False show ?thesis by (metis Suc_leD le_antisym not_less_eq_eq)
  qed
qed

text \<open>The rest of a lap, from a server in it.\<close>

lemma run_rest:
  assumes "c < length ws"
  shows "\<exists>e. at_end ws (e, w) \<and> (\<forall>k. wrr_run ws (length (filter (\<lambda>i. ws ! i \<ge> w) [Suc c..<length ws]) + k)
      (int c, w) =
    map_option (\<lambda>xs. filter (\<lambda>i. ws ! i \<ge> w) [Suc c..<length ws] @ xs) (wrr_run ws k (e, w)))"
  using assms
proof (induction "filter (\<lambda>i. ws ! i \<ge> w) [Suc c..<length ws]" arbitrary: c)
  case Nil
  then have "\<forall>i. c < i \<longrightarrow> i < length ws \<longrightarrow> ws ! i < w"
    by (auto simp: filter_empty_conv Suc_le_eq not_le dest!: sym [of "[]"])
  then have "at_end ws (int c, w)" using Nil by (simp add: at_end_def)
  moreover have "wrr_run ws (length (filter (\<lambda>i. ws ! i \<ge> w) [Suc c..<length ws]) + k) (int c, w) =
    map_option (\<lambda>xs. filter (\<lambda>i. ws ! i \<ge> w) [Suc c..<length ws] @ xs) (wrr_run ws k (int c, w))" for k
    unfolding Nil(1) [symmetric] by (cases "wrr_run ws k (int c, w)") simp_all
  ultimately show ?case by blast
next
  case (Cons j js)
  from filter_upt_Cons [OF Cons(2) [symmetric]] have j: "c < j" "j < length ws" "ws ! j \<ge> w"
    "\<forall>i. c < i \<longrightarrow> i < j \<longrightarrow> ws ! i < w" "js = filter (\<lambda>i. ws ! i \<ge> w) [Suc j..<length ws]"
    by (auto simp: Suc_le_eq not_le)
  have next_j: "wrr_next ws (int c, w) = Some (j, int j, w)"
    by (rule wrr_next_Some [OF select_host_lap [OF j(1-4)] j(2)])
  from Cons(1) [OF j(5,2)] obtain e where e: "at_end ws (e, w)"
    "\<And>k. wrr_run ws (length js + k) (int j, w) = map_option (\<lambda>xs. js @ xs) (wrr_run ws k (e, w))"
    unfolding j(5) by blast
  have "wrr_run ws (length (j # js) + k) (int c, w) =
      map_option (\<lambda>xs. (j # js) @ xs) (wrr_run ws k (e, w))" for k
    using next_j e(2) by (simp add: option.map_comp o_def)
  with e(1) Cons(2) show ?case by (intro exI [of _ e]) simp
qed

lemma max_weight:
  assumes "ws \<noteq> []"
  obtains i where "i < length ws" "ws ! i = get_max_weight ws"
  using Max_in [of "set ws"] assms by (auto simp: get_max_weight_def in_set_conv_nth)

lemma weight_le_max: "i < length ws \<Longrightarrow> ws ! i \<le> get_max_weight ws"
  by (simp add: get_max_weight_def)

lemma lap_nonempty: "ws \<noteq> [] \<Longrightarrow> w \<le> get_max_weight ws \<Longrightarrow> lap ws w \<noteq> []"
  by (rule max_weight [of ws]) (auto simp: lap_def filter_empty_conv intro!: bexI)

lemma run_lap:
  assumes ws: "ws \<noteq> []" and st: "at_end ws (c, w)"
    and go: "\<not> (w - get_max_weight_gcd ws \<le> 0 \<and> get_max_weight ws = 0)"
    and v: "v = next_weight ws w" "v \<le> get_max_weight ws"
  shows "\<exists>e. at_end ws (e, v) \<and> (\<forall>k. wrr_run ws (length (lap ws v) + k) (c, w) =
    map_option (\<lambda>xs. lap ws v @ xs) (wrr_run ws k (e, v)))"
proof (cases "ws ! 0 \<ge> v")
  case True
  let ?js = "filter (\<lambda>i. ws ! i \<ge> v) [Suc 0..<length ws]"
  have len: "0 < length ws" using ws by simp
  have lap: "lap ws v = 0 # ?js" using True len by (simp add: lap_def upt_conv_Cons)
  have "select_host ws c w = Some (int 0, int 0, v)"
    using select_host_wrap [OF ws st] go True v(1) by auto
  from wrr_next_Some [OF this len] have n: "wrr_next ws (c, w) = Some (0, int 0, v)" .
  from run_rest [OF len, of v] obtain e where e: "at_end ws (e, v)"
    "\<And>k. wrr_run ws (length ?js + k) (int 0, v) = map_option (\<lambda>xs. ?js @ xs) (wrr_run ws k (e, v))"
    by blast
  have "wrr_run ws (length (0 # ?js) + k) (c, w) =
      map_option (\<lambda>xs. (0 # ?js) @ xs) (wrr_run ws k (e, v))" for k
    using n e(2) by (simp add: option.map_comp o_def)
  with e(1) lap show ?thesis by (intro exI [of _ e]) simp
next
  case False
  let ?js = "filter (\<lambda>i. ws ! i \<ge> v) [Suc 0..<length ws]"
  have len: "0 < length ws" using ws by simp
  have lap: "lap ws v = ?js" using False len by (simp add: lap_def upt_conv_Cons)
  have "select_host ws c w = select_host ws (int 0) v"
    using select_host_wrap [OF ws st] go False v(1) by auto
  then have "wrr_next ws (c, w) = wrr_next ws (int 0, v)" by (simp add: wrr_next_def)
  then have same: "wrr_run ws (Suc k) (c, w) = wrr_run ws (Suc k) (int 0, v)" for k by simp
  obtain m where m: "length ?js = Suc m"
    using lap_nonempty [OF ws v(2)] lap by (cases ?js) auto
  from run_rest [OF len, of v] obtain e where e: "at_end ws (e, v)"
    "\<And>k. wrr_run ws (length ?js + k) (int 0, v) = map_option (\<lambda>xs. ?js @ xs) (wrr_run ws k (e, v))"
    by blast
  have "wrr_run ws (length ?js + k) (c, w) = map_option (\<lambda>xs. ?js @ xs) (wrr_run ws k (e, v))" for k
    using same [of "m + k"] e(2) [of k] m by simp
  with e(1) lap show ?thesis by (intro exI [of _ e]) simp
qed


subsection \<open>A whole cycle\<close>

text \<open>The weights of the laps of a cycle: the maximum, then down in steps of the divisor.\<close>

primrec lap_weights :: "int \<Rightarrow> int \<Rightarrow> nat \<Rightarrow> int list" where
  "lap_weights g v 0 = []"
| "lap_weights g v (Suc k) = v # lap_weights g (v - g) k"

lemma gcd_max_min: "gcd (max a b) (min a b) = gcd a (b :: int)"
  by (cases "a \<le> b") (simp_all add: gcd.commute max_def min_def)

lemma get_max_weight_gcd_eq: "ws \<noteq> [] \<Longrightarrow> get_max_weight_gcd ws = Gcd (set ws)"
proof -
  have *: "foldl (\<lambda>res w. gcd (max res w) (min res w)) a xs = (if xs = [] then a else gcd a (Gcd (set xs)))"
    for a :: int and xs
    by (induction xs arbitrary: a) (simp_all add: gcd_max_min gcd.assoc)
  assume "ws \<noteq> []"
  then show ?thesis by (cases ws) (simp_all add: get_max_weight_gcd_def *)
qed

lemma next_weight_down:
  "0 < g \<Longrightarrow> g = get_max_weight_gcd ws \<Longrightarrow> g < w \<Longrightarrow> next_weight ws w = w - g"
  by (simp add: next_weight_def)

lemma run_laps:
  assumes ws: "ws \<noteq> []" and g: "g = get_max_weight_gcd ws" "0 < g" and mx: "0 < get_max_weight ws"
  shows "at_end ws (c, w) \<Longrightarrow> v = next_weight ws w \<Longrightarrow> v \<le> get_max_weight ws \<Longrightarrow> v = int (Suc k) * g \<Longrightarrow>
    \<exists>e. at_end ws (e, g) \<and> (\<forall>m. wrr_run ws (length (concat (map (lap ws) (lap_weights g v (Suc k)))) + m) (c, w) =
      map_option (\<lambda>xs. concat (map (lap ws) (lap_weights g v (Suc k))) @ xs) (wrr_run ws m (e, g)))"
proof (induction k arbitrary: c w v)
  case 0
  then have "\<not> (w - get_max_weight_gcd ws \<le> 0 \<and> get_max_weight ws = 0)" "v = g" using mx by simp_all
  with run_lap [OF ws 0(1) _ 0(2,3)] show ?case by simp
next
  case (Suc k)
  have "\<not> (w - get_max_weight_gcd ws \<le> 0 \<and> get_max_weight ws = 0)" using mx by simp
  from run_lap [OF ws Suc.prems(1) this Suc.prems(2,3)] obtain e where e: "at_end ws (e, v)"
    "\<And>m. wrr_run ws (length (lap ws v) + m) (c, w) = map_option (\<lambda>xs. lap ws v @ xs) (wrr_run ws m (e, v))"
    by blast
  have vg: "v - g = int (Suc k) * g" using Suc.prems(4) by (simp add: algebra_simps)
  have "0 < v - g" unfolding vg using g(2) by simp
  then have "v - g = next_weight ws v" using next_weight_down [OF g(2,1)] by simp
  from Suc.IH [OF e(1) this _ vg] Suc.prems(3) g(2) obtain e' where e': "at_end ws (e', g)"
    "\<And>m. wrr_run ws (length (concat (map (lap ws) (lap_weights g (v - g) (Suc k)))) + m) (e, v) =
      map_option (\<lambda>xs. concat (map (lap ws) (lap_weights g (v - g) (Suc k))) @ xs) (wrr_run ws m (e', g))"
    by auto
  let ?cs = "concat (map (lap ws) (lap_weights g (v - g) (Suc k)))"
  have "wrr_run ws (length (lap ws v @ ?cs) + m) (c, w) =
      map_option (\<lambda>xs. (lap ws v @ ?cs) @ xs) (wrr_run ws m (e', g))" for m
    using e(2) [of "length ?cs + m"] e'(2) [of m]
    by (simp add: option.map_comp o_def add.assoc del: lap_weights.simps)
  moreover have "lap ws v @ ?cs = concat (map (lap ws) (lap_weights g v (Suc (Suc k))))" by simp
  ultimately show ?case using e'(1) by (metis (no_types, lifting))
qed

definition cycle :: "int list \<Rightarrow> nat list" where
  "cycle ws = concat (map (lap ws) (lap_weights (get_max_weight_gcd ws) (get_max_weight ws)
     (nat (get_max_weight ws div get_max_weight_gcd ws))))"

lemma run_cycles:
  assumes ws: "ws \<noteq> []" and g: "0 < get_max_weight_gcd ws" and mx: "0 < get_max_weight ws"
    and st: "at_end ws (c, w)" "w \<le> get_max_weight_gcd ws"
  shows "wrr_run ws (m * length (cycle ws)) (c, w) = Some (concat (replicate m (cycle ws)))"
  using st
proof (induction m arbitrary: c w)
  case 0
  show ?case by simp
next
  case (Suc m)
  let ?g = "get_max_weight_gcd ws" and ?m = "get_max_weight ws"
  obtain i where i: "i < length ws" "ws ! i = ?m" by (rule max_weight [OF ws])
  then have "?m \<in> set ws" by (metis nth_mem)
  then have "?g dvd ?m" using ws by (simp add: get_max_weight_gcd_eq)
  then have q: "?m = (?m div ?g) * ?g" by simp
  then have "0 < ?m div ?g" using mx g by (metis mult_eq_0_iff order_less_irrefl pos_imp_zdiv_pos_iff
        zdvd_imp_le \<open>?g dvd ?m\<close>)
  then obtain k where k: "nat (?m div ?g) = Suc k" by (metis gr0_implies_Suc zero_less_nat_eq)
  have km: "?m = int (Suc k) * ?g" using q k \<open>0 < ?m div ?g\<close> by (metis int_nat_eq order_less_imp_le)
  have nw: "?m = next_weight ws w" using Suc.prems(2) by (simp add: next_weight_def)
  from run_laps [OF ws refl g mx Suc.prems(1) nw order_refl km] obtain e where e: "at_end ws (e, ?g)"
    "\<And>m. wrr_run ws (length (cycle ws) + m) (c, w) = map_option (\<lambda>xs. cycle ws @ xs) (wrr_run ws m (e, ?g))"
    unfolding cycle_def k by blast
  from Suc.IH [OF e(1) order_refl] e(2) [of "m * length (cycle ws)"] show ?case by simp
qed

lemma count_lap: "i < length ws \<Longrightarrow> count_list (lap ws w) i = of_bool (ws ! i \<ge> w)"
proof -
  assume i: "i < length ws"
  have "count_list xs x = of_bool (x \<in> set xs)" if "distinct xs" for xs :: "nat list" and x
    using that by (induction xs) auto
  then show ?thesis using i by (simp add: lap_def)
qed

lemma count_concat: "count_list (concat xss) x = (\<Sum>xs \<leftarrow> xss. count_list xs x)"
  by (induction xss) (simp_all add: count_list_append)

lemma count_laps:
  assumes "i < length ws" "0 < g"
  shows "v = int k * g \<Longrightarrow> ws ! i = int q * g \<Longrightarrow>
    count_list (concat (map (lap ws) (lap_weights g v k))) i = min q k"
proof (induction k arbitrary: v)
  case (Suc k)
  have "v - g = int k * g" using Suc.prems by (simp add: algebra_simps)
  with Suc.IH Suc.prems(2) have *: "count_list (concat (map (lap ws) (lap_weights g (v - g) k))) i = min q k"
    by blast
  have "ws ! i \<ge> v \<longleftrightarrow> int q \<ge> int (Suc k)"
    unfolding Suc.prems using assms(2) by (rule mult_le_cancel_right_pos)
  then show ?case using * assms(1) by (auto simp: count_list_append count_lap)
qed simp

lemma count_cycle:
  assumes ws: "ws \<noteq> []" and g: "0 < get_max_weight_gcd ws" and i: "i < length ws" "0 \<le> ws ! i"
  shows "int (count_list (cycle ws) i) = ws ! i div get_max_weight_gcd ws"
proof -
  let ?g = "get_max_weight_gcd ws" and ?m = "get_max_weight ws"
  obtain j where j: "j < length ws" "ws ! j = ?m" by (rule max_weight [OF ws])
  have d: "?g dvd ws ! i" "?g dvd ?m"
    using ws i(1) j by (auto simp: get_max_weight_gcd_eq intro: Gcd_dvd simp flip: j(2))
  have le: "ws ! i \<le> ?m" by (rule weight_le_max [OF i(1)])
  then have pos: "0 \<le> ?m div ?g" "0 \<le> ws ! i div ?g" using i(2) g by (simp_all add: pos_imp_zdiv_nonneg_iff)
  have "count_list (cycle ws) i = min (nat (ws ! i div ?g)) (nat (?m div ?g))"
    unfolding cycle_def by (rule count_laps [OF i(1) g]) (use d pos in simp_all)
  moreover have "ws ! i div ?g \<le> ?m div ?g" using le g by (rule zdiv_mono1)
  ultimately show ?thesis using pos by simp
qed

text \<open>
  C29 (functional). Weighted round robin is fair: the loop always ends, and in every \<open>m\<close> cycles
  of selections, from the start on, each server is selected exactly \<open>m\<close> times its weight
  divided by the greatest common divisor of the weights.
\<close>
theorem weighted_round_robin_fair:
  assumes ws: "\<forall>w \<in> set ws. 0 \<le> w" and pos: "\<exists>w \<in> set ws. 0 < w"
  shows "\<exists>sel. wrr_run ws (m * length (cycle ws)) wrr_start = Some sel \<and>
    (\<forall>i < length ws. int (count_list sel i) = int m * (ws ! i div Gcd (set ws)))"
proof -
  have ne: "ws \<noteq> []" using pos by auto
  have g: "0 < get_max_weight_gcd ws"
    using pos ne by (auto simp: get_max_weight_gcd_eq less_le Gcd_0_iff)
  have mx: "0 < get_max_weight ws"
    using pos weight_le_max by (metis in_set_conv_nth order_less_le_trans)
  have "wrr_run ws (m * length (cycle ws)) (-1, 0) = Some (concat (replicate m (cycle ws)))"
    by (rule run_cycles [OF ne g mx]) (use g in \<open>simp_all add: at_end_def\<close>)
  moreover have "int (count_list (concat (replicate m (cycle ws))) i) = int m * (ws ! i div Gcd (set ws))"
    if "i < length ws" for i
    using count_cycle [OF ne g that] ws that
    by (simp add: count_concat sum_list_replicate get_max_weight_gcd_eq [OF ne])
  ultimately show ?thesis by (simp add: wrr_start_def)
qed

theorem weighted_round_robin_fair_witness:
  "\<exists>sel. wrr_run [4, 2, 6] (2 * length (cycle [4, 2, 6])) wrr_start = Some sel \<and>
     count_list sel 0 = 4 \<and> count_list sel 2 = 6"
proof -
  have "Gcd (set [4, 2, 6 :: int]) = 2" by (simp add: gcd_proj1_if_dvd gcd_proj2_if_dvd)
  with weighted_round_robin_fair [of "[4, 2, 6]" 2] obtain sel where
    s: "wrr_run [4, 2, 6] (2 * length (cycle [4, 2, 6])) wrr_start = Some sel"
    "\<forall>i < length [4, 2, 6 :: int]. int (count_list sel i) = int 2 * ([4, 2, 6] ! i div 2)" by auto
  from s(2) [rule_format, of 0] s(2) [rule_format, of 2] s(1) show ?thesis by auto
qed

text \<open>Whatever the weights are, also negative ones, every selection ends.\<close>

lemma select_host_returns:
  assumes ws: "ws \<noteq> []" and c: "-1 \<le> c" "c < int (length ws)" and w: "w \<le> get_max_weight ws \<or> w \<le> 0"
  shows "\<exists>i w'. (select_host ws c w = Some (int i, int i, w') \<and> i < length ws \<or>
      select_host ws c w = Some (-1, 0, w')) \<and> (w' \<le> get_max_weight ws \<or> w' \<le> 0)"
proof -
  have lap: "\<exists>i. select_host ws (int k) v = Some (int i, int i, v) \<and> i < length ws"
    if "k < j" "j < length ws" "ws ! j \<ge> v" for k j v
  proof -
    let ?P = "\<lambda>i. k < i \<and> i < length ws \<and> ws ! i \<ge> v"
    have "?P j" using that by simp
    then have m: "?P (LEAST i. ?P i)" by (rule LeastI)
    have below: "ws ! i < v" if i: "k < i" "i < (LEAST i. ?P i)" for i
    proof -
      have "i < length ws" using i(2) m by linarith
      with not_less_Least [OF i(2)] i(1) show ?thesis by linarith
    qed
    from select_host_lap [OF conjunct1 [OF m] _ _] m below show ?thesis by blast
  qed
  show ?thesis
  proof (cases "at_end ws (c, w)")
    case False
    then have "0 \<le> c" using c(1) by (auto simp: at_end_def)
    then obtain k where k: "c = int k" by (metis nonneg_int_cases)
    with False c(2) obtain j where j: "k < j" "j < length ws" "ws ! j \<ge> w"
      unfolding at_end_def by force
    from lap [OF j] w show ?thesis unfolding k by blast
  next
    case True
    let ?v = "next_weight ws w"
    have g: "0 \<le> get_max_weight_gcd ws" using ws by (simp add: get_max_weight_gcd_eq)
    have v: "?v \<le> get_max_weight ws" using w g by (auto simp: next_weight_def)
    obtain j where j: "j < length ws" "ws ! j = get_max_weight ws" by (rule max_weight [OF ws])
    show ?thesis
    proof (cases "ws ! 0 \<ge> ?v \<or> w - get_max_weight_gcd ws \<le> 0 \<and> get_max_weight ws = 0")
      case True': True
      then show ?thesis
        using select_host_wrap [OF ws True] v ws by (auto intro!: exI [of _ 0])
    next
      case False
      then have "j \<noteq> 0" using v j(2) by (metis le_trans)
      with lap [of 0 j ?v] j v obtain i where
        "select_host ws 0 ?v = Some (int i, int i, ?v)" "i < length ws" by auto
      moreover have "select_host ws c w = select_host ws 0 ?v"
        using select_host_wrap [OF ws True] False by (simp only: de_Morgan_disj if_False)
      ultimately show ?thesis using v by metis
    qed
  qed
qed

text \<open>
  C28 (termination). The \<open>while (true)\<close> of the weighted round robin ends for every nonempty list of
  weights, whatever their values, in every state that selections lead to, and what it
  selects is a server.
\<close>
theorem weighted_round_robin_total:
  assumes "ws \<noteq> []"
  shows "\<exists>sel. wrr_run ws k wrr_start = Some sel \<and> length sel = k \<and> (\<forall>i \<in> set sel. i < length ws)"
proof -
  have "\<exists>sel. wrr_run ws k (c, w) = Some sel \<and> length sel = k \<and> (\<forall>i \<in> set sel. i < length ws)"
    if "-1 \<le> c" "c < int (length ws)" "w \<le> get_max_weight ws \<or> w \<le> 0" for c w
    using that
  proof (induction k arbitrary: c w)
    case (Suc k)
    from select_host_returns [OF assms Suc.prems] obtain i w' where
      s: "select_host ws c w = Some (int i, int i, w') \<and> i < length ws \<or>
        select_host ws c w = Some (-1, 0, w')" and w': "w' \<le> get_max_weight ws \<or> w' \<le> 0" by blast
    then obtain p where p: "wrr_next ws (c, w) = Some (p, int p, w')" "p < length ws"
      using assms by (auto simp: wrr_next_def)
    from Suc.IH [of "int p" w'] p w' show ?case by auto
  qed simp
  then show ?thesis using assms by (simp add: wrr_start_def)
qed

theorem weighted_round_robin_total_witness:
  "\<exists>sel. wrr_run [-3, 0 :: int] 5 wrr_start = Some sel \<and> length sel = 5"
  using weighted_round_robin_total [of "[-3, 0]" 5] by auto

end
