(* ===== verification/CioRateLimiter.thy ===== *)
theory CioRateLimiter
  imports Complex_Main Prelude
begin

text \<open>
  The token bucket of \<open>coro_io/rate_limiter.hpp\<close> (\<open>smooth_bursty_rate_limiter\<close>). Time points
  are nanoseconds of the steady clock; \<open>double\<close> is modelled by exact rational numbers, so the
  truncations that the source writes (\<open>duration_cast\<close>, \<open>(int64_t)\<close>) are in the model and the
  rounding of floating-point operations is not. The spin lock makes every \<open>acquire\<close> atomic.
\<close>

record limiter =
  stored_permits :: rat
  max_permits :: rat
  stable_interval :: rat
  next_free_ticket :: int

definition ns_per_ms :: int where
  "ns_per_ms = 1000000"

text \<open>\<open>duration_cast<milliseconds>\<close> and the cast to \<open>int64_t\<close> truncate towards zero.\<close>

definition to_ms :: "int \<Rightarrow> int" where
  "to_ms d = (if d < 0 then - ((- d) div ns_per_ms) else d div ns_per_ms)"

definition trunc :: "rat \<Rightarrow> int" where
  "trunc x = (if x < 0 then - \<lfloor>- x\<rfloor> else \<lfloor>x\<rfloor>)"

definition resync :: "int \<Rightarrow> limiter \<Rightarrow> limiter" where
  "resync now l =
     (if now > next_free_ticket l then
        l\<lparr>stored_permits := min (max_permits l)
             (stored_permits l + of_int (to_ms (now - next_free_ticket l)) / stable_interval l),
          next_free_ticket := now\<rparr>
      else l)"

definition stored_permits_to_wait_time :: "rat \<Rightarrow> rat \<Rightarrow> int" where
  "stored_permits_to_wait_time stored permits_to_take = 0"

definition set_rate :: "rat \<Rightarrow> int \<Rightarrow> limiter \<Rightarrow> limiter" where
  "set_rate permits_per_second now l0 =
     (let l = resync now l0; old_max = max_permits l; new_max = 1 * permits_per_second
      in l\<lparr>stable_interval := 1000 / permits_per_second, max_permits := new_max,
           stored_permits := (if old_max = 0 then 0 else stored_permits l * new_max / old_max)\<rparr>)"

definition new_limiter :: "rat \<Rightarrow> int \<Rightarrow> limiter" where
  "new_limiter permits_per_second now =
     set_rate permits_per_second now
       \<lparr>stored_permits = 0, max_permits = 0, stable_interval = 0, next_free_ticket = 0\<rparr>"

definition reserve_earliest_available :: "nat \<Rightarrow> int \<Rightarrow> limiter \<Rightarrow> int \<times> limiter" where
  "reserve_earliest_available required now l0 =
     (let l = resync now l0;
          spend = min (of_nat required) (stored_permits l);
          fresh = of_nat required - spend;
          wait_ms = stored_permits_to_wait_time (stored_permits l) spend +
                    trunc (fresh * stable_interval l)
      in (next_free_ticket l,
          l\<lparr>next_free_ticket := next_free_ticket l + wait_ms * ns_per_ms,
            stored_permits := stored_permits l - spend\<rparr>))"

text \<open>\<open>acquire\<close>: the result is the time slept, in milliseconds.\<close>

definition acquire :: "nat \<Rightarrow> int \<Rightarrow> limiter \<Rightarrow> int \<times> limiter" where
  "acquire permits now l =
     (case reserve_earliest_available permits now l of
        (available, l') \<Rightarrow> (max (to_ms (available - now)) 0, l'))"

text \<open>Requests are pairs of a number of permits and the time of the call.\<close>

primrec acquire_all :: "(nat \<times> int) list \<Rightarrow> limiter \<Rightarrow> int list \<times> limiter" where
  "acquire_all [] l = ([], l)"
| "acquire_all (rq # rqs) l =
     (case acquire (fst rq) (snd rq) l of
        (w, l') \<Rightarrow> (case acquire_all rqs l' of (ws, l'') \<Rightarrow> (w # ws, l'')))"

section \<open>Facts\<close>

definition limiter_ok :: "limiter \<Rightarrow> bool" where
  "limiter_ok l \<longleftrightarrow> 0 \<le> stored_permits l \<and> stored_permits l \<le> max_permits l \<and> 0 < stable_interval l"

lemma to_ms_nonneg: "0 \<le> d \<Longrightarrow> 0 \<le> to_ms d"
  by (simp add: to_ms_def ns_per_ms_def pos_imp_zdiv_nonneg_iff)

lemma to_ms_le: "0 \<le> d \<Longrightarrow> to_ms d * ns_per_ms \<le> d"
  by (simp add: to_ms_def ns_per_ms_def)

lemma resync_ok: "limiter_ok l \<Longrightarrow> limiter_ok (resync now l)"
  using to_ms_nonneg [of "now - next_free_ticket l"]
  by (auto simp: limiter_ok_def resync_def)

lemma resync_const [simp]:
  "stable_interval (resync now l) = stable_interval l" "max_permits (resync now l) = max_permits l"
  by (simp_all add: resync_def)

lemma set_rate_ok:
  assumes "0 < r" "limiter_ok l \<or> max_permits l = 0"
  shows "limiter_ok (set_rate r now l)"
proof (cases "max_permits l = 0")
  case True
  with assms(1) show ?thesis by (simp add: set_rate_def limiter_ok_def Let_def)
next
  case False
  with assms have "limiter_ok (resync now l)" by (simp add: resync_ok)
  then have s: "0 \<le> stored_permits (resync now l)" "stored_permits (resync now l) \<le> max_permits l"
    by (simp_all add: limiter_ok_def)
  then have "0 < max_permits l" using False by linarith
  then have "stored_permits (resync now l) * r / max_permits l \<le> r"
    using s(2) assms(1) by (simp add: field_simps)
  with s(1) \<open>0 < max_permits l\<close> False assms(1) show ?thesis
    by (simp add: set_rate_def limiter_ok_def Let_def)
qed

lemma acquire_ok: "limiter_ok l \<Longrightarrow> limiter_ok (snd (acquire p now l))"
  using resync_ok [of l now]
  by (auto simp: acquire_def reserve_earliest_available_def limiter_ok_def Let_def min_def)

lemma acquire_const [simp]:
  "stable_interval (snd (acquire p now l)) = stable_interval l"
  "max_permits (snd (acquire p now l)) = max_permits l"
  by (simp_all add: acquire_def reserve_earliest_available_def Let_def)

text \<open>Time and stored permits pay for every permit, up to the truncated millisecond.\<close>

definition budget :: "limiter \<Rightarrow> rat" where
  "budget l = of_int (next_free_ticket l) / (of_int ns_per_ms * stable_interval l) - stored_permits l"

lemma budget_resync:
  assumes "limiter_ok l"
  shows "budget l \<le> budget (resync now l)"
proof (cases "now > next_free_ticket l")
  case False
  then show ?thesis by (simp add: resync_def)
next
  case True
  let ?d = "now - next_free_ticket l" and ?i = "stable_interval l"
  have i: "0 < ?i" using assms by (simp add: limiter_ok_def)
  have "rat_of_int (to_ms ?d) * of_int ns_per_ms \<le> of_int ?d"
    using to_ms_le [of ?d] True by (metis diff_ge_0_iff_ge of_int_le_iff of_int_mult order_less_imp_le)
  then have "of_int (to_ms ?d) / ?i \<le> of_int ?d / (of_int ns_per_ms * ?i)"
    using i by (simp add: field_simps ns_per_ms_def)
  then have "stored_permits (resync now l) \<le> stored_permits l + of_int ?d / (of_int ns_per_ms * ?i)"
    using True by (auto simp: resync_def)
  then show ?thesis
    using True by (simp add: budget_def resync_def diff_divide_distrib)
qed

lemma budget_acquire:
  assumes "limiter_ok l"
  shows "budget l + of_nat p \<le> budget (snd (acquire p now l)) + 1 / stable_interval l"
proof -
  let ?l = "resync now l" and ?i = "stable_interval l"
  let ?spend = "min (of_nat p) (stored_permits ?l)"
  let ?fresh = "of_nat p - ?spend"
  have i: "0 < ?i" using assms by (simp add: limiter_ok_def)
  have "0 \<le> ?fresh * ?i" using i by simp
  then have "?fresh * ?i \<le> of_int (trunc (?fresh * ?i)) + 1"
    unfolding trunc_def by (simp add: not_less) linarith
  then have t: "?fresh \<le> of_int (trunc (?fresh * ?i)) / ?i + 1 / ?i"
    using i by (simp add: field_simps)
  have "budget (snd (acquire p now l)) =
      budget ?l + of_int (trunc (?fresh * ?i)) / ?i + ?spend"
    using i by (simp add: acquire_def reserve_earliest_available_def Let_def budget_def
        stored_permits_to_wait_time_def ns_per_ms_def field_simps)
  with t budget_resync [OF assms, of now] show ?thesis by simp
qed

lemma acquire_all_budget:
  "limiter_ok l \<Longrightarrow> budget l + of_nat (\<Sum>rq \<leftarrow> rqs. fst rq) \<le>
    budget (snd (acquire_all rqs l)) + of_nat (length rqs) / stable_interval l \<and>
   limiter_ok (snd (acquire_all rqs l)) \<and> stable_interval (snd (acquire_all rqs l)) = stable_interval l
   \<and> max_permits (snd (acquire_all rqs l)) = max_permits l"
proof (induction rqs arbitrary: l)
  case (Cons rq rqs)
  have ok: "limiter_ok (snd (acquire (fst rq) (snd rq) l))" by (rule acquire_ok [OF Cons.prems])
  from Cons.IH [OF ok] budget_acquire [OF Cons.prems, of "fst rq" "snd rq"]
  show ?case by (simp add: case_prod_unfold add_divide_distrib)
qed simp



text \<open>
  Above 1000 permits per second nothing is limited when permits are acquired
  one by one: the waiting time of less than a millisecond is truncated to 0, so that
  arbitrarily many requests at the same moment are all granted without a wait.
\<close>
theorem fast_rate_unlimited:
  assumes "1000 < r" and "0 \<le> t"
  shows "fst (acquire_all (replicate k (1, t)) (new_limiter r t)) = replicate k 0"
proof -
  have one: "fst (acquire 1 t l) = 0 \<and> next_free_ticket (snd (acquire 1 t l)) \<le> t \<and>
      limiter_ok (snd (acquire 1 t l)) \<and> stable_interval (snd (acquire 1 t l)) = stable_interval l"
    if l: "limiter_ok l" "next_free_ticket l \<le> t" "stable_interval l < 1" for l
  proof -
    let ?l = "resync t l"
    have nf: "next_free_ticket ?l = t" using l(2) by (simp add: resync_def)
    have ok: "limiter_ok ?l" by (rule resync_ok [OF l(1)])
    let ?fresh = "1 - min 1 (stored_permits ?l)"
    have "0 \<le> ?fresh" "?fresh \<le> 1" using ok by (simp_all add: limiter_ok_def min_def)
    then have nn: "0 \<le> ?fresh * stable_interval l"
      using l(1) by (intro mult_nonneg_nonneg) (simp_all add: limiter_ok_def)
    have "?fresh * stable_interval l \<le> 1 * stable_interval l"
      by (rule mult_right_mono) (use \<open>?fresh \<le> 1\<close> l(1) in \<open>simp_all add: limiter_ok_def\<close>)
    then have "?fresh * stable_interval l < 1" using l(3) by (simp only: mult_1_left)
    with nn have "0 \<le> ?fresh * stable_interval l" "?fresh * stable_interval l < 1" by blast+
    then have "trunc (?fresh * stable_interval l) = 0" by (simp add: trunc_def floor_eq_iff)
    then show ?thesis
      using acquire_ok [OF l(1), of 1 t] nf
      by (simp add: acquire_def reserve_earliest_available_def Let_def
          stored_permits_to_wait_time_def to_ms_def)
  qed
  have many: "fst (acquire_all (replicate k (1, t)) l) = replicate k 0"
    if "limiter_ok l" "next_free_ticket l \<le> t" "stable_interval l < 1" for l
    using that
  proof (induction k arbitrary: l)
    case (Suc k)
    from one [OF Suc.prems] Suc.prems Suc.IH [of "snd (acquire 1 t l)"]
    show ?case by (simp add: case_prod_unfold)
  qed simp
  show ?thesis
  proof (rule many)
    show "limiter_ok (new_limiter r t)" using assms by (simp add: new_limiter_def set_rate_ok)
    show "next_free_ticket (new_limiter r t) \<le> t" "stable_interval (new_limiter r t) < 1"
      using assms by (auto simp: new_limiter_def set_rate_def resync_def Let_def)
  qed
qed

theorem fast_rate_unlimited_witness:
  "fst (acquire_all (replicate 3 (1, 5)) (new_limiter 2000 5)) = [0, 0, 0]"
  using fast_rate_unlimited [of 2000 5 3] by (simp add: numeral_3_eq_3)

end
