(* ===== verification/HttpText.thy ===== *)
theory HttpText
  imports Prelude
begin

text \<open>
  The text functions the HTTP code uses: \<open>std::to_chars\<close> and \<open>std::from_chars\<close>, comparison without
  case, \<open>split_sv\<close>, \<open>trim_sv\<close>, \<open>find\<close> (\<open>cinatra/utils.hpp\<close>, \<open>http_parser.hpp\<close>), and the byte
  ranges of a \<open>Range\<close> header (\<open>coro_http_request.hpp\<close>).
\<close>

section \<open>Numbers\<close>

definition digit_char :: "nat \<Rightarrow> byte" where
  "digit_char d = (if d < 10 then word_of_nat (0x30 + d) else word_of_nat (0x57 + d))"

definition digit_value :: "byte \<Rightarrow> nat" where
  "digit_value c = (let n = unat c in
     if 0x30 \<le> n \<and> n \<le> 0x39 then n - 0x30
     else if 0x41 \<le> n \<and> n \<le> 0x5a then n - 0x37
     else if 0x61 \<le> n \<and> n \<le> 0x7a then n - 0x57
     else 255)"

fun to_chars :: "nat \<Rightarrow> nat \<Rightarrow> bytes" where
  "to_chars base n =
     (if n < base \<or> base < 2 then [digit_char n]
      else to_chars base (n div base) @ [digit_char (n mod base)])"

declare to_chars.simps [simp del]

text \<open>The longest prefix of digits; \<open>from_chars\<close> fails when it is empty or its value out of range.\<close>

definition digits_of :: "nat \<Rightarrow> bytes \<Rightarrow> bytes" where
  "digits_of base s = takeWhile (\<lambda>c. digit_value c < base) s"

definition digits_value :: "nat \<Rightarrow> bytes \<Rightarrow> nat" where
  "digits_value base ds = foldl (\<lambda>a c. a * base + digit_value c) 0 ds"

definition from_chars_unsigned :: "nat \<Rightarrow> nat \<Rightarrow> bytes \<Rightarrow> nat option" where
  "from_chars_unsigned bits base s =
     (let ds = digits_of base s; v = digits_value base ds in
      if ds = [] \<or> 2 ^ bits \<le> v then None else Some v)"

definition from_chars_signed :: "nat \<Rightarrow> bytes \<Rightarrow> int option" where
  "from_chars_signed bits s =
     (let neg = (s \<noteq> [] \<and> hd s = 0x2d);
          ds = digits_of 10 (if neg then tl s else s);
          v = (if neg then - int (digits_value 10 ds) else int (digits_value 10 ds))
      in if ds = [] \<or> v < - (2 ^ (bits - 1)) \<or> 2 ^ (bits - 1) \<le> v then None else Some v)"

lemma digit_value_char [simp]: "d < 36 \<Longrightarrow> digit_value (digit_char d) = d"
  by (simp add: digit_value_def digit_char_def Let_def unat_of_nat del: of_nat_add)

lemma to_chars_small: "n < base \<Longrightarrow> to_chars base n = [digit_char n]"
  by (simp add: to_chars.simps)

lemma to_chars_digits:
  assumes "2 \<le> base" "base \<le> 36"
  shows "(\<forall>c \<in> set (to_chars base n). digit_value c < base) \<and> to_chars base n \<noteq> [] \<and>
    digits_value base (to_chars base n) = n"
proof (induction n rule: less_induct)
  case (less n)
  show ?case
  proof (cases "n < base")
    case True
    then show ?thesis using assms by (simp add: to_chars_small digits_value_def)
  next
    case False
    then have "n div base < n" using assms by (simp add: div_less_dividend)
    from less.IH [OF this] False assms show ?thesis
      by (subst (1 2 3) to_chars.simps) (auto simp: digits_value_def less_le_trans [OF mod_less_divisor])
  qed
qed

lemma digits_of_to_chars:
  assumes "2 \<le> base" "base \<le> 36" "s = [] \<or> \<not> digit_value (hd s) < base"
  shows "digits_of base (to_chars base n @ s) = to_chars base n"
  using to_chars_digits [OF assms(1,2), of n] assms(3)
  by (cases s) (auto simp: digits_of_def takeWhile_append2)

lemma from_chars_to_chars:
  assumes "2 \<le> base" "base \<le> 36" "s = [] \<or> \<not> digit_value (hd s) < base" "n < 2 ^ bits"
  shows "from_chars_unsigned bits base (to_chars base n @ s) = Some n"
  using digits_of_to_chars [OF assms(1-3)] to_chars_digits [OF assms(1,2), of n] assms(4)
  by (simp add: from_chars_unsigned_def Let_def)

lemma to_chars_no_minus:
  assumes "2 \<le> base" "base \<le> 36"
  shows "hd (to_chars base n @ s) \<noteq> 0x2d"
proof -
  have "digit_value (hd (to_chars base n)) < base" "to_chars base n \<noteq> []"
    using to_chars_digits [OF assms, of n] by simp_all
  moreover have "digit_value 0x2d = 255" by (simp add: digit_value_def)
  ultimately show ?thesis using assms(2) by (auto simp: hd_append)
qed

lemma from_chars_signed_to_chars:
  assumes "s = [] \<or> \<not> digit_value (hd s) < 10" "n < 2 ^ (bits - 1)"
  shows "from_chars_signed bits (to_chars 10 n @ s) = Some (int n)"
proof -
  have "int n < 2 ^ (bits - 1)" using assms(2) by (metis of_nat_less_iff of_nat_numeral of_nat_power)
  moreover have "- (2 ^ (bits - 1)) \<le> int n" by (rule order_trans [of _ 0]) simp_all
  ultimately show ?thesis
    using digits_of_to_chars [of 10 s n] to_chars_digits [of 10 n] to_chars_no_minus [of 10 n s] assms(1)
    by (simp add: from_chars_signed_def Let_def)
qed

section \<open>Strings\<close>

text \<open>\<open>tolower\<close> in the C locale.\<close>

definition tolower :: "byte \<Rightarrow> byte" where
  "tolower c = (if 0x41 \<le> c \<and> c \<le> 0x5a then c + 0x20 else c)"

definition iequal0 :: "bytes \<Rightarrow> bytes \<Rightarrow> bool" where
  "iequal0 a b \<longleftrightarrow> length a = length b \<and> list_all2 (\<lambda>x y. tolower x = tolower y) a b"

fun contains_sub :: "bytes \<Rightarrow> bytes \<Rightarrow> bool" where
  "contains_sub pat [] = (pat = [])"
| "contains_sub pat (c # s) = (take (length pat) (c # s) = pat \<or> contains_sub pat s)"

lemma tl_dropWhile_shorter:
  "dropWhile P s \<noteq> [] \<Longrightarrow> length (tl (dropWhile P s)) < length s"
  using length_dropWhile_le [of P s] by (cases "dropWhile P s") auto

text \<open>\<open>find_first_of\<close> splits at every character of the delimiter.\<close>

function split_sv :: "bytes \<Rightarrow> bytes \<Rightarrow> bytes list" where
  "split_sv delim s =
     (let start = takeWhile (\<lambda>c. c \<notin> set delim) s; end = dropWhile (\<lambda>c. c \<notin> set delim) s in
      if end = [] then [start] else start # split_sv delim (tl end))"
  by pat_completeness auto
termination
  by (relation "measure (length \<circ> snd)") (simp_all del: length_tl dropWhile_eq_Nil_conv add: tl_dropWhile_shorter)

declare split_sv.simps [simp del]

definition trim_sv :: "bytes \<Rightarrow> bytes" where
  "trim_sv v = rev (dropWhile (\<lambda>c. c = 0x20) (rev (dropWhile (\<lambda>c. c = 0x20) v)))"

end
