(* ===== verification/HttpIo.thy ===== *)
theory HttpIo
  imports HttpText
begin

text \<open>
  A socket as the HTTP code sees it: the buffer of bytes already read, and the pieces in which the
  rest of the stream will arrive. \<open>read_until\<close> and \<open>read_exactly\<close> are the two reading operations of
  \<open>coro_io.hpp\<close>, \<open>async_read_until\<close> and \<open>async_read\<close>; \<open>None\<close> is the end of the stream. Their results do not
  depend on the pieces.
\<close>

fun find_sub :: "bytes \<Rightarrow> bytes \<Rightarrow> nat option" where
  "find_sub pat [] = (if pat = [] then Some 0 else None)"
| "find_sub pat (c # s) =
     (if take (length pat) (c # s) = pat then Some 0 else map_option Suc (find_sub pat s))"

text \<open>Reading until the buffer holds the delimiter; the result is the position behind it.\<close>

primrec read_until_from :: "bytes list \<Rightarrow> bytes \<Rightarrow> bytes \<Rightarrow> (nat \<times> bytes \<times> bytes list) option" where
  "read_until_from [] delim buf =
     (case find_sub delim buf of Some k \<Rightarrow> Some (k + length delim, buf, []) | None \<Rightarrow> None)"
| "read_until_from (s # segs) delim buf =
     (case find_sub delim buf of Some k \<Rightarrow> Some (k + length delim, buf, s # segs)
      | None \<Rightarrow> read_until_from segs delim (buf @ s))"

definition read_until :: "bytes \<Rightarrow> bytes \<Rightarrow> bytes list \<Rightarrow> (nat \<times> bytes \<times> bytes list) option" where
  "read_until delim buf segs = read_until_from segs delim buf"

text \<open>Appending exactly \<open>n\<close> more bytes to the buffer.\<close>

primrec read_exactly_from :: "bytes list \<Rightarrow> nat \<Rightarrow> bytes \<Rightarrow> (bytes \<times> bytes list) option" where
  "read_exactly_from [] n buf = (if n = 0 then Some (buf, []) else None)"
| "read_exactly_from (s # segs) n buf =
     (if n = 0 then Some (buf, s # segs)
      else if length s \<le> n then read_exactly_from segs (n - length s) (buf @ s)
      else Some (buf @ take n s, drop n s # segs))"

definition read_exactly :: "nat \<Rightarrow> bytes \<Rightarrow> bytes list \<Rightarrow> (bytes \<times> bytes list) option" where
  "read_exactly n buf segs = read_exactly_from segs n buf"

lemma find_sub_bound: "find_sub pat s = Some k \<Longrightarrow> k + length pat \<le> length s \<and> take (length pat) (drop k s) = pat"
proof (induction s arbitrary: k)
  case (Cons c s)
  then show ?case
    by (auto split: if_splits) (metis length_Cons length_take min.absorb_iff2 min_def)
qed (simp split: if_splits)

lemma find_sub_append: "find_sub pat s = Some k \<Longrightarrow> find_sub pat (s @ t) = Some k"
proof (induction s arbitrary: k)
  case Nil
  then show ?case by (cases t) (auto split: if_splits)
next
  case (Cons c s)
  show ?case
  proof (cases "take (length pat) (c # s) = pat")
    case True
    then have "length pat \<le> length (c # s)" by (metis length_take min.cobounded1)
    then have "take (length pat) (c # s @ t) = take (length pat) (c # s)"
      by (cases "length pat") simp_all
    with True Cons.prems show ?thesis by simp
  next
    case False
    with Cons.prems obtain j where j: "find_sub pat s = Some j" "k = Suc j" by auto
    have "take (length pat) (c # s @ t) \<noteq> pat"
    proof
      assume eq: "take (length pat) (c # s @ t) = pat"
      have "length pat \<le> length (c # s)" using find_sub_bound [OF j(1)] by simp
      then have "take (length pat) (c # s @ t) = take (length pat) (c # s)" by (cases "length pat") simp_all
      with eq False show False by simp
    qed
    with Cons.IH [OF j(1)] j(2) show ?thesis by simp
  qed
qed

lemma read_until_total:
  assumes "read_until delim buf segs = Some (k, buf', segs')"
  shows "buf' @ concat segs' = buf @ concat segs \<and> k \<le> length buf' \<and> length delim \<le> k \<and>
    find_sub delim (buf @ concat segs) = Some (k - length delim)"
  using assms
proof (induction segs arbitrary: buf)
  case Nil
  then show ?case by (auto simp: read_until_def find_sub_append dest: find_sub_bound split: option.splits)
next
  case (Cons s segs)
  show ?case
  proof (cases "find_sub delim buf")
    case None
    with Cons.prems have "read_until delim (buf @ s) segs = Some (k, buf', segs')" by (simp add: read_until_def)
    from Cons.IH [OF this] show ?thesis by simp
  next
    case (Some j)
    with Cons.prems show ?thesis
      using find_sub_append [OF Some, of "s @ concat segs"] find_sub_bound [OF Some]
      by (auto simp: read_until_def)
  qed
qed

lemma read_until_found:
  assumes "find_sub delim (buf @ concat segs) = Some k"
  obtains buf' segs' where "read_until delim buf segs = Some (k + length delim, buf', segs')"
    "buf' @ concat segs' = buf @ concat segs" "k + length delim \<le> length buf'"
proof -
  have "\<exists>r. read_until delim buf segs = Some r"
    using assms
  proof (induction segs arbitrary: buf)
    case Nil
    then show ?case by (simp add: read_until_def)
  next
    case (Cons s segs)
    from Cons.IH [of "buf @ s"] Cons.prems show ?case by (simp add: read_until_def split: option.split)
  qed
  then obtain j buf' segs' where r: "read_until delim buf segs = Some (j, buf', segs')" by (metis prod_cases3)
  from read_until_total [OF r] assms have "j = k + length delim" by auto
  with r read_until_total [OF r] that show ?thesis by blast
qed

lemma read_exactly_total:
  "read_exactly n buf segs = Some (buf', segs') \<Longrightarrow>
   buf' @ concat segs' = buf @ concat segs \<and> length buf' = length buf + n"
  by (induction segs arbitrary: n buf) (auto simp: read_exactly_def split: if_splits)

lemma read_exactly_enough:
  assumes "n \<le> length (concat segs)"
  obtains buf' segs' where "read_exactly n buf segs = Some (buf', segs')"
    "buf' @ concat segs' = buf @ concat segs" "length buf' = length buf + n"
proof -
  have "\<exists>r. read_exactly n buf segs = Some r"
    using assms by (induction segs arbitrary: n buf) (auto simp: read_exactly_def)
  then show ?thesis using that read_exactly_total by fastforce
qed

text \<open>The first delimiter of a text that starts with a piece without it.\<close>

lemma find_sub_crlf:
  "0x0d \<notin> set s \<Longrightarrow> find_sub [0x0d, 0x0a] (s @ 0x0d # 0x0a # t) = Some (length s)"
  by (induction s) auto

end
