(* ===== verification/HttpPico.thy ===== *)
theory HttpPico
  imports HttpText
begin

text \<open>
  The HTTP parser cinatra uses (\<open>picohttpparser.h\<close>, in the build without SIMD instructions): the request
  line, the status line and the headers. A parser takes the rest of the buffer and either needs
  more input (\<open>Partial\<close>, -2 in the code), fails (\<open>Failed\<close>, -1), or gives a result and the rest
  of the buffer.

  Main results: the parser is incremental, that is, what it says of a buffer it says of every
  continuation of it, so a prefix of an accepted request is never an error
  (\<open>parse_incremental\<close>); and it reads back the heads a client writes (\<open>heads_parsed\<close>).
\<close>

datatype 'a pico = Partial | Failed | Parsed 'a bytes

record http_header =
  hd_name :: bytes
  hd_value :: bytes

text \<open>The three flags \<open>parse_headers\<close> sets and never resets.\<close>

record conn_flags =
  has_connection :: bool
  has_close :: bool
  has_upgrade :: bool

text \<open>\<open>if ((buf = p(buf, ..)) == NULL) return NULL;\<close>\<close>

definition pico_bind :: "(bytes \<Rightarrow> 'a pico) \<Rightarrow> ('a \<Rightarrow> bytes \<Rightarrow> 'b pico) \<Rightarrow> bytes \<Rightarrow> 'b pico" where
  "pico_bind p f buf = (case p buf of Partial \<Rightarrow> Partial | Failed \<Rightarrow> Failed | Parsed x buf' \<Rightarrow> f x buf')"

section \<open>Macros and scanning loops\<close>

definition IS_PRINTABLE_ASCII :: "byte \<Rightarrow> bool" where
  "IS_PRINTABLE_ASCII c \<longleftrightarrow> ucast c - (0x20 :: u32) < 0x5f"

definition CHECK_EOF :: "bytes \<Rightarrow> byte pico" where
  "CHECK_EOF buf = (case buf of [] \<Rightarrow> Partial | c # buf' \<Rightarrow> Parsed c (c # buf'))"

definition EXPECT_CHAR :: "byte \<Rightarrow> bytes \<Rightarrow> unit pico" where
  "EXPECT_CHAR ch buf =
     (case buf of [] \<Rightarrow> Partial | c # buf' \<Rightarrow> if c = ch then Parsed () buf' else Failed)"

fun EXPECT_CHARS :: "bytes \<Rightarrow> bytes \<Rightarrow> unit pico" where
  "EXPECT_CHARS [] buf = Parsed () buf"
| "EXPECT_CHARS (ch # chs) buf = pico_bind (EXPECT_CHAR ch) (\<lambda>_. EXPECT_CHARS chs) buf"

text \<open>\<open>ADVANCE_TOKEN\<close>: up to the next space, which is not consumed.\<close>

fun ADVANCE_TOKEN :: "bytes \<Rightarrow> bytes pico" where
  "ADVANCE_TOKEN [] = Partial"
| "ADVANCE_TOKEN (c # buf) =
     (if c = 0x20 then Parsed [] (c # buf)
      else if \<not> IS_PRINTABLE_ASCII c \<and> (c < 0x20 \<or> c = 0x7f) then Failed
      else (case ADVANCE_TOKEN buf of
              Parsed tok buf' \<Rightarrow> Parsed (c # tok) buf' | Partial \<Rightarrow> Partial | Failed \<Rightarrow> Failed))"

text \<open>\<open>ADVANCE_PATH\<close> also notes whether there is a question mark.\<close>

fun ADVANCE_PATH :: "bytes \<Rightarrow> (bytes \<times> bool) pico" where
  "ADVANCE_PATH [] = Partial"
| "ADVANCE_PATH (c # buf) =
     (if c = 0x20 then Parsed ([], False) (c # buf)
      else if \<not> IS_PRINTABLE_ASCII c \<and> (c < 0x20 \<or> c = 0x7f) then Failed
      else (case ADVANCE_PATH buf of
              Parsed (tok, has_query) buf' \<Rightarrow>
                Parsed (c # tok, has_query \<or> (IS_PRINTABLE_ASCII c \<and> c = 0x3f)) buf'
            | Partial \<Rightarrow> Partial | Failed \<Rightarrow> Failed))"

text \<open>
  \<open>get_token_to_eol\<close>: the loop over blocks of eight bytes, which stops at a control character or
  when fewer than eight bytes are left, the loop over single bytes, and the end of the line.
\<close>

definition eol_ctl :: "byte \<Rightarrow> bool" where
  "eol_ctl c \<longleftrightarrow> (c < 0x20 \<and> c \<noteq> 0x09) \<or> c = 0x7f"

function find_ctl_blocks :: "bytes \<Rightarrow> bool \<times> bytes" where
  "find_ctl_blocks buf =
     (if length buf < 8 then (False, buf)
      else
        let printable = length (takeWhile IS_PRINTABLE_ASCII (take 8 buf)) in
        if printable = 8 then find_ctl_blocks (drop 8 buf)
        else if eol_ctl (buf ! printable) then (True, drop printable buf)
        else find_ctl_blocks (drop (printable + 1) buf))"
  by pat_completeness auto
termination by (relation "measure length") auto

declare find_ctl_blocks.simps [simp del]

fun find_ctl_bytes :: "bytes \<Rightarrow> bytes option" where
  "find_ctl_bytes [] = None"
| "find_ctl_bytes (c # buf) =
     (if \<not> IS_PRINTABLE_ASCII c \<and> eol_ctl c then Some (c # buf) else find_ctl_bytes buf)"

definition get_token_to_eol :: "bytes \<Rightarrow> bytes pico" where
  "get_token_to_eol buf =
     (case (case find_ctl_blocks buf of (True, ctl) \<Rightarrow> Some ctl | (False, buf') \<Rightarrow> find_ctl_bytes buf') of
        None \<Rightarrow> Partial
      | Some ctl \<Rightarrow>
          let token = take (length buf - length ctl) buf in
          if hd ctl = 0x0d then pico_bind (EXPECT_CHAR 0x0a) (\<lambda>_. Parsed token) (tl ctl)
          else if hd ctl = 0x0a then Parsed token (tl ctl)
          else Failed)"

text \<open>\<open>is_complete\<close>: two line ends in a row, looked for from three bytes before the new ones.\<close>

fun is_complete_loop :: "nat \<Rightarrow> bytes \<Rightarrow> unit pico" where
  "is_complete_loop ret_cnt [] = Partial"
| "is_complete_loop ret_cnt (c # buf) =
     (if c = 0x0d then
        (case buf of [] \<Rightarrow> Partial
         | d # buf' \<Rightarrow> if d \<noteq> 0x0a then Failed
             else if ret_cnt + 1 = 2 then Parsed () buf' else is_complete_loop (ret_cnt + 1) buf')
      else if c = 0x0a then
        (if ret_cnt + 1 = 2 then Parsed () buf else is_complete_loop (ret_cnt + 1) buf)
      else is_complete_loop 0 buf)"

definition is_complete :: "nat \<Rightarrow> bytes \<Rightarrow> unit pico" where
  "is_complete last_len buf = is_complete_loop 0 (if last_len < 3 then buf else drop (last_len - 3) buf)"

text \<open>\<open>PARSE_INT\<close>, with \<open>PARSE_INT_3\<close> for three digits.\<close>

definition PARSE_INT :: "nat \<Rightarrow> bytes \<Rightarrow> nat pico" where
  "PARSE_INT mul buf =
     (case buf of [] \<Rightarrow> Partial
      | c # buf' \<Rightarrow> if c < 0x30 \<or> 0x39 < c then Failed else Parsed (mul * (unat c - 0x30)) buf')"

definition parse_http_version :: "bytes \<Rightarrow> nat pico" where
  "parse_http_version buf =
     (if length buf < 9 then Partial
      else pico_bind (EXPECT_CHARS [0x48, 0x54, 0x54, 0x50, 0x2f, 0x31, 0x2e]) (\<lambda>_. PARSE_INT 1) buf)"

text \<open>The end of a line: \<open>CR LF\<close> or \<open>LF\<close>; \<open>None\<close> when the line does not end here.\<close>

definition line_end :: "bytes \<Rightarrow> bool pico" where
  "line_end = pico_bind CHECK_EOF (\<lambda>c buf.
     if c = 0x0d then pico_bind (EXPECT_CHAR 0x0a) (\<lambda>_. Parsed True) (tl buf)
     else if c = 0x0a then Parsed True (tl buf)
     else Parsed False buf)"

section \<open>Headers\<close>

text \<open>\<open>token_char_map\<close>: the characters of a header name.\<close>

definition token_char_map :: "nat list" where
  "token_char_map =
     replicate 32 0 @
     [0,1,0,1,1,1,1,1,0,0,1,1,0,1,1,0,1,1,1,1,1,1,1,1,1,1,0,0,0,0,0,0] @
     [0,1,1,1,1,1,1,1,1,1,1,1,1,1,1,1,1,1,1,1,1,1,1,1,1,1,1,0,0,0,1,1] @
     [1,1,1,1,1,1,1,1,1,1,1,1,1,1,1,1,1,1,1,1,1,1,1,1,1,1,1,0,1,0,1,0] @
     replicate 128 0"

definition is_token_char :: "byte \<Rightarrow> bool" where
  "is_token_char c \<longleftrightarrow> token_char_map ! unat c \<noteq> 0"

fun header_name :: "bytes \<Rightarrow> bytes pico" where
  "header_name [] = Partial"
| "header_name (c # buf) =
     (if c = 0x3a then Parsed [] (c # buf)
      else if \<not> is_token_char c then Failed
      else (case header_name buf of
              Parsed name buf' \<Rightarrow> Parsed (c # name) buf' | Partial \<Rightarrow> Partial | Failed \<Rightarrow> Failed))"

fun skip_blanks :: "bytes \<Rightarrow> unit pico" where
  "skip_blanks [] = Partial"
| "skip_blanks (c # buf) = (if c = 0x20 \<or> c = 0x09 then skip_blanks buf else Parsed () (c # buf))"

text \<open>A name with its colon and the blanks behind it.\<close>

definition header_key :: "bytes \<Rightarrow> bytes pico" where
  "header_key = pico_bind header_name (\<lambda>name buf.
     if name = [] then Failed else pico_bind skip_blanks (\<lambda>_. Parsed name) (tl buf))"

text \<open>
  The look at a header named \<open>?onnection\<close>. \<open>ch\<close> is the byte at the start of the value, the line end
  when the value is empty.
\<close>

definition connection_flags :: "bytes \<Rightarrow> byte \<Rightarrow> bytes \<Rightarrow> conn_flags \<Rightarrow> conn_flags" where
  "connection_flags name ch val fl =
     (if length name = 10 \<and> tl name = text_bytes ''onnection'' then
        let fl = fl\<lparr>has_connection := True\<rparr> in
        if ch = 0x55 \<or> ch = 0x75 then fl\<lparr>has_upgrade := True\<rparr>
        else if ch = 0x63 \<or> ch = 0x43 then fl\<lparr>has_close := True\<rparr>
        else if ch = 0x6b \<or> ch = 0x4b then
          (if contains_sub (text_bytes ''pgrade'') val then fl\<lparr>has_upgrade := True\<rparr> else fl)
        else fl
      else fl)"

text \<open>A header line; a line that starts with a blank continues the one before it, without a name.\<close>

definition header_line :: "bool \<Rightarrow> conn_flags \<Rightarrow> bytes \<Rightarrow> (http_header \<times> conn_flags) pico" where
  "header_line first fl = pico_bind CHECK_EOF (\<lambda>c.
     pico_bind (if first \<or> \<not> (c = 0x20 \<or> c = 0x09) then header_key else Parsed []) (\<lambda>name.
     pico_bind CHECK_EOF (\<lambda>ch.
     pico_bind get_token_to_eol (\<lambda>val.
     Parsed (\<lparr>hd_name = name, hd_value = val\<rparr>, connection_flags name ch val fl)))))"

text \<open>
  \<open>parse_headers\<close>; \<open>left\<close> is the number of free entries in the array of headers.
\<close>

primrec parse_headers ::
  "nat \<Rightarrow> http_header list \<Rightarrow> conn_flags \<Rightarrow> bytes \<Rightarrow> (http_header list \<times> conn_flags) pico" where
  "parse_headers 0 headers fl buf =
     pico_bind line_end (\<lambda>e. if e then Parsed (headers, fl) else (\<lambda>_. Failed)) buf"
| "parse_headers (Suc left) headers fl buf =
     pico_bind line_end (\<lambda>e.
       if e then Parsed (headers, fl)
       else pico_bind (header_line (headers = []) fl) (\<lambda>(h, fl).
              parse_headers left (headers @ [h]) fl)) buf"

section \<open>Requests and responses\<close>

record http_request_head =
  rq_method :: bytes
  rq_path :: bytes
  rq_minor :: nat
  rq_headers :: "http_header list"
  rq_flags :: conn_flags
  rq_has_query :: bool

record http_response_head =
  rp_minor :: nat
  rp_status :: nat
  rp_msg :: bytes
  rp_headers :: "http_header list"

definition no_flags :: conn_flags where
  "no_flags = \<lparr>has_connection = False, has_close = False, has_upgrade = False\<rparr>"

definition parse_request :: "nat \<Rightarrow> conn_flags \<Rightarrow> bytes \<Rightarrow> http_request_head pico" where
  "parse_request max_headers fl =
     pico_bind line_end (\<lambda>_.
     pico_bind ADVANCE_TOKEN (\<lambda>meth.
     pico_bind (EXPECT_CHAR 0x20) (\<lambda>_.
     pico_bind ADVANCE_PATH (\<lambda>(path, has_query).
     pico_bind (EXPECT_CHAR 0x20) (\<lambda>_.
     pico_bind parse_http_version (\<lambda>minor.
     pico_bind line_end (\<lambda>e. if \<not> e then (\<lambda>_. Failed) else
     pico_bind (parse_headers max_headers [] fl) (\<lambda>(headers, fl).
     Parsed \<lparr>rq_method = meth, rq_path = path, rq_minor = minor, rq_headers = headers,
              rq_flags = fl, rq_has_query = has_query\<rparr>))))))))"

text \<open>
  The number of bytes consumed comes with the result. \<open>last_len\<close> is 0 in all calls of cinatra; the
  request is then not looked through beforehand.
\<close>

definition phr_parse_request ::
  "nat \<Rightarrow> nat \<Rightarrow> conn_flags \<Rightarrow> bytes \<Rightarrow> (http_request_head \<times> nat) pico" where
  "phr_parse_request max_headers last_len fl buf =
     (case (if last_len \<noteq> 0 then is_complete last_len buf else Parsed () buf) of
        Partial \<Rightarrow> Partial | Failed \<Rightarrow> Failed
      | Parsed _ _ \<Rightarrow>
          pico_bind (parse_request max_headers fl)
            (\<lambda>h buf'. Parsed (h, length buf - length buf' - last_len) buf') (drop last_len buf))"

definition parse_status :: "bytes \<Rightarrow> nat pico" where
  "parse_status buf =
     (if length buf < 4 then Partial
      else pico_bind (PARSE_INT 100) (\<lambda>a. pico_bind (PARSE_INT 10) (\<lambda>b.
             pico_bind (PARSE_INT 1) (\<lambda>c. Parsed (a + b + c)))) buf)"

definition parse_response :: "nat \<Rightarrow> bytes \<Rightarrow> http_response_head pico" where
  "parse_response max_headers =
     pico_bind parse_http_version (\<lambda>minor.
     pico_bind (EXPECT_CHAR 0x20) (\<lambda>_.
     pico_bind parse_status (\<lambda>status.
     pico_bind (EXPECT_CHAR 0x20) (\<lambda>_.
     pico_bind get_token_to_eol (\<lambda>msg.
     pico_bind (parse_headers max_headers [] no_flags) (\<lambda>(headers, fl).
     Parsed \<lparr>rp_minor = minor, rp_status = status, rp_msg = msg, rp_headers = headers\<rparr>))))))"

definition phr_parse_response ::
  "nat \<Rightarrow> nat \<Rightarrow> bytes \<Rightarrow> (http_response_head \<times> nat) pico" where
  "phr_parse_response max_headers last_len buf =
     (case (if last_len \<noteq> 0 then is_complete last_len buf else Parsed () buf) of
        Partial \<Rightarrow> Partial | Failed \<Rightarrow> Failed
      | Parsed _ _ \<Rightarrow>
          pico_bind (parse_response max_headers) (\<lambda>h buf'. Parsed (h, length buf - length buf') buf') buf)"

definition phr_parse_headers :: "nat \<Rightarrow> nat \<Rightarrow> bytes \<Rightarrow> (http_header list \<times> nat) pico" where
  "phr_parse_headers max_headers last_len buf =
     (case (if last_len \<noteq> 0 then is_complete last_len buf else Parsed () buf) of
        Partial \<Rightarrow> Partial | Failed \<Rightarrow> Failed
      | Parsed _ _ \<Rightarrow>
          pico_bind (parse_headers max_headers [] no_flags)
            (\<lambda>(hs, fl) buf'. Parsed (hs, length buf - length buf') buf') buf)"

section \<open>The loop over blocks\<close>

lemma printable_range: "IS_PRINTABLE_ASCII c \<longleftrightarrow> 32 \<le> unat c \<and> unat c < 127"
  using unat_byte_lt [of c]
  by (simp add: IS_PRINTABLE_ASCII_def word_less_nat_alt unat_sub_if' unsigned_ucast_eq take_bit_nat_eq_self
      word_le_nat_alt del: unat_byte_lt) arith?

lemma ctl_range: "eol_ctl c \<longleftrightarrow> (unat c < 32 \<and> unat c \<noteq> 9) \<or> unat c = 127"
  by (auto simp: eol_ctl_def word_less_nat_alt word_unat_eq_iff)

lemma printable_not_ctl: "IS_PRINTABLE_ASCII c \<Longrightarrow> \<not> eol_ctl c"
  by (auto simp: printable_range ctl_range)

lemma find_ctl_bytes_dropWhile:
  "find_ctl_bytes buf =
     (case dropWhile (\<lambda>c. \<not> eol_ctl c) buf of [] \<Rightarrow> None | c # ctl \<Rightarrow> Some (c # ctl))"
  by (induction buf) (auto dest: printable_not_ctl)

lemma dropWhile_skip: "\<forall>x \<in> set (take n xs). P x \<Longrightarrow> dropWhile P (drop n xs) = dropWhile P xs"
  by (metis append_take_drop_id dropWhile_append2)

lemma find_ctl_blocks_dropWhile:
  "(case find_ctl_blocks buf of (True, ctl) \<Rightarrow> ctl | (False, buf') \<Rightarrow> dropWhile (\<lambda>c. \<not> eol_ctl c) buf') =
     dropWhile (\<lambda>c. \<not> eol_ctl c) buf \<and> (fst (find_ctl_blocks buf) \<longrightarrow> snd (find_ctl_blocks buf) \<noteq> [])"
proof (induction buf rule: find_ctl_blocks.induct)
  case (1 buf)
  let ?P = "\<lambda>c. \<not> eol_ctl c" and ?n = "length (takeWhile IS_PRINTABLE_ASCII (take 8 buf))"
  show ?case
  proof (cases "length buf < 8")
    case True
    then show ?thesis by (subst (1 2 3) find_ctl_blocks.simps) simp
  next
    case long: False
    have n: "?n \<le> 8" using length_takeWhile_le [of IS_PRINTABLE_ASCII "take 8 buf"] by simp
    have pre: "take ?n buf = takeWhile IS_PRINTABLE_ASCII (take 8 buf)"
      using n by (metis min.absorb1 take_take takeWhile_eq_take)
    then have skip: "\<forall>x \<in> set (take ?n buf). ?P x"
      by (auto dest!: set_takeWhileD printable_not_ctl)
    show ?thesis
    proof (cases "?n = 8")
      case True
      then have "find_ctl_blocks buf = find_ctl_blocks (drop 8 buf)"
        by (subst find_ctl_blocks.simps) (use long in \<open>simp add: Let_def\<close>)
      with 1(1) [OF long refl True] dropWhile_skip [OF skip] True show ?thesis by simp
    next
      case short: False
      with n long have at: "?n < length buf" by simp
      show ?thesis
      proof (cases "eol_ctl (buf ! ?n)")
        case True
        then have "find_ctl_blocks buf = (True, drop ?n buf)"
          by (subst find_ctl_blocks.simps) (use long short in \<open>simp add: Let_def\<close>)
        moreover have "dropWhile ?P (drop ?n buf) = drop ?n buf"
          using True at by (simp add: dropWhile_eq_self_iff hd_drop_conv_nth)
        ultimately show ?thesis using dropWhile_skip [OF skip] at by simp
      next
        case False
        then have "find_ctl_blocks buf = find_ctl_blocks (drop (?n + 1) buf)"
          by (subst find_ctl_blocks.simps) (use long short in \<open>simp add: Let_def\<close>)
        moreover have "\<forall>x \<in> set (take (?n + 1) buf). ?P x"
          using skip False at by (auto simp: take_Suc_conv_app_nth)
        ultimately show ?thesis
          using 1(2) [OF long refl short False] dropWhile_skip [of "?n + 1" buf ?P] by simp
      qed
    qed
  qed
qed

text \<open>What \<open>get_token_to_eol\<close> computes, without the blocks.\<close>

lemma get_token_to_eol_eq:
  "get_token_to_eol buf =
     (case dropWhile (\<lambda>c. \<not> eol_ctl c) buf of [] \<Rightarrow> Partial
      | c # ctl \<Rightarrow>
          let token = takeWhile (\<lambda>c. \<not> eol_ctl c) buf in
          if c = 0x0d then pico_bind (EXPECT_CHAR 0x0a) (\<lambda>_. Parsed token) ctl
          else if c = 0x0a then Parsed token ctl
          else Failed)"
proof -
  let ?D = "dropWhile (\<lambda>c. \<not> eol_ctl c) buf"
  have "(case find_ctl_blocks buf of (True, ctl) \<Rightarrow> Some ctl | (False, buf') \<Rightarrow> find_ctl_bytes buf') =
      (case ?D of [] \<Rightarrow> None | c # ctl \<Rightarrow> Some (c # ctl))"
    using find_ctl_blocks_dropWhile [of buf]
    by (auto simp: find_ctl_bytes_dropWhile split: prod.splits bool.splits list.splits)
  moreover have "take (length buf - length ?D) buf = takeWhile (\<lambda>c. \<not> eol_ctl c) buf"
    by (metis append_eq_conv_conj length_append takeWhile_dropWhile_id add_diff_cancel_right')
  ultimately show ?thesis
    by (cases ?D) (simp_all add: get_token_to_eol_def Let_def del: dropWhile_eq_Nil_conv)
qed

section \<open>The parser is incremental\<close>

text \<open>
  What an incremental parser says of a buffer, other than that it needs more, it says of every
  continuation of the buffer.
\<close>

definition incremental :: "(bytes \<Rightarrow> 'a pico) \<Rightarrow> bool" where
  "incremental p \<longleftrightarrow> (\<forall>buf suf.
     (\<forall>x buf'. p buf = Parsed x buf' \<longrightarrow> p (buf @ suf) = Parsed x (buf' @ suf)) \<and>
     (p buf = Failed \<longrightarrow> p (buf @ suf) = Failed))"

named_theorems incremental_rules "closure of the incremental parsers"

lemma incrementalI:
  "(\<And>buf suf x buf'. p buf = Parsed x buf' \<Longrightarrow> p (buf @ suf) = Parsed x (buf' @ suf)) \<Longrightarrow>
   (\<And>buf suf. p buf = Failed \<Longrightarrow> p (buf @ suf) = Failed) \<Longrightarrow> incremental p"
  by (simp add: incremental_def)

lemma incremental_bind [incremental_rules]:
  assumes "incremental p" "\<And>x. incremental (f x)"
  shows "incremental (pico_bind p f)"
  using assms by (auto simp: incremental_def pico_bind_def split: pico.splits)

lemma incremental_Parsed [incremental_rules]: "incremental (Parsed x)"
  by (simp add: incremental_def)

lemma incremental_Failed [incremental_rules]: "incremental (\<lambda>_. Failed)"
  by (simp add: incremental_def)

lemma incremental_if [incremental_rules]:
  "incremental p \<Longrightarrow> incremental q \<Longrightarrow> incremental (if b then p else q)"
  by simp

lemma incremental_pair [incremental_rules]:
  "(\<And>x y. incremental (f x y)) \<Longrightarrow> incremental (case z of (x, y) \<Rightarrow> f x y)"
  by (simp split: prod.split)

lemma incremental_length [incremental_rules]:
  "incremental p \<Longrightarrow> incremental (\<lambda>buf. if length buf < n then Partial else p buf)"
  by (auto simp: incremental_def)

lemma incremental_CHECK_EOF [incremental_rules]: "incremental CHECK_EOF"
  by (auto simp: incremental_def CHECK_EOF_def split: list.splits)

lemma incremental_EXPECT_CHAR [incremental_rules]: "incremental (EXPECT_CHAR ch)"
  by (auto simp: incremental_def EXPECT_CHAR_def split: list.splits if_splits)

lemma incremental_EXPECT_CHARS [incremental_rules]: "incremental (EXPECT_CHARS chs)"
proof (induction chs)
  case Nil
  show ?case by (simp add: incremental_def)
next
  case (Cons ch chs)
  have "EXPECT_CHARS (ch # chs) = pico_bind (EXPECT_CHAR ch) (\<lambda>_. EXPECT_CHARS chs)" by (rule ext) simp
  then show ?case using Cons by (simp add: incremental_rules)
qed

lemma incremental_PARSE_INT [incremental_rules]: "incremental (PARSE_INT mul)"
  by (auto simp: incremental_def PARSE_INT_def split: list.splits if_splits)

lemma incremental_ADVANCE_TOKEN [incremental_rules]: "incremental ADVANCE_TOKEN"
proof (rule incrementalI)
  fix buf suf x buf'
  show "ADVANCE_TOKEN buf = Parsed x buf' \<Longrightarrow> ADVANCE_TOKEN (buf @ suf) = Parsed x (buf' @ suf)"
    by (induction buf arbitrary: x) (auto split: if_splits pico.splits)
  show "ADVANCE_TOKEN buf = Failed \<Longrightarrow> ADVANCE_TOKEN (buf @ suf) = Failed"
    by (induction buf) (auto split: if_splits pico.splits)
qed

lemma incremental_ADVANCE_PATH [incremental_rules]: "incremental ADVANCE_PATH"
proof (rule incrementalI)
  fix buf suf x buf'
  show "ADVANCE_PATH buf = Parsed x buf' \<Longrightarrow> ADVANCE_PATH (buf @ suf) = Parsed x (buf' @ suf)"
    by (induction buf arbitrary: x) (fastforce split: if_splits pico.splits prod.splits)+
  show "ADVANCE_PATH buf = Failed \<Longrightarrow> ADVANCE_PATH (buf @ suf) = Failed"
    by (induction buf) (auto split: if_splits pico.splits prod.splits)
qed

lemma incremental_header_name [incremental_rules]: "incremental header_name"
proof (rule incrementalI)
  fix buf suf x buf'
  show "header_name buf = Parsed x buf' \<Longrightarrow> header_name (buf @ suf) = Parsed x (buf' @ suf)"
    by (induction buf arbitrary: x) (auto split: if_splits pico.splits)
  show "header_name buf = Failed \<Longrightarrow> header_name (buf @ suf) = Failed"
    by (induction buf) (auto split: if_splits pico.splits)
qed

lemma incremental_skip_blanks [incremental_rules]: "incremental skip_blanks"
proof (rule incrementalI)
  fix buf suf x buf'
  show "skip_blanks buf = Parsed x buf' \<Longrightarrow> skip_blanks (buf @ suf) = Parsed x (buf' @ suf)"
    by (induction buf) (auto split: if_splits)
  show "skip_blanks buf = Failed \<Longrightarrow> skip_blanks (buf @ suf) = Failed"
    by (induction buf) (auto split: if_splits)
qed

lemma incremental_line_end [incremental_rules]: "incremental line_end"
proof (rule incrementalI)
  fix buf suf x buf'
  show "line_end buf = Parsed x buf' \<Longrightarrow> line_end (buf @ suf) = Parsed x (buf' @ suf)"
    by (cases buf) (auto simp: line_end_def pico_bind_def CHECK_EOF_def EXPECT_CHAR_def
        split: if_splits pico.splits list.splits)
  show "line_end buf = Failed \<Longrightarrow> line_end (buf @ suf) = Failed"
    by (cases buf) (auto simp: line_end_def pico_bind_def CHECK_EOF_def EXPECT_CHAR_def
        split: if_splits pico.splits list.splits)
qed

lemma header_name_colon: "header_name buf = Parsed name buf' \<Longrightarrow> hd buf' = 0x3a \<and> buf' \<noteq> []"
  by (induction buf arbitrary: name) (auto split: if_splits pico.splits)

lemma header_key_eq:
  "header_key buf = (case header_name buf of Partial \<Rightarrow> Partial | Failed \<Rightarrow> Failed
     | Parsed name buf' \<Rightarrow>
         if name = [] then Failed
         else case skip_blanks (tl buf') of Partial \<Rightarrow> Partial | Failed \<Rightarrow> Failed
              | Parsed _ val \<Rightarrow> Parsed name val)"
  by (simp add: header_key_def pico_bind_def split: pico.split)

lemma incremental_header_key [incremental_rules]: "incremental header_key"
proof -
  have name: "header_name (buf @ suf) = Parsed name (buf' @ suf) \<and> tl (buf' @ suf) = tl buf' @ suf"
    if "header_name buf = Parsed name buf'" for buf suf name buf'
    using incremental_header_name that header_name_colon [OF that] by (auto simp: incremental_def)
  have fail: "header_name (buf @ suf) = Failed" if "header_name buf = Failed" for buf suf
    using incremental_header_name that by (simp add: incremental_def)
  show ?thesis
    using incremental_skip_blanks
    by (auto simp: incremental_def header_key_eq name fail split: pico.splits if_splits)
qed

lemma incremental_get_token_to_eol [incremental_rules]: "incremental get_token_to_eol"
proof -
  have longer: "dropWhile (\<lambda>c. \<not> eol_ctl c) (buf @ suf) = c # ctl @ suf \<and>
      takeWhile (\<lambda>c. \<not> eol_ctl c) (buf @ suf) = takeWhile (\<lambda>c. \<not> eol_ctl c) buf"
    if "dropWhile (\<lambda>c. \<not> eol_ctl c) buf = c # ctl" for buf suf c ctl
    using that by (induction buf) (auto split: if_splits)
  show ?thesis
  proof (rule incrementalI)
    fix buf suf x buf'
    show "get_token_to_eol buf = Parsed x buf' \<Longrightarrow> get_token_to_eol (buf @ suf) = Parsed x (buf' @ suf)"
      by (auto simp: get_token_to_eol_eq longer pico_bind_def EXPECT_CHAR_def Let_def
          simp del: dropWhile_eq_Nil_conv split: list.splits if_splits pico.splits)
    show "get_token_to_eol buf = Failed \<Longrightarrow> get_token_to_eol (buf @ suf) = Failed"
      by (auto simp: get_token_to_eol_eq longer pico_bind_def EXPECT_CHAR_def Let_def
          simp del: dropWhile_eq_Nil_conv split: list.splits if_splits pico.splits)
  qed
qed

lemma incremental_header_line [incremental_rules]: "incremental (header_line first fl)"
  unfolding header_line_def by (intro incremental_rules)

lemma incremental_parse_headers [incremental_rules]: "incremental (parse_headers left headers fl)"
proof (induction left arbitrary: headers fl)
  case 0
  have "parse_headers 0 headers fl =
      pico_bind line_end (\<lambda>e. if e then Parsed (headers, fl) else (\<lambda>_. Failed))" by (rule ext) simp
  then show ?case by (simp only:) (intro incremental_rules)
next
  case (Suc left)
  have "parse_headers (Suc left) headers fl =
      pico_bind line_end (\<lambda>e. if e then Parsed (headers, fl)
        else pico_bind (header_line (headers = []) fl) (\<lambda>(h, fl). parse_headers left (headers @ [h]) fl))"
    by (rule ext) simp
  then show ?case by (simp only:) (intro incremental_rules Suc.IH)
qed

lemma incremental_parse_http_version [incremental_rules]: "incremental parse_http_version"
proof -
  have "parse_http_version = (\<lambda>buf. if length buf < 9 then Partial
      else pico_bind (EXPECT_CHARS [0x48, 0x54, 0x54, 0x50, 0x2f, 0x31, 0x2e]) (\<lambda>_. PARSE_INT 1) buf)"
    by (rule ext) (simp add: parse_http_version_def)
  then show ?thesis by (rule ssubst) (intro incremental_rules)
qed

lemma incremental_parse_status [incremental_rules]: "incremental parse_status"
proof -
  have "parse_status = (\<lambda>buf. if length buf < 4 then Partial
      else pico_bind (PARSE_INT 100) (\<lambda>a. pico_bind (PARSE_INT 10) (\<lambda>b.
             pico_bind (PARSE_INT 1) (\<lambda>c. Parsed (a + b + c)))) buf)"
    by (rule ext) (simp add: parse_status_def)
  then show ?thesis by (rule ssubst) (intro incremental_rules)
qed

lemma incremental_parse_request [incremental_rules]: "incremental (parse_request n fl)"
  unfolding parse_request_def by (intro incremental_rules)

lemma incremental_parse_response [incremental_rules]: "incremental (parse_response n)"
  unfolding parse_response_def by (intro incremental_rules)

text \<open>Counting the consumed bytes, as the three entry points do.\<close>

definition counted :: "(bytes \<Rightarrow> 'a pico) \<Rightarrow> bytes \<Rightarrow> ('a \<times> nat) pico" where
  "counted p buf = (case p buf of Partial \<Rightarrow> Partial | Failed \<Rightarrow> Failed
     | Parsed x buf' \<Rightarrow> Parsed (x, length buf - length buf') buf')"

lemma incremental_counted [incremental_rules]: "incremental p \<Longrightarrow> incremental (counted p)"
  by (auto simp: incremental_def counted_def split: pico.splits)

lemma counted_prefix:
  assumes "incremental p" "counted p (buf @ suf) = Parsed (x, k) buf'" "length buf < k"
  shows "counted p buf = Partial"
proof (cases "p buf")
  case Failed
  with assms(1) have "p (buf @ suf) = Failed" by (simp add: incremental_def)
  with assms(2) show ?thesis by (simp add: counted_def)
next
  case (Parsed y r)
  with assms(1) have "p (buf @ suf) = Parsed y (r @ suf)" by (simp add: incremental_def)
  with assms(2,3) show ?thesis by (auto simp: counted_def)
qed (simp add: counted_def)

lemma phr_counted:
  "phr_parse_request n 0 fl = counted (parse_request n fl)"
  "phr_parse_response n 0 = counted (parse_response n)"
  by (rule ext, simp add: phr_parse_request_def phr_parse_response_def pico_bind_def counted_def)+

text \<open>
  C10 (safety). The parser is incremental: a request or response head that is complete or wrong in a
  buffer is so in every longer one, with the same fields; and a buffer that ends inside an
  accepted head is reported as incomplete, never as an error or as a shorter request.
\<close>
theorem parse_incremental:
  "incremental (phr_parse_request n 0 fl) \<and> incremental (phr_parse_response n 0) \<and>
   (\<forall>buf suf h k buf'. phr_parse_request n 0 fl (buf @ suf) = Parsed (h, k) buf' \<and> length buf < k \<longrightarrow>
      phr_parse_request n 0 fl buf = Partial) \<and>
   (\<forall>buf suf h k buf'. phr_parse_response n 0 (buf @ suf) = Parsed (h, k) buf' \<and> length buf < k \<longrightarrow>
      phr_parse_response n 0 buf = Partial)"
  unfolding phr_counted
  by (intro conjI allI impI incremental_rules) (erule conjE, erule counted_prefix [rotated], assumption, rule incremental_rules)+

section \<open>Reading back a head\<close>

definition crlf :: bytes where
  "crlf = [0x0d, 0x0a]"

definition token_ok :: "bytes \<Rightarrow> bool" where
  "token_ok t \<longleftrightarrow> (\<forall>c \<in> set t. 0x20 < c \<and> c \<noteq> 0x7f)"

definition value_ok :: "bytes \<Rightarrow> bool" where
  "value_ok v \<longleftrightarrow> (\<forall>c \<in> set v. \<not> eol_ctl c) \<and> hd (v @ crlf) \<noteq> 0x20 \<and> hd (v @ crlf) \<noteq> 0x09"

definition header_ok :: "http_header \<Rightarrow> bool" where
  "header_ok h \<longleftrightarrow> hd_name h \<noteq> [] \<and> (\<forall>c \<in> set (hd_name h). is_token_char c) \<and> value_ok (hd_value h)"

text \<open>A header with the blanks between colon and value, a header section, and the two heads.\<close>

definition header_text :: "bytes \<times> http_header \<Rightarrow> bytes" where
  "header_text = (\<lambda>(blanks, h). hd_name h @ [0x3a] @ blanks @ hd_value h @ crlf)"

definition headers_text :: "(bytes \<times> http_header) list \<Rightarrow> bytes" where
  "headers_text ls = concat (map header_text ls) @ crlf"

definition line_ok :: "bytes \<times> http_header \<Rightarrow> bool" where
  "line_ok = (\<lambda>(blanks, h). set blanks \<subseteq> {0x20, 0x09} \<and> header_ok h)"

definition version_text :: "nat \<Rightarrow> bytes" where
  "version_text minor = [0x48, 0x54, 0x54, 0x50, 0x2f, 0x31, 0x2e, word_of_nat (0x30 + minor)]"

definition request_text :: "bytes \<Rightarrow> bytes \<Rightarrow> nat \<Rightarrow> (bytes \<times> http_header) list \<Rightarrow> bytes" where
  "request_text meth path minor ls =
     meth @ [0x20] @ path @ [0x20] @ version_text minor @ crlf @ headers_text ls"

definition digits3 :: "nat \<Rightarrow> bytes" where
  "digits3 n = map (\<lambda>d. word_of_nat (0x30 + d)) [n div 100, n div 10 mod 10, n mod 10]"

definition response_text :: "nat \<Rightarrow> nat \<Rightarrow> bytes \<Rightarrow> (bytes \<times> http_header) list \<Rightarrow> bytes" where
  "response_text minor status msg ls =
     version_text minor @ [0x20] @ digits3 status @ [0x20] @ msg @ crlf @ headers_text ls"

definition header_flags :: "http_header \<Rightarrow> conn_flags \<Rightarrow> conn_flags" where
  "header_flags h = connection_flags (hd_name h) (hd (hd_value h @ crlf)) (hd_value h)"

named_theorems parsed "what the parsers give on rendered text"

lemma token_not_ctl: "0x20 < c \<and> c \<noteq> 0x7f \<Longrightarrow> c \<noteq> 0x20 \<and> \<not> c < (0x20 :: byte)"
  by (auto simp: word_less_nat_alt)

lemma ADVANCE_TOKEN_text [parsed]: "token_ok t \<Longrightarrow> ADVANCE_TOKEN (t @ 0x20 # buf) = Parsed t (0x20 # buf)"
  by (induction t) (auto simp: token_ok_def dest: token_not_ctl)

lemma ADVANCE_PATH_text [parsed]:
  "token_ok t \<Longrightarrow> ADVANCE_PATH (t @ 0x20 # buf) = Parsed (t, 0x3f \<in> set t) (0x20 # buf)"
  by (induction t) (auto simp: token_ok_def printable_range dest: token_not_ctl)

lemma token_char_plain: "is_token_char c \<Longrightarrow> c \<noteq> 0x3a \<and> c \<noteq> 0x20 \<and> c \<noteq> 0x09 \<and> c \<noteq> 0x0d \<and> c \<noteq> 0x0a"
  by (auto simp: is_token_char_def token_char_map_def nth_append)

lemma header_name_text [parsed]:
  "\<forall>c \<in> set n. is_token_char c \<Longrightarrow> header_name (n @ 0x3a # buf) = Parsed n (0x3a # buf)"
  by (induction n) (auto dest: token_char_plain)

lemma skip_blanks_text [parsed]:
  "set bl \<subseteq> {0x20, 0x09} \<Longrightarrow> buf \<noteq> [] \<Longrightarrow> hd buf \<noteq> 0x20 \<Longrightarrow> hd buf \<noteq> 0x09 \<Longrightarrow>
   skip_blanks (bl @ buf) = Parsed () buf"
proof (induction bl)
  case Nil
  then show ?case by (cases buf) simp_all
qed auto

lemma ctl_crlf [simp]: "eol_ctl 0x0d" "eol_ctl 0x0a"
  by (simp_all add: eol_ctl_def)

lemma eol_text [parsed]:
  "\<forall>c \<in> set v. \<not> eol_ctl c \<Longrightarrow> get_token_to_eol (v @ crlf @ buf) = Parsed v buf"
  by (simp add: get_token_to_eol_eq crlf_def dropWhile_append2 takeWhile_append2 pico_bind_def EXPECT_CHAR_def)

lemma line_end_crlf [parsed]: "line_end (crlf @ buf) = Parsed True buf"
  by (simp add: line_end_def crlf_def pico_bind_def CHECK_EOF_def EXPECT_CHAR_def)

lemma line_end_other [parsed]: "c \<noteq> 0x0d \<Longrightarrow> c \<noteq> 0x0a \<Longrightarrow> line_end (c # buf) = Parsed False (c # buf)"
  by (simp add: line_end_def pico_bind_def CHECK_EOF_def)

lemma header_line_text [parsed]:
  assumes "line_ok l"
  shows "header_line first fl (header_text l @ buf) = Parsed (snd l, header_flags (snd l) fl) buf"
proof -
  obtain bl h where l: "l = (bl, h)" by (cases l)
  obtain c n where n: "hd_name h = c # n" using assms l by (cases "hd_name h") (auto simp: line_ok_def header_ok_def)
  have c: "c \<noteq> 0x20" "c \<noteq> 0x09" using assms l n by (auto simp: line_ok_def header_ok_def dest: token_char_plain)
  let ?v = "hd_value h @ crlf @ buf"
  have v: "?v \<noteq> []" "hd ?v = hd (hd_value h @ crlf)" by (simp_all add: crlf_def hd_append)
  have "header_key (header_text l @ buf) = Parsed (hd_name h) ?v"
    using assms skip_blanks_text [of bl ?v] v
    by (simp add: header_key_eq l header_text_def line_ok_def header_ok_def value_ok_def parsed)
  moreover have "CHECK_EOF (header_text l @ buf) = Parsed c (header_text l @ buf)"
    "CHECK_EOF ?v = Parsed (hd (hd_value h @ crlf)) ?v"
    using v by (simp_all add: CHECK_EOF_def l header_text_def n split: list.split) (metis list.sel(1))
  moreover have "get_token_to_eol ?v = Parsed (hd_value h) buf"
    using assms l by (intro eol_text) (simp add: line_ok_def header_ok_def value_ok_def)
  ultimately show ?thesis
    using c by (simp add: header_line_def pico_bind_def l header_flags_def)
qed

lemma header_text_start:
  assumes "line_ok l"
  obtains c buf where "header_text l = c # buf" "c \<noteq> 0x0d" "c \<noteq> 0x0a"
  using assms by (cases l, cases "hd_name (snd l)")
    (auto simp: line_ok_def header_ok_def header_text_def dest: token_char_plain)

lemma parse_headers_text [parsed]:
  "\<forall>l \<in> set ls. line_ok l \<Longrightarrow> length ls \<le> left \<Longrightarrow>
   parse_headers left hs fl (headers_text ls @ buf) =
     Parsed (hs @ map snd ls, fold header_flags (map snd ls) fl) buf"
proof (induction ls arbitrary: left hs fl)
  case Nil
  then show ?case by (cases left) (simp_all add: headers_text_def pico_bind_def parsed)
next
  case (Cons l ls)
  then obtain left' where left: "left = Suc left'" by (cases left) auto
  from Cons.prems obtain c r where l: "header_text l = c # r" "c \<noteq> 0x0d" "c \<noteq> 0x0a"
    by (auto elim: header_text_start)
  let ?rest = "headers_text ls @ buf"
  have "line_end (header_text l @ ?rest) = Parsed False (header_text l @ ?rest)"
    using l by (simp add: parsed)
  moreover have "header_line (hs = []) fl (header_text l @ ?rest) =
      Parsed (snd l, header_flags (snd l) fl) ?rest"
    using Cons.prems by (intro header_line_text) simp
  moreover have "parse_headers left' (hs @ [snd l]) (header_flags (snd l) fl) ?rest =
      Parsed ((hs @ [snd l]) @ map snd ls, fold header_flags (map snd ls) (header_flags (snd l) fl)) buf"
    using Cons.prems left by (intro Cons.IH) simp_all
  moreover have "headers_text (l # ls) @ buf = header_text l @ ?rest" by (simp add: headers_text_def)
  ultimately show ?case by (simp add: left pico_bind_def)
qed

lemma EXPECT_CHAR_text [parsed]: "EXPECT_CHAR c (c # buf) = Parsed () buf"
  by (simp add: EXPECT_CHAR_def)

lemma PARSE_INT_text [parsed]:
  "d \<le> 9 \<Longrightarrow> PARSE_INT mul (word_of_nat (0x30 + d) # buf) = Parsed (mul * d) buf"
  by (simp add: PARSE_INT_def word_less_nat_alt del: of_nat_add)

lemma version_text_parsed [parsed]:
  "minor \<le> 9 \<Longrightarrow> parse_http_version (version_text minor @ c # buf) = Parsed minor (c # buf)"
  using PARSE_INT_text [of minor 1 "c # buf"]
  by (simp add: parse_http_version_def version_text_def pico_bind_def EXPECT_CHAR_text)

lemma status_parsed [parsed]:
  assumes "n < 1000"
  shows "parse_status (digits3 n @ c # buf) = Parsed n (c # buf)"
proof -
  have "n div 100 \<le> 9" "n div 10 mod 10 \<le> 9" "n mod 10 \<le> 9" using assms by simp_all
  moreover have "n div 10 mod 10 * 10 + n mod 10 = n mod 100"
    using mod_mult2_eq [of n 10 10] by simp
  with div_mult_mod_eq [of n 100] have "n div 100 * 100 + n div 10 mod 10 * 10 + n mod 10 = n" by linarith
  ultimately show ?thesis
    by (simp add: parse_status_def digits3_def pico_bind_def PARSE_INT_text del: of_nat_add)
qed

lemma crlf_cons: "crlf @ buf = 0x0d # 0x0a # buf"
  by (simp add: crlf_def)

lemma request_line_start:
  assumes "token_ok meth"
  shows "line_end (meth @ 0x20 # buf) = Parsed False (meth @ 0x20 # buf)"
  using assms by (cases meth) (auto simp: parsed token_ok_def word_less_nat_alt intro!: line_end_other)

lemma parse_request_text [parsed]:
  assumes "token_ok meth" "token_ok path" "minor \<le> 9" "\<forall>l \<in> set ls. line_ok l" "length ls \<le> n"
  shows "parse_request n fl (request_text meth path minor ls @ buf) =
    Parsed \<lparr>rq_method = meth, rq_path = path, rq_minor = minor, rq_headers = map snd ls,
      rq_flags = fold header_flags (map snd ls) fl, rq_has_query = (0x3f \<in> set path)\<rparr> buf"
proof -
  let ?h = "headers_text ls @ buf"
  have version: "parse_http_version (version_text minor @ crlf @ ?h) = Parsed minor (crlf @ ?h)"
    using version_text_parsed [OF assms(3)] by (simp add: crlf_cons)
  show ?thesis
    using assms parse_headers_text [of ls n "[]" fl buf]
    by (simp add: parse_request_def request_text_def pico_bind_def request_line_start
        ADVANCE_TOKEN_text ADVANCE_PATH_text EXPECT_CHAR_text version line_end_crlf)
qed

lemma parse_response_text [parsed]:
  assumes "minor \<le> 9" "status < 1000" "\<forall>c \<in> set msg. \<not> eol_ctl c"
    "\<forall>l \<in> set ls. line_ok l" "length ls \<le> n"
  shows "parse_response n (response_text minor status msg ls @ buf) =
    Parsed \<lparr>rp_minor = minor, rp_status = status, rp_msg = msg, rp_headers = map snd ls\<rparr> buf"
  using assms parse_headers_text [of ls n "[]" no_flags buf]
  by (simp add: parse_response_def response_text_def pico_bind_def version_text_parsed status_parsed
      EXPECT_CHAR_text eol_text)

text \<open>
  C6 (roundtrip). A request or response head with at most \<open>n\<close> headers is read back field by field,
  and exactly the bytes of the head are consumed; what follows it is not looked at.
\<close>
theorem heads_parsed:
  assumes "minor \<le> 9" "\<forall>l \<in> set ls. line_ok l" "length ls \<le> n"
    and "token_ok meth" "token_ok path"
    and "status < 1000" "\<forall>c \<in> set msg. \<not> eol_ctl c"
  shows "phr_parse_request n 0 fl (request_text meth path minor ls @ body) =
      Parsed (\<lparr>rq_method = meth, rq_path = path, rq_minor = minor, rq_headers = map snd ls,
        rq_flags = fold header_flags (map snd ls) fl, rq_has_query = (0x3f \<in> set path)\<rparr>,
        length (request_text meth path minor ls)) body \<and>
    phr_parse_response n 0 (response_text minor status msg ls @ body) =
      Parsed (\<lparr>rp_minor = minor, rp_status = status, rp_msg = msg, rp_headers = map snd ls\<rparr>,
        length (response_text minor status msg ls)) body"
  using assms by (simp add: phr_counted counted_def parse_request_text parse_response_text)

section \<open>Examples\<close>

definition sample_header :: "bytes \<times> http_header" where
  "sample_header = ([0x20], \<lparr>hd_name = text_bytes ''Connection'', hd_value = text_bytes ''close''\<rparr>)"

lemma sample_header_ok: "line_ok sample_header"
  by (simp add: line_ok_def sample_header_def header_ok_def value_ok_def text_bytes_def
      is_token_char_def token_char_map_def eol_ctl_def nth_append)

theorem heads_parsed_witness:
  "\<exists>h k. phr_parse_request 100 0 no_flags
      (request_text (text_bytes ''GET'') (text_bytes ''/a?b'') 1 [sample_header] @ [7]) = Parsed (h, k) [7] \<and>
    rq_path h = text_bytes ''/a?b'' \<and> rq_has_query h"
  using heads_parsed [of 1 "[sample_header]" 100 "text_bytes ''GET''" "text_bytes ''/a?b''" 200 "[]" no_flags "[7]"]
    sample_header_ok
  by (auto simp: token_ok_def text_bytes_def)

theorem parse_incremental_witness:
  "phr_parse_request 100 0 no_flags (text_bytes ''GET / HTT'') = Partial"
proof -
  let ?tail = "text_bytes ''P/1.1'' @ crlf @ crlf"
  have "phr_parse_request 100 0 no_flags (text_bytes ''GET / HTT'' @ ?tail) =
      Parsed (\<lparr>rq_method = text_bytes ''GET'', rq_path = text_bytes ''/'', rq_minor = 1, rq_headers = [],
        rq_flags = no_flags, rq_has_query = False\<rparr>, 18) []"
    using parse_request_text [of "text_bytes ''GET''" "text_bytes ''/''" 1 "[]" 100 no_flags "[]"]
    by (simp add: phr_counted counted_def token_ok_def text_bytes_def request_text_def version_text_def
        headers_text_def crlf_def)
  moreover have "length (text_bytes ''GET / HTT'') < 18" by (simp add: text_bytes_def)
  ultimately show ?thesis using parse_incremental [of 100 no_flags] by blast
qed

end
