(* ===== verification/HttpParser.thy ===== *)
theory HttpParser
  imports HttpPico "HOL-Library.Signed_Division"
begin

text \<open>
  The parser object of a connection (\<open>http_parser.hpp\<close>, \<open>define.h\<close>): the heads with their fields, the
  length of the body, the query parameters, and the questions asked of the headers. The parser is
  reused for all requests of a connection.
\<close>

section \<open>Methods\<close>

datatype http_method = NIL | GET | HEAD | POST | PUT | TRACE | PATCH | CONNECT | OPTIONS | DEL

primrec method_name :: "http_method \<Rightarrow> bytes" where
  "method_name DEL = text_bytes ''DELETE''"
| "method_name GET = text_bytes ''GET''"
| "method_name HEAD = text_bytes ''HEAD''"
| "method_name POST = text_bytes ''POST''"
| "method_name PUT = text_bytes ''PUT''"
| "method_name PATCH = text_bytes ''PATCH''"
| "method_name CONNECT = text_bytes ''CONNECT''"
| "method_name OPTIONS = text_bytes ''OPTIONS''"
| "method_name TRACE = text_bytes ''TRACE''"
| "method_name NIL = text_bytes ''NIL''"

definition http_methods :: "http_method list" where
  "http_methods = [NIL, GET, HEAD, POST, PUT, TRACE, PATCH, CONNECT, OPTIONS, DEL]"

definition method_table :: "nat list" where
  "method_table = [3, 1, 9, 0, 0, 0, 4, 5, 0, 0, 8, 0, 0, 0, 2, 0, 0, 0, 6, 7]"

text \<open>
  \<open>method_type\<close> computes on \<open>int\<close>s made of \<open>char\<close>s, which are signed, with a remainder that can be
  negative: \<open>None\<close> is a read in front of the table. \<open>mthd\<close> is the memory at the method, which goes
  on behind it.
\<close>

definition method_index :: "byte \<Rightarrow> byte \<Rightarrow> int" where
  "method_index c d =
     sint ((scast c AND NOT 0x20) XOR ((scast d + 1) AND NOT 0x20) :: 32 word) smod 20"

definition method_type :: "bytes \<Rightarrow> http_method option" where
  "method_type mthd =
     (let index = method_index (mthd ! 0) (mthd ! 1) in
      if index < 0 then None else Some (http_methods ! (method_table ! nat index)))"

section \<open>The parser object\<close>

definition CINATRA_MAX_HTTP_HEADER_FIELD_SIZE :: nat where
  "CINATRA_MAX_HTTP_HEADER_FIELD_SIZE = 100"

record http_parser =
  hp_status :: nat
  hp_msg :: bytes
  hp_headers :: "http_header list"
  hp_header_len :: int
  hp_body_len :: int
  hp_flags :: conn_flags
  hp_method :: bytes
  hp_url :: bytes
  hp_full_url :: bytes
  hp_queries :: "bytes \<rightharpoonup> bytes"

definition new_parser :: http_parser where
  "new_parser = \<lparr>hp_status = 0, hp_msg = [], hp_headers = [], hp_header_len = 0, hp_body_len = 0,
     hp_flags = no_flags, hp_method = [], hp_url = [], hp_full_url = [], hp_queries = Map.empty\<rparr>"

text \<open>The first header of that name, in any case; the empty view when there is none.\<close>

fun find_header :: "http_header list \<Rightarrow> bytes \<Rightarrow> bytes" where
  "find_header [] key = []"
| "find_header (h # hs) key = (if iequal0 (hd_name h) key then hd_value h else find_header hs key)"

definition get_header_value :: "http_parser \<Rightarrow> bytes \<Rightarrow> bytes" where
  "get_header_value p key = find_header (hp_headers p) key"

definition parse_body_len :: "http_parser \<Rightarrow> http_parser" where
  "parse_body_len p =
     (let header_value = get_header_value p (text_bytes ''content-length'') in
      p\<lparr>hp_body_len :=
          (if header_value = [] then 0
           else case from_chars_signed 64 header_value of Some n \<Rightarrow> n | None \<Rightarrow> - 1)\<rparr>)"

text \<open>\<open>parse_query\<close>: \<open>emplace\<close> keeps the first value of a key.\<close>

definition add_query :: "bytes \<Rightarrow> (bytes \<rightharpoonup> bytes) \<Rightarrow> (bytes \<rightharpoonup> bytes)" where
  "add_query s queries =
     (if s = [] then queries
      else
        let key = takeWhile (\<lambda>c. c \<noteq> 0x3d) s; val = tl (dropWhile (\<lambda>c. c \<noteq> 0x3d) s) in
        if 0x3d \<in> set s \<and> key = [] then queries
        else if key \<in> dom queries then queries else queries(key \<mapsto> val))"

definition parse_query :: "bytes \<Rightarrow> http_parser \<Rightarrow> http_parser" where
  "parse_query str p = p\<lparr>hp_queries := fold add_query (split_sv [0x26] str) (hp_queries p)\<rparr>"

text \<open>
  \<open>parse_request\<close>; the result is \<open>header_len_\<close>. On an error the connection is closed, and what the
  parser object holds then is not modelled. \<open>None\<close> is undefined behaviour of \<open>method_type\<close>.
\<close>

definition parse_request_head :: "bytes \<Rightarrow> http_parser \<Rightarrow> (int \<times> http_parser) option" where
  "parse_request_head data p =
     (case phr_parse_request CINATRA_MAX_HTTP_HEADER_FIELD_SIZE 0 (hp_flags p) data of
        Partial \<Rightarrow> Some (- 2, p)
      | Failed \<Rightarrow> Some (- 1, p)
      | Parsed (h, len) _ \<Rightarrow>
          (case method_type (rq_method h @ [0x20] @ rq_path h) of None \<Rightarrow> None
           | Some methd_type \<Rightarrow>
               let p = p\<lparr>hp_headers := rq_headers h, hp_header_len := int len, hp_flags := rq_flags h,
                         hp_method := rq_method h, hp_url := rq_path h, hp_full_url := rq_path h,
                         hp_queries := Map.empty\<rparr>;
                   p = (if methd_type = GET \<or> methd_type = HEAD then p\<lparr>hp_body_len := 0\<rparr>
                        else parse_body_len p);
                   p = (if rq_has_query h
                        then (parse_query (tl (dropWhile (\<lambda>c. c \<noteq> 0x3f) (rq_path h))) p)
                               \<lparr>hp_url := takeWhile (\<lambda>c. c \<noteq> 0x3f) (rq_path h)\<rparr>
                        else p)
               in Some (int len, p)))"

definition parse_response_head :: "bytes \<Rightarrow> http_parser \<Rightarrow> int \<times> http_parser" where
  "parse_response_head data p =
     (case phr_parse_response CINATRA_MAX_HTTP_HEADER_FIELD_SIZE 0 data of
        Partial \<Rightarrow> (- 2, p)
      | Failed \<Rightarrow> (- 1, p)
      | Parsed (h, len) _ \<Rightarrow>
          (int len, parse_body_len (p\<lparr>hp_headers := rp_headers h, hp_header_len := int len,
             hp_status := rp_status h, hp_msg := rp_msg h\<rparr>)))"

section \<open>Questions\<close>

definition is_chunked :: "http_parser \<Rightarrow> bool" where
  "is_chunked p \<longleftrightarrow> get_header_value p (text_bytes ''transfer-encoding'') = text_bytes ''chunked''"

definition is_multipart :: "http_parser \<Rightarrow> bool" where
  "is_multipart p \<longleftrightarrow>
     get_header_value p (text_bytes ''Content-Type'') \<noteq> [] \<and>
     contains_sub (text_bytes ''multipart'') (get_header_value p (text_bytes ''Content-Type''))"

definition is_resp_ranges :: "http_parser \<Rightarrow> bool" where
  "is_resp_ranges p \<longleftrightarrow> get_header_value p (text_bytes ''Accept-Ranges'') \<noteq> []"

definition is_websocket :: "http_parser \<Rightarrow> bool" where
  "is_websocket p \<longleftrightarrow>
     get_header_value p (text_bytes ''Upgrade'') = text_bytes ''WebSocket'' \<or>
     get_header_value p (text_bytes ''Upgrade'') = text_bytes ''websocket''"

definition keep_alive :: "http_parser \<Rightarrow> bool" where
  "keep_alive p =
     (if is_websocket p then True
      else let val = get_header_value p (text_bytes ''connection'') in
           val = [] \<or> iequal0 val (text_bytes ''keep-alive''))"

definition is_location :: "http_parser \<Rightarrow> bool" where
  "is_location p \<longleftrightarrow> get_header_value p (text_bytes ''Location'') \<noteq> []"

datatype content_type =
  Ct_string | Ct_multipart | Ct_urlencoded | Ct_chunked | Ct_octet_stream | Ct_websocket | Ct_unknown

text \<open>\<open>get_content_type\<close> and \<open>is_upgrade\<close> of the request object, with its member \<open>is_websocket_\<close>.\<close>

definition get_content_type :: "http_parser \<Rightarrow> bool \<Rightarrow> content_type" where
  "get_content_type p ws =
     (if is_chunked p then Ct_chunked
      else let ct = get_header_value p (text_bytes ''content-type'') in
        if ct \<noteq> [] then
          (if contains_sub (text_bytes ''application/x-www-form-urlencoded'') ct then Ct_urlencoded
           else if contains_sub (text_bytes ''multipart/form-data'') ct then Ct_multipart
           else if contains_sub (text_bytes ''application/octet-stream'') ct then Ct_octet_stream
           else Ct_string)
        else if ws then Ct_websocket else Ct_unknown)"

definition is_upgrade :: "http_parser \<Rightarrow> bool \<Rightarrow> bool \<times> bool" where
  "is_upgrade p ws =
     (if \<not> has_upgrade (hp_flags p) then (False, ws)
      else let u = get_header_value p (text_bytes ''Upgrade'') in
        if u \<noteq> text_bytes ''websocket'' then (False, ws)
        else if length (get_header_value p (text_bytes ''sec-websocket-key'')) \<noteq> 24 then (False, ws)
        else (True, True))"

section \<open>The table of methods\<close>

text \<open>
  The hash finds the nine methods of the enumeration. But \<open>SEARCH\<close> and \<open>MKCOL\<close> are taken for \<open>GET\<close>, so that
  the body of such a request is left in the buffer and read as the next request; and a
  method that starts with the byte 0x80, say, which the parser lets pass, reads in front of the table.
\<close>
theorem method_table_lookup:
  "list_all (\<lambda>m. method_type (method_name m @ [0x20]) = Some m) http_methods \<and>
   method_type (text_bytes ''SEARCH '') = Some GET \<and> method_type (text_bytes ''MKCOL '') = Some GET \<and>
   token_ok (0x80 # text_bytes ''ET'') \<and> method_type (0x80 # text_bytes ''ET '') = None"
proof -
  have "sint (0xffffffc6 :: 32 word) = - 58" by simp
  then show ?thesis
    by (simp add: http_methods_def method_type_def method_index_def text_bytes_def method_table_def
        token_ok_def signed_modulo_int_def signed_divide_int_def)
qed

end
