(* ===== verification/HttpResponse.thy ===== *)
theory HttpResponse
  imports HttpParser "HOL-Library.AList"
begin

text \<open>
  The response of the server: status lines (\<open>response_cv.hpp\<close>), cookies (\<open>cookie.hpp\<close>), chunks
  (\<open>to_chunked_buffers\<close> of \<open>utils.hpp\<close>), and the response object of a connection
  (\<open>coro_http_response.hpp\<close>), which is reused for all its requests. The time is an argument, as the
  text of \<open>get_gmt_time_str\<close>. Compression is not part of the model.
\<close>

section \<open>Status lines\<close>

type_synonym status_type = nat

abbreviation (input) status_ok :: status_type where "status_ok \<equiv> 200"
abbreviation (input) status_switching_protocols :: status_type where "status_switching_protocols \<equiv> 101"
abbreviation (input) status_bad_request :: status_type where "status_bad_request \<equiv> 400"
abbreviation (input) status_not_found :: status_type where "status_not_found \<equiv> 404"
abbreviation (input) status_method_not_allowed :: status_type where "status_method_not_allowed \<equiv> 405"
abbreviation (input) status_not_implemented :: status_type where "status_not_implemented \<equiv> 501"
abbreviation (input) status_service_unavailable :: status_type where "status_service_unavailable \<equiv> 503"

text \<open>The statuses \<open>to_http_status_string\<close> has a case for, with their texts.\<close>

definition status_strings :: "(status_type \<times> string) list" where
  "status_strings =
     [(101, ''Switching Protocals''), (200, ''OK''), (201, ''Created''), (202, ''Accepted''),
      (204, ''No Content''), (206, ''Partial Content''), (300, ''Multiple Choices''),
      (301, ''Moved Permanently''), (302, ''Moved Temporarily''), (304, ''Not Modified''),
      (307, ''Temporary Redirect''), (400, ''Bad Request''), (401, ''Unauthorized''),
      (403, ''Forbidden''), (404, ''Not Found''), (405, ''Method Not Allowed''), (409, ''Conflict''),
      (416, ''Requested Range Not Satisfiable''), (500, ''Internal Server Error''),
      (501, ''Not Implemented''), (502, ''Bad Gateway''), (503, ''Service Unavailable'')]"

definition status_line_text :: "status_type \<Rightarrow> string \<Rightarrow> bytes" where
  "status_line_text n s =
     text_bytes ''HTTP/1.1 '' @ to_chars 10 n @ text_bytes '' '' @ text_bytes s @ crlf"

definition to_http_status_string :: "status_type \<Rightarrow> bytes" where
  "to_http_status_string status =
     (case map_of status_strings status of Some s \<Rightarrow> status_line_text status s
      | None \<Rightarrow> status_line_text 501 ''Not Implemented'')"

text \<open>\<open>str.substr(9, str.size() - 11)\<close>\<close>

definition default_status_content :: "status_type \<Rightarrow> bytes" where
  "default_status_content status =
     (let str = to_http_status_string status in take (length str - 11) (drop 9 str))"

section \<open>Cookies\<close>

record cookie =
  ck_name :: bytes
  ck_value :: bytes
  ck_comment :: bytes
  ck_domain :: bytes
  ck_priority :: bytes
  ck_path :: bytes
  ck_max_age :: int
  ck_version :: int
  ck_secure :: bool
  ck_http_only :: bool

definition attribute :: "string \<Rightarrow> bytes \<Rightarrow> string \<Rightarrow> bytes" where
  "attribute before val after =
     (if val = [] then [] else text_bytes before @ val @ text_bytes after)"

definition int_text :: "int \<Rightarrow> bytes" where
  "int_text n = (if n < 0 then 0x2d # to_chars 10 (nat (- n)) else to_chars 10 (nat n))"

text \<open>\<open>cookie::to_string\<close>; \<open>expires\<close> is the text of the time in \<open>max_age_\<close> seconds. \<open>CHR 0x22\<close> is the quote.\<close>

definition cookie_to_string :: "(int \<Rightarrow> bytes) \<Rightarrow> cookie \<Rightarrow> bytes" where
  "cookie_to_string expires c =
     ck_name c @ text_bytes ''='' @
     (if ck_version c = 0 then
        ck_value c @
        attribute ''; domain='' (ck_domain c) [] @
        attribute ''; path='' (ck_path c) [] @
        attribute ''; Priority='' (ck_priority c) [] @
        (if ck_max_age c \<noteq> - 1 then text_bytes ''; expires='' @ expires (ck_max_age c) else []) @
        (if ck_secure c then text_bytes ''; secure'' else []) @
        (if ck_http_only c then text_bytes ''; HttpOnly'' else [])
      else
        text_bytes [CHR 0x22] @ ck_value c @ text_bytes [CHR 0x22] @
        attribute (''; Comment='' @ [CHR 0x22]) (ck_comment c) [CHR 0x22] @
        attribute (''; Domain='' @ [CHR 0x22]) (ck_domain c) [CHR 0x22] @
        attribute (''; Path='' @ [CHR 0x22]) (ck_path c) [CHR 0x22] @
        attribute (''; Priority='' @ [CHR 0x22]) (ck_priority c) [CHR 0x22] @
        (if ck_max_age c \<noteq> - 1
         then text_bytes (''; Max-Age='' @ [CHR 0x22]) @ int_text (ck_max_age c) @ text_bytes [CHR 0x22]
         else []) @
        (if ck_secure c then text_bytes ''; secure'' else []) @
        (if ck_http_only c then text_bytes ''; HttpOnly'' else []) @
        text_bytes (''; Version='' @ [CHR 0x22, CHR ''1'', CHR 0x22]))"

section \<open>Chunks\<close>

definition LAST_CHUNK :: bytes where
  "LAST_CHUNK = text_bytes ''0'' @ crlf"

definition to_chunked_buffers :: "bytes \<Rightarrow> bool \<Rightarrow> bytes" where
  "to_chunked_buffers chunk_data eof =
     (if length chunk_data > 0
      then to_chars 16 (length chunk_data) @ crlf @ chunk_data @ crlf else []) @
     (if eof then LAST_CHUNK @ crlf else [])"

section \<open>The response object\<close>

record http_response =
  rsp_status :: status_type
  rsp_chunked :: bool
  rsp_content :: bytes
  rsp_keepalive :: "bool option"
  rsp_delay :: bool
  rsp_headers :: "(bytes \<times> bytes) list"
  rsp_header_span :: "(bytes \<times> bytes) list"
  rsp_boundary :: bytes
  rsp_has_set_content :: bool
  rsp_need_date :: bool
  rsp_cookies :: "(bytes \<times> cookie) list"
  rsp_content_type :: bytes
  rsp_content_view :: bytes

definition new_response :: http_response where
  "new_response = \<lparr>rsp_status = 501, rsp_chunked = False, rsp_content = [], rsp_keepalive = None,
     rsp_delay = False, rsp_headers = [], rsp_header_span = [], rsp_boundary = [],
     rsp_has_set_content = False, rsp_need_date = True, rsp_cookies = [], rsp_content_type = [],
     rsp_content_view = []\<rparr>"

definition set_status :: "status_type \<Rightarrow> http_response \<Rightarrow> http_response" where
  "set_status status r = r\<lparr>rsp_status := status\<rparr>"

definition set_content :: "bytes \<Rightarrow> http_response \<Rightarrow> http_response" where
  "set_content content r = r\<lparr>rsp_content := content, rsp_has_set_content := True\<rparr>"

definition set_status_and_content_view ::
  "status_type \<Rightarrow> bytes \<Rightarrow> bool \<Rightarrow> http_response \<Rightarrow> http_response" where
  "set_status_and_content_view status content is_view r =
     (let r = r\<lparr>rsp_status := status\<rparr>;
          r = (if is_view then r\<lparr>rsp_content_view := content\<rparr> else r\<lparr>rsp_content := content\<rparr>)
      in r\<lparr>rsp_has_set_content := True\<rparr>)"

definition set_status_and_content :: "status_type \<Rightarrow> bytes \<Rightarrow> http_response \<Rightarrow> http_response" where
  "set_status_and_content status content = set_status_and_content_view status content False"

definition add_header :: "bytes \<Rightarrow> bytes \<Rightarrow> http_response \<Rightarrow> http_response" where
  "add_header k v r = r\<lparr>rsp_headers := rsp_headers r @ [(k, v)]\<rparr>"

definition add_cookie :: "cookie \<Rightarrow> http_response \<Rightarrow> http_response" where
  "add_cookie c r = r\<lparr>rsp_cookies := AList.update (ck_name c) c (rsp_cookies r)\<rparr>"

definition redirect :: "bytes \<Rightarrow> bool \<Rightarrow> http_response \<Rightarrow> http_response" where
  "redirect url is_forever r =
     (let r = add_header (text_bytes ''Location'') url r in
      if \<not> is_forever then set_status_and_content 302 [] r else set_status_and_content 301 [] r)"

text \<open>\<open>check_header\<close>: has_len, has_host, and whether a date is still needed.\<close>

definition check_header :: "(bytes \<times> bytes) list \<Rightarrow> bool \<times> bool \<times> bool \<Rightarrow> bool \<times> bool \<times> bool" where
  "check_header hs = fold (\<lambda>(k, v) (has_len, has_host, need_date).
     if k = text_bytes ''Server'' then (has_len, True, need_date)
     else if k = text_bytes ''Content-Length'' then (True, has_host, need_date)
     else if k = text_bytes ''Date'' then (has_len, has_host, False)
     else (has_len, has_host, need_date)) hs"

definition append_header :: "(bytes \<times> bytes) list \<Rightarrow> bytes" where
  "append_header hs = concat (map (\<lambda>(k, v). k @ [0x3a, 0x20] @ v @ crlf) hs)"

definition content_len_header :: "nat \<Rightarrow> bytes" where
  "content_len_header n = text_bytes ''Content-Length: '' @ to_chars 10 n @ crlf"

text \<open>
  \<open>build_resp_head\<close>: the head without the status line, and the response it leaves. \<open>date\<close> is the
  text of the time.
\<close>

definition build_resp_head :: "bytes \<Rightarrow> (int \<Rightarrow> bytes) \<Rightarrow> http_response \<Rightarrow> bytes \<times> http_response" where
  "build_resp_head date expires r =
     (let (has_len, has_host, need_date) =
            check_header (rsp_header_span r) (check_header (rsp_headers r) (False, False, rsp_need_date r));
          r = r\<lparr>rsp_need_date := need_date\<rparr>;
          r = (if rsp_content r = [] \<and> \<not> rsp_has_set_content r \<and> \<not> rsp_chunked r
               then r\<lparr>rsp_content := default_status_content (rsp_status r)\<rparr> else r);
          r = (if rsp_chunked r then r
               else r\<lparr>rsp_headers := rsp_headers r @
                 map (\<lambda>(_, c). (text_bytes ''Set-Cookie'', cookie_to_string expires c)) (rsp_cookies r)\<rparr>);
          len = (if rsp_chunked r then text_bytes ''Transfer-Encoding: chunked'' @ crlf
                 else if rsp_content r \<noteq> [] then
                   (if has_len then [] else content_len_header (length (rsp_content r)))
                 else if rsp_content_view r \<noteq> [] then
                   (if has_len then [] else content_len_header (length (rsp_content_view r)))
                 else if \<not> has_len \<and> rsp_boundary r = [] then content_len_header 0 else [])
      in ((if has_host then [] else text_bytes ''Server: cinatra'' @ crlf) @ len @
          (if rsp_need_date r then text_bytes ''Date: '' @ date @ crlf else []) @
          (case rsp_keepalive r of None \<Rightarrow> []
           | Some k \<Rightarrow> (if k then text_bytes ''Connection: keep-alive'' else text_bytes ''Connection: close'') @ crlf) @
          rsp_content_type r @ append_header (rsp_headers r) @ append_header (rsp_header_span r) @ crlf, r))"

definition handle_content :: "http_response \<Rightarrow> bytes \<Rightarrow> bytes" where
  "handle_content r content = (if rsp_chunked r then to_chunked_buffers content True else content)"

definition to_buffers :: "bytes \<Rightarrow> (int \<Rightarrow> bytes) \<Rightarrow> http_response \<Rightarrow> bytes \<times> http_response" where
  "to_buffers date expires r =
     (let (head, r') = build_resp_head date expires r in
      (to_http_status_string (rsp_status r) @ head @
       (if rsp_content r' \<noteq> [] then handle_content r' (rsp_content r')
        else if rsp_content_view r' \<noteq> [] then handle_content r' (rsp_content_view r') else []), r'))"

text \<open>\<open>build_resp_str\<close>, for pipelined requests: no cookies and no content type.\<close>

definition build_resp_str :: "bytes \<Rightarrow> http_response \<Rightarrow> bytes \<times> http_response" where
  "build_resp_str date r =
     (let (has_len, has_host, need_date) =
            check_header (rsp_header_span r) (check_header (rsp_headers r) (False, False, rsp_need_date r));
          r = r\<lparr>rsp_need_date := need_date\<rparr>;
          r = (if rsp_content r = [] \<and> \<not> rsp_has_set_content r \<and> \<not> rsp_chunked r
               then r\<lparr>rsp_content := default_status_content (rsp_status r)\<rparr> else r);
          len = (if rsp_chunked r then text_bytes ''Transfer-Encoding: chunked'' @ crlf
                 else if rsp_content r \<noteq> [] \<or> rsp_content_view r \<noteq> [] then
                   content_len_header
                     (if rsp_content r = [] then length (rsp_content_view r) else length (rsp_content r))
                 else if \<not> has_len \<and> rsp_boundary r = [] then content_len_header 0 else [])
      in (to_http_status_string (rsp_status r) @
          (if has_host then [] else text_bytes ''Server: cinatra'' @ crlf) @ len @
          (if rsp_need_date r then text_bytes ''Date: '' @ date @ crlf else []) @
          (case rsp_keepalive r of None \<Rightarrow> []
           | Some k \<Rightarrow> (if k then text_bytes ''Connection: keep-alive'' else text_bytes ''Connection: close'') @ crlf) @
          append_header (rsp_headers r) @ append_header (rsp_header_span r) @ crlf @
          (if rsp_content_view r = [] then rsp_content r else rsp_content_view r), r))"

definition clear_response :: "http_response \<Rightarrow> http_response" where
  "clear_response r = r\<lparr>rsp_content := [], rsp_headers := [], rsp_keepalive := None, rsp_delay := False,
     rsp_status := 0, rsp_chunked := False, rsp_boundary := [], rsp_has_set_content := False,
     rsp_cookies := [], rsp_need_date := True\<rparr>"

section \<open>Where it breaks\<close>

text \<open>
  C40 (error). \<open>clear\<close> forgets the view of the content: after a response with a view, the next response of the
  connection that has no content of its own sends the old one, and, when it is one of several
  pipelined requests, announces the length of its own content and sends the old one instead.
\<close>
theorem content_view_survives:
  assumes "view \<noteq> []"
    and "r = clear_response (set_status_and_content_view s view True new_response)"
  shows "(\<exists>head. fst (to_buffers date expires (set_status_and_content 200 [] r)) =
        head @ content_len_header (length view) @ text_bytes ''Date: '' @ date @ crlf @ crlf @ view) \<and>
    (content \<noteq> [] \<longrightarrow>
      (\<exists>head. fst (build_resp_str date (set_status_and_content 200 content r)) =
        head @ content_len_header (length content) @ text_bytes ''Date: '' @ date @ crlf @ crlf @ view))"
proof -
  have r: "r = new_response\<lparr>rsp_status := 0, rsp_content_view := view\<rparr>"
    using assms(2) by (simp add: clear_response_def set_status_and_content_view_def new_response_def Let_def)
  let ?server = "text_bytes ''Server: cinatra'' @ crlf" and ?date = "text_bytes ''Date: '' @ date @ crlf"
  have "fst (to_buffers date expires (set_status_and_content 200 [] r)) =
      (to_http_status_string 200 @ ?server) @ content_len_header (length view) @ ?date @ crlf @ view"
    using assms(1)
    by (simp add: r to_buffers_def build_resp_head_def set_status_and_content_def
        set_status_and_content_view_def new_response_def check_header_def handle_content_def
        append_header_def Let_def)
  then have first: "\<exists>head. fst (to_buffers date expires (set_status_and_content 200 [] r)) =
      head @ content_len_header (length view) @ ?date @ crlf @ view" by blast
  have "fst (build_resp_str date (set_status_and_content 200 content r)) =
      (to_http_status_string 200 @ ?server) @ content_len_header (length content) @ ?date @ crlf @ view"
    if "content \<noteq> []"
    using assms(1) that
    by (simp add: r build_resp_str_def set_status_and_content_def
        set_status_and_content_view_def new_response_def check_header_def append_header_def Let_def)
  then have "\<exists>head. fst (build_resp_str date (set_status_and_content 200 content r)) =
      head @ content_len_header (length content) @ ?date @ crlf @ view" if "content \<noteq> []"
    using that by blast
  with first show ?thesis by simp
qed

text \<open>
  A status without a case in \<open>to_http_status_string\<close> is sent as 501: among them 100, 203, 408, 413,
  429 and 504, all of which the enumeration has.
\<close>
lemma status_sent_as_501:
  assumes "status \<in> {100, 102, 203, 205, 207, 208, 226, 305, 308, 402, 406, 407, 408, 410, 411, 412, 413,
    414, 415, 417, 418, 420, 421, 422, 423, 424, 425, 426, 428, 429, 431, 451, 504, 505, 506, 507, 508, 510, 511}"
  shows "to_http_status_string status = to_http_status_string 501"
  using assms by (elim insertE emptyE) (simp_all add: to_http_status_string_def status_strings_def)

theorem content_view_survives_witness:
  "\<exists>head. fst (to_buffers [] (\<lambda>_. []) (set_status_and_content 200 []
      (clear_response (set_status_and_content_view 200 [1, 2, 3] True new_response)))) =
    head @ content_len_header (length ([1, 2, 3] :: bytes)) @ text_bytes ''Date: '' @ [] @ crlf @ crlf @ [1, 2, 3]"
  by (rule content_view_survives [THEN conjunct1, OF _ refl]) simp

end
