(* ===== verification/HttpChunked.thy ===== *)
theory HttpChunked
  imports HttpIo HttpResponse
begin

text \<open>
  Reading chunked bodies: \<open>handle_chunked\<close> of the client (\<open>coro_http_client.hpp\<close>) and \<open>read_chunked\<close> of
  the server (\<open>coro_http_connection.hpp\<close>). Both read back what \<open>to_chunked_buffers\<close> writes, in
  whatever pieces it arrives (\<open>chunked_roundtrip\<close>); the server's check of the chunk size can wrap
  around (\<open>oversized_chunk_out_of_bounds\<close>).
\<close>

section \<open>The client\<close>

text \<open>
  \<open>strtoll(s, &p, 16)\<close> on the memory from \<open>s\<close>: white space, a sign, \<open>0x\<close>, digits; saturating.
\<close>

definition is_space :: "byte \<Rightarrow> bool" where
  "is_space c \<longleftrightarrow> c = 0x20 \<or> (0x09 \<le> c \<and> c \<le> 0x0d)"

definition strtoll16 :: "bytes \<Rightarrow> int" where
  "strtoll16 mem =
     (let s = dropWhile is_space mem;
          neg = (s \<noteq> [] \<and> hd s = 0x2d);
          s = (if s \<noteq> [] \<and> (hd s = 0x2d \<or> hd s = 0x2b) then tl s else s);
          s = (if length s \<ge> 3 \<and> s ! 0 = 0x30 \<and> (s ! 1 = 0x78 \<or> s ! 1 = 0x58) \<and> digit_value (s ! 2) < 16
               then drop 2 s else s);
          v = int (digits_value 16 (digits_of 16 s))
      in if neg then max (- v) (- (2 ^ 63)) else min v (2 ^ 63 - 1))"

definition hex_to_int :: "nat \<Rightarrow> bytes \<Rightarrow> int" where
  "hex_to_int len mem =
     (if len = 0 then - 1
      else let n = strtoll16 mem in if n = 0 \<and> hd mem \<noteq> 0x30 then - 1 else n)"

datatype chunk_end = Chunk_eof | Chunk_io_error | Chunk_invalid | Chunk_overflow

text \<open>
  The loop of \<open>handle_chunked\<close>; the third component collects the data. \<open>Chunk_overflow\<close>: the addition
  \<open>chunk_size + 2\<close> overflows \<open>int64_t\<close>.
\<close>

function handle_chunked :: "bytes \<Rightarrow> bytes list \<Rightarrow> bytes \<Rightarrow> chunk_end \<times> bytes \<times> bytes list" where
  "handle_chunked buf segs resp_body =
     (case read_until crlf buf segs of
        None \<Rightarrow> (Chunk_io_error, resp_body, [])
      | Some (sz, buf, segs) \<Rightarrow>
          let additional_size = length buf - sz;
              chunk_size = hex_to_int (sz - 2) buf;
              buf = drop sz buf
          in if chunk_size < 0 then (Chunk_invalid, resp_body, segs)
             else if 2 ^ 63 \<le> chunk_size + 2 then (Chunk_overflow, resp_body, segs)
             else
               (case (if additional_size < nat chunk_size + 2
                      then read_exactly (nat chunk_size + 2 - additional_size) buf segs
                      else Some (buf, segs)) of
                  None \<Rightarrow> (Chunk_io_error, resp_body, [])
                | Some (buf, segs) \<Rightarrow>
                    if chunk_size = 0 then (Chunk_eof, resp_body, segs)
                    else handle_chunked (drop (nat chunk_size + 2) buf) segs
                           (resp_body @ take (nat chunk_size) buf)))"
  by pat_completeness auto
termination
proof (relation "measure (\<lambda>(buf, segs, acc). length buf + length (concat segs))", goal_cases)
  case (2 buf segs acc u sz z buf1 segs1 additional_size chunk_size buf2 v buf3 segs3)
  then have r: "read_until crlf buf segs = Some (sz, buf1, segs1)" by simp
  from read_until_total [OF r] have le: "sz \<le> length buf1" "0 < sz"
    and len: "length buf1 + length (concat segs1) = length buf + length (concat segs)"
    by (auto simp: crlf_def dest: arg_cong [of _ _ length])
  have "buf3 @ concat segs3 = buf2 @ concat segs1"
    using 2 read_exactly_total [of _ buf2 segs1 buf3 segs3] by (auto split: if_splits)
  from arg_cong [OF this, of length] 2
  have "length buf3 + length (concat segs3) = length buf1 - sz + length (concat segs1)" by simp
  with le len show ?case by simp
qed simp

declare handle_chunked.simps [simp del]

section \<open>The server\<close>

datatype chunk_error = Ce_none | Ce_io | Ce_invalid_argument

record chunked_result =
  cr_ec :: chunk_error
  cr_eof :: bool
  cr_data :: bytes

text \<open>
  One call of \<open>read_chunked\<close>, with the two buffers of the connection. \<open>None\<close>: the result is a view
  of bytes that are not in the buffer. The sizes are 64 bits wide.
\<close>

definition read_chunked ::
  "bytes \<Rightarrow> bytes \<Rightarrow> bytes list \<Rightarrow> (chunked_result \<times> bytes \<times> bytes list) option" where
  "read_chunked head_buf chunked_buf segs =
     (case read_until crlf (chunked_buf @ head_buf) segs of
        None \<Rightarrow> Some (\<lparr>cr_ec = Ce_io, cr_eof = False, cr_data = []\<rparr>, chunked_buf @ head_buf @ concat segs, [])
      | Some (sz, buf, segs) \<Rightarrow>
          let additional_size = word_of_nat (length buf - sz) :: u64 in
          (case from_chars_unsigned 64 16 (take (sz - 2) buf) of
             None \<Rightarrow> Some (\<lparr>cr_ec = Ce_invalid_argument, cr_eof = False, cr_data = []\<rparr>, buf, segs)
           | Some n \<Rightarrow>
               let chunk_size = word_of_nat n :: u64; buf = drop sz buf in
               (case (if additional_size < chunk_size + 2
                      then read_exactly (unat (chunk_size + 2 - additional_size)) buf segs
                      else Some (buf, segs)) of
                  None \<Rightarrow> Some (\<lparr>cr_ec = Ce_io, cr_eof = False, cr_data = []\<rparr>, buf @ concat segs, [])
                | Some (buf, segs) \<Rightarrow>
                    if chunk_size = 0 then Some (\<lparr>cr_ec = Ce_none, cr_eof = True, cr_data = []\<rparr>, [], segs)
                    else if length buf < unat chunk_size then None
                    else Some (\<lparr>cr_ec = Ce_none, cr_eof = False, cr_data = take (unat chunk_size) buf\<rparr>,
                               drop (unat chunk_size + 2) buf, segs))))"

text \<open>The usual loop of a handler: until the end or an error.\<close>

primrec read_chunks ::
  "nat \<Rightarrow> bytes \<Rightarrow> bytes \<Rightarrow> bytes list \<Rightarrow> (chunked_result \<times> bytes list \<times> bytes \<times> bytes list) option" where
  "read_chunks 0 head_buf chunked_buf segs = None"
| "read_chunks (Suc fuel) head_buf chunked_buf segs =
     (case read_chunked head_buf chunked_buf segs of None \<Rightarrow> None
      | Some (r, buf, segs) \<Rightarrow>
          if cr_ec r \<noteq> Ce_none \<or> cr_eof r then Some (r, [], buf, segs)
          else (case read_chunks fuel [] buf segs of None \<Rightarrow> None
                | Some (r', datas, buf, segs) \<Rightarrow> Some (r', cr_data r # datas, buf, segs)))"

section \<open>Reading what was written\<close>

text \<open>The chunks a handler writes with \<open>write_chunked\<close>, and the end.\<close>

definition chunks_text :: "bytes list \<Rightarrow> bytes" where
  "chunks_text chunks = concat (map (\<lambda>c. to_chunked_buffers c False) chunks) @ to_chunked_buffers [] True"

lemma hex_digit_plain: "c \<in> set (to_chars 16 n) \<Longrightarrow> c \<noteq> 0x0d \<and> \<not> is_space c \<and> c \<noteq> 0x2d \<and> c \<noteq> 0x2b \<and> c \<noteq> 0x78 \<and> c \<noteq> 0x58"
proof -
  assume "c \<in> set (to_chars 16 n)"
  then have "digit_value c < 16" using to_chars_digits [of 16 n] by simp
  then show ?thesis
    by (auto simp: digit_value_def is_space_def word_le_nat_alt Let_def split: if_splits)
qed

lemma hex_text: "to_chars 16 n \<noteq> []" "0x0d \<notin> set (to_chars 16 n)"
  using to_chars_digits [of 16 n] hex_digit_plain by auto

lemma strtoll16_text:
  assumes "n < 2 ^ 63"
  shows "strtoll16 (to_chars 16 n @ 0x0d # s) = int n"
proof -
  obtain c cs where t: "to_chars 16 n = c # cs" using hex_text(1) by (cases "to_chars 16 n") auto
  let ?t = "to_chars 16 n @ 0x0d # s"
  have space: "dropWhile is_space ?t = ?t" using hex_digit_plain [of c n] by (simp add: t)
  have sign: "hd ?t \<noteq> 0x2d" "hd ?t \<noteq> 0x2b" using hex_digit_plain [of c n] by (simp_all add: t)
  have "?t ! 1 \<noteq> 0x78 \<and> ?t ! 1 \<noteq> 0x58"
    using hex_digit_plain [of _ n] by (cases cs) (auto simp: t)
  moreover have "digits_of 16 ?t = to_chars 16 n" "digits_value 16 (to_chars 16 n) = n"
    using digits_of_to_chars [of 16 "0x0d # s" n] to_chars_digits [of 16 n] by (simp_all add: digit_value_def)
  moreover have "int n \<le> 2 ^ 63 - 1" using assms by simp
  ultimately show ?thesis using space sign by (simp add: strtoll16_def Let_def)
qed

lemma hex_to_int_text:
  assumes "n < 2 ^ 63"
  shows "hex_to_int (length (to_chars 16 n)) (to_chars 16 n @ 0x0d # s) = int n"
proof -
  have "hd (to_chars 16 0) = 0x30"
    by (simp add: to_chars_small digit_char_def)
  with strtoll16_text [OF assms] hex_text(1) [of n] show ?thesis
    by (cases "n = 0") (simp_all add: hex_to_int_def Let_def)
qed

text \<open>The first line of a chunk, however it arrives.\<close>

lemma read_size_line:
  assumes "buf @ concat segs = to_chars 16 n @ crlf @ t"
  obtains buf' segs' where
    "read_until crlf buf segs = Some (length (to_chars 16 n) + 2, buf', segs')"
    "\<exists>u. buf' = to_chars 16 n @ 0x0d # 0x0a # u \<and> u @ concat segs' = t"
proof -
  have "find_sub crlf (buf @ concat segs) = Some (length (to_chars 16 n))"
    using find_sub_crlf [OF hex_text(2)] assms by (simp add: crlf_def)
  then obtain buf' segs' where r: "read_until crlf buf segs = Some (length (to_chars 16 n) + length crlf, buf', segs')"
    "buf' @ concat segs' = buf @ concat segs" "length (to_chars 16 n) + length crlf \<le> length buf'"
    by (rule read_until_found)
  have "take (length (to_chars 16 n @ crlf)) buf' = to_chars 16 n @ crlf"
  proof -
    have "take (length (to_chars 16 n @ crlf)) buf' = take (length (to_chars 16 n @ crlf)) (buf' @ concat segs')"
      using r(3) by simp
    also have "\<dots> = take (length (to_chars 16 n @ crlf)) ((to_chars 16 n @ crlf) @ t)"
      using r(2) assms by simp
    finally show ?thesis by (simp only: take_append_length)
  qed
  then obtain u where u: "buf' = (to_chars 16 n @ crlf) @ u" by (metis append_take_drop_id)
  with r(2) assms have "u @ concat segs' = t" by simp
  with u r(1) that show ?thesis by (auto simp: crlf_def)
qed

text \<open>The data of a chunk with the line end behind it.\<close>

lemma read_chunk_data:
  assumes "u @ concat segs = c @ crlf @ t"
  obtains w segs' where
    "(if length u < length c + 2 then read_exactly (length c + 2 - length u) u segs else Some (u, segs)) =
       Some (c @ crlf @ w, segs')" "w @ concat segs' = t"
proof (cases "length u < length c + 2")
  case True
  have "length u + length (concat segs) = length c + 2 + length t"
    using arg_cong [OF assms, of length] by (simp add: crlf_def)
  with True have "length c + 2 - length u \<le> length (concat segs)" by simp
  then obtain buf' segs' where r: "read_exactly (length c + 2 - length u) u segs = Some (buf', segs')"
    "buf' @ concat segs' = u @ concat segs" "length buf' = length u + (length c + 2 - length u)"
    by (rule read_exactly_enough)
  then have "buf' @ concat segs' = (c @ crlf) @ t" "length buf' = length (c @ crlf)"
    using True assms by (simp_all add: crlf_def)
  then have "buf' = c @ crlf \<and> concat segs' = t" by (metis append_eq_append_conv)
  with r(1) True that [of "[]" segs'] show ?thesis by simp
next
  case False
  then have "length (c @ crlf) \<le> length u" by (simp add: crlf_def)
  then have "take (length (c @ crlf)) u = take (length (c @ crlf)) (u @ concat segs)" by simp
  also have "\<dots> = c @ crlf" using assms by (simp del: append_assoc add: append_assoc [symmetric])
  finally obtain w where u: "u = (c @ crlf) @ w" by (metis append_take_drop_id)
  with assms have "w @ concat segs = t" by simp
  with False that [of w segs] u show ?thesis by simp
qed

lemma drop_chunk: "drop (length c + 2) (c @ crlf @ w) = w"
  by (simp add: crlf_def)

lemma handle_chunked_line:
  assumes "read_until crlf buf segs = Some (k + 2, buf1, segs1)" "hex_to_int k buf1 = int n"
    and "drop (k + 2) buf1 = u" "length buf1 - (k + 2) = length u" "n < 2 ^ 62"
    and "(if length u < n + 2 then read_exactly (n + 2 - length u) u segs1 else Some (u, segs1)) =
      Some (buf2, segs2)"
  shows "handle_chunked buf segs acc =
    (if n = 0 then (Chunk_eof, acc, segs2)
     else handle_chunked (drop (n + 2) buf2) segs2 (acc @ take n buf2))"
proof -
  have "\<not> 2 ^ 63 \<le> int n + 2" using assms(5) by simp
  moreover have "(if length u < n + 2 then read_exactly (n + 2 - length u) u segs1 else Some (u, segs1)) =
      Some (buf2, segs2)" by (rule assms(6))
  ultimately show ?thesis
    using assms(2-4)
    by (subst handle_chunked.simps)
      (simp add: assms(1) Let_def del: add_2_eq_Suc add_2_eq_Suc' cong: if_cong split del: if_split)
qed

lemma client_reads_chunk:
  assumes "buf @ concat segs = to_chunked_buffers c False @ t" "c \<noteq> []" "length c < 2 ^ 62"
  obtains buf' segs' where "handle_chunked buf segs acc = handle_chunked buf' segs' (acc @ c)"
    "buf' @ concat segs' = t"
proof -
  from assms have "buf @ concat segs = to_chars 16 (length c) @ crlf @ (c @ crlf @ t)"
    by (simp add: to_chunked_buffers_def)
  then obtain buf1 segs1 u where
    line: "read_until crlf buf segs = Some (length (to_chars 16 (length c)) + 2, buf1, segs1)"
      "buf1 = to_chars 16 (length c) @ 0x0d # 0x0a # u" "u @ concat segs1 = c @ crlf @ t"
    by (rule read_size_line) blast
  from line(3) obtain w segs' where
    data: "(if length u < length c + 2 then read_exactly (length c + 2 - length u) u segs1 else Some (u, segs1)) =
       Some (c @ crlf @ w, segs')" "w @ concat segs' = t"
    by (rule read_chunk_data)
  have sz: "hex_to_int (length (to_chars 16 (length c))) buf1 = int (length c)"
    unfolding line(2) using assms(3) by (intro hex_to_int_text) simp
  have "drop (length (to_chars 16 (length c)) + 2) buf1 = u"
    "length buf1 - (length (to_chars 16 (length c)) + 2) = length u" by (simp_all add: line(2))
  from handle_chunked_line [OF line(1) sz this _ data(1), of acc] assms(2,3)
  have "handle_chunked buf segs acc = handle_chunked w segs' (acc @ c)" by (simp only: drop_chunk take_append_length) simp
  with data(2) that show ?thesis by blast
qed

lemma last_chunk: "to_chunked_buffers [] True = to_chars 16 0 @ crlf @ ([] @ crlf)"
  by (simp add: to_chunked_buffers_def LAST_CHUNK_def to_chars_small digit_char_def text_bytes_def)

lemma client_reads_end:
  assumes "buf @ concat segs = to_chunked_buffers [] True @ t"
  obtains segs' where "handle_chunked buf segs acc = (Chunk_eof, acc, segs')"
proof -
  from assms have "buf @ concat segs = to_chars 16 0 @ crlf @ ([] @ crlf @ t)"
    by (simp add: last_chunk)
  then obtain buf1 segs1 u where
    line: "read_until crlf buf segs = Some (length (to_chars 16 0) + 2, buf1, segs1)"
      "buf1 = to_chars 16 0 @ 0x0d # 0x0a # u" "u @ concat segs1 = [] @ crlf @ t"
    by (rule read_size_line) blast
  from line(3) obtain w segs' where
    data: "(if length u < length ([] :: bytes) + 2 then read_exactly (length ([] :: bytes) + 2 - length u) u segs1
         else Some (u, segs1)) = Some ([] @ crlf @ w, segs')"
    by (rule read_chunk_data)
  have sz: "hex_to_int (length (to_chars 16 0)) buf1 = int 0"
    unfolding line(2) by (rule hex_to_int_text) simp
  have "drop (length (to_chars 16 0) + 2) buf1 = u"
    "length buf1 - (length (to_chars 16 0) + 2) = length u" by (simp_all add: line(2))
  from handle_chunked_line [OF line(1) sz this _ data(1) [unfolded list.size], of acc]
  have "handle_chunked buf segs acc = (Chunk_eof, acc, segs')" by simp
  then show ?thesis by (rule that)
qed

lemma client_reads_chunks:
  assumes "\<forall>c \<in> set chunks. length c < 2 ^ 62" "buf @ concat segs = chunks_text chunks @ t"
  shows "\<exists>segs'. handle_chunked buf segs acc = (Chunk_eof, acc @ concat chunks, segs')"
  using assms
proof (induction chunks arbitrary: buf segs acc)
  case Nil
  then show ?case using client_reads_end by (metis append_Nil2 chunks_text_def concat.simps(1) append_Nil list.simps(8))
next
  case (Cons c chunks)
  then have all: "buf @ concat segs = to_chunked_buffers c False @ chunks_text chunks @ t"
    by (simp add: chunks_text_def)
  show ?case
  proof (cases "c = []")
    case True
    with all Cons.prems(1) Cons.IH [of buf segs acc] show ?thesis by (simp add: to_chunked_buffers_def)
  next
    case False
    have "length c < 2 ^ 62" using Cons.prems(1) by simp
    from client_reads_chunk [OF all False this, of acc] obtain buf' segs' where
      "handle_chunked buf segs acc = handle_chunked buf' segs' (acc @ c)"
      "buf' @ concat segs' = chunks_text chunks @ t" .
    with Cons.IH [of buf' segs' "acc @ c"] Cons.prems(1) show ?thesis by simp
  qed
qed

lemma unat_add_2: "n < 2 ^ 62 \<Longrightarrow> unat (word_of_nat n + 2 :: u64) = n + 2"
  by (simp add: unat_word_ariths unat_of_nat)

lemma read_chunked_line:
  assumes "read_until crlf (chunked_buf @ head_buf) segs = Some (k + 2, buf1, segs1)"
    and "take k buf1 = to_chars 16 n" "drop (k + 2) buf1 = u" "length buf1 - (k + 2) = length u"
    and "n < 2 ^ 62" "length u < 2 ^ 63"
    and "(if length u < n + 2 then read_exactly (n + 2 - length u) u segs1 else Some (u, segs1)) =
      Some (c @ crlf @ w, segs2)" "length c = n"
  shows "read_chunked head_buf chunked_buf segs =
    Some (if n = 0 then (\<lparr>cr_ec = Ce_none, cr_eof = True, cr_data = []\<rparr>, [], segs2)
          else (\<lparr>cr_ec = Ce_none, cr_eof = False, cr_data = c\<rparr>, w, segs2))"
proof -
  let ?n = "word_of_nat n :: u64" and ?a = "word_of_nat (length u) :: u64"
  have a: "unat ?a = length u" using assms(6) by (simp add: unat_of_nat)
  have n: "unat ?n = n" "?n = 0 \<longleftrightarrow> n = 0"
    using assms(5) by (simp_all add: unat_of_nat word_unat_eq_iff)
  have cmp: "?a < ?n + 2 \<longleftrightarrow> length u < n + 2"
    using unat_add_2 [OF assms(5)] a by (simp add: word_less_nat_alt)
  have diff: "unat (?n + 2 - ?a) = n + 2 - length u" if "length u < n + 2"
    using that cmp unat_add_2 [OF assms(5)] a by (simp add: unat_sub word_le_nat_alt)
  have hex: "from_chars_unsigned 64 16 (to_chars 16 n) = Some n"
    using from_chars_to_chars [of 16 "[]" n 64] assms(5) by simp
  have read: "(if ?a < ?n + 2 then read_exactly (unat (?n + 2 - ?a)) u segs1 else Some (u, segs1)) =
      Some (c @ crlf @ w, segs2)"
  proof (cases "length u < n + 2")
    case True
    then show ?thesis using assms(7) cmp diff by simp
  next
    case False
    with cmp have "\<not> ?a < ?n + 2" by simp
    then show ?thesis using assms(7) False by (simp only: if_False)
  qed
  have line: "read_chunked head_buf chunked_buf segs =
      (case (if ?a < ?n + 2 then read_exactly (unat (?n + 2 - ?a)) u segs1 else Some (u, segs1)) of
         None \<Rightarrow> Some (\<lparr>cr_ec = Ce_io, cr_eof = False, cr_data = []\<rparr>, u @ concat segs1, [])
       | Some (buf, segs) \<Rightarrow>
           if ?n = 0 then Some (\<lparr>cr_ec = Ce_none, cr_eof = True, cr_data = []\<rparr>, [], segs)
           else if length buf < unat ?n then None
           else Some (\<lparr>cr_ec = Ce_none, cr_eof = False, cr_data = take (unat ?n) buf\<rparr>,
                      drop (unat ?n + 2) buf, segs))"
    using assms(1-4) hex by (simp add: read_chunked_def Let_def)
  show ?thesis
    unfolding line read using n drop_chunk [of c w] assms(8) by simp
qed

lemma server_reads_chunk:
  assumes "(chunked_buf @ head_buf) @ concat segs = to_chunked_buffers c False @ t" "c \<noteq> []"
    and "length c < 2 ^ 62" "length ((chunked_buf @ head_buf) @ concat segs) < 2 ^ 63"
  obtains buf' segs' where "read_chunked head_buf chunked_buf segs =
      Some (\<lparr>cr_ec = Ce_none, cr_eof = False, cr_data = c\<rparr>, buf', segs')" "buf' @ concat segs' = t"
proof -
  from assms have "(chunked_buf @ head_buf) @ concat segs = to_chars 16 (length c) @ crlf @ (c @ crlf @ t)"
    by (simp add: to_chunked_buffers_def)
  then obtain buf1 segs1 u where
    line: "read_until crlf (chunked_buf @ head_buf) segs = Some (length (to_chars 16 (length c)) + 2, buf1, segs1)"
      "buf1 = to_chars 16 (length c) @ 0x0d # 0x0a # u" "u @ concat segs1 = c @ crlf @ t"
    by (rule read_size_line) blast
  from line(3) obtain w segs' where
    data: "(if length u < length c + 2 then read_exactly (length c + 2 - length u) u segs1 else Some (u, segs1)) =
       Some (c @ crlf @ w, segs')" "w @ concat segs' = t"
    by (rule read_chunk_data)
  have "length u < 2 ^ 63"
    using arg_cong [OF conjunct1 [OF read_until_total [OF line(1)]], of length] assms(4) line(2) by simp
  moreover have "take (length (to_chars 16 (length c))) buf1 = to_chars 16 (length c)"
    "drop (length (to_chars 16 (length c)) + 2) buf1 = u"
    "length buf1 - (length (to_chars 16 (length c)) + 2) = length u" by (simp_all add: line(2))
  ultimately show ?thesis
    using read_chunked_line [OF line(1) _ _ _ assms(3) _ data(1) refl] data(2) assms(2) that by simp
qed

lemma server_reads_end:
  assumes "(chunked_buf @ head_buf) @ concat segs = to_chunked_buffers [] True @ t"
    and "length ((chunked_buf @ head_buf) @ concat segs) < 2 ^ 63"
  obtains segs' where "read_chunked head_buf chunked_buf segs =
      Some (\<lparr>cr_ec = Ce_none, cr_eof = True, cr_data = []\<rparr>, [], segs')"
proof -
  from assms have "(chunked_buf @ head_buf) @ concat segs = to_chars 16 0 @ crlf @ ([] @ crlf @ t)"
    by (simp add: last_chunk)
  then obtain buf1 segs1 u where
    line: "read_until crlf (chunked_buf @ head_buf) segs = Some (length (to_chars 16 0) + 2, buf1, segs1)"
      "buf1 = to_chars 16 0 @ 0x0d # 0x0a # u" "u @ concat segs1 = [] @ crlf @ t"
    by (rule read_size_line) blast
  from line(3) obtain w segs' where
    data: "(if length u < length ([] :: bytes) + 2 then read_exactly (length ([] :: bytes) + 2 - length u) u segs1
         else Some (u, segs1)) = Some ([] @ crlf @ w, segs')"
    by (rule read_chunk_data)
  have "length u < 2 ^ 63"
    using arg_cong [OF conjunct1 [OF read_until_total [OF line(1)]], of length] assms(2) line(2) by simp
  moreover have "take (length (to_chars 16 0)) buf1 = to_chars 16 0"
    "drop (length (to_chars 16 0) + 2) buf1 = u"
    "length buf1 - (length (to_chars 16 0) + 2) = length u" by (simp_all add: line(2))
  ultimately show ?thesis
    using read_chunked_line [OF line(1) _ _ _ _ _ data(1) [unfolded list.size] list.size(3)] that by simp
qed

lemma server_reads_chunks:
  assumes "\<forall>c \<in> set chunks. length c < 2 ^ 62" "length chunks < fuel"
    and "(chunked_buf @ head_buf) @ concat segs = chunks_text chunks @ t"
    and "length ((chunked_buf @ head_buf) @ concat segs) < 2 ^ 63"
  shows "\<exists>segs'. read_chunks fuel head_buf chunked_buf segs =
    Some (\<lparr>cr_ec = Ce_none, cr_eof = True, cr_data = []\<rparr>, filter (\<lambda>c. c \<noteq> []) chunks, [], segs')"
  using assms
proof (induction chunks arbitrary: fuel head_buf chunked_buf segs)
  case Nil
  then obtain fuel' where fuel: "fuel = Suc fuel'" by (cases fuel) auto
  from Nil have "(chunked_buf @ head_buf) @ concat segs = to_chunked_buffers [] True @ t"
    by (simp add: chunks_text_def)
  from server_reads_end [OF this Nil.prems(4)] obtain segs' where
    "read_chunked head_buf chunked_buf segs = Some (\<lparr>cr_ec = Ce_none, cr_eof = True, cr_data = []\<rparr>, [], segs')" .
  then show ?case by (simp add: fuel)
next
  case (Cons c chunks)
  then obtain fuel' where fuel: "fuel = Suc fuel'" by (cases fuel) auto
  from Cons.prems(3) have all: "(chunked_buf @ head_buf) @ concat segs = to_chunked_buffers c False @ chunks_text chunks @ t"
    by (simp add: chunks_text_def)
  show ?case
  proof (cases "c = []")
    case True
    with all have "(chunked_buf @ head_buf) @ concat segs = chunks_text chunks @ t"
      by (simp add: to_chunked_buffers_def)
    with Cons.IH [of fuel chunked_buf head_buf segs] Cons.prems True show ?thesis by simp
  next
    case False
    have "length c < 2 ^ 62" using Cons.prems(1) by simp
    from server_reads_chunk [OF all False this Cons.prems(4)] obtain buf' segs' where r:
      "read_chunked head_buf chunked_buf segs = Some (\<lparr>cr_ec = Ce_none, cr_eof = False, cr_data = c\<rparr>, buf', segs')"
      "buf' @ concat segs' = chunks_text chunks @ t" .
    have "length ((buf' @ []) @ concat segs') < 2 ^ 63"
      using Cons.prems(4) unfolding all r(2) by (simp add: r(2))
    with Cons.IH [of fuel' buf' "[]" segs'] Cons.prems r(2) False
    show ?thesis by (auto simp: fuel r(1))
  qed
qed

text \<open>
  C7 (roundtrip). A chunked body is read back by client and server in whatever pieces it arrives: the
  client gets the concatenation of the chunks, the server's handler the chunks that are not
  empty, one by one, and both find the end.
\<close>
theorem chunked_roundtrip:
  assumes "\<forall>c \<in> set chunks. length c < 2 ^ 62" "buf @ concat segs = chunks_text chunks @ behind"
    and "length (chunks_text chunks @ behind) < 2 ^ 63"
  shows "(\<exists>segs'. handle_chunked buf segs [] = (Chunk_eof, concat chunks, segs')) \<and>
    (\<exists>segs'. read_chunks (length chunks + 1) buf [] segs =
       Some (\<lparr>cr_ec = Ce_none, cr_eof = True, cr_data = []\<rparr>, filter (\<lambda>c. c \<noteq> []) chunks, [], segs'))"
  using client_reads_chunks [OF assms(1,2), of "[]"] assms
    server_reads_chunks [OF assms(1), of "length chunks + 1" "[]" buf segs behind] by simp

text \<open>
  C38 (safety). A chunk size of \<open>2 ^ 64 - 1\<close> passes the server's check that the chunk is complete, since
  adding the two bytes of the line end wraps around: with one byte more in the buffer the handler gets a view that
  is longer than the buffer.
\<close>
theorem oversized_chunk_out_of_bounds:
  assumes "data \<noteq> []" "length data < 2 ^ 63"
  shows "read_chunked [] (text_bytes ''ffffffffffffffff'' @ crlf @ data) segs = None"
proof -
  let ?hex = "text_bytes ''ffffffffffffffff''" and ?buf = "text_bytes ''ffffffffffffffff'' @ crlf @ data"
  have "find_sub crlf ?buf = Some (length ?hex)"
    using find_sub_crlf [of ?hex data] by (simp add: crlf_def text_bytes_def)
  then have line: "read_until crlf ?buf segs = Some (18, ?buf, segs)"
    by (cases segs) (simp_all add: read_until_def crlf_def text_bytes_def)
  have size: "from_chars_unsigned 64 16 ?hex = Some (2 ^ 64 - 1)"
    by (simp add: from_chars_unsigned_def digits_of_def digits_value_def text_bytes_def digit_value_def Let_def)
  have "take 16 ?buf = ?hex" "drop 18 ?buf = data" by (simp_all add: text_bytes_def crlf_def)
  moreover have "\<not> (word_of_nat (length data) :: u64) < word_of_nat (2 ^ 64 - 1) + 2"
    "length data < unat (word_of_nat (2 ^ 64 - 1) :: u64)"
    using assms by (simp_all add: word_less_nat_alt unat_of_nat unat_word_ariths)
  moreover have "(word_of_nat (2 ^ 64 - 1) :: u64) \<noteq> 0" by simp
  moreover have "length ?buf - 18 = length data" by (simp add: text_bytes_def crlf_def)
  ultimately show ?thesis
    by (simp add: read_chunked_def line size del: append_assoc) 
qed

theorem chunked_roundtrip_witness:
  "\<exists>segs'. handle_chunked (take 2 (chunks_text [[65, 66, 67], [68]])) [drop 2 (chunks_text [[65, 66, 67], [68]])] [] =
     (Chunk_eof, [65, 66, 67, 68], segs')"
proof -
  have "length (chunks_text [[65, 66, 67], [68]]) < 2 ^ 63"
    by (simp add: chunks_text_def to_chunked_buffers_def LAST_CHUNK_def crlf_def text_bytes_def to_chars_small)
  then show ?thesis
    using chunked_roundtrip [of "[[65, 66, 67], [68]]" "take 2 (chunks_text [[65, 66, 67], [68]])"
        "[drop 2 (chunks_text [[65, 66, 67], [68]])]" "[]"] by simp
qed

theorem oversized_chunk_out_of_bounds_witness:
  "read_chunked [] (text_bytes ''ffffffffffffffff'' @ crlf @ [1]) [] = None"
  by (rule oversized_chunk_out_of_bounds) simp_all

end
