(* ===== verification/HttpClient.thy ===== *)
theory HttpClient
  imports HttpChunked CinBase64
begin

text \<open>
  The HTTP client (\<open>coro_http_client.hpp\<close>): the head of a request, and reading a response. The members
  \<open>req_headers_\<close> are listed in the order in which the hash table is walked through. Connecting, timers,
  files, multipart responses (\<open>Cl_multipart\<close>) and decompression are left out.
\<close>

section \<open>The head of a request\<close>

datatype req_content_type =
  Rc_html | Rc_json | Rc_text | Rc_string | Rc_multipart | Rc_ranges | Rc_form_url_encode | Rc_octet_stream
  | Rc_xml | Rc_none

definition get_content_type_str :: "req_content_type \<Rightarrow> bytes" where
  "get_content_type_str type =
     (case type of
        Rc_html \<Rightarrow> text_bytes ''text/html; charset=UTF-8''
      | Rc_json \<Rightarrow> text_bytes ''application/json; charset=UTF-8''
      | Rc_text \<Rightarrow> text_bytes ''text/plain''
      | Rc_string \<Rightarrow> text_bytes ''text/html; charset=UTF-8''
      | Rc_multipart \<Rightarrow> text_bytes ''multipart/form-data; boundary=''
      | Rc_form_url_encode \<Rightarrow> text_bytes ''application/x-www-form-urlencoded''
      | Rc_octet_stream \<Rightarrow> text_bytes ''application/octet-stream''
      | Rc_xml \<Rightarrow> text_bytes ''application/xml''
      | _ \<Rightarrow> [])"

definition BOUNDARY :: bytes where
  "BOUNDARY = text_bytes ''--CinatraBoundary2B8FAF4A80EDB307''"

text \<open>The parts of a \<open>uri_t\<close> that are used here.\<close>

record uri =
  u_host :: bytes
  u_path :: bytes
  u_query :: bytes

definition get_path :: "uri \<Rightarrow> bytes" where
  "get_path u = (if u_path u = [] then text_bytes ''/'' else u_path u)"

record req_context =
  ctx_content_type :: req_content_type
  ctx_req_header :: bytes
  ctx_content :: bytes

record http_client =
  hc_req_headers :: "(bytes \<times> bytes) list"
  hc_proxy_user :: bytes
  hc_proxy_password :: bytes
  hc_proxy_token :: bytes
  hc_max_http_body_len :: int
  hc_parser :: http_parser
  hc_head_buf :: bytes
  hc_chunked_buf :: bytes
  hc_redirect_uri :: bytes

definition proxy_headers :: "http_client \<Rightarrow> bytes" where
  "proxy_headers cl =
     (if hc_proxy_user cl \<noteq> [] \<and> hc_proxy_password cl \<noteq> [] then
        text_bytes ''Proxy-Authorization: Basic '' @
        text_bytes (base64_encode (hc_proxy_user cl @ 0x3a # hc_proxy_password cl)) @ crlf
      else []) @
     (if hc_proxy_token cl \<noteq> [] then text_bytes ''Proxy-Authorization: Bearer '' @ hc_proxy_token cl @ crlf else [])"

definition build_request_header ::
  "uri \<Rightarrow> http_method \<Rightarrow> req_context \<Rightarrow> bool \<Rightarrow> (bytes \<times> bytes) list \<Rightarrow> http_client \<Rightarrow> bytes \<times> http_client" where
  "build_request_header u meth ctx already_has_len headers cl =
     (let line = method_name meth @ [0x20] @ get_path u @ (if u_query u \<noteq> [] then 0x3f # u_query u else []);
          (version, req_headers) =
            (if headers \<noteq> [] then (text_bytes '' HTTP/1.1'' @ crlf, headers)
             else if map_of (hc_req_headers cl) (text_bytes ''Host'') = None
             then (text_bytes '' HTTP/1.1'' @ crlf @ text_bytes ''Host:'' @ u_host u @ crlf, hc_req_headers cl)
             else (text_bytes '' HTTP/1.1'' @ crlf, hc_req_headers cl));
          type_str = get_content_type_str (ctx_content_type ctx);
          req_headers =
            (if type_str \<noteq> []
             then AList.update (text_bytes ''Content-Type'')
                    (if ctx_content_type ctx = Rc_multipart then type_str @ BOUNDARY else type_str) req_headers
             else req_headers);
          content_len = length (ctx_content ctx);
          should_add_len =
            (content_len > 0 \<or> ((meth = POST \<or> meth = PUT) \<and> ctx_content_type ctx \<noteq> Rc_multipart)) \<and>
            map_of req_headers (text_bytes ''Content-Length'') = None \<and> \<not> already_has_len
      in (line @ version @ append_header req_headers @
          (if map_of req_headers (text_bytes ''Connection'') = None
           then text_bytes ''Connection: keep-alive'' @ crlf else []) @
          proxy_headers cl @ ctx_req_header ctx @
          (if should_add_len then content_len_header content_len else []) @ crlf,
          cl\<lparr>hc_req_headers := req_headers\<rparr>))"

section \<open>Reading a response\<close>

record resp_data =
  rd_status :: nat
  rd_eof :: bool
  rd_resp_body :: bytes
  rd_resp_headers :: "http_header list"

definition no_data :: resp_data where
  "no_data = \<lparr>rd_status = 0, rd_eof = False, rd_resp_body = [], rd_resp_headers = []\<rparr>"

datatype client_end = Cl_ok | Cl_io_error | Cl_protocol_error | Cl_invalid_argument | Cl_multipart
  | Cl_undefined

text \<open>\<open>handle_header\<close> on the first \<open>header_size\<close> bytes of the buffer.\<close>

definition handle_header :: "nat \<Rightarrow> http_client \<Rightarrow> client_end \<times> resp_data \<times> http_client" where
  "handle_header header_size cl =
     (let (parse_ret, p) = parse_response_head (take header_size (hc_head_buf cl)) (hc_parser cl) in
      if parse_ret < 0 then (Cl_protocol_error, no_data, cl\<lparr>hc_head_buf := []\<rparr>)
      else if hp_body_len p > hc_max_http_body_len cl \<or> hp_body_len p < 0
      then (Cl_invalid_argument, no_data, cl\<lparr>hc_head_buf := [], hc_parser := p\<rparr>)
      else (Cl_ok, no_data\<lparr>rd_status := hp_status p, rd_resp_headers := hp_headers p\<rparr>,
            cl\<lparr>hc_head_buf := drop header_size (hc_head_buf cl), hc_parser := p\<rparr>))"

text \<open>
  \<open>handle_read\<close> without an output buffer of the caller: the error, the response, whether the connection
  is kept, the client and the rest of the stream. A body that is in the buffer already takes all of
  the buffer with it. \<open>handle_entire_content\<close> gives the body as it is.
\<close>

definition handle_entire_content :: "bytes \<Rightarrow> resp_data \<Rightarrow> http_client \<Rightarrow> resp_data" where
  "handle_entire_content body data cl =
     (let data = (if body \<noteq> [] then data\<lparr>rd_resp_body := body\<rparr> else data) in
      data\<lparr>rd_eof := (hc_head_buf cl = [])\<rparr>)"

definition read_content ::
  "resp_data \<Rightarrow> bool \<Rightarrow> http_client \<Rightarrow> bytes list \<Rightarrow> client_end \<times> resp_data \<times> bool \<times> http_client \<times> bytes list" where
  "read_content data is_keep_alive cl segs =
     (let content_len = nat (hp_body_len (hc_parser cl)); buf = hc_head_buf cl in
      if content_len \<le> length buf then
        let cl = (if content_len > 0 then cl\<lparr>hc_head_buf := []\<rparr> else cl) in
        (Cl_ok, handle_entire_content (take content_len buf) data cl, is_keep_alive, cl, segs)
      else
        let cl = cl\<lparr>hc_head_buf := []\<rparr> in
        (case read_exactly (content_len - length buf) [] segs of
           None \<Rightarrow> (Cl_io_error, data, is_keep_alive, cl, [])
         | Some (left, segs) \<Rightarrow>
             (Cl_ok, handle_entire_content (buf @ left) data cl, is_keep_alive, cl, segs)))"

definition read_response_body ::
  "resp_data \<Rightarrow> http_client \<Rightarrow> bytes list \<Rightarrow> client_end \<times> resp_data \<times> bool \<times> http_client \<times> bytes list" where
  "read_response_body data cl segs =
     (let p = hc_parser cl;
          is_keep_alive = (keep_alive p \<or> is_resp_ranges p);
          cl = cl\<lparr>hc_redirect_uri :=
                 (if is_location p then get_header_value p (text_bytes ''Location'') else [])\<rparr>
      in if is_chunked p then
           (case handle_chunked (hc_chunked_buf cl @ hc_head_buf cl) segs [] of
              (e, body, segs) \<Rightarrow>
                (if e = Chunk_eof then Cl_ok
                 else if e = Chunk_invalid then Cl_invalid_argument
                 else if e = Chunk_overflow then Cl_undefined else Cl_io_error,
                 data\<lparr>rd_eof := (e = Chunk_eof), rd_resp_body := body\<rparr>, True,
                 cl\<lparr>hc_head_buf := [], hc_chunked_buf := []\<rparr>, segs))
         else if is_multipart p then (Cl_multipart, data, True, cl, segs)
         else read_content data is_keep_alive cl segs)"

definition handle_read ::
  "http_method \<Rightarrow> http_client \<Rightarrow> bytes list \<Rightarrow> client_end \<times> resp_data \<times> bool \<times> http_client \<times> bytes list" where
  "handle_read meth cl segs =
     (case read_until (crlf @ crlf) (hc_head_buf cl) segs of
        None \<Rightarrow> (Cl_io_error, no_data, True, cl\<lparr>hc_head_buf := hc_head_buf cl @ concat segs\<rparr>, [])
      | Some (sz, buf, segs) \<Rightarrow>
          (case handle_header sz (cl\<lparr>hc_head_buf := buf\<rparr>) of
             (ec, data, cl) \<Rightarrow>
               if ec \<noteq> Cl_ok then (ec, data, True, cl, segs)
               else if meth = HEAD then (Cl_ok, data, keep_alive (hc_parser cl), cl, segs)
               else read_response_body data cl segs))"

end
