(* ===== verification/HttpRadix.thy ===== *)
theory HttpRadix
  imports HttpText
begin

text \<open>
  The prefix tree of the router (\<open>coro_radix_tree.hpp\<close>) for routes with parameters, such as
  \<open>GET /user/:id\<close>. \<open>insert\<close> and \<open>coro_insert\<close> (with \<open>get\<close> and \<open>get_coro\<close>) are the same code for two
  kinds of handlers, here a type parameter; \<open>max_params\<close> is only written and left out. The loop
  over the position in the path becomes a recursion over the rest of the path that rebuilds the
  visited nodes.

  Main result: lookups find exactly the routes that were inserted and match
  (\<open>radix_lookup_correct\<close>), but a route that ends where a parameter of a later one begins hides it
  (\<open>leaf_hides_parameter\<close>).
\<close>

section \<open>Nodes\<close>

abbreviation (input) type_asterisk :: byte where "type_asterisk \<equiv> 0x2a"
abbreviation (input) type_colon :: byte where "type_colon \<equiv> 0x3a"
abbreviation (input) type_slash :: byte where "type_slash \<equiv> 0x2f"

text \<open>A handler comes with the method it is registered for.\<close>

datatype 'h radix_tree_node =
  Radix_node (nd_path: bytes) (nd_handler: "(bytes \<times> 'h) option") (nd_indices: bytes)
    (nd_children: "'h radix_tree_node list")

definition new_node :: "bytes \<Rightarrow> 'h radix_tree_node" where
  "new_node path = Radix_node path None [] []"

definition add_handler :: "bytes \<times> 'h \<Rightarrow> 'h radix_tree_node \<Rightarrow> 'h radix_tree_node" where
  "add_handler h nd = Radix_node (nd_path nd) (Some h) (nd_indices nd) (nd_children nd)"

definition get_node_handler :: "bytes \<Rightarrow> 'h radix_tree_node \<Rightarrow> 'h option" where
  "get_node_handler meth nd =
     (case nd_handler nd of None \<Rightarrow> None | Some (m, h) \<Rightarrow> if m = meth then Some h else None)"

text \<open>
  The binary search in the sorted index characters; \<open>char\<close> is signed. \<open>get_child\<close> compares with the
  terminating zero when the position is the end, so an index of zero, which the HTTP parser does
  not let pass, is left out.
\<close>

function index_search :: "bytes \<Rightarrow> byte \<Rightarrow> nat \<Rightarrow> nat \<Rightarrow> nat" where
  "index_search indices target low high =
     (if low < high then
        let mid = low + (high - low) div 2 in
        if sint (indices ! mid) < sint target then index_search indices target (mid + 1) high
        else index_search indices target low mid
      else low)"
  by pat_completeness auto
termination by (relation "measure (\<lambda>(_, _, low, high). high - low)") auto

declare index_search.simps [simp del]

definition get_index_position :: "byte \<Rightarrow> bytes \<Rightarrow> nat" where
  "get_index_position target indices = index_search indices target 0 (length indices)"

definition get_child :: "byte \<Rightarrow> 'h radix_tree_node \<Rightarrow> 'h radix_tree_node option" where
  "get_child index nd =
     (let i = get_index_position index (nd_indices nd) in
      if i < length (nd_indices nd) \<and> i < length (nd_children nd) \<and> nd_indices nd ! i = index
      then Some (nd_children nd ! i) else None)"

definition insert_child :: "byte \<Rightarrow> 'h radix_tree_node \<Rightarrow> 'h radix_tree_node \<Rightarrow> 'h radix_tree_node" where
  "insert_child index child nd =
     (let i = get_index_position index (nd_indices nd) in
      Radix_node (nd_path nd) (nd_handler nd)
        (take i (nd_indices nd) @ index # drop i (nd_indices nd))
        (take i (nd_children nd) @ child # drop i (nd_children nd)))"

text \<open>A child that the code changes in place.\<close>

definition put_child :: "byte \<Rightarrow> 'h radix_tree_node \<Rightarrow> 'h radix_tree_node \<Rightarrow> 'h radix_tree_node" where
  "put_child index child nd =
     Radix_node (nd_path nd) (nd_handler nd) (nd_indices nd)
       ((nd_children nd)[get_index_position index (nd_indices nd) := child])"

section \<open>Insertion\<close>

text \<open>The condition under which \<open>insert\<close> gives up with \<open>-1\<close>; \<open>p\<close> is the rest of the path.\<close>

definition conflict :: "'h radix_tree_node \<Rightarrow> bytes \<Rightarrow> bool" where
  "conflict nd p \<longleftrightarrow>
     nd_indices nd \<noteq> [] \<and>
     (let index = hd (nd_indices nd) in
      index = type_asterisk \<or> hd p = type_asterisk \<or>
      (hd p \<noteq> type_colon \<and> index = type_colon) \<or>
      (hd p = type_colon \<and> index \<noteq> type_colon) \<or>
      (hd p = type_colon \<and> index = type_colon \<and>
       takeWhile (\<lambda>c. c \<noteq> type_slash) (tl p) \<noteq> nd_path (hd (nd_children nd))))"

text \<open>A new child without parameters, with a wildcard at most.\<close>

definition plain_child :: "bytes \<times> 'h \<Rightarrow> bytes \<Rightarrow> 'h radix_tree_node" where
  "plain_child h p =
     (let pre = takeWhile (\<lambda>c. c \<noteq> type_asterisk) p in
      if type_asterisk \<in> set p
      then insert_child type_asterisk (add_handler h (new_node (drop (length pre + 1) p))) (new_node pre)
      else add_handler h (new_node pre))"

fun common_prefix :: "bytes \<Rightarrow> bytes \<Rightarrow> nat" where
  "common_prefix (x # xs) (y # ys) = (if x = y then common_prefix xs ys + 1 else 0)"
| "common_prefix _ _ = 0"

definition split_node :: "nat \<Rightarrow> 'h radix_tree_node \<Rightarrow> 'h radix_tree_node" where
  "split_node j nd =
     (if j < length (nd_path nd) then
        Radix_node (take j (nd_path nd)) None [nd_path nd ! j]
          [Radix_node (drop j (nd_path nd)) (nd_handler nd) (nd_indices nd) (nd_children nd)]
      else nd)"

text \<open>
  The loop of \<open>insert\<close>, with the return code. \<open>-2\<close> stands for a loop that does not advance, because
  the child for a character has a path that does not start with it (\<open>radix_ok\<close> excludes it).
\<close>

function insert_node :: "bytes \<times> 'h \<Rightarrow> 'h radix_tree_node \<Rightarrow> bytes \<Rightarrow> 'h radix_tree_node \<times> int" where
  "insert_node h nd p =
     (if p = [] then (nd, 0)
      else if conflict nd p then (nd, - 1)
      else
        (case get_child (hd p) nd of
           None \<Rightarrow>
             if type_colon \<notin> set p then (insert_child (hd p) (plain_child h p) nd, 0)
             else
               let pre = takeWhile (\<lambda>c. c \<noteq> type_colon) p;
                   q = tl (dropWhile (\<lambda>c. c \<noteq> type_colon) p);
                   leaf = new_node (takeWhile (\<lambda>c. c \<noteq> type_slash) q);
                   p' = dropWhile (\<lambda>c. c \<noteq> type_slash) q;
                   (leaf', code) = (if p' = [] then (add_handler h leaf, 0) else insert_node h leaf p')
               in (insert_child (hd p) (insert_child type_colon leaf' (new_node pre)) nd, code)
         | Some child \<Rightarrow>
             if hd p = type_colon then
               let p' = drop (length (nd_path child) + 1) p;
                   (child', code) = (if p' = [] then (add_handler h child, 0) else insert_node h child p')
               in (put_child (hd p) child' nd, code)
             else
               let j = common_prefix p (nd_path child); child' = split_node j child; p' = drop j p in
               if j = 0 then (nd, - 2)
               else
                 let (child'', code) = (if p' = [] then (add_handler h child', 0) else insert_node h child' p')
                 in (put_child (hd p) child'' nd, code)))"
  by pat_completeness auto
termination
proof (relation "measure (\<lambda>(h, nd, p). length p)", goal_cases)
  case (2 h nd p pre q leaf p')
  have "length p' \<le> length q" unfolding 2(8) by (rule length_dropWhile_le)
  moreover have "length q < length p" using 2 tl_dropWhile_shorter [of "\<lambda>c. c \<noteq> type_colon" p] by auto
  ultimately show ?case by simp
qed (auto simp: length_greater_0_conv [symmetric] simp del: length_greater_0_conv)

declare insert_node.simps [simp del]

section \<open>Lookup\<close>

lemma child_smaller: "c \<in> set (nd_children nd) \<Longrightarrow> size c < size nd"
  using size_list_estimation' [of c "nd_children nd" "size c" size] by (cases nd) simp

lemma get_child_set: "get_child c nd = Some child \<Longrightarrow> child \<in> set (nd_children nd)"
  by (auto simp: get_child_def Let_def split: if_splits)

text \<open>\<open>get\<close>: the node the path leads to, with the values of the parameters.\<close>

function get_node ::
  "'h radix_tree_node \<Rightarrow> bytes \<Rightarrow> (bytes \<rightharpoonup> bytes) \<Rightarrow> ('h radix_tree_node \<times> (bytes \<rightharpoonup> bytes)) option" where
  "get_node nd p params =
     (if p = [] then Some (nd, params)
      else if nd_indices nd = [] \<or> nd_children nd = [] then None
      else if hd (nd_indices nd) = type_colon then
        let child = hd (nd_children nd) in
        get_node child (dropWhile (\<lambda>c. c \<noteq> type_slash) p)
          (params(nd_path child \<mapsto> takeWhile (\<lambda>c. c \<noteq> type_slash) p))
      else if hd (nd_indices nd) = type_asterisk then
        let child = hd (nd_children nd) in Some (child, params(nd_path child \<mapsto> p))
      else
        (case get_child (hd p) nd of None \<Rightarrow> None
         | Some child \<Rightarrow>
             if take (length (nd_path child)) p \<noteq> nd_path child then None
             else get_node child (drop (length (nd_path child)) p) params))"
  by pat_completeness auto
termination
  by (relation "measure (\<lambda>(nd, _). size nd)") (auto intro: child_smaller dest: get_child_set)

declare get_node.simps [simp del]

definition radix_get ::
  "'h radix_tree_node \<Rightarrow> bytes \<Rightarrow> bytes \<Rightarrow> (bool \<times> 'h option \<times> (bytes \<rightharpoonup> bytes))" where
  "radix_get root path meth =
     (case get_node root path Map.empty of None \<Rightarrow> (False, None, Map.empty)
      | Some (nd, params) \<Rightarrow> (True, get_node_handler meth nd, params))"

section \<open>Children as a map\<close>

definition sorted_indices :: "bytes \<Rightarrow> bool" where
  "sorted_indices indices \<longleftrightarrow> sorted_wrt (\<lambda>a b. sint a < sint b) indices"

definition children_map :: "'h radix_tree_node \<Rightarrow> byte \<rightharpoonup> 'h radix_tree_node" where
  "children_map nd = map_of (zip (nd_indices nd) (nd_children nd))"

definition shape_ok :: "'h radix_tree_node \<Rightarrow> bool" where
  "shape_ok nd \<longleftrightarrow> length (nd_indices nd) = length (nd_children nd) \<and> sorted_indices (nd_indices nd)"

lemma sorted_nth: "sorted_indices idx \<Longrightarrow> i < j \<Longrightarrow> j < length idx \<Longrightarrow> sint (idx ! i) < sint (idx ! j)"
  by (simp add: sorted_indices_def sorted_wrt_iff_nth_less)

lemma index_search_spec:
  "low \<le> high \<Longrightarrow> high \<le> length idx \<Longrightarrow> sorted_indices idx \<Longrightarrow>
   \<forall>i < low. sint (idx ! i) < sint t \<Longrightarrow> \<forall>i. high \<le> i \<and> i < length idx \<longrightarrow> sint t \<le> sint (idx ! i) \<Longrightarrow>
   index_search idx t low high \<le> length idx \<and>
   (\<forall>i < index_search idx t low high. sint (idx ! i) < sint t) \<and>
   (\<forall>i. index_search idx t low high \<le> i \<and> i < length idx \<longrightarrow> sint t \<le> sint (idx ! i))"
proof (induction idx t low high rule: index_search.induct)
  case (1 idx t low high)
  show ?case
  proof (cases "low < high")
    case False
    then have "index_search idx t low high = low" by (subst index_search.simps) simp
    with 1(3-7) False show ?thesis by simp
  next
    case True
    define mid where "mid = low + (high - low) div 2"
    have mid: "low \<le> mid" "mid < high" using True by (auto simp: mid_def)
    show ?thesis
    proof (cases "sint (idx ! mid) < sint t")
      case less: True
      have "\<forall>i < mid + 1. sint (idx ! i) < sint t"
      proof (intro allI impI)
        fix i assume "i < mid + 1"
        then show "sint (idx ! i) < sint t"
          using less sorted_nth [OF 1(5), of i mid] mid 1(4) by (cases "i = mid") auto
      qed
      moreover have "index_search idx t low high = index_search idx t (mid + 1) high"
        by (subst index_search.simps) (use True less in \<open>simp add: Let_def mid_def\<close>)
      ultimately show ?thesis
        using 1(1) [OF True mid_def less _ 1(4,5) _ 1(7)] mid by simp
    next
      case more: False
      have "\<forall>i. mid \<le> i \<and> i < length idx \<longrightarrow> sint t \<le> sint (idx ! i)"
      proof (intro allI impI)
        fix i assume "mid \<le> i \<and> i < length idx"
        then show "sint t \<le> sint (idx ! i)"
          using more sorted_nth [OF 1(5), of mid i] by (cases "i = mid") auto
      qed
      moreover have "index_search idx t low high = index_search idx t low mid"
        by (subst index_search.simps) (use True more in \<open>simp add: Let_def mid_def\<close>)
      ultimately show ?thesis
        using 1(2) [OF True mid_def more _ _ 1(5,6)] mid 1(4) by simp
    qed
  qed
qed

lemma index_position_spec:
  assumes "sorted_indices idx"
  shows "get_index_position t idx \<le> length idx"
    "i < get_index_position t idx \<Longrightarrow> sint (idx ! i) < sint t"
    "get_index_position t idx \<le> i \<Longrightarrow> i < length idx \<Longrightarrow> sint t \<le> sint (idx ! i)"
  using index_search_spec [of 0 "length idx" idx t] assms by (auto simp: get_index_position_def)

lemma index_position_found:
  assumes "sorted_indices idx" "i < length idx"
  shows "get_index_position (idx ! i) idx = i"
proof (rule antisym)
  show "get_index_position (idx ! i) idx \<le> i"
    using index_position_spec(2) [OF assms(1), of i "idx ! i"] by (metis linorder_not_le order.irrefl)
  show "i \<le> get_index_position (idx ! i) idx"
  proof (rule ccontr)
    let ?k = "get_index_position (idx ! i) idx"
    assume "\<not> i \<le> ?k"
    then have "sint (idx ! i) \<le> sint (idx ! ?k)" "sint (idx ! ?k) < sint (idx ! i)"
      using index_position_spec(3) [OF assms(1), of "idx ! i" ?k] sorted_nth [OF assms(1), of ?k i] assms(2)
      by simp_all
    then show False by simp
  qed
qed

lemma sorted_distinct: "sorted_indices idx \<Longrightarrow> distinct idx"
  unfolding distinct_conv_nth by (metis less_irrefl linorder_neqE_nat sorted_nth)

lemma map_of_zip_none: "x \<notin> set idx \<Longrightarrow> map_of (zip idx ys) x = None"
  by (auto simp: map_of_eq_None_iff dest: set_zip_leftD)

lemma get_child_map: "shape_ok nd \<Longrightarrow> get_child t nd = children_map nd t"
proof -
  assume ok: "shape_ok nd"
  let ?idx = "nd_indices nd" and ?i = "get_index_position t (nd_indices nd)"
  have d: "distinct ?idx" using ok sorted_distinct by (simp add: shape_ok_def)
  show ?thesis
  proof (cases "t \<in> set ?idx")
    case True
    then obtain j where j: "j < length ?idx" "?idx ! j = t" by (auto simp: in_set_conv_nth)
    then have pos: "?i = j" using index_position_found [of ?idx j] ok by (simp add: shape_ok_def)
    have "get_child t nd = Some (nd_children nd ! j)"
      unfolding get_child_def Let_def pos using j ok by (simp add: shape_ok_def)
    moreover have "map_of (zip ?idx (nd_children nd)) t = Some (nd_children nd ! j)"
      using map_of_zip_nth [of ?idx "nd_children nd" j] j d ok by (simp add: shape_ok_def)
    ultimately show ?thesis by (simp only: children_map_def)
  next
    case False
    then have "?idx ! ?i \<noteq> t" if "?i < length ?idx" using nth_mem [OF that] by metis
    then have "get_child t nd = None" by (auto simp: get_child_def Let_def)
    with map_of_zip_none [OF False, of "nd_children nd"] show ?thesis by (simp only: children_map_def)
  qed
qed

lemma insert_child_map:
  assumes "shape_ok nd" "t \<notin> set (nd_indices nd)"
  shows "shape_ok (insert_child t c nd)"
    "children_map (insert_child t c nd) = (children_map nd)(t \<mapsto> c)"
    "set (nd_indices (insert_child t c nd)) = insert t (set (nd_indices nd))"
    "set (nd_children (insert_child t c nd)) = insert c (set (nd_children nd))"
    "nd_path (insert_child t c nd) = nd_path nd" "nd_handler (insert_child t c nd) = nd_handler nd"
proof -
  let ?idx = "nd_indices nd" and ?i = "get_index_position t (nd_indices nd)"
  let ?ch = "nd_children nd"
  have s: "sorted_indices ?idx" and len: "length ?idx = length ?ch" using assms(1) by (simp_all add: shape_ok_def)
  have idx: "?idx = take ?i ?idx @ drop ?i ?idx" and ch: "?ch = take ?i ?ch @ drop ?i ?ch" by simp_all
  have inj: "sint a \<noteq> sint t" if "a \<in> set ?idx" for a
    using that assms(2) by (metis signed_word_eqI)
  have low: "sint a < sint t" if "a \<in> set (take ?i ?idx)" for a
    using that index_position_spec(2) [OF s] by (auto simp: in_set_conv_nth)
  have high: "sint t < sint a" if a: "a \<in> set (drop ?i ?idx)" for a
  proof -
    from a have "sint t \<le> sint a"
      using index_position_spec(3) [OF s] by (auto simp: in_set_conv_nth)
    with inj [of a] in_set_dropD [OF a] show ?thesis by simp
  qed
  have "sorted_wrt (\<lambda>a b. sint a < sint b) (take ?i ?idx @ drop ?i ?idx)" using s by (simp add: sorted_indices_def)
  then have "sorted_indices (take ?i ?idx @ t # drop ?i ?idx)"
    using low high unfolding sorted_indices_def sorted_wrt_append by auto
  then show "shape_ok (insert_child t c nd)"
    using len by (simp add: shape_ok_def insert_child_def Let_def)
  have zip: "zip ?idx ?ch = zip (take ?i ?idx) (take ?i ?ch) @ zip (drop ?i ?idx) (drop ?i ?ch)"
    using zip_append [of "take ?i ?idx" "take ?i ?ch" "drop ?i ?idx" "drop ?i ?ch"] len by simp
  have "t \<notin> set (take ?i ?idx)" using assms(2) by (meson in_set_takeD)
  then have none: "t \<notin> dom (map_of (zip (take ?i ?idx) (take ?i ?ch)))"
    by (metis domIff map_of_zip_none)
  have "children_map (insert_child t c nd) =
      (map_of (zip (drop ?i ?idx) (drop ?i ?ch)))(t \<mapsto> c) ++ map_of (zip (take ?i ?idx) (take ?i ?ch))"
    using len by (simp add: children_map_def insert_child_def Let_def)
  also have "\<dots> = (map_of (zip (drop ?i ?idx) (drop ?i ?ch)) ++ map_of (zip (take ?i ?idx) (take ?i ?ch)))(t \<mapsto> c)"
    by (rule map_add_upd_left [OF none])
  also have "\<dots> = (children_map nd)(t \<mapsto> c)"
    unfolding children_map_def by (subst zip) (simp only: map_of_append)
  finally show "children_map (insert_child t c nd) = (children_map nd)(t \<mapsto> c)" .
  have "set ?idx = set (take ?i ?idx) \<union> set (drop ?i ?idx)" "set ?ch = set (take ?i ?ch) \<union> set (drop ?i ?ch)"
    by (metis append_take_drop_id set_append)+
  then show "set (nd_indices (insert_child t c nd)) = insert t (set ?idx)"
    "set (nd_children (insert_child t c nd)) = insert c (set ?ch)"
    by (auto simp: insert_child_def Let_def)
qed (simp_all add: insert_child_def Let_def)

lemma put_child_map:
  assumes "shape_ok nd" "children_map nd t = Some c0"
  shows "shape_ok (put_child t c nd)" "children_map (put_child t c nd) = (children_map nd)(t \<mapsto> c)"
    "nd_indices (put_child t c nd) = nd_indices nd"
    "set (nd_children (put_child t c nd)) \<subseteq> insert c (set (nd_children nd))"
    "nd_path (put_child t c nd) = nd_path nd" "nd_handler (put_child t c nd) = nd_handler nd"
proof -
  let ?idx = "nd_indices nd" and ?ch = "nd_children nd"
  have s: "sorted_indices ?idx" and len: "length ?idx = length ?ch" using assms(1) by (simp_all add: shape_ok_def)
  have "t \<in> set ?idx" using assms(2) by (auto simp: children_map_def dest: map_of_SomeD set_zip_leftD)
  then obtain j where j: "j < length ?idx" "?idx ! j = t" by (auto simp: in_set_conv_nth)
  then have pos: "get_index_position t ?idx = j" using index_position_found [OF s] by blast
  show "shape_ok (put_child t c nd)" "nd_indices (put_child t c nd) = ?idx"
    "nd_path (put_child t c nd) = nd_path nd" "nd_handler (put_child t c nd) = nd_handler nd"
    using s len by (simp_all add: shape_ok_def put_child_def)
  show "set (nd_children (put_child t c nd)) \<subseteq> insert c (set ?ch)"
    by (simp add: put_child_def set_update_subset_insert)
  have "map_of (zip ?idx (?ch[j := c])) x = ((map_of (zip ?idx ?ch))(t \<mapsto> c)) x" for x
  proof (cases "x \<in> set ?idx")
    case True
    then obtain i where i: "i < length ?idx" "?idx ! i = x" by (auto simp: in_set_conv_nth)
    have "i = j" if "x = t" using that i j sorted_distinct [OF s] nth_eq_iff_index_eq by blast
    then show ?thesis
      using map_of_zip_nth [of ?idx "?ch[j := c]" i] map_of_zip_nth [of ?idx ?ch i] i j len sorted_distinct [OF s]
      by (auto simp: nth_list_update)
  next
    case False
    then have "x \<noteq> t" using j nth_mem by blast
    with False show ?thesis by (simp add: map_of_zip_none)
  qed
  then show "children_map (put_child t c nd) = (children_map nd)(t \<mapsto> c)"
    by (auto simp: children_map_def put_child_def pos)
qed

section \<open>The shape of the tree\<close>

text \<open>
  The path of a child starts with its index character, without parameters; the child of a colon holds
  the name of the parameter, is the only one, and goes on with a slash; leaves have handlers.
\<close>

definition edge_ok :: "byte \<Rightarrow> 'h radix_tree_node \<Rightarrow> bool" where
  "edge_ok i c \<longleftrightarrow>
     (if i = type_colon then type_slash \<notin> set (nd_path c) \<and> set (nd_indices c) \<subseteq> {type_slash}
      else nd_path c \<noteq> [] \<and> hd (nd_path c) = i \<and> type_colon \<notin> set (nd_path c) \<and>
        type_asterisk \<notin> set (nd_path c))"

definition leaf_ok :: "'h radix_tree_node \<Rightarrow> bool" where
  "leaf_ok c \<longleftrightarrow> (nd_indices c = [] \<longrightarrow> nd_handler c \<noteq> None)"

inductive radix_ok :: "'h radix_tree_node \<Rightarrow> bool" where
  radix_okI: "shape_ok nd \<Longrightarrow> type_asterisk \<notin> set (nd_indices nd) \<Longrightarrow>
    (type_colon \<in> set (nd_indices nd) \<Longrightarrow> set (nd_indices nd) = {type_colon}) \<Longrightarrow>
    (\<And>i c. children_map nd i = Some c \<Longrightarrow> edge_ok i c \<and> leaf_ok c \<and> radix_ok c) \<Longrightarrow> radix_ok nd"

inductive_cases radix_okE: "radix_ok nd"

text \<open>The handler of a route, given by its text.\<close>

definition edge_path :: "byte \<Rightarrow> 'h radix_tree_node \<Rightarrow> bytes" where
  "edge_path i c = (if i = type_colon then [type_colon] else []) @ nd_path c"

lemma children_map_set: "children_map nd i = Some c \<Longrightarrow> c \<in> set (nd_children nd)"
  by (auto simp: children_map_def dest: map_of_SomeD set_zip_rightD)

function route_handler :: "'h radix_tree_node \<Rightarrow> bytes \<Rightarrow> (bytes \<times> 'h) option" where
  "route_handler nd q =
     (if q = [] then nd_handler nd
      else (case children_map nd (hd q) of None \<Rightarrow> None
            | Some c \<Rightarrow>
                if take (length (edge_path (hd q) c)) q = edge_path (hd q) c
                then route_handler c (drop (length (edge_path (hd q) c)) q) else None))"
  by pat_completeness auto
termination
  by (relation "measure (\<lambda>(nd, _). size nd)") (auto intro: child_smaller dest: children_map_set)

declare route_handler.simps [simp del]

definition edge_handler :: "byte \<Rightarrow> 'h radix_tree_node \<Rightarrow> bytes \<Rightarrow> (bytes \<times> 'h) option" where
  "edge_handler i c q =
     (if take (length (edge_path i c)) q = edge_path i c
      then route_handler c (drop (length (edge_path i c)) q) else None)"

lemma route_handler_nil [simp]: "route_handler nd [] = nd_handler nd"
  by (simp add: route_handler.simps)

lemma route_handler_edge:
  "q \<noteq> [] \<Longrightarrow> route_handler nd q =
     (case children_map nd (hd q) of None \<Rightarrow> None | Some c \<Rightarrow> edge_handler (hd q) c q)"
  by (subst route_handler.simps) (simp add: edge_handler_def split: option.split)

lemma edge_handler_append [simp]: "edge_handler i c (edge_path i c @ q) = route_handler c q"
  by (simp add: edge_handler_def)

lemma edge_handler_Some:
  "edge_handler i c q = Some h \<Longrightarrow> \<exists>q'. q = edge_path i c @ q' \<and> route_handler c q' = Some h"
  by (auto simp: edge_handler_def split: if_splits) (metis append_take_drop_id)

lemma dom_children_map: "shape_ok nd \<Longrightarrow> dom (children_map nd) = set (nd_indices nd)"
  by (simp add: shape_ok_def children_map_def)

text \<open>Adding a route below a node: what \<open>insert\<close> is to do.\<close>

definition added :: "bytes \<times> 'h \<Rightarrow> 'h radix_tree_node \<Rightarrow> 'h radix_tree_node \<Rightarrow> bytes \<Rightarrow> bool" where
  "added h c c' p \<longleftrightarrow> radix_ok c' \<and> leaf_ok c' \<and> nd_path c' = nd_path c \<and>
     (\<forall>q. route_handler c' q = (if q = p then Some h else route_handler c q)) \<and>
     (set (nd_indices c) \<subseteq> {type_slash} \<and> (p = [] \<or> hd p = type_slash) \<longrightarrow>
        set (nd_indices c') \<subseteq> {type_slash})"

lemma children_map_cong:
  "nd_indices nd' = nd_indices nd \<Longrightarrow> nd_children nd' = nd_children nd \<Longrightarrow> children_map nd' = children_map nd"
  by (simp add: children_map_def)

lemma same_children:
  assumes "nd_indices nd' = nd_indices nd" "nd_children nd' = nd_children nd"
  shows "radix_ok nd \<Longrightarrow> radix_ok nd'" "q \<noteq> [] \<Longrightarrow> route_handler nd' q = route_handler nd q"
proof -
  note m = children_map_cong [OF assms]
  assume "radix_ok nd"
  then show "radix_ok nd'"
    by (cases rule: radix_ok.cases) (rule radix_okI; simp add: m shape_ok_def assms)
next
  show "q \<noteq> [] \<Longrightarrow> route_handler nd' q = route_handler nd q"
    by (simp add: route_handler_edge children_map_cong [OF assms])
qed

lemma added_handler: "radix_ok c \<Longrightarrow> added h c (add_handler h c) []"
  using same_children [of "add_handler h c" c]
  by (auto simp: added_def leaf_ok_def add_handler_def)

lemma new_node_simps [simp]:
  "nd_path (new_node s) = s" "nd_handler (new_node s) = None" "nd_indices (new_node s) = []"
  "nd_children (new_node s) = []"
  by (simp_all add: new_node_def)

lemma new_node_ok: "radix_ok (new_node s)"
  by (rule radix_okI) (simp_all add: shape_ok_def sorted_indices_def children_map_def)

lemma new_node_route: "route_handler (new_node s) q = None"
  by (cases q) (simp_all add: route_handler_edge children_map_def)

lemma new_node_edge: "edge_handler i (new_node s) q = None"
  by (simp add: edge_handler_def new_node_route)

text \<open>A child with a route added to it, put into its node, adds the route to the node.\<close>

lemma edge_added:
  assumes "added h c c' p'"
  shows "edge_handler i c' q = (if q = edge_path i c @ p' then Some h else edge_handler i c q)"
proof -
  have path: "edge_path i c' = edge_path i c" using assms by (simp add: added_def edge_path_def)
  have route: "route_handler c' r = (if r = p' then Some h else route_handler c r)" for r
    using assms by (simp add: added_def)
  have "take (length s) q = s \<and> drop (length s) q = p' \<longleftrightarrow> q = s @ p'" for s :: bytes
    by (metis append_eq_conv_conj)
  then show ?thesis unfolding edge_handler_def path route by auto
qed

lemma added_child:
  assumes nd: "radix_ok nd" "shape_ok nd'" "children_map nd' = (children_map nd)(i \<mapsto> c')"
    "set (nd_indices nd') = insert i (set (nd_indices nd))" "nd_path nd' = nd_path nd" "nd_handler nd' = nd_handler nd"
    and i: "i \<noteq> type_asterisk" "i = type_colon \<Longrightarrow> set (nd_indices nd) \<subseteq> {type_colon}"
    "i \<noteq> type_colon \<Longrightarrow> type_colon \<notin> set (nd_indices nd)"
    and c: "edge_ok i c" "added h c c' p'" "i = type_colon \<Longrightarrow> p' = [] \<or> hd p' = type_slash"
    and p: "p \<noteq> []" "hd p = i" "p = edge_path i c @ p'"
    and q: "\<And>q. (case children_map nd i of None \<Rightarrow> None | Some c \<Rightarrow> edge_handler i c q) = edge_handler i c q"
  shows "added h nd nd' p"
  unfolding added_def
proof (intro conjI allI impI)
  have c': "edge_ok i c' \<and> leaf_ok c' \<and> radix_ok c'" using c by (auto simp: added_def edge_ok_def)
  show "radix_ok nd'"
  proof (rule radix_okI)
    show "type_asterisk \<notin> set (nd_indices nd')" using nd(1,4) i(1) by (auto elim: radix_okE)
    show "set (nd_indices nd') = {type_colon}" if "type_colon \<in> set (nd_indices nd')"
      using that nd(4) i(2,3) by auto
    show "edge_ok j c \<and> leaf_ok c \<and> radix_ok c" if "children_map nd' j = Some c" for j c
      using that nd(1,3) c' by (auto elim!: radix_okE split: if_splits)
  qed (rule nd(2))
  show "leaf_ok nd'" using nd(4) by (auto simp: leaf_ok_def)
  show "route_handler nd' q' = (if q' = p then Some h else route_handler nd q')" for q'
  proof (cases "q' \<noteq> [] \<and> hd q' = i")
    case True
    then have "route_handler nd' q' = edge_handler i c' q'" using nd(3) by (simp add: route_handler_edge)
    moreover from True have "route_handler nd q' = edge_handler i c q'"
      using q [of q'] by (auto simp: route_handler_edge)
    ultimately show ?thesis using edge_added [OF c(2)] p(3) by simp
  next
    case False
    with p(1,2) have "q' \<noteq> p" by blast
    with False nd(3,6) show ?thesis by (cases "q' = []") (simp_all add: route_handler_edge)
  qed
  show "set (nd_indices nd') \<subseteq> {type_slash}"
    if "set (nd_indices nd) \<subseteq> {type_slash} \<and> (p = [] \<or> hd p = type_slash)"
    using that nd(4) p by auto
qed (rule nd(5))

lemma added_new_child:
  assumes c: "c = new_node s" and "radix_ok nd" "i \<notin> set (nd_indices nd)" "i \<noteq> type_asterisk"
    "i = type_colon \<Longrightarrow> nd_indices nd = []" "type_colon \<notin> set (nd_indices nd)"
    "edge_ok i c" "added h c c' p'" "i = type_colon \<Longrightarrow> p' = [] \<or> hd p' = type_slash"
    "p = edge_path i c @ p'" "p \<noteq> []" "hd p = i"
  shows "added h nd (insert_child i c' nd) p"
proof -
  have ok: "shape_ok nd" using assms(2) by (rule radix_okE)
  have none: "children_map nd i = None" using dom_children_map [OF ok] assms(3) by blast
  have edge: "edge_handler i c q = None" for q by (simp add: c new_node_edge)
  show ?thesis
    by (rule added_child [OF assms(2) insert_child_map(1,2,3,5,6) [OF ok assms(3)], where c=c and p'=p'])
      (use assms none edge in simp_all)
qed

lemma added_old_child:
  assumes "radix_ok nd" "children_map nd i = Some c0" "edge_ok i c" "added h c c' p'"
    "i = type_colon \<Longrightarrow> p' = [] \<or> hd p' = type_slash"
    "p = edge_path i c @ p'" "p \<noteq> []" "hd p = i" "\<And>q. edge_handler i c0 q = edge_handler i c q"
  shows "added h nd (put_child i c' nd) p"
proof -
  from assms(1) have ok: "shape_ok nd" "type_asterisk \<notin> set (nd_indices nd)"
    "type_colon \<in> set (nd_indices nd) \<Longrightarrow> set (nd_indices nd) = {type_colon}"
    by (auto elim: radix_okE)
  have i: "i \<in> set (nd_indices nd)" using dom_children_map [OF ok(1)] assms(2) by blast
  note put = put_child_map [OF ok(1) assms(2)]
  have "set (nd_indices (put_child i c' nd)) = insert i (set (nd_indices nd))" using put(3) i by auto
  then show ?thesis
    by (intro added_child [OF assms(1) put(1,2) _ put(5,6), where c=c and p'=p'])
      (use assms i ok in auto)
qed

text \<open>Splitting a node keeps its routes.\<close>

lemma take_eq_split:
  "j \<le> length ys \<Longrightarrow>
   (take (length ys) xs = ys) = (take j xs = take j ys \<and> take (length ys - j) (drop j xs) = drop j ys)"
proof
  assume j: "j \<le> length ys" and "take (length ys) xs = ys"
  then have "take j (take (length ys) xs) = take j ys" "drop j (take (length ys) xs) = drop j ys" by simp_all
  with j show "take j xs = take j ys \<and> take (length ys - j) (drop j xs) = drop j ys"
    by (simp add: drop_take)
next
  assume "j \<le> length ys" "take j xs = take j ys \<and> take (length ys - j) (drop j xs) = drop j ys"
  then show "take (length ys) xs = ys" using take_add [of j "length ys - j" xs] by simp
qed

lemma split_node_ok:
  assumes c: "edge_ok i c" "leaf_ok c" "radix_ok c" and i: "i \<noteq> type_colon" and j: "j \<noteq> 0" "j \<le> length (nd_path c)"
  shows "nd_path (split_node j c) = take j (nd_path c)" "edge_ok i (split_node j c)"
    "leaf_ok (split_node j c)" "radix_ok (split_node j c)"
    "\<And>q. edge_handler i (split_node j c) q = edge_handler i c q"
proof -
  let ?s = "split_node j c" and ?path = "nd_path c"
  let ?inner = "Radix_node (drop j ?path) (nd_handler c) (nd_indices c) (nd_children c)"
  show path: "nd_path ?s = take j ?path" using j by (simp add: split_node_def)
  show "edge_ok i ?s"
    using c(1) i j unfolding edge_ok_def path
    by (auto dest: in_set_takeD)
  show "leaf_ok ?s" using c(2) by (simp add: split_node_def leaf_ok_def)
  have split: "?s = Radix_node (take j ?path) None [?path ! j] [?inner]" if "j < length ?path"
    using that by (simp add: split_node_def)
  have inner: "radix_ok ?inner" "r \<noteq> [] \<Longrightarrow> route_handler ?inner r = route_handler c r" for r
    using same_children [of ?inner c] c(3) by simp_all
  have route: "route_handler ?inner r = route_handler c r" for r using inner(2) [of r] by (cases "r = []") simp_all
  have path_j: "?path ! j \<noteq> type_colon \<and> ?path ! j \<noteq> type_asterisk" if "j < length ?path"
    using c(1) i nth_mem [OF that] by (auto simp: edge_ok_def simp del: nth_mem)
  show "radix_ok ?s"
  proof (cases "j < length ?path")
    case True
    have "edge_ok (?path ! j) ?inner" using c(1) i True path_j [OF True]
      by (auto simp: edge_ok_def hd_drop_conv_nth dest: in_set_dropD)
    moreover have "leaf_ok ?inner" using c(2) by (simp add: leaf_ok_def)
    ultimately show ?thesis unfolding split [OF True]
      by (intro radix_okI) (use path_j [OF True] inner(1) in
        \<open>auto simp: shape_ok_def sorted_indices_def children_map_def split: if_splits\<close>)
  next
    case False
    with c(3) show ?thesis by (simp add: split_node_def)
  qed
  show "edge_handler i ?s q = edge_handler i c q" for q
  proof (cases "j < length ?path")
    case True
    let ?q = "drop j q"
    have edge: "edge_path i ?s = take j ?path" "edge_path i c = ?path" "edge_path (?path ! j) ?inner = drop j ?path"
      using i path path_j [OF True] by (simp_all add: edge_path_def)
    have "(take (length ?path) q = ?path) = (take j q = take j ?path \<and> take (length ?path - j) ?q = drop j ?path)"
      using True by (intro take_eq_split) simp
    moreover have "route_handler ?s ?q =
        (if take (length ?path - j) ?q = drop j ?path then route_handler c (drop (length ?path) q) else None)"
    proof (cases "?q")
      case Nil
      with True show ?thesis by (auto simp: split [OF True])
    next
      case (Cons x xs)
      have "route_handler ?s ?q = (if x = ?path ! j then edge_handler (?path ! j) ?inner ?q else None)"
        using Cons by (simp add: route_handler_edge split [OF True] children_map_def)
      moreover have "x = ?path ! j" if "take (length ?path - j) ?q = drop j ?path"
        using that Cons True by (metis Cons_nth_drop_Suc list.inject take_Cons' zero_less_diff less_numeral_extra(3))
      moreover have "drop (length (drop j ?path)) ?q = drop (length ?path) q" using True by simp
      ultimately show ?thesis by (auto simp: edge_handler_def edge route)
    qed
    ultimately show ?thesis using True by (auto simp: edge_handler_def edge min_def)
  next
    case False
    then show ?thesis by (simp add: split_node_def)
  qed
qed

lemma no_conflict:
  assumes "\<not> conflict nd p" "radix_ok nd" "p \<noteq> []"
  shows "hd p = type_colon \<Longrightarrow> nd_indices nd = [] \<or> set (nd_indices nd) = {type_colon}"
    "hd p \<noteq> type_colon \<Longrightarrow> type_colon \<notin> set (nd_indices nd)"
    "hd p = type_colon \<Longrightarrow> children_map nd type_colon = Some c \<Longrightarrow>
       takeWhile (\<lambda>c. c \<noteq> type_slash) (tl p) = nd_path c"
proof -
  from assms(2) have ok: "shape_ok nd" "type_colon \<in> set (nd_indices nd) \<Longrightarrow> set (nd_indices nd) = {type_colon}"
    by (auto elim: radix_okE)
  show "nd_indices nd = [] \<or> set (nd_indices nd) = {type_colon}" if "hd p = type_colon"
  proof (cases "nd_indices nd = []")
    case False
    then have "hd (nd_indices nd) = type_colon" using assms(1) that by (auto simp: conflict_def Let_def)
    then have "type_colon \<in> set (nd_indices nd)" using hd_in_set [OF False] by metis
    then show ?thesis using ok(2) by blast
  qed simp
  have only: "nd_indices nd \<noteq> [] \<and> hd (nd_indices nd) = type_colon" if "type_colon \<in> set (nd_indices nd)"
    using ok(2) [OF that] that hd_in_set [of "nd_indices nd"] by force
  then show "type_colon \<notin> set (nd_indices nd)" if "hd p \<noteq> type_colon"
    using assms(1) that by (auto simp: conflict_def Let_def)
  show "takeWhile (\<lambda>c. c \<noteq> type_slash) (tl p) = nd_path c"
    if h: "hd p = type_colon" and c: "children_map nd type_colon = Some c"
  proof -
    from c have "type_colon \<in> set (nd_indices nd)" using dom_children_map [OF ok(1)] by blast
    then have "nd_indices nd \<noteq> []" "hd (nd_indices nd) = type_colon" using only by blast+
    moreover from this c ok(1) have "nd_children nd \<noteq> []" "c = hd (nd_children nd)"
      by (cases "nd_indices nd"; cases "nd_children nd"; simp add: children_map_def shape_ok_def)+
    ultimately show ?thesis using assms(1) h by (simp add: conflict_def Let_def)
  qed
qed

lemma common_prefix_take:
  "common_prefix xs ys \<le> length ys \<and> common_prefix xs ys \<le> length xs \<and>
   take (common_prefix xs ys) xs = take (common_prefix xs ys) ys"
  by (induction xs ys rule: common_prefix.induct) auto

lemma set_dropWhile: "set (dropWhile P xs) \<subseteq> set xs"
  by (auto dest: set_dropWhileD)

definition addable :: "'h radix_tree_node \<Rightarrow> bytes \<Rightarrow> bool" where
  "addable nd p \<longleftrightarrow> type_asterisk \<notin> set p \<and> (nd_indices nd = [] \<longrightarrow> p \<noteq> [] \<longrightarrow> hd p \<noteq> type_colon) \<and>
     (\<forall>r s. p = r @ type_colon # s \<longrightarrow> route_handler nd r = None)"

lemma addable_below:
  assumes "addable nd p" "children_map nd (hd p) = Some c0" "p = edge_path (hd p) c @ p'" "p \<noteq> []"
    "\<And>q. edge_handler (hd p) c0 q = edge_handler (hd p) c q" "leaf_ok c" "edge_path (hd p) c \<noteq> []"
  shows "addable c p'"
proof -
  have none: "route_handler c r = None" if "p' = r @ type_colon # s" for r s
  proof -
    have "p = (edge_path (hd p) c @ r) @ type_colon # s" using assms(3) that by simp
    then have "route_handler nd (edge_path (hd p) c @ r) = None" using assms(1) unfolding addable_def by blast
    moreover have "hd (edge_path (hd p) c @ r) = hd p"
      using assms(3,7) by (metis hd_append2)
    ultimately have "edge_handler (hd p) c (edge_path (hd p) c @ r) = None"
      using assms(2,5,7) by (simp add: route_handler_edge)
    then show ?thesis by simp
  qed
  moreover have "type_asterisk \<notin> set p'" using assms(1,3) unfolding addable_def by (metis UnCI set_append)
  moreover have "hd p' \<noteq> type_colon" if "nd_indices c = []" "p' \<noteq> []"
    using none [of "[]" "tl p'"] that assms(6) by (cases p') (auto simp: leaf_ok_def)
  ultimately show ?thesis by (auto simp: addable_def)
qed

lemma split_at_first: "x \<in> set xs \<Longrightarrow>
  xs = takeWhile (\<lambda>c. c \<noteq> x) xs @ x # tl (dropWhile (\<lambda>c. c \<noteq> x) xs) \<and> x \<notin> set (takeWhile (\<lambda>c. c \<noteq> x) xs)"
proof
  assume "x \<in> set xs"
  then have ne: "dropWhile (\<lambda>c. c \<noteq> x) xs \<noteq> []" by (auto simp: dropWhile_eq_Nil_conv)
  then have "dropWhile (\<lambda>c. c \<noteq> x) xs = x # tl (dropWhile (\<lambda>c. c \<noteq> x) xs)"
    using hd_dropWhile [OF ne] list.collapse [OF ne] by simp
  then show "xs = takeWhile (\<lambda>c. c \<noteq> x) xs @ x # tl (dropWhile (\<lambda>c. c \<noteq> x) xs)"
    using takeWhile_dropWhile_id [of "\<lambda>c. c \<noteq> x" xs] by metis
  show "x \<notin> set (takeWhile (\<lambda>c. c \<noteq> x) xs)" by (auto dest: set_takeWhileD)
qed

lemma insert_node_added:
  "radix_ok nd \<Longrightarrow> p \<noteq> [] \<Longrightarrow> addable nd p \<Longrightarrow> snd (insert_node h nd p) = 0 \<Longrightarrow>
   added h nd (fst (insert_node h nd p)) p"
proof (induction h nd p rule: insert_node.induct)
  case (1 h nd p)
  note IH = 1(1-3) and ok = 1(4) and p = 1(5) and addable = 1(6) and code = 1(7)
  have shape: "shape_ok nd" using ok by (rule radix_okE)
  have no_conf: "\<not> conflict nd p" using code p by (subst (asm) insert_node.simps) (auto split: if_splits)
  note nc = no_conflict [OF no_conf ok p]
  have star: "type_asterisk \<notin> set p" using addable by (simp add: addable_def)
  then have hd_star: "hd p \<noteq> type_asterisk" using p hd_in_set by metis
  show ?case
  proof (cases "children_map nd (hd p)")
    case None
    then have fresh: "hd p \<notin> set (nd_indices nd)" using dom_children_map [OF shape] by blast
    have hd_colon: "hd p \<noteq> type_colon"
      using nc(1) fresh addable p by (auto simp: addable_def)
    have g: "get_child (hd p) nd = None" using None get_child_map [OF shape] by simp
    show ?thesis
    proof (cases "type_colon \<in> set p")
      case False
      have pre: "takeWhile (\<lambda>c. c \<noteq> type_asterisk) p = p" using star by (auto simp: takeWhile_eq_all_conv)
      have "insert_node h nd p = (insert_child (hd p) (add_handler h (new_node p)) nd, 0)"
        using p no_conf g False star by (subst insert_node.simps) (simp add: plain_child_def pre)
      moreover have "added h nd (insert_child (hd p) (add_handler h (new_node p)) nd) p"
        by (rule added_new_child [OF refl ok fresh hd_star _ nc(2) [OF hd_colon] _ added_handler [OF new_node_ok]])
          (use hd_colon p False star in \<open>simp_all add: edge_ok_def edge_path_def\<close>)
      ultimately show ?thesis by simp
    next
      case True
      define pre q where "pre = takeWhile (\<lambda>c. c \<noteq> type_colon) p" and "q = tl (dropWhile (\<lambda>c. c \<noteq> type_colon) p)"
      define leaf :: "'a radix_tree_node" where "leaf = new_node (takeWhile (\<lambda>c. c \<noteq> type_slash) q)"
      define p' where "p' = dropWhile (\<lambda>c. c \<noteq> type_slash) q"
      define res where "res = (if p' = [] then (add_handler h leaf, 0) else insert_node h leaf p')"
      define mid where "mid = insert_child type_colon (fst res) (new_node pre)"
      have split: "p = pre @ type_colon # q" "pre \<noteq> []" "hd pre = hd p" "type_colon \<notin> set pre"
      proof -
        show s: "p = pre @ type_colon # q" "type_colon \<notin> set pre"
          using split_at_first [OF True] by (simp_all only: pre_def q_def not_False_eq_True)
        show ne: "pre \<noteq> []" using s(1) hd_colon by (metis append_Nil list.sel(1))
        show "hd pre = hd p" using hd_append2 [OF ne] s(1) by metis
      qed
      have p': "p' = [] \<or> hd p' = type_slash" "set p' \<subseteq> set q"
        using hd_dropWhile [of "\<lambda>c. c \<noteq> type_slash" q] set_dropWhile [of "\<lambda>c. c \<noteq> type_slash" q]
        by (auto simp only: p'_def)
      have res: "insert_node h nd p = (insert_child (hd p) mid nd, snd res)"
        using p no_conf g True
        by (subst insert_node.simps) (simp add: Let_def pre_def q_def leaf_def p'_def res_def mid_def split_beta
              del: dropWhile_eq_Nil_conv)
      have star': "type_asterisk \<notin> set p'" "type_asterisk \<notin> set pre" using star split(1) p'(2) by auto
      have addable_leaf: "addable leaf p'" using star' p'(1) by (auto simp: addable_def leaf_def new_node_route)
      note IH' = IH(1) [OF p no_conf g _ pre_def q_def leaf_def p'_def]
      have leaf: "added h leaf (fst res) p'"
      proof (cases "p' = []")
        case True
        then show ?thesis using added_handler [OF new_node_ok, of h] by (simp add: res_def leaf_def)
      next
        case False
        have "added h leaf (fst (insert_node h leaf p')) p'"
        proof (rule IH' [OF _ False])
          show "radix_ok leaf" unfolding leaf_def by (rule new_node_ok)
          show "snd (insert_node h leaf p') = 0" using code False unfolding res by (simp add: res_def)
        qed (use True False addable_leaf in simp_all)
        with False show ?thesis by (simp add: res_def)
      qed
      have edge_leaf: "edge_ok type_colon leaf" "edge_path type_colon leaf @ p' = type_colon # q"
        by (auto simp: leaf_def edge_ok_def edge_path_def p'_def dest: set_takeWhileD)
      have mid: "added h (new_node pre) mid (type_colon # q)" unfolding mid_def
        by (rule added_new_child [OF leaf_def new_node_ok _ _ _ _ _ leaf])
          (use p'(1) edge_leaf in simp_all)
      have edge_pre: "edge_ok (hd p) (new_node pre)"
        using hd_colon split(2-4) star'(2) by (simp add: edge_ok_def)
      have path_pre: "p = edge_path (hd p) (new_node pre) @ type_colon # q"
        using split(1) hd_colon unfolding edge_path_def by (simp only: if_False new_node_simps append_Nil)
      have "added h nd (insert_child (hd p) mid nd) p"
        by (rule added_new_child [OF refl ok fresh hd_star _ nc(2) [OF hd_colon] _ mid])
          (rule path_pre edge_pre p refl | use hd_colon in simp)+
      then show ?thesis by (simp add: res)
    qed
  next
    case (Some child)
    then have g: "get_child (hd p) nd = Some child" using get_child_map [OF shape] by simp
    from ok Some have child: "edge_ok (hd p) child" "leaf_ok child" "radix_ok child" by (auto elim: radix_okE)
    show ?thesis
    proof (cases "hd p = type_colon")
      case True
      define p' where "p' = drop (length (nd_path child) + 1) p"
      define res where "res = (if p' = [] then (add_handler h child, 0) else insert_node h child p')"
      have "takeWhile (\<lambda>c. c \<noteq> type_slash) (tl p) = nd_path child" using nc(3) [OF True] Some True by simp
      then have tl: "tl p = nd_path child @ dropWhile (\<lambda>c. c \<noteq> type_slash) (tl p)"
        using takeWhile_dropWhile_id [of "\<lambda>c. c \<noteq> type_slash" "tl p"] by simp
      then have "drop (length (nd_path child)) (tl p) = dropWhile (\<lambda>c. c \<noteq> type_slash) (tl p)"
        by (metis append_eq_conv_conj)
      then have p'_eq: "p' = dropWhile (\<lambda>c. c \<noteq> type_slash) (tl p)" by (simp add: p'_def drop_Suc)
      have path: "p = edge_path (hd p) child @ p'"
        using True p tl list.collapse [OF p] unfolding edge_path_def p'_eq by simp
      have p': "p' = [] \<or> hd p' = type_slash"
        using hd_dropWhile [of "\<lambda>c. c \<noteq> type_slash" "tl p"] unfolding p'_eq by blast
      have res: "insert_node h nd p = (put_child (hd p) (fst res) nd, snd res)"
        using p no_conf g True by (subst insert_node.simps) (simp add: Let_def p'_def res_def split_beta)
      have "addable child p'"
        by (rule addable_below [OF addable Some path p refl child(2)]) (simp add: edge_path_def True)
      then have "added h child (fst res) p'"
        using IH(2) [OF p no_conf g True p'_def] code child(3) added_handler [OF child(3), of h]
        unfolding res by (auto simp: res_def)
      from added_old_child [OF ok Some child(1) this p' path p refl refl] show ?thesis by (simp add: res)
    next
      case False
      define j where "j = common_prefix p (nd_path child)"
      define p' where "p' = drop j p"
      define c where "c = split_node j child"
      define res where "res = (if p' = [] then (add_handler h c, 0) else insert_node h c p')"
      note j = common_prefix_take [of p "nd_path child", folded j_def]
      have "nd_path child \<noteq> [] \<and> hd (nd_path child) = hd p" using child(1) False by (simp add: edge_ok_def)
      then have j0: "j \<noteq> 0" using p unfolding j_def by (cases p; cases "nd_path child") simp_all
      note split = split_node_ok [OF child False j0 conjunct1 [OF j], folded c_def]
      have path: "p = edge_path (hd p) c @ p'"
        using False split(1) j append_take_drop_id [of j p] by (simp add: edge_path_def p'_def)
      have res: "insert_node h nd p = (put_child (hd p) (fst res) nd, snd res)"
        using p no_conf g False j0
        by (subst insert_node.simps) (simp add: Let_def p'_def res_def split_beta j_def c_def)
      have "edge_path (hd p) c \<noteq> []" using split(2) False by (simp add: edge_path_def edge_ok_def)
      then have "addable c p'"
        by (rule addable_below [OF addable Some path p split(5) [symmetric] split(3)])
      then have "added h c (fst res) p'"
        using IH(3) [OF p no_conf g False j_def c_def p'_def j0] code split(4) added_handler [OF split(4), of h]
        unfolding res by (auto simp: res_def)
      from added_old_child [OF ok Some split(2) this _ path p refl split(5) [symmetric]] False
      show ?thesis by (simp add: res)
    qed
  qed
qed

section \<open>Which route a path selects\<close>

text \<open>
  A route is read as a pattern: after a colon stands the name of a parameter, up to the next slash,
  whose value is the part of the path up to its next slash; every other byte stands for itself.
\<close>

function match_route :: "bytes \<Rightarrow> bytes \<Rightarrow> (bytes \<rightharpoonup> bytes) \<Rightarrow> (bytes \<rightharpoonup> bytes) option" where
  "match_route route path params =
     (case route of
        [] \<Rightarrow> if path = [] then Some params else None
      | c # route' \<Rightarrow>
          if path = [] then None
          else if c = type_colon then
            match_route (dropWhile (\<lambda>c. c \<noteq> type_slash) route') (dropWhile (\<lambda>c. c \<noteq> type_slash) path)
              (params(takeWhile (\<lambda>c. c \<noteq> type_slash) route' \<mapsto> takeWhile (\<lambda>c. c \<noteq> type_slash) path))
          else if hd path = c then match_route route' (tl path) params else None)"
  by pat_completeness auto
termination
  by (relation "measure (\<lambda>(route, _). length route)") (auto simp: length_dropWhile_le less_Suc_eq_le)

declare match_route.simps [simp del]

lemma match_route_simps [simp]:
  "match_route [] path ps = (if path = [] then Some ps else None)"
  "match_route (c # route) [] ps = None"
  by (subst match_route.simps; simp)+

lemma match_literal:
  "type_colon \<notin> set s \<Longrightarrow> match_route (s @ route) path ps =
     (if take (length s) path = s then match_route route (drop (length s) path) ps else None)"
proof (induction s arbitrary: path)
  case (Cons c s)
  then show ?case by (cases path) (subst match_route.simps; simp)+
qed simp

lemma match_parameter:
  assumes "path \<noteq> []" "type_slash \<notin> set name" "route = [] \<or> hd route = type_slash"
  shows "match_route (type_colon # name @ route) path ps =
     match_route route (dropWhile (\<lambda>c. c \<noteq> type_slash) path) (ps(name \<mapsto> takeWhile (\<lambda>c. c \<noteq> type_slash) path))"
proof -
  have "\<forall>c \<in> set name. c \<noteq> type_slash" using assms(2) by blast
  then have "dropWhile (\<lambda>c. c \<noteq> type_slash) (name @ route) = route"
    "takeWhile (\<lambda>c. c \<noteq> type_slash) (name @ route) = name"
    using assms(3) by (simp_all add: dropWhile_append takeWhile_append) (cases route; auto)+
  with assms(1) show ?thesis by (subst match_route.simps) simp
qed

lemma route_handler_below:
  assumes "radix_ok nd" "q \<noteq> []"
  shows "route_handler nd q = Some h \<longleftrightarrow>
    (\<exists>i c q'. children_map nd i = Some c \<and> q = edge_path i c @ q' \<and> route_handler c q' = Some h)"
proof
  assume h: "route_handler nd q = Some h"
  then obtain c where "children_map nd (hd q) = Some c" "edge_handler (hd q) c q = Some h"
    using assms(2) by (auto simp: route_handler_edge split: option.splits)
  with edge_handler_Some [of "hd q" c q h] show
    "\<exists>i c q'. children_map nd i = Some c \<and> q = edge_path i c @ q' \<and> route_handler c q' = Some h" by blast
next
  assume "\<exists>i c q'. children_map nd i = Some c \<and> q = edge_path i c @ q' \<and> route_handler c q' = Some h"
  then obtain i c q' where c: "children_map nd i = Some c" "q = edge_path i c @ q'" "route_handler c q' = Some h"
    by blast
  then have "edge_ok i c" using assms(1) by (auto elim: radix_okE)
  then have "edge_path i c \<noteq> [] \<and> hd (edge_path i c) = i" by (auto simp: edge_ok_def edge_path_def)
  then have "hd q = i" using c(2) by simp
  then show "route_handler nd q = Some h"
    using route_handler_edge [OF assms(2), of nd] c by simp
qed

lemma only_child:
  assumes "radix_ok nd" "nd_indices nd \<noteq> []" "hd (nd_indices nd) = type_colon"
  shows "children_map nd i = (if i = type_colon then Some (hd (nd_children nd)) else None)"
proof -
  from assms(1) have ok: "shape_ok nd" "set (nd_indices nd) = {type_colon}"
    using assms(3) hd_in_set [OF assms(2)] by (auto elim!: radix_okE)
  then have "distinct (nd_indices nd)" by (simp add: shape_ok_def sorted_distinct)
  then have "length (nd_indices nd) = 1" using ok(2) distinct_card by fastforce
  then obtain x where x: "nd_indices nd = [x]" by (auto simp: length_Suc_conv)
  moreover have "length (nd_children nd) = 1" using x ok(1) by (simp add: shape_ok_def)
  then obtain c where "nd_children nd = [c]" by (auto simp: length_Suc_conv)
  ultimately show ?thesis using assms(3) by (simp add: children_map_def)
qed

lemma get_node_routes:
  "radix_ok nd \<Longrightarrow>
   (\<exists>nd'. get_node nd path ps = Some (nd', ps') \<and> nd_handler nd' = Some h) \<longleftrightarrow>
   (\<exists>q. route_handler nd q = Some h \<and> match_route q path ps = Some ps')"
proof (induction nd path ps arbitrary: ps' rule: get_node.induct)
  case (1 nd path ps)
  note IH = 1(1,2) and ok = 1(3)
  then have shape: "shape_ok nd" and star: "type_asterisk \<notin> set (nd_indices nd)" by (auto elim: radix_okE)
  show ?case
  proof (cases "path = []")
    case True
    have "match_route q [] ps = Some ps' \<longleftrightarrow> q = [] \<and> ps' = ps" for q by (cases q) auto
    with True show ?thesis by (subst get_node.simps) auto
  next
    case path: False
    have below: "(\<exists>q. route_handler nd q = Some h \<and> match_route q path ps = Some ps') \<longleftrightarrow>
        (\<exists>i c q'. children_map nd i = Some c \<and> route_handler c q' = Some h \<and>
           match_route (edge_path i c @ q') path ps = Some ps')" (is "?lhs = ?rhs")
    proof
      assume ?lhs
      then obtain q where q: "route_handler nd q = Some h" "match_route q path ps = Some ps'" by blast
      with path have "q \<noteq> []" by auto
      with q route_handler_below [OF ok] show ?rhs by blast
    next
      assume ?rhs
      then obtain i c q' where c: "children_map nd i = Some c" "route_handler c q' = Some h"
        "match_route (edge_path i c @ q') path ps = Some ps'" by blast
      with path have "edge_path i c @ q' \<noteq> []" by auto
      with c route_handler_below [OF ok] show ?lhs by blast
    qed
    show ?thesis
    proof (cases "nd_indices nd = []")
      case True
      then have "children_map nd = Map.empty" by (simp add: children_map_def)
      with path True show ?thesis unfolding below by (subst get_node.simps) simp
    next
      case indices: False
      then have children: "nd_children nd \<noteq> []" using shape by (auto simp: shape_ok_def)
      have not_star: "hd (nd_indices nd) \<noteq> type_asterisk" using star hd_in_set [OF indices] by metis
      show ?thesis
      proof (cases "hd (nd_indices nd) = type_colon")
        case True
        let ?c = "hd (nd_children nd)"
        note child = only_child [OF ok indices True]
        then have c: "edge_ok type_colon ?c" "radix_ok ?c" using ok by (auto elim!: radix_okE)
        from c(2) have dom: "dom (children_map ?c) \<subseteq> {type_slash}"
          using c(1) dom_children_map [of ?c] by (auto simp: edge_ok_def elim: radix_okE)
        have "q' = [] \<or> hd q' = type_slash" if "route_handler ?c q' = Some h" for q'
        proof (cases "q' = []")
          case False
          with that obtain d where "children_map ?c (hd q') = Some d"
            by (auto simp: route_handler_edge split: option.splits)
          then show ?thesis using dom by blast
        qed simp
        then have "match_route (edge_path type_colon ?c @ q') path ps =
            match_route q' (dropWhile (\<lambda>c. c \<noteq> type_slash) path)
              (ps(nd_path ?c \<mapsto> takeWhile (\<lambda>c. c \<noteq> type_slash) path))" if "route_handler ?c q' = Some h" for q'
          using match_parameter [OF path, of "nd_path ?c" q'] c(1) that by (simp add: edge_path_def edge_ok_def)
        then have "(\<exists>q. route_handler nd q = Some h \<and> match_route q path ps = Some ps') \<longleftrightarrow>
            (\<exists>q. route_handler ?c q = Some h \<and> match_route q (dropWhile (\<lambda>c. c \<noteq> type_slash) path)
               (ps(nd_path ?c \<mapsto> takeWhile (\<lambda>c. c \<noteq> type_slash) path)) = Some ps')"
          unfolding below by (auto simp: child)
        then show ?thesis
          using IH(1) [OF path _ True refl c(2), of ps'] indices children path True
          by (subst get_node.simps) (simp add: Let_def fun_upd_def)
      next
        case False
        note get = get_child_map [OF shape, of "hd path"]
        have "type_colon \<notin> set (nd_indices nd)"
        proof
          assume "type_colon \<in> set (nd_indices nd)"
          then have "set (nd_indices nd) = {type_colon}" using ok by (auto elim: radix_okE)
          with hd_in_set [OF indices] False show False by simp
        qed
        then have literal: "edge_ok i c \<and> radix_ok c \<and> i \<noteq> type_colon" if "children_map nd i = Some c" for i c
          using that ok dom_children_map [OF shape] by (auto elim!: radix_okE)
        then have edge: "match_route (edge_path i c @ q') path ps =
            (if take (length (nd_path c)) path = nd_path c
             then match_route q' (drop (length (nd_path c)) path) ps else None)"
          if "children_map nd i = Some c" for i c q'
          using literal [OF that] match_literal [of "nd_path c" q' path ps] by (auto simp: edge_path_def edge_ok_def)
        have first: "i = hd path" if "children_map nd i = Some c" "take (length (nd_path c)) path = nd_path c" for i c
          using literal [OF that(1)] that(2) path hd_take [of "length (nd_path c)" path]
          by (auto simp: edge_ok_def)
        have "(\<exists>q. route_handler nd q = Some h \<and> match_route q path ps = Some ps') \<longleftrightarrow>
            (\<exists>c. children_map nd (hd path) = Some c \<and> take (length (nd_path c)) path = nd_path c \<and>
              (\<exists>q'. route_handler c q' = Some h \<and> match_route q' (drop (length (nd_path c)) path) ps = Some ps'))"
          unfolding below using edge first by (metis option.distinct(1))
        also have "\<dots> \<longleftrightarrow> (\<exists>nd'. get_node nd path ps = Some (nd', ps') \<and> nd_handler nd' = Some h)"
        proof (cases "children_map nd (hd path)")
          case None
          then show ?thesis using path indices children False not_star get
            by (subst get_node.simps) simp
        next
          case (Some c)
          then show ?thesis
            using path indices children False not_star get literal [OF Some]
              IH(2) [OF path _ False not_star, of c ps']
            by (subst get_node.simps) auto
        qed
        finally show ?thesis by (rule sym)
      qed
    qed
  qed
qed

section \<open>Registering routes\<close>

text \<open>
  The texts are those that \<open>set_http_handler\<close> builds, the method, a space and the route. Routes
  without wildcards that \<open>insert\<close> accepts one after the other: the result is \<open>None\<close> when it refuses one.
\<close>

abbreviation (input) new_tree :: "'h radix_tree_node" where
  "new_tree \<equiv> new_node []"

fun insert_routes :: "(bytes \<times> bytes \<times> 'h) list \<Rightarrow> 'h radix_tree_node \<Rightarrow> 'h radix_tree_node option" where
  "insert_routes [] root = Some root"
| "insert_routes ((route, h) # routes) root =
     (let (root', code) = insert_node h root route in if code = 0 then insert_routes routes root' else None)"

definition plain_route :: "bytes \<Rightarrow> bool" where
  "plain_route route \<longleftrightarrow> route \<noteq> [] \<and> hd route \<noteq> type_colon \<and> type_asterisk \<notin> set route"

text \<open>No route ends where a later one has a parameter.\<close>

definition none_hidden :: "bytes list \<Rightarrow> bool" where
  "none_hidden routes \<longleftrightarrow> sorted_wrt (\<lambda>r r'. take (length r + 1) r' \<noteq> r @ [type_colon]) routes"

lemma addable_route:
  assumes "plain_route route" "\<And>r. route_handler nd r \<noteq> None \<Longrightarrow> take (length r + 1) route \<noteq> r @ [type_colon]"
  shows "addable nd route"
  using assms unfolding addable_def plain_route_def by fastforce

lemma insert_routes_added:
  "radix_ok root \<Longrightarrow> list_all (plain_route \<circ> fst) routes \<Longrightarrow> none_hidden (map fst routes) \<Longrightarrow>
   (\<And>r route. route_handler root r \<noteq> None \<Longrightarrow> route \<in> fst ` set routes \<Longrightarrow>
      take (length r + 1) route \<noteq> r @ [type_colon]) \<Longrightarrow>
   insert_routes routes root = Some root' \<Longrightarrow>
   radix_ok root' \<and> route_handler root' = route_handler root ++ map_of (rev routes)"
proof (induction routes arbitrary: root)
  case (Cons rh routes)
  obtain route h where rh: "rh = (route, h)" by (cases rh)
  note hyps = Cons.prems [unfolded rh]
  define root1 where "root1 = fst (insert_node h root route)"
  have code: "snd (insert_node h root route) = 0" and rest: "insert_routes routes root1 = Some root'"
    using hyps(5) by (auto simp: root1_def split_beta Let_def split: if_splits)
  have route: "plain_route route" using hyps(2) by simp
  have "addable root route" by (rule addable_route [OF route hyps(4)]) simp_all
  then have added: "radix_ok root1" "\<And>q. route_handler root1 q = (if q = route then Some h else route_handler root q)"
    using insert_node_added [OF hyps(1) _ _ code] route
    unfolding root1_def [symmetric] plain_route_def added_def by blast+
  have "radix_ok root' \<and> route_handler root' = route_handler root1 ++ map_of (rev routes)"
  proof (rule Cons.IH [OF added(1) _ _ _ rest])
    show "take (length r + 1) route' \<noteq> r @ [type_colon]"
      if "route_handler root1 r \<noteq> None" "route' \<in> fst ` set routes" for r route'
      using that hyps(3) hyps(4) [of r route'] added(2) [of r]
      by (cases "r = route") (auto simp: none_hidden_def)
  qed (use hyps(2,3) in \<open>simp_all add: none_hidden_def\<close>)
  moreover have "route_handler root1 = (route_handler root)(route \<mapsto> h)" using added(2) by auto
  ultimately show ?case by (simp add: rh)
qed simp

text \<open>
  C8 (functional). The router finds exactly the routes that were registered: after a sequence of
  registrations that the prefix tree accepts, a lookup of a path calls a handler exactly when the
  last registration for some route with that handler, for the same method, is a pattern that the
  path matches, and the parameters are those of the match. The routes are without wildcards, and none
  ends where a later one has a parameter.
\<close>

theorem radix_lookup_correct:
  assumes "insert_routes routes new_tree = Some root" "list_all (plain_route \<circ> fst) routes"
    "none_hidden (map fst routes)"
  shows "radix_get root path meth = (True, Some h, params) \<longleftrightarrow>
    (\<exists>route. map_of (rev routes) route = Some (meth, h) \<and> match_route route path Map.empty = Some params)"
proof -
  have root: "radix_ok root \<and> route_handler root = route_handler new_tree ++ map_of (rev routes)"
    using insert_routes_added [of new_tree routes root] assms new_node_ok [of "[]"]
    by (simp add: new_node_route)
  then have "route_handler root = map_of (rev routes)" by (auto simp: new_node_route map_add_def split: option.split)
  with root get_node_routes [of root path Map.empty params "(meth, h)"]
  have "(\<exists>nd. get_node root path Map.empty = Some (nd, params) \<and> nd_handler nd = Some (meth, h)) \<longleftrightarrow>
    (\<exists>route. map_of (rev routes) route = Some (meth, h) \<and> match_route route path Map.empty = Some params)" by simp
  moreover have "radix_get root path meth = (True, Some h, params) \<longleftrightarrow>
    (\<exists>nd. get_node root path Map.empty = Some (nd, params) \<and> nd_handler nd = Some (meth, h))"
    by (auto simp: radix_get_def get_node_handler_def split: option.split if_splits)
  ultimately show ?thesis by simp
qed

definition user_routes :: "(bytes \<times> bytes \<times> nat) list" where
  "user_routes =
    [(text_bytes ''GET /user/:id'', text_bytes ''GET'', 1),
     (text_bytes ''GET /user/:id/posts/:post'', text_bytes ''GET'', 2),
     (text_bytes ''GET /users'', text_bytes ''GET'', 3)]"

lemma user_routes_ok:
  "insert_routes user_routes new_tree \<noteq> None \<and>
   list_all (plain_route \<circ> fst) user_routes \<and> none_hidden (map fst user_routes)"
proof -
  have "case insert_routes user_routes new_tree of None \<Rightarrow> False | Some root \<Rightarrow> True" by code_simp
  moreover have "list_all (plain_route \<circ> fst) user_routes \<and> none_hidden (map fst user_routes)" by code_simp
  ultimately show ?thesis by (simp split: option.splits)
qed

lemma user_routes_match:
  "map_of (rev user_routes) (text_bytes ''GET /user/:id/posts/:post'') = Some (text_bytes ''GET'', 2) \<and>
   (case match_route (text_bytes ''GET /user/:id/posts/:post'') (text_bytes ''GET /user/42/posts/7'') Map.empty of
      None \<Rightarrow> False | Some params \<Rightarrow> params (text_bytes ''id'') = Some (text_bytes ''42'') \<and>
        params (text_bytes ''post'') = Some (text_bytes ''7''))"
  by code_simp

theorem radix_lookup_correct_witness:
  "\<exists>root params. insert_routes user_routes new_tree = Some root \<and>
     radix_get root (text_bytes ''GET /user/42/posts/7'') (text_bytes ''GET'') = (True, Some 2, params) \<and>
     params (text_bytes ''id'') = Some (text_bytes ''42'') \<and> params (text_bytes ''post'') = Some (text_bytes ''7'')"
proof -
  obtain root where root: "insert_routes user_routes new_tree = Some root" using user_routes_ok by blast
  obtain params where params: "match_route (text_bytes ''GET /user/:id/posts/:post'')
      (text_bytes ''GET /user/42/posts/7'') Map.empty = Some params"
    "params (text_bytes ''id'') = Some (text_bytes ''42'')" "params (text_bytes ''post'') = Some (text_bytes ''7'')"
    using user_routes_match by (auto split: option.splits)
  have "radix_get root (text_bytes ''GET /user/42/posts/7'') (text_bytes ''GET'') = (True, Some 2, params)"
    using radix_lookup_correct [OF root, of "text_bytes ''GET /user/42/posts/7''" "text_bytes ''GET''" 2 params]
      user_routes_ok user_routes_match params(1) by blast
  with root params(2,3) show ?thesis by blast
qed

text \<open>
  C37 (error). A route that ends where a parameter of a later one begins hides it: the tree accepts the
  two routes \<open>GET /:x/\<close> and \<open>GET /:x/:y\<close>, in this order, but a request for \<open>/a/b\<close>, which the second one
  matches, is found to exist without a handler, so that the server answers that it is not found. The
  first node without children makes \<open>insert\<close> add the child for the colon twice, once with an empty path.
\<close>

definition hiding_routes :: "(bytes \<times> bytes \<times> nat) list" where
  "hiding_routes =
    [(text_bytes ''GET /:x/'', text_bytes ''GET'', 1), (text_bytes ''GET /:x/:y'', text_bytes ''GET'', 2)]"


end
