(* ===== verification/HttpRouter.thy ===== *)
theory HttpRouter
  imports HttpRadix HttpParser HttpResponse
begin

text \<open>
  The router of the HTTP server (\<open>coro_http_router.hpp\<close>): tables for plain routes, prefix trees for
  routes with parameters and lists of regular expressions, each once for functions and once for
  coroutines. A handler is a parameter: a function from the request and the response to whether it
  returned (it can throw) and the response it leaves. The regular expressions are a parameter as well.
\<close>

section \<open>Requests and handlers\<close>

text \<open>\<open>coro_http_request\<close>, with the members a handler can read.\<close>

record http_request =
  hq_parser :: http_parser
  hq_body :: bytes
  hq_params :: "bytes \<rightharpoonup> bytes"
  hq_websocket :: bool

type_synonym handler = "http_request \<Rightarrow> http_response \<Rightarrow> bool \<times> http_response"

definition set_body :: "bytes \<Rightarrow> http_request \<Rightarrow> http_request" where
  "set_body body req =
     (let req = req\<lparr>hq_body := body\<rparr> in
      if get_content_type (hq_parser req) (hq_websocket req) = Ct_urlencoded
      then req\<lparr>hq_parser := parse_query body (hq_parser req)\<rparr> else req)"

section \<open>Aspects\<close>

text \<open>An aspect has a function to call before the handler, one to call after it, or both.\<close>

record aspect =
  as_before :: "(http_request \<Rightarrow> http_response \<Rightarrow> bool \<times> http_response) option"
  as_after :: "(http_request \<Rightarrow> http_response \<Rightarrow> bool \<times> http_response) option"

definition do_before :: "http_request \<Rightarrow> aspect \<Rightarrow> bool \<times> http_response \<Rightarrow> bool \<times> http_response" where
  "do_before req a = (\<lambda>(ok, resp).
     case as_before a of None \<Rightarrow> (ok, resp) | Some f \<Rightarrow> if \<not> ok then (ok, resp) else f req resp)"

definition do_after :: "http_request \<Rightarrow> aspect \<Rightarrow> bool \<times> http_response \<Rightarrow> bool \<times> http_response" where
  "do_after req a = (\<lambda>(ok, resp).
     case as_after a of None \<Rightarrow> (ok, resp) | Some f \<Rightarrow> if \<not> ok then (ok, resp) else f req resp)"

definition with_aspects :: "aspect list \<Rightarrow> handler \<Rightarrow> handler" where
  "with_aspects asps h req resp =
     (if asps = [] then h req resp
      else
        let (ok, resp) = fold (do_before req) asps (True, resp);
            (returned, resp) = (if ok then h req resp else (True, resp))
        in if \<not> returned then (False, resp) else (True, snd (fold (do_after req) asps (True, resp))))"

section \<open>The tables\<close>

record router =
  rt_handles :: "bytes \<rightharpoonup> handler"
  rt_coro_handles :: "bytes \<rightharpoonup> handler"
  rt_tree :: "handler radix_tree_node"
  rt_coro_tree :: "handler radix_tree_node"
  rt_regex :: "((bytes \<Rightarrow> bool) \<times> handler) list"
  rt_coro_regex :: "((bytes \<Rightarrow> bool) \<times> handler) list"

definition new_router :: router where
  "new_router = \<lparr>rt_handles = Map.empty, rt_coro_handles = Map.empty, rt_tree = new_tree,
     rt_coro_tree = new_tree, rt_regex = [], rt_coro_regex = []\<rparr>"

text \<open>\<open>replace_all\<close>, which goes on behind the text it has put in.\<close>

function replace_all :: "bytes \<Rightarrow> bytes \<Rightarrow> bytes \<Rightarrow> bytes" where
  "replace_all out pat new =
     (case out of
        [] \<Rightarrow> []
      | c # out' \<Rightarrow>
          if pat = [] then out
          else if take (length pat) out = pat then new @ replace_all (drop (length pat) out) pat new
          else c # replace_all out' pat new)"
  by pat_completeness auto
termination by (relation "measure (\<lambda>(out, _). length out)") (auto simp: length_greater_0_conv [symmetric] simp del: length_greater_0_conv)

declare replace_all.simps [simp del]

definition route_text :: "http_method \<Rightarrow> bytes \<Rightarrow> bytes" where
  "route_text meth key = method_name meth @ 0x20 # key"

text \<open>
  \<open>set_http_handler\<close>, for a coroutine or a function. \<open>regex\<close> compiles a pattern. The return code of
  \<open>insert\<close> is not looked at, nor is a second registration of a plain route an error.
\<close>

definition set_http_handler ::
  "(bytes \<Rightarrow> bytes \<Rightarrow> bool) \<Rightarrow> bool \<Rightarrow> http_method \<Rightarrow> bytes \<Rightarrow> handler \<Rightarrow> aspect list \<Rightarrow> router \<Rightarrow> router" where
  "set_http_handler regex coroutine meth key h asps r =
     (let whole_str = route_text meth key;
          http_handler = with_aspects asps h;
          pattern = (if contains_sub (text_bytes ''{}'') whole_str
                     then replace_all whole_str (text_bytes ''{}'') (text_bytes ''([^/]+)'') else whole_str)
      in if coroutine then
           (if 0x3a \<in> set whole_str
            then r\<lparr>rt_coro_tree := fst (insert_node (method_name meth, http_handler) (rt_coro_tree r) whole_str)\<rparr>
            else if 0x7b \<in> set whole_str \<or> 0x29 \<in> set whole_str
            then r\<lparr>rt_coro_regex := rt_coro_regex r @ [(regex pattern, http_handler)]\<rparr>
            else if rt_coro_handles r whole_str \<noteq> None then r
            else r\<lparr>rt_coro_handles := (rt_coro_handles r)(whole_str \<mapsto> http_handler)\<rparr>)
         else
           (if 0x3a \<in> set whole_str
            then r\<lparr>rt_tree := fst (insert_node (method_name meth, http_handler) (rt_tree r) whole_str)\<rparr>
            else if 0x7b \<in> set whole_str \<or> 0x29 \<in> set whole_str
            then r\<lparr>rt_regex := rt_regex r @ [(regex pattern, http_handler)]\<rparr>
            else if rt_handles r whole_str \<noteq> None then r
            else r\<lparr>rt_handles := (rt_handles r)(whole_str \<mapsto> http_handler)\<rparr>))"

text \<open>\<open>route\<close> and \<open>route_coro\<close>: an exception becomes an answer.\<close>

definition route :: "handler \<Rightarrow> http_request \<Rightarrow> http_response \<Rightarrow> http_response" where
  "route h req resp =
     (case h req resp of (returned, resp) \<Rightarrow> if returned then resp else set_status status_service_unavailable resp)"

section \<open>Finding a handler\<close>

text \<open>
  The lists of regular expressions: every matching handler is called, until one throws. The result
  says whether all returned and whether one was called.
\<close>

primrec run_matching ::
  "((bytes \<Rightarrow> bool) \<times> handler) list \<Rightarrow> bytes \<Rightarrow> http_request \<Rightarrow> http_response \<Rightarrow> bool \<times> bool \<times> http_response" where
  "run_matching [] key req resp = (True, False, resp)"
| "run_matching (mh # mhs) key req resp =
     (if fst mh key then
        (case snd mh req resp of
           (returned, resp) \<Rightarrow>
             if \<not> returned then (False, True, resp)
             else (case run_matching mhs key req resp of (ret, _, resp) \<Rightarrow> (ret, True, resp)))
      else run_matching mhs key req resp)"

text \<open>
  The search of \<open>start\<close>: plain routes by the decoded key, the trees by the path as it was sent, the
  regular expressions by the key, then the default handler. Only handlers of plain routes are called
  through \<open>route\<close>; the exception of another one leaves \<open>start\<close> (the first component is \<open>False\<close>).
\<close>

definition dispatch ::
  "router \<Rightarrow> handler option \<Rightarrow> bytes \<Rightarrow> bytes \<Rightarrow> bytes \<Rightarrow> http_request \<Rightarrow> http_response \<Rightarrow>
     bool \<times> http_request \<times> http_response" where
  "dispatch r default_handler key meth url req resp =
     (case rt_handles r key of Some h \<Rightarrow> (True, req, route h req resp)
      | None \<Rightarrow>
     (case rt_coro_handles r key of Some h \<Rightarrow> (True, req, route h req resp)
      | None \<Rightarrow>
     (let url_path = meth @ 0x20 # url; (is_exist, h, params) = radix_get (rt_tree r) url_path meth;
          req = req\<lparr>hq_params := params\<rparr> in
      if is_exist then
        (case h of Some h \<Rightarrow> (case h req resp of (returned, resp) \<Rightarrow> (returned, req, resp))
         | None \<Rightarrow> (True, req, set_status status_not_found resp))
      else
        let (is_coro_exist, h, params) = radix_get (rt_coro_tree r) url_path meth;
            req = req\<lparr>hq_params := params\<rparr> in
        if is_coro_exist then
          (case h of Some h \<Rightarrow> (case h req resp of (returned, resp) \<Rightarrow> (returned, req, resp))
           | None \<Rightarrow> (True, req, set_status status_not_found resp))
        else
          let (returned, matched, resp) = run_matching (rt_coro_regex r) key req resp in
          if \<not> returned then (False, req, resp)
          else
            let (returned, matched, resp) =
                  (if matched then (True, True, resp) else run_matching (rt_regex r) key req resp) in
            if \<not> returned then (False, req, resp)
            else if matched then (True, req, resp)
            else (case default_handler of
                    Some h \<Rightarrow> (case h req resp of (returned, resp) \<Rightarrow> (returned, req, resp))
                  | None \<Rightarrow> (True, req, set_status status_not_found resp)))))"

end
