(* ===== verification/HttpServer.thy ===== *)
theory HttpServer
  imports HttpRouter HttpIo CinUrl CinWebsocket
begin

text \<open>
  A connection of the HTTP server (\<open>coro_http_connection.hpp\<close>): the loop of \<open>start\<close> that reads a head and a
  body, finds the handler, and answers, with the loop over pipelined requests.

  Writing always succeeds here, the text of the time is a parameter, and handlers are those of
  \<open>HttpRouter\<close>, which do not read or write the connection themselves; sessions and compression are left
  out. After a handshake the connection is that of \<open>CinWsConnection\<close>.
\<close>

section \<open>State\<close>

text \<open>
  \<open>hx_segs\<close> are the pieces in which the rest of the stream will arrive, \<open>hx_out\<close> is what was written.
\<close>

record http_connection =
  hx_head_buf :: bytes
  hx_segs :: "bytes list"
  hx_out :: bytes
  hx_parser :: http_parser
  hx_params :: "bytes \<rightharpoonup> bytes"
  hx_websocket :: bool
  hx_response :: http_response

record http_server =
  sv_router :: router
  sv_default_handler :: "handler option"
  sv_max_http_body_len :: int
  sv_date :: bytes
  sv_expires :: "int \<Rightarrow> bytes"
  sv_garbage :: bytes

definition new_connection :: "bytes list \<Rightarrow> http_connection" where
  "new_connection segs = \<lparr>hx_head_buf = [], hx_segs = segs, hx_out = [], hx_parser = new_parser,
     hx_params = Map.empty, hx_websocket = False, hx_response = new_response\<rparr>"

text \<open>How an iteration of the loop ends; \<open>Undefined\<close> is undefined behaviour of \<open>method_type\<close>.\<close>

datatype iteration_end = Next | Closed | Upgraded | Thrown | Undefined

definition TWO_CRCF :: bytes where
  "TWO_CRCF = crlf @ crlf"

section \<open>Parts\<close>

definition reply :: "http_server \<Rightarrow> http_connection \<Rightarrow> http_connection" where
  "reply sv c =
     (let (text, r) = to_buffers (sv_date sv) (sv_expires sv) (hx_response c) in
      c\<lparr>hx_out := hx_out c @ text, hx_response := r\<rparr>)"

text \<open>An answer before the connection is closed.\<close>

definition refuse :: "http_server \<Rightarrow> status_type \<Rightarrow> string \<Rightarrow> http_connection \<Rightarrow> http_connection" where
  "refuse sv status msg c =
     reply sv (c\<lparr>hx_response := set_status_and_content status (text_bytes msg) (hx_response c)\<rparr>)"

definition check_keep_alive :: "http_parser \<Rightarrow> bool" where
  "check_keep_alive p = (\<not> has_close (hp_flags p))"

text \<open>\<open>None\<close>: fewer than 24 bytes of key, which \<open>is_upgrade\<close> excludes.\<close>

definition build_ws_handshake_head ::
  "bytes \<Rightarrow> http_parser \<Rightarrow> http_response \<Rightarrow> http_response option" where
  "build_ws_handshake_head garbage p r =
     (case accept_key garbage (get_header_value p (text_bytes ''sec-websocket-key'')) of None \<Rightarrow> None
      | Some accept_str \<Rightarrow>
          let r = set_status_and_content status_switching_protocols [] r;
              r = add_header (text_bytes ''Upgrade'') (text_bytes ''WebSocket'') r;
              r = add_header (text_bytes ''Connection'') (text_bytes ''Upgrade'') r;
              r = add_header (text_bytes ''Sec-WebSocket-Accept'') (text_bytes accept_str) r;
              protocal_str = get_header_value p (text_bytes ''sec-websocket-protocol'')
          in Some (if protocal_str \<noteq> [] then add_header (text_bytes ''Sec-WebSocket-Protocol'') protocal_str r
                   else r))"

text \<open>
  The body, and what is left of the buffer: when the whole body is there already, all of the buffer is
  consumed with it.
\<close>

definition read_body :: "nat \<Rightarrow> bytes \<Rightarrow> bytes list \<Rightarrow> (bytes \<times> bytes \<times> bytes list) option" where
  "read_body body_len buf segs =
     (if body_len = 0 then Some ([], buf, segs)
      else if body_len \<le> length buf then Some (take body_len buf, [], segs)
      else (case read_exactly (body_len - length buf) [] segs of None \<Rightarrow> None
            | Some (left, segs) \<Rightarrow> Some (buf @ left, [], segs)))"

text \<open>
  The requests behind the first one, which only reach handlers of plain routes. The result is the
  text of all answers, \<open>Inl False\<close> for a head that is not well-formed, \<open>Inl True\<close> for undefined behaviour.
\<close>

function pipelined :: "http_server \<Rightarrow> bool \<Rightarrow> bytes \<Rightarrow> bytes \<Rightarrow> bool + bytes" where
  "pipelined sv need_date resp_str buf =
     (case find_sub TWO_CRCF buf of None \<Rightarrow> Inr resp_str
      | Some pos \<Rightarrow>
          (case parse_request_head buf new_parser of None \<Rightarrow> Inl True
           | Some (head_len, p) \<Rightarrow>
               if head_len \<le> 0 then Inl False
               else
                 let next_key = hp_method p @ 0x20 # hp_url p;
                     req = \<lparr>hq_parser = p, hq_body = [], hq_params = Map.empty, hq_websocket = False\<rparr>;
                     resp = new_response\<lparr>rsp_need_date := need_date\<rparr>;
                     resp = (case rt_handles (sv_router sv) next_key of Some h \<Rightarrow> route h req resp
                             | None \<Rightarrow>
                                 (case rt_coro_handles (sv_router sv) next_key of Some h \<Rightarrow> route h req resp
                                  | None \<Rightarrow> set_status status_not_found resp))
                 in pipelined sv need_date (resp_str @ fst (build_resp_str (sv_date sv) resp))
                      (drop (pos + length TWO_CRCF) buf)))"
  by pat_completeness auto
termination
  by (relation "measure (\<lambda>(_, _, _, buf). length buf)")
    (auto simp: TWO_CRCF_def crlf_def dest: find_sub_bound)

declare pipelined.simps [simp del]

section \<open>One iteration\<close>

text \<open>The end of an iteration: answering, unless the handler has done so or will do so later.\<close>

definition finish ::
  "http_server \<Rightarrow> bool \<Rightarrow> content_type \<Rightarrow> http_connection \<Rightarrow> http_connection \<times> iteration_end" where
  "finish sv keep type c =
     (let meth = hp_method (hx_parser c);
          go_on = (\<lambda>c. (c\<lparr>hx_response := clear_response (hx_response c)\<rparr>,
                        if keep then Next else Closed))
      in if rsp_delay (hx_response c) then go_on c
         else if hx_head_buf c = [] then go_on (reply sv c)
         else if type = Ct_multipart \<or> type = Ct_chunked then
           (if rsp_content (hx_response c) = []
            then refuse sv status_not_implemented ''mutipart handler not implemented or incorrect implemented'' c
            else reply sv c, Closed)
         else if hd (meth @ [0x20]) \<noteq> 0x47 \<and> hd (meth @ [0x20]) \<noteq> 0x48 then
           go_on ((refuse sv status_method_not_allowed ''method not allowed'' c)\<lparr>hx_head_buf := []\<rparr>)
         else
           (case build_resp_str (sv_date sv) (hx_response c) of
              (text, r) \<Rightarrow>
                (case pipelined sv (rsp_need_date r) text (hx_head_buf c) of
                   Inl undef \<Rightarrow>
                     if undef then (c, Undefined)
                     else (refuse sv status_bad_request ''invalid http protocol'' (c\<lparr>hx_response := r\<rparr>), Closed)
                 | Inr resp_str \<Rightarrow>
                     go_on (c\<lparr>hx_response := r, hx_out := hx_out c @ resp_str, hx_head_buf := []\<rparr>))))"

text \<open>The call of the handler for a request that is read.\<close>

definition call_handler ::
  "http_server \<Rightarrow> http_parser \<Rightarrow> content_type \<Rightarrow> bytes \<Rightarrow> http_connection \<Rightarrow> http_connection \<times> iteration_end" where
  "call_handler sv p type body c =
     (let req = \<lparr>hq_parser = p, hq_body = [], hq_params = hx_params c, hq_websocket = hx_websocket c\<rparr>;
          key = hp_method p @ 0x20 # hp_url p;
          key = (if 0x25 \<in> set (hp_url p) then url_decode key else key);
          req = (if body \<noteq> [] then set_body body req else req);
          (returned, req, resp) =
            dispatch (sv_router sv) (sv_default_handler sv) key (hp_method p) (hp_url p) req (hx_response c);
          c = c\<lparr>hx_parser := hq_parser req, hx_params := hq_params req, hx_response := resp\<rparr>
      in if \<not> returned then (c, Thrown) else finish sv (check_keep_alive p) type c)"

text \<open>From the head, which is parsed into \<open>p\<close> and consumed, to the call of the handler.\<close>

definition request_body ::
  "content_type \<Rightarrow> nat \<Rightarrow> bytes \<Rightarrow> bytes list \<Rightarrow> (bytes \<times> bytes \<times> bytes list) option" where
  "request_body type body_len buf segs =
     (if type \<noteq> Ct_chunked \<and> type \<noteq> Ct_multipart then read_body body_len buf segs else Some ([], buf, segs))"

definition handle_request ::
  "http_server \<Rightarrow> http_parser \<Rightarrow> http_connection \<Rightarrow> http_connection \<times> iteration_end" where
  "handle_request sv p c =
     (let type = get_content_type p (hx_websocket c);
          body_len = nat (hp_body_len p);
          (upgrade, ws) = (if type \<noteq> Ct_chunked \<and> type \<noteq> Ct_multipart \<and> body_len = 0 \<and>
                              hp_method p = text_bytes ''GET'' then is_upgrade p (hx_websocket c)
                           else (False, hx_websocket c))
      in if upgrade then
           (case build_ws_handshake_head (sv_garbage sv) p (hx_response c) of None \<Rightarrow> (c, Undefined)
            | Some r \<Rightarrow> (reply sv (c\<lparr>hx_response := r, hx_websocket := ws\<rparr>), Upgraded))
         else
           (case request_body type body_len (hx_head_buf c) (hx_segs c) of
              None \<Rightarrow> (c\<lparr>hx_head_buf := [], hx_segs := []\<rparr>, Closed)
            | Some (body, buf, segs) \<Rightarrow>
                call_handler sv p type body (c\<lparr>hx_head_buf := buf, hx_segs := segs\<rparr>)))"

definition start_step :: "http_server \<Rightarrow> http_connection \<Rightarrow> http_connection \<times> iteration_end" where
  "start_step sv c =
     (case read_until TWO_CRCF (hx_head_buf c) (hx_segs c) of
        None \<Rightarrow> (c\<lparr>hx_head_buf := hx_head_buf c @ concat (hx_segs c), hx_segs := []\<rparr>, Closed)
      | Some (sz, buf, segs) \<Rightarrow>
          let c = c\<lparr>hx_head_buf := buf, hx_segs := segs\<rparr> in
          (case parse_request_head (take sz buf) (hx_parser c) of None \<Rightarrow> (c, Undefined)
           | Some (head_len, p) \<Rightarrow>
               if head_len \<le> 0 then (refuse sv status_bad_request ''invalid http protocol'' c, Closed)
               else if hp_body_len p > sv_max_http_body_len sv \<or> hp_body_len p < 0 then
                 (refuse sv status_bad_request ''invalid http content length'' (c\<lparr>hx_parser := p\<rparr>), Closed)
               else handle_request sv p (c\<lparr>hx_parser := p, hx_head_buf := drop sz buf\<rparr>)))"

section \<open>The loop\<close>

definition stream_left :: "http_connection \<Rightarrow> nat" where
  "stream_left c = length (hx_head_buf c) + length (concat (hx_segs c))"

lemma reply_wire [simp]:
  "hx_head_buf (reply sv c) = hx_head_buf c" "hx_segs (reply sv c) = hx_segs c"
  "hx_head_buf (refuse sv st msg c) = hx_head_buf c" "hx_segs (refuse sv st msg c) = hx_segs c"
  by (simp_all add: reply_def refuse_def split_beta Let_def)

lemma finish_wire: "stream_left (fst (finish sv keep type c)) \<le> stream_left c"
  by (auto simp: finish_def stream_left_def Let_def split: prod.split sum.split)

lemma call_handler_wire: "stream_left (fst (call_handler sv p type body c)) \<le> stream_left c"
proof -
  have "stream_left (fst (finish sv keep type c')) \<le> stream_left c"
    if "hx_head_buf c' = hx_head_buf c" "hx_segs c' = hx_segs c" for keep c'
    using finish_wire [of sv keep type c'] that by (simp add: stream_left_def)
  then show ?thesis by (simp add: call_handler_def Let_def stream_left_def split: prod.split)
qed

lemma request_body_wire:
  assumes "request_body type n buf segs = Some (body, buf', segs')"
  shows "length buf' + length (concat segs') \<le> length buf + length (concat segs)"
proof -
  have "length buf' + length (concat segs') \<le> length buf + length (concat segs)"
    if r: "read_exactly (n - length buf) [] segs = Some (left, segs')" "buf' = []" for left
  proof -
    have "left @ concat segs' = concat segs" using read_exactly_total [OF r(1)] by simp
    then have "length left + length (concat segs') = length (concat segs)" by (metis length_append)
    with r(2) show ?thesis by simp
  qed
  with assms show ?thesis
    by (auto simp: request_body_def read_body_def split: if_splits option.splits prod.splits)
qed

lemma handle_request_wire:
  assumes "handle_request sv p c = (c', Next)"
  shows "stream_left c' \<le> stream_left c"
proof -
  let ?type = "get_content_type p (hx_websocket c)"
  obtain body buf segs where
    body: "request_body ?type (nat (hp_body_len p)) (hx_head_buf c) (hx_segs c) = Some (body, buf, segs)"
    and call: "call_handler sv p ?type body (c\<lparr>hx_head_buf := buf, hx_segs := segs\<rparr>) = (c', Next)"
    using assms by (auto simp: handle_request_def Let_def split: option.splits prod.splits if_splits)
  have "stream_left c' \<le> length buf + length (concat segs)"
    using call_handler_wire [of sv p ?type body "c\<lparr>hx_head_buf := buf, hx_segs := segs\<rparr>"] call
    by (simp add: stream_left_def)
  with request_body_wire [OF body] show ?thesis by (simp add: stream_left_def)
qed

lemma start_step_wire:
  assumes "start_step sv c = (c', Next)"
  shows "stream_left c' < stream_left c"
proof -
  obtain sz buf segs where r: "read_until TWO_CRCF (hx_head_buf c) (hx_segs c) = Some (sz, buf, segs)"
    using assms by (auto simp: start_step_def split: option.splits)
  from read_until_total [OF r] have le: "sz \<le> length buf" "0 < sz"
    "length buf + length (concat segs) = stream_left c"
    by (auto simp: TWO_CRCF_def crlf_def stream_left_def dest: arg_cong [of _ _ length])
  obtain p c1 where "handle_request sv p c1 = (c', Next)" "hx_head_buf c1 = drop sz buf" "hx_segs c1 = segs"
    using assms r by (auto simp: start_step_def Let_def split: option.splits prod.splits if_splits)
  with handle_request_wire [of sv p c1 c'] le show ?thesis by (simp add: stream_left_def)
qed

text \<open>\<open>start\<close>: the loop ends, since every iteration consumes a head.\<close>

function start :: "http_server \<Rightarrow> http_connection \<Rightarrow> http_connection \<times> iteration_end" where
  "start sv c = (case start_step sv c of (c', e) \<Rightarrow> if e = Next then start sv c' else (c', e))"
  by pat_completeness auto
termination by (relation "measure (\<lambda>(sv, c). stream_left c)") (auto dest: start_step_wire [OF sym])

declare start.simps [simp del]

end
