(* ===== verification/HttpExchange.thy ===== *)
theory HttpExchange
  imports HttpServer HttpClient
begin

text \<open>
  Client and server together: the request that the client builds reaches the registered handler with
  its method, path, headers and body, and the answer the server builds from the handler's response
  is what the client returns, however the two streams are cut into pieces (\<open>http_exchange\<close>).
\<close>

section \<open>Where a head ends\<close>

lemma find_sub_skip:
  "hd pat \<notin> set s \<Longrightarrow> pat \<noteq> [] \<Longrightarrow> find_sub pat (s @ t) = map_option (\<lambda>k. length s + k) (find_sub pat t)"
proof (induction s)
  case Nil
  then show ?case by (cases "find_sub pat t") simp_all
next
  case (Cons x s)
  have "take (length pat) ((x # s) @ t) \<noteq> pat" using Cons.prems by (cases pat) auto
  moreover have "map_option Suc (map_option (\<lambda>k. length s + k) r) = map_option (\<lambda>k. length (x # s) + k) r" for r
    by (cases r) simp_all
  ultimately show ?case using Cons by simp
qed

lemma TWO_CRCF_eq: "TWO_CRCF = [0x0d, 0x0a, 0x0d, 0x0a]"
  by (simp add: TWO_CRCF_def crlf_def)

lemma find_sub_line:
  assumes "0x0d \<notin> set l" "l' \<noteq> []" "0x0d \<notin> set l'"
  shows "find_sub TWO_CRCF (l @ crlf @ l' @ t) = map_option (\<lambda>k. length l + 2 + k) (find_sub TWO_CRCF (l' @ t))"
proof -
  obtain c l'' where l': "l' = c # l''" "c \<noteq> 0x0d" using assms(2,3) by (cases l') auto
  have "find_sub TWO_CRCF (crlf @ l' @ t) = map_option (\<lambda>k. 2 + k) (find_sub TWO_CRCF (l' @ t))"
    using l' by (simp add: TWO_CRCF_eq crlf_def option.map_comp comp_def)
  then show ?thesis
    using find_sub_skip [of TWO_CRCF l "crlf @ l' @ t"] assms(1)
    by (simp add: TWO_CRCF_eq option.map_comp comp_def)
qed

lemma find_sub_last_line:
  assumes "0x0d \<notin> set l"
  shows "find_sub TWO_CRCF (l @ crlf @ crlf @ t) = Some (length l)"
  using find_sub_skip [of TWO_CRCF l "crlf @ crlf @ t"] assms by (simp add: TWO_CRCF_eq crlf_def)

definition lines_text :: "bytes list \<Rightarrow> bytes" where
  "lines_text ls = concat (map (\<lambda>l. l @ crlf) ls)"

lemma find_head_end:
  assumes "0x0d \<notin> set l" "\<forall>l \<in> set ls. l \<noteq> [] \<and> 0x0d \<notin> set l"
  shows "find_sub TWO_CRCF (lines_text (l # ls) @ crlf @ t) = Some (length (lines_text (l # ls)) - 2)"
  using assms
proof (induction ls arbitrary: l)
  case Nil
  then show ?case using find_sub_last_line [of l t] by (simp add: lines_text_def crlf_def)
next
  case (Cons l' ls)
  have "find_sub TWO_CRCF (lines_text (l' # ls) @ crlf @ t) = Some (length (lines_text (l' # ls)) - 2)"
    using Cons by simp
  moreover have "lines_text (l' # ls) = l' @ crlf @ lines_text ls" by (simp add: lines_text_def)
  ultimately show ?case
    using find_sub_line [of l l' "crlf @ lines_text ls @ crlf @ t"] Cons.prems
    by (simp add: lines_text_def crlf_def)
qed

section \<open>Reading a head from the stream\<close>

definition line_of :: "bytes \<times> http_header \<Rightarrow> bytes" where
  "line_of = (\<lambda>(blanks, h). hd_name h @ [0x3a] @ blanks @ hd_value h)"

lemma headers_lines: "headers_text ls = lines_text (map line_of ls) @ crlf"
  by (induction ls) (auto simp: headers_text_def lines_text_def header_text_def line_of_def split: prod.split)

lemma line_of_ok: "line_ok l \<Longrightarrow> line_of l \<noteq> [] \<and> 0x0d \<notin> set (line_of l)"
  by (auto simp: line_ok_def line_of_def header_ok_def value_ok_def eol_ctl_def dest: token_char_plain
      split: prod.splits)

lemma token_no_cr: "token_ok t \<Longrightarrow> 0x0d \<notin> set t"
  by (auto simp: token_ok_def word_less_nat_alt)

lemma read_head:
  assumes "find_sub TWO_CRCF (head @ body) = Some (length head - 4)" "4 \<le> length head" "buf @ concat segs = head @ body"
  obtains buf' segs' where "read_until TWO_CRCF buf segs = Some (length head, buf', segs')"
    "take (length head) buf' = head" "drop (length head) buf' @ concat segs' = body"
proof -
  obtain buf' segs' where r: "read_until TWO_CRCF buf segs = Some (length head - 4 + length TWO_CRCF, buf', segs')"
    "buf' @ concat segs' = buf @ concat segs" "length head - 4 + length TWO_CRCF \<le> length buf'"
    using read_until_found [of TWO_CRCF buf segs "length head - 4"] assms by auto
  have len: "length head - 4 + length TWO_CRCF = length head" using assms(2) by (simp add: TWO_CRCF_eq)
  have eq: "buf' @ concat segs' = head @ body" using r(2) assms(3) by simp
  have "take (length head) (buf' @ concat segs') = head" "drop (length head) (buf' @ concat segs') = body"
    unfolding eq by simp_all
  then have "take (length head) buf' = head" "drop (length head) buf' @ concat segs' = body"
    using r(3) unfolding len by simp_all
  with r(1) len that show ?thesis by simp
qed

lemma read_request_head:
  assumes "token_ok meth" "token_ok path" "minor \<le> 9" "\<forall>l \<in> set ls. line_ok l"
    "buf @ concat segs = request_text meth path minor ls @ body"
  obtains buf' segs' where "read_until TWO_CRCF buf segs = Some (length (request_text meth path minor ls), buf', segs')"
    "take (length (request_text meth path minor ls)) buf' = request_text meth path minor ls"
    "drop (length (request_text meth path minor ls)) buf' @ concat segs' = body"
proof -
  let ?l = "meth @ [0x20] @ path @ [0x20] @ version_text minor"
  have head_eq: "request_text meth path minor ls = lines_text (?l # map line_of ls) @ crlf"
    by (simp add: request_text_def headers_lines lines_text_def)
  have vers: "0x0d \<notin> set (version_text minor)"
    using assms(3) by (auto simp: version_text_def word_unat_eq_iff unat_of_nat simp del: of_nat_add)
  have "find_sub TWO_CRCF (request_text meth path minor ls @ body) =
      Some (length (request_text meth path minor ls) - 4)"
    using find_head_end [of ?l "map line_of ls" body] assms(1,2,4) vers
    by (auto simp: head_eq token_no_cr crlf_def dest: line_of_ok)
  moreover have "4 \<le> length (request_text meth path minor ls)" by (simp add: request_text_def version_text_def)
  ultimately show ?thesis using read_head assms(5) that by blast
qed

lemma read_response_head:
  assumes "minor \<le> 9" "status < 1000" "\<forall>c \<in> set msg. \<not> eol_ctl c" "\<forall>l \<in> set ls. line_ok l"
    "buf @ concat segs = response_text minor status msg ls @ body"
  obtains buf' segs' where "read_until TWO_CRCF buf segs = Some (length (response_text minor status msg ls), buf', segs')"
    "take (length (response_text minor status msg ls)) buf' = response_text minor status msg ls"
    "drop (length (response_text minor status msg ls)) buf' @ concat segs' = body"
proof -
  let ?l = "version_text minor @ [0x20] @ digits3 status @ [0x20] @ msg"
  have head_eq: "response_text minor status msg ls = lines_text (?l # map line_of ls) @ crlf"
    by (simp add: response_text_def headers_lines lines_text_def)
  have vers: "0x0d \<notin> set (version_text minor)"
    using assms(1) by (auto simp: version_text_def word_unat_eq_iff unat_of_nat simp del: of_nat_add)
  have "status div 100 \<le> 9" "status div 10 mod 10 \<le> 9" "status mod 10 \<le> 9" using assms(2) by simp_all
  then have dgts: "0x0d \<notin> set (digits3 status)"
    by (auto simp: digits3_def word_unat_eq_iff unat_of_nat simp del: of_nat_add)
  have msg_ok: "0x0d \<notin> set msg" using assms(3) by (auto simp: eol_ctl_def)
  have "find_sub TWO_CRCF (response_text minor status msg ls @ body) =
      Some (length (response_text minor status msg ls) - 4)"
    using find_head_end [of ?l "map line_of ls" body] assms(4) vers dgts msg_ok
    by (auto simp: head_eq crlf_def dest: line_of_ok)
  moreover have "4 \<le> length (response_text minor status msg ls)" by (simp add: response_text_def version_text_def)
  ultimately show ?thesis using read_head assms(5) that by blast
qed

section \<open>Headers\<close>

definition hdr :: "bytes \<times> bytes \<Rightarrow> http_header" where
  "hdr = (\<lambda>(k, v). \<lparr>hd_name = k, hd_value = v\<rparr>)"

abbreviation (input) spaced :: "http_header \<Rightarrow> bytes \<times> http_header" where
  "spaced h \<equiv> ([0x20], h)"

text \<open>The names that client and server look at themselves.\<close>

definition special_names :: "bytes list" where
  "special_names = map text_bytes [''host'', ''connection'', ''content-length'', ''content-type'',
     ''transfer-encoding'', ''upgrade'', ''server'', ''date'', ''Upgrade'', ''Content-Type'']"

definition plain_header :: "bytes \<times> bytes \<Rightarrow> bool" where
  "plain_header = (\<lambda>(k, v). header_ok (hdr (k, v)) \<and> list_all (\<lambda>n. \<not> iequal0 k n) special_names \<and>
     tl k \<noteq> text_bytes ''onnection'')"

lemma find_plain:
  assumes "list_all plain_header hs" "n \<in> set special_names"
  shows "find_header (map hdr hs @ t) n = find_header t n"
  using assms(1) by (induction hs) (use assms(2) in \<open>auto simp: plain_header_def hdr_def list_all_iff\<close>)

lemma plain_not_named:
  assumes "list_all plain_header hs" "n \<in> set special_names" "iequal0 k n"
  shows "map_of hs k = None"
  using assms(1) by (induction hs) (use assms(2,3) in \<open>auto simp: plain_header_def list_all_iff\<close>)

lemma special_iequal0 [simp]:
  "iequal0 (text_bytes ''Host'') (text_bytes ''host'')"
  "iequal0 (text_bytes ''Connection'') (text_bytes ''connection'')"
  "iequal0 (text_bytes ''Content-Length'') (text_bytes ''content-length'')"
  "iequal0 (text_bytes ''Server'') (text_bytes ''server'')"
  "iequal0 (text_bytes ''Date'') (text_bytes ''date'')"
  by (simp_all add: iequal0_def text_bytes_def tolower_def)

lemma special_member [simp]:
  "text_bytes ''host'' \<in> set special_names" "text_bytes ''connection'' \<in> set special_names"
  "text_bytes ''content-length'' \<in> set special_names" "text_bytes ''content-type'' \<in> set special_names"
  "text_bytes ''transfer-encoding'' \<in> set special_names" "text_bytes ''upgrade'' \<in> set special_names"
  "text_bytes ''server'' \<in> set special_names" "text_bytes ''date'' \<in> set special_names"
  "text_bytes ''Upgrade'' \<in> set special_names" "text_bytes ''Content-Type'' \<in> set special_names"
  by (simp_all add: special_names_def)

lemma iequal0_length: "length a \<noteq> length b \<Longrightarrow> \<not> iequal0 a b"
  by (simp add: iequal0_def)

lemma length_text_bytes [simp]: "length (text_bytes s) = length s"
  by (simp add: text_bytes_def)

lemma find_header_other: "length (hd_name h) \<noteq> length key \<Longrightarrow> find_header (h # hs) key = find_header hs key"
  by (simp add: iequal0_length)

lemma plain_lines: "list_all plain_header hs \<Longrightarrow> \<forall>l \<in> set (map (\<lambda>h. spaced (hdr h)) hs). line_ok l"
  by (auto simp: list_all_iff plain_header_def line_ok_def)

lemma header_lines: "append_header hs = concat (map header_text (map (\<lambda>h. spaced (hdr h)) hs))"
  by (auto simp: append_header_def header_text_def hdr_def intro!: arg_cong [where f = concat])

text \<open>Numbers and the fixed headers.\<close>

lemma value_ok_plain: "\<forall>c \<in> set v. 0x20 < c \<and> c < 0x7f \<Longrightarrow> value_ok v"
  by (cases v) (auto simp: value_ok_def eol_ctl_def word_less_nat_alt crlf_def)

lemma number_bytes: "c \<in> set (to_chars 10 n) \<Longrightarrow> 0x30 \<le> c \<and> c \<le> 0x39"
proof -
  assume "c \<in> set (to_chars 10 n)"
  then have "digit_value c < 10" using to_chars_digits [of 10 n] by simp
  then show ?thesis by (auto simp: digit_value_def word_le_nat_alt Let_def split: if_splits)
qed

lemma number_ok: "value_ok (to_chars 10 n)"
  by (rule value_ok_plain) (auto simp: word_less_nat_alt word_le_nat_alt dest!: number_bytes)

section \<open>The request\<close>

definition named :: "string \<Rightarrow> bytes \<Rightarrow> http_header" where
  "named k v = hdr (text_bytes k, v)"

definition client_lines ::
  "bytes \<Rightarrow> (bytes \<times> bytes) list \<Rightarrow> http_method \<Rightarrow> bytes \<Rightarrow> (bytes \<times> http_header) list" where
  "client_lines host hs meth content =
     ([], named ''Host'' host) # map (\<lambda>h. spaced (hdr h)) hs @
     [spaced (named ''Connection'' (text_bytes ''keep-alive''))] @
     (if content \<noteq> [] \<or> meth = POST \<or> meth = PUT
      then [spaced (named ''Content-Length'' (to_chars 10 (length content)))] else [])"

text \<open>What is asked of the client, of the URI, and of a body.\<close>

definition simple_client :: "http_client \<Rightarrow> bool" where
  "simple_client cl \<longleftrightarrow> list_all plain_header (hc_req_headers cl) \<and> length (hc_req_headers cl) \<le> 90 \<and>
     hc_proxy_user cl = [] \<and> hc_proxy_token cl = []"

definition simple_uri :: "uri \<Rightarrow> bool" where
  "simple_uri u \<longleftrightarrow> value_ok (u_host u) \<and> token_ok (u_path u) \<and> token_ok (u_query u) \<and>
     0x3f \<notin> set (u_path u) \<and> 0x25 \<notin> set (u_path u)"

definition body_allowed :: "http_method \<Rightarrow> bytes \<Rightarrow> bool" where
  "body_allowed meth content \<longleftrightarrow> meth \<noteq> NIL \<and> meth \<noteq> HEAD \<and> (meth = GET \<longrightarrow> content = [])"

definition request_path :: "uri \<Rightarrow> bytes" where
  "request_path u = get_path u @ (if u_query u \<noteq> [] then 0x3f # u_query u else [])"

definition plain_context :: "bytes \<Rightarrow> req_context" where
  "plain_context content = \<lparr>ctx_content_type = Rc_none, ctx_req_header = [], ctx_content = content\<rparr>"

lemma build_request_text:
  assumes "simple_client cl"
  shows "build_request_header u meth (plain_context content) False [] cl =
    (request_text (method_name meth) (request_path u) 1 (client_lines (u_host u) (hc_req_headers cl) meth content), cl)"
proof -
  let ?hs = "hc_req_headers cl"
  have none: "map_of ?hs (text_bytes ''Host'') = None" "map_of ?hs (text_bytes ''Connection'') = None"
    "map_of ?hs (text_bytes ''Content-Length'') = None"
    using assms plain_not_named [of ?hs] special_iequal0 special_member unfolding simple_client_def by blast+
  have line: "text_bytes '' HTTP/1.1'' @ crlf = 0x20 # version_text 1 @ crlf"
    "text_bytes ''Host:'' = text_bytes ''Host'' @ [0x3a]"
    "text_bytes ''Connection: keep-alive'' = text_bytes ''Connection'' @ [0x3a, 0x20] @ text_bytes ''keep-alive''"
    "text_bytes ''Content-Length: '' = text_bytes ''Content-Length'' @ [0x3a, 0x20]"
    by (simp_all add: text_bytes_def version_text_def)
  have "append_header ?hs = concat (map header_text (map (\<lambda>h. spaced (hdr h)) ?hs))" by (rule header_lines)
  then show ?thesis
    using assms none
    by (simp add: build_request_header_def plain_context_def get_content_type_str_def proxy_headers_def
        simple_client_def request_text_def headers_text_def client_lines_def request_path_def line
        header_text_def named_def hdr_def content_len_header_def)
qed

lemma token_text:
  "token_ok (method_name meth)" "token_ok (text_bytes ''/'')"
  by (cases meth; simp add: token_ok_def text_bytes_def) (simp add: token_ok_def text_bytes_def)

lemma request_path_ok: "simple_uri u \<Longrightarrow> token_ok (request_path u)"
  "simple_uri u \<Longrightarrow> takeWhile (\<lambda>c. c \<noteq> 0x3f) (request_path u) = get_path u"
proof -
  assume u: "simple_uri u"
  have path: "token_ok (get_path u)" "0x3f \<notin> set (get_path u)"
    using u by (auto simp: simple_uri_def get_path_def token_text) (simp add: text_bytes_def)
  with u show "token_ok (request_path u)"
    by (auto simp: request_path_def simple_uri_def token_ok_def)
  have all: "\<forall>c \<in> set (get_path u). c \<noteq> 0x3f" using path(2) by blast
  then show "takeWhile (\<lambda>c. c \<noteq> 0x3f) (request_path u) = get_path u"
    by (auto simp: request_path_def takeWhile_eq_all_conv)
qed

lemma fixed_lines_ok:
  "value_ok v \<Longrightarrow> line_ok ([], named ''Host'' v)"
  "value_ok v \<Longrightarrow> line_ok (spaced (named ''Connection'' v))"
  "value_ok v \<Longrightarrow> line_ok (spaced (named ''Content-Length'' v))"
  "value_ok v \<Longrightarrow> line_ok (spaced (named ''Server'' v))"
  "value_ok v \<Longrightarrow> line_ok (spaced (named ''Date'' v))"
  by (simp_all add: line_ok_def named_def hdr_def header_ok_def text_bytes_def is_token_char_def
      token_char_map_def nth_append)

lemma client_lines_ok:
  assumes "value_ok host" "list_all plain_header hs"
  shows "\<forall>l \<in> set (client_lines host hs meth content). line_ok l"
proof -
  have "value_ok (text_bytes ''keep-alive'')" by (rule value_ok_plain) (simp add: text_bytes_def)
  then show ?thesis
    using plain_lines [OF assms(2)] assms(1) number_ok fixed_lines_ok by (auto simp: client_lines_def)
qed

text \<open>What the server finds in these headers.\<close>

lemma plain_flags: "list_all plain_header hs \<Longrightarrow> fold header_flags (map hdr hs) fl = fl"
  by (induction hs) (auto simp: plain_header_def header_flags_def connection_flags_def hdr_def)

lemma client_flags:
  assumes "list_all plain_header hs"
  shows "fold header_flags (map snd (client_lines host hs meth content)) fl = fl\<lparr>has_connection := True\<rparr>"
proof -
  have "header_flags (named ''Host'' v) fl = fl" "header_flags (named ''Content-Length'' v) fl = fl" for v fl
    by (simp_all add: header_flags_def connection_flags_def named_def hdr_def)
  moreover have "header_flags (named ''Connection'' (text_bytes ''keep-alive'')) fl = fl\<lparr>has_connection := True\<rparr>" for fl
    by (simp add: header_flags_def connection_flags_def named_def hdr_def text_bytes_def Let_def)
  ultimately show ?thesis using plain_flags [OF assms] by (simp add: client_lines_def comp_def)
qed

lemma named_simps [simp]: "hd_name (named k v) = text_bytes k" "hd_value (named k v) = v"
  by (simp_all add: named_def hdr_def)

lemma client_find:
  fixes host content :: bytes and meth :: http_method
  assumes "list_all plain_header hs"
  defines "h \<equiv> map snd (client_lines host hs meth content)"
  shows "find_header h (text_bytes ''transfer-encoding'') = []" "find_header h (text_bytes ''content-type'') = []"
    "find_header h (text_bytes ''content-length'') =
       (if content \<noteq> [] \<or> meth = POST \<or> meth = PUT then to_chars 10 (length content) else [])"
proof -
  have h: "h = named ''Host'' host # map hdr hs @ named ''Connection'' (text_bytes ''keep-alive'') #
      (if content \<noteq> [] \<or> meth = POST \<or> meth = PUT then [named ''Content-Length'' (to_chars 10 (length content))] else [])"
    by (simp add: h_def client_lines_def comp_def)
  show "find_header h (text_bytes ''transfer-encoding'') = []" "find_header h (text_bytes ''content-type'') = []"
    "find_header h (text_bytes ''content-length'') =
       (if content \<noteq> [] \<or> meth = POST \<or> meth = PUT then to_chars 10 (length content) else [])"
    unfolding h by (simp_all add: iequal0_length find_plain [OF assms(1)])
qed

lemma method_type_name: "meth \<noteq> NIL \<Longrightarrow> method_type (method_name meth @ 0x20 # s) = Some meth"
  by (cases meth) (simp_all add: http_methods_def method_type_def method_index_def text_bytes_def method_table_def
      signed_modulo_int_def signed_divide_int_def)

lemma parse_query_other [simp]:
  "hp_headers (parse_query q p) = hp_headers p" "hp_flags (parse_query q p) = hp_flags p"
  "hp_method (parse_query q p) = hp_method p" "hp_body_len (parse_query q p) = hp_body_len p"
  "hp_url (parse_query q p) = hp_url p"
  by (simp_all add: parse_query_def)

lemma parse_body_len_other [simp]:
  "hp_headers (parse_body_len p) = hp_headers p" "hp_flags (parse_body_len p) = hp_flags p"
  "hp_method (parse_body_len p) = hp_method p" "hp_url (parse_body_len p) = hp_url p"
  by (simp_all add: parse_body_len_def Let_def)

lemma parse_client_head:
  assumes "simple_client cl" "simple_uri u" "body_allowed meth content" "length content < 2 ^ 63"
  defines "ls \<equiv> client_lines (u_host u) (hc_req_headers cl) meth content"
  defines "txt \<equiv> request_text (method_name meth) (request_path u) 1 ls"
  obtains p' where "parse_request_head txt p = Some (int (length txt), p')" "hp_headers p' = map snd ls"
    "hp_flags p' = (hp_flags p)\<lparr>has_connection := True\<rparr>" "hp_method p' = method_name meth"
    "hp_url p' = get_path u" "hp_body_len p' = int (length content)"
proof -
  let ?head = "\<lparr>rq_method = method_name meth, rq_path = request_path u, rq_minor = 1, rq_headers = map snd ls,
      rq_flags = fold header_flags (map snd ls) (hp_flags p), rq_has_query = (0x3f \<in> set (request_path u))\<rparr>"
  have hs: "list_all plain_header (hc_req_headers cl)" "length (hc_req_headers cl) \<le> 90"
    using assms(1) by (simp_all add: simple_client_def)
  have lines: "\<forall>l \<in> set ls. line_ok l" unfolding ls_def
    using assms(2) by (intro client_lines_ok hs) (simp add: simple_uri_def)
  have "length ls \<le> 100" using hs(2) by (simp add: ls_def client_lines_def)
  then have phr: "phr_parse_request 100 0 (hp_flags p) (txt @ []) = Parsed (?head, length txt) []"
    using parse_request_text [of "method_name meth" "request_path u" 1 ls 100 "hp_flags p" "[]"] lines
      request_path_ok [OF assms(2)] token_text
    by (simp add: phr_counted counted_def txt_def)
  have nil: "meth \<noteq> NIL" "meth \<noteq> HEAD" using assms(3) by (simp_all add: body_allowed_def)
  have path: "takeWhile (\<lambda>c. c \<noteq> 0x3f) (request_path u) = get_path u"
    by (rule request_path_ok [OF assms(2)])
  have no_query: "request_path u = get_path u" if "0x3f \<notin> set (request_path u)"
  proof -
    from that have "\<forall>c \<in> set (request_path u). c \<noteq> 0x3f" by blast
    then have "takeWhile (\<lambda>c. c \<noteq> 0x3f) (request_path u) = request_path u" by (simp add: takeWhile_eq_all_conv)
    with path show ?thesis by simp
  qed
  define p0 where "p0 = p\<lparr>hp_headers := map snd ls, hp_header_len := int (length txt),
    hp_flags := fold header_flags (map snd ls) (hp_flags p), hp_method := method_name meth,
    hp_url := request_path u, hp_full_url := request_path u, hp_queries := Map.empty\<rparr>"
  define p1 where "p1 = (if meth = GET then p0\<lparr>hp_body_len := 0\<rparr> else parse_body_len p0)"
  define p2 where "p2 = (if 0x3f \<in> set (request_path u)
    then (parse_query (tl (dropWhile (\<lambda>c. c \<noteq> 0x3f) (request_path u))) p1)\<lparr>hp_url := get_path u\<rparr> else p1)"
  have "parse_request_head txt p = Some (int (length txt), p2)"
    using phr method_type_name [OF nil(1), of "request_path u"] nil(2)
    by (simp add: parse_request_head_def CINATRA_MAX_HTTP_HEADER_FIELD_SIZE_def Let_def p2_def p1_def p0_def path)
  moreover have "hp_headers p2 = map snd ls" "hp_method p2 = method_name meth" "hp_url p2 = get_path u"
    using no_query by (simp_all add: p2_def p1_def p0_def)
  moreover have "hp_flags p2 = (hp_flags p)\<lparr>has_connection := True\<rparr>"
    by (simp add: p2_def p1_def p0_def ls_def client_flags [OF hs(1)])
  moreover have "hp_body_len (parse_body_len p0) = int (length content)" if "meth \<noteq> GET"
    using that assms(4) client_find(3) [OF hs(1), of "u_host u" meth content]
      from_chars_signed_to_chars [of "[]" "length content" 64] to_chars_digits [of 10 "length content"]
    by (auto simp: parse_body_len_def get_header_value_def ls_def p0_def)
  then have "hp_body_len p2 = int (length content)"
    using assms(3) by (simp add: p2_def p1_def body_allowed_def)
  ultimately show ?thesis using that by blast
qed

section \<open>The server\<close>

text \<open>A response object that is new or was cleared, and what a handler makes of it.\<close>

definition fresh_response :: "http_response \<Rightarrow> bool" where
  "fresh_response r \<longleftrightarrow> r = new_response\<lparr>rsp_status := rsp_status r\<rparr>"

definition answered :: "status_type \<Rightarrow> (bytes \<times> bytes) list \<Rightarrow> bytes \<Rightarrow> http_response \<Rightarrow> http_response" where
  "answered status hs content r =
     set_status_and_content status content (fold (\<lambda>(k, v). add_header k v) hs r)"

definition server_lines :: "bytes \<Rightarrow> (bytes \<times> bytes) list \<Rightarrow> bytes \<Rightarrow> (bytes \<times> http_header) list" where
  "server_lines date hs content =
     [spaced (named ''Server'' (text_bytes ''cinatra'')),
      spaced (named ''Content-Length'' (to_chars 10 (length content))),
      spaced (named ''Date'' date)] @ map (\<lambda>h. spaced (hdr h)) hs"

lemma fold_add_header: "fold (\<lambda>(k, v). add_header k v) hs r = r\<lparr>rsp_headers := rsp_headers r @ hs\<rparr>"
  by (induction hs arbitrary: r) (auto simp: add_header_def)

lemma answered_eq:
  "fresh_response r \<Longrightarrow> answered status hs content r =
     new_response\<lparr>rsp_status := status, rsp_content := content, rsp_headers := hs, rsp_has_set_content := True\<rparr>"
  unfolding fresh_response_def
  by (erule ssubst) (simp add: answered_def fold_add_header set_status_and_content_def
      set_status_and_content_view_def new_response_def Let_def)

lemma check_plain: "list_all plain_header hs \<Longrightarrow> check_header hs flags = flags"
proof (induction hs)
  case (Cons kv hs)
  obtain k v where kv: "kv = (k, v)" by (cases kv)
  have "\<not> iequal0 k n" if "n \<in> set special_names" for n
    using Cons.prems that by (simp add: kv plain_header_def list_all_iff)
  then have "k \<noteq> text_bytes ''Server''" "k \<noteq> text_bytes ''Content-Length''" "k \<noteq> text_bytes ''Date''"
    using special_iequal0 special_member by blast+
  with Cons show ?case by (cases flags) (simp add: check_header_def kv)
qed (simp add: check_header_def)

lemma status_text:
  assumes "map_of status_strings status = Some msg"
  shows "to_http_status_string status =
    version_text 1 @ [0x20] @ digits3 status @ [0x20] @ text_bytes msg @ crlf" "status < 1000" "100 \<le> status"
    "\<forall>c \<in> set (text_bytes msg). \<not> eol_ctl c"
proof -
  have "(status, msg) \<in> set status_strings" using assms by (rule map_of_SomeD)
  then have "status < 1000 \<and> 100 \<le> status \<and> (\<forall>c \<in> set (text_bytes msg). \<not> eol_ctl c)"
    unfolding status_strings_def by (simp only: list.set) (elim insertE emptyE; simp add: text_bytes_def eol_ctl_def)
  then show bounds: "status < 1000" "100 \<le> status" "\<forall>c \<in> set (text_bytes msg). \<not> eol_ctl c" by simp_all
  have "digit_char d = word_of_nat (0x30 + d)" if "d < 10" for d using that by (simp add: digit_char_def)
  moreover have "status div 100 < 10" using bounds(1) by simp
  moreover have "status div 10 mod 10 < 10" "status mod 10 < 10" by simp_all
  moreover have "status div 10 div 10 = status div 100" by simp
  ultimately have "to_chars 10 status = digits3 status"
    using bounds(2) by (subst to_chars.simps, subst to_chars.simps, subst to_chars.simps)
      (simp add: digits3_def div_mult2_eq)
  moreover have "text_bytes ''HTTP/1.1 '' = version_text 1 @ [0x20]" "text_bytes '' '' = [0x20]"
    by (simp_all add: text_bytes_def version_text_def)
  ultimately show "to_http_status_string status =
    version_text 1 @ [0x20] @ digits3 status @ [0x20] @ text_bytes msg @ crlf"
    using assms by (simp add: to_http_status_string_def status_line_text_def)
qed

lemma answer_text:
  assumes "fresh_response r" "map_of status_strings status = Some msg" "list_all plain_header hs"
  shows "fst (to_buffers date expires (answered status hs content r)) =
    response_text 1 status (text_bytes msg) (server_lines date hs content) @ content"
proof -
  have line: "text_bytes ''Server: cinatra'' = text_bytes ''Server'' @ [0x3a, 0x20] @ text_bytes ''cinatra''"
    "text_bytes ''Content-Length: '' = text_bytes ''Content-Length'' @ [0x3a, 0x20]"
    "text_bytes ''Date: '' = text_bytes ''Date'' @ [0x3a, 0x20]"
    by (simp_all add: text_bytes_def)
  have "append_header hs = concat (map header_text (map (\<lambda>h. spaced (hdr h)) hs))" by (rule header_lines)
  then show ?thesis
    using check_plain [OF assms(3)] status_text(1) [OF assms(2)]
    by (simp add: answered_eq [OF assms(1)] to_buffers_def build_resp_head_def new_response_def handle_content_def
        check_header_def [of "[]"] append_header_def [of "[]"] Let_def response_text_def headers_text_def
        server_lines_def content_len_header_def header_text_def named_def hdr_def line)
qed

text \<open>The rest of the stream is the content: it is in the buffer already, or its end is still to come.\<close>

lemma content_arrives:
  assumes "buf @ concat segs = content"
  shows "length content \<le> length buf \<and> buf = content \<and> concat segs = [] \<or>
    length buf < length content \<and> (\<exists>left segs'. read_exactly (length content - length buf) [] segs = Some (left, segs') \<and>
      buf @ left = content \<and> concat segs' = [])"
proof (cases "length content \<le> length buf")
  case True
  then have "buf = content" "concat segs = []" using assms by (metis append_Nil2 append_eq_append_conv_if
        append_take_drop_id le_antisym length_append le_add1 take_all_iff same_append_eq)+
  with True show ?thesis by simp
next
  case False
  have len: "length content = length buf + length (concat segs)" using assms by (metis length_append)
  then obtain rest' segs' where r: "read_exactly (length content - length buf) [] segs = Some (rest', segs')"
    "rest' @ concat segs' = concat segs" "length rest' = length content - length buf"
    using read_exactly_enough [of "length content - length buf" segs "[]"] by auto
  then have "length (concat segs') = 0" using len by (metis add_diff_cancel_left' length_append add_cancel_right_right)
  then have none: "concat segs' = []" by (simp only: length_0_conv)
  with r(2) assms have "buf @ rest' = content" by (simp only: append_Nil2)
  with r(1) False none show ?thesis by auto
qed

lemma read_body_content:
  assumes "buf @ concat segs = content"
  obtains segs' where "read_body (length content) buf segs = Some (content, [], segs')" "concat segs' = []"
  using content_arrives [OF assms] that by (cases "content = []") (auto simp: read_body_def)

lemma clear_fresh:
  "rsp_content_view r = [] \<Longrightarrow> rsp_content_type r = [] \<Longrightarrow> rsp_header_span r = [] \<Longrightarrow>
   fresh_response (clear_response r)"
  by (cases r) (simp add: fresh_response_def clear_response_def new_response_def)

lemma to_buffers_keeps:
  "rsp_content_view (snd (to_buffers date expires r)) = rsp_content_view r"
  "rsp_content_type (snd (to_buffers date expires r)) = rsp_content_type r"
  "rsp_header_span (snd (to_buffers date expires r)) = rsp_header_span r"
  by (simp_all add: to_buffers_def build_resp_head_def Let_def split_beta)

text \<open>A connection between two requests, and a handler that gives an answer to a request.\<close>

definition idle :: "http_connection \<Rightarrow> bool" where
  "idle c \<longleftrightarrow> fresh_response (hx_response c) \<and>
     \<not> has_close (hp_flags (hx_parser c)) \<and> \<not> has_upgrade (hp_flags (hx_parser c))"

definition sees :: "http_method \<Rightarrow> uri \<Rightarrow> (bytes \<times> bytes) list \<Rightarrow> bytes \<Rightarrow> http_request \<Rightarrow> bool" where
  "sees meth u hs content req \<longleftrightarrow> hp_method (hq_parser req) = method_name meth \<and>
     hp_url (hq_parser req) = get_path u \<and>
     hp_headers (hq_parser req) = map snd (client_lines (u_host u) hs meth content) \<and> hq_body req = content"

lemma handler_called:
  assumes p: "hp_method p = method_name meth" "hp_url p = get_path u"
    "hp_headers p = map snd (client_lines (u_host u) hs0 meth content)"
    "hp_flags p = fl\<lparr>has_connection := True\<rparr>" "\<not> has_close fl" "\<not> has_upgrade fl"
    and u: "simple_uri u" and hs0: "list_all plain_header hs0" and c: "hx_head_buf c = []" "fresh_response (hx_response c)"
    and h: "rt_handles (sv_router sv) (route_text meth (get_path u)) = Some h"
    "\<And>req. sees meth u hs0 content req \<Longrightarrow> h req (hx_response c) = (True, answered status hs ans (hx_response c))"
    and type: "type \<noteq> Ct_multipart" "type \<noteq> Ct_chunked" "get_content_type p (hx_websocket c) \<noteq> Ct_urlencoded"
  obtains c' where "call_handler sv p type content c = (c', Next)"
    "hx_out c' = hx_out c @ fst (to_buffers (sv_date sv) (sv_expires sv) (answered status hs ans (hx_response c)))"
    "hx_head_buf c' = []" "hx_segs c' = hx_segs c" "idle c'"
proof -
  have percent: "0x25 \<notin> set (hp_url p)" using u p(2) by (auto simp: simple_uri_def get_path_def text_bytes_def)
  define req where "req = (let req = \<lparr>hq_parser = p, hq_body = [], hq_params = hx_params c, hq_websocket = hx_websocket c\<rparr>
    in if content \<noteq> [] then set_body content req else req)"
  have "sees meth u hs0 content req" "hq_parser req = p"
    using p(1-3) type(3) by (simp_all add: req_def sees_def set_body_def Let_def)
  with h(2) have answer: "h req (hx_response c) = (True, answered status hs ans (hx_response c))" by blast
  let ?r = "answered status hs ans (hx_response c)"
  let ?c = "c\<lparr>hx_parser := p, hx_params := hq_params req, hx_response := ?r\<rparr>"
  have delay: "\<not> rsp_delay ?r" by (simp add: answered_eq [OF c(2)] new_response_def)
  have step: "call_handler sv p type content c = finish sv True type ?c"
    using h(1) answer percent p \<open>hq_parser req = p\<close>
    by (simp add: call_handler_def dispatch_def route_def route_text_def check_keep_alive_def Let_def
        flip: req_def [unfolded Let_def])
  have keeps: "rsp_content_view ?r = []" "rsp_content_type ?r = []" "rsp_header_span ?r = []"
    by (simp_all add: answered_eq [OF c(2)] new_response_def)
  show ?thesis
    by (rule that [of "fst (finish sv True type ?c)"])
      (use step delay c(1) p(4-6) keeps in
        \<open>simp_all add: finish_def reply_def Let_def split_beta idle_def clear_fresh to_buffers_keeps\<close>)
qed

lemma handle_request_plain:
  assumes "is_upgrade p (hx_websocket c) = (False, hx_websocket c)"
    "request_body (get_content_type p (hx_websocket c)) (nat (hp_body_len p)) (hx_head_buf c) (hx_segs c) =
       Some (body, buf, segs)"
  shows "handle_request sv p c =
    call_handler sv p (get_content_type p (hx_websocket c)) body (c\<lparr>hx_head_buf := buf, hx_segs := segs\<rparr>)"
  by (simp only: handle_request_def Let_def assms if_cancel prod.case if_False option.case)

lemma server_step:
  assumes "simple_client cl" "simple_uri u" "body_allowed meth content" "length content < 2 ^ 63"
    and "int (length content) \<le> sv_max_http_body_len sv" "idle c"
    and r: "read_until TWO_CRCF (hx_head_buf c) (hx_segs c) = Some (length req_head, buf, segs)"
      "take (length req_head) buf = req_head"
    and req_head: "req_head = request_text (method_name meth) (request_path u) 1
      (client_lines (u_host u) (hc_req_headers cl) meth content)"
    and body: "read_body (length content) (drop (length req_head) buf) segs = Some (content, [], segs')"
    and h: "rt_handles (sv_router sv) (route_text meth (get_path u)) = Some h"
      "\<And>req. sees meth u (hc_req_headers cl) content req \<Longrightarrow>
         h req (hx_response c) = (True, answered status hs ans (hx_response c))"
  obtains c' where "start_step sv c = (c', Next)"
    "hx_out c' = hx_out c @ fst (to_buffers (sv_date sv) (sv_expires sv) (answered status hs ans (hx_response c)))"
    "hx_head_buf c' = []" "hx_segs c' = segs'" "idle c'"
proof -
  let ?hs = "hc_req_headers cl"
  let ?ls = "client_lines (u_host u) ?hs meth content"
  have hs: "list_all plain_header ?hs" using assms(1) by (simp add: simple_client_def)
  obtain p where p: "parse_request_head req_head (hx_parser c) = Some (int (length req_head), p)" "hp_headers p = map snd ?ls"
    "hp_flags p = (hp_flags (hx_parser c))\<lparr>has_connection := True\<rparr>" "hp_method p = method_name meth"
    "hp_url p = get_path u" "hp_body_len p = int (length content)"
    using parse_client_head [OF assms(1-4), folded req_head] by metis
  have "get_header_value p (text_bytes ''transfer-encoding'') = []" "get_header_value p (text_bytes ''content-type'') = []"
    using client_find(1,2) [OF hs] by (simp_all add: get_header_value_def p(2))
  moreover have "text_bytes ''chunked'' \<noteq> []" by (simp add: text_bytes_def)
  ultimately have type: "get_content_type p ws \<noteq> Ct_chunked \<and> get_content_type p ws \<noteq> Ct_multipart \<and>
      get_content_type p ws \<noteq> Ct_urlencoded" for ws
    by (auto simp: get_content_type_def is_chunked_def)
  let ?mid = "c\<lparr>hx_segs := segs, hx_parser := p, hx_head_buf := drop (length req_head) buf\<rparr>"
  let ?c = "?mid\<lparr>hx_head_buf := [], hx_segs := segs'\<rparr>"
  have "0 < length req_head" by (simp add: request_text_def req_head)
  then have "start_step sv c = handle_request sv p (c\<lparr>hx_segs := segs, hx_parser := p, hx_head_buf := drop (length req_head) buf\<rparr>)"
    using assms(5) by (simp add: start_step_def r p Let_def)
  also have "\<dots> = call_handler sv p (get_content_type p (hx_websocket c)) content ?c"
  proof -
    have "is_upgrade p (hx_websocket ?mid) = (False, hx_websocket ?mid)"
      using assms(6) p(3) by (simp add: is_upgrade_def idle_def)
    moreover have "request_body (get_content_type p (hx_websocket ?mid)) (nat (hp_body_len p)) (hx_head_buf ?mid) (hx_segs ?mid)
        = Some (content, [], segs')"
      using type [of "hx_websocket c"] body p(6) by (simp add: request_body_def)
    ultimately show ?thesis using handle_request_plain [of p ?mid content "[]" segs' sv] by simp
  qed
  finally have step: "start_step sv c = call_handler sv p (get_content_type p (hx_websocket c)) content ?c" .
  have flags: "\<not> has_close (hp_flags (hx_parser c))" "\<not> has_upgrade (hp_flags (hx_parser c))"
    "fresh_response (hx_response ?c)"
    using assms(6) by (simp_all add: idle_def)
  have "\<exists>c'. call_handler sv p (get_content_type p (hx_websocket c)) content ?c = (c', Next) \<and>
    hx_out c' = hx_out ?c @ fst (to_buffers (sv_date sv) (sv_expires sv) (answered status hs ans (hx_response ?c))) \<and>
    hx_head_buf c' = [] \<and> hx_segs c' = hx_segs ?c \<and> idle c'"
  proof (rule handler_called [OF p(4,5,2,3) flags(1,2) assms(2) hs _ flags(3) h(1)])
    show "get_content_type p (hx_websocket c) \<noteq> Ct_multipart" "get_content_type p (hx_websocket c) \<noteq> Ct_chunked"
      "get_content_type p (hx_websocket ?c) \<noteq> Ct_urlencoded" using type by simp_all
    show "h req (hx_response ?c) = (True, answered status hs ans (hx_response ?c))"
      if "sees meth u (hc_req_headers cl) content req" for req using h(2) [OF that] by simp
  qed auto
  then obtain c' where c': "call_handler sv p (get_content_type p (hx_websocket c)) content ?c = (c', Next)"
    "hx_out c' = hx_out ?c @ fst (to_buffers (sv_date sv) (sv_expires sv) (answered status hs ans (hx_response ?c)))"
    "hx_head_buf c' = []" "hx_segs c' = hx_segs ?c" "idle c'" by blast
  show ?thesis by (rule that [of c']) (use c' step in simp_all)
qed

text \<open>The same with the stream in pieces, and nothing behind the request.\<close>

lemma server_answers:
  assumes "simple_client cl" "simple_uri u" "body_allowed meth content" "length content < 2 ^ 63"
    and "int (length content) \<le> sv_max_http_body_len sv" "idle c"
    and stream: "hx_head_buf c @ concat (hx_segs c) =
      fst (build_request_header u meth (plain_context content) False [] cl) @ content"
    and h: "rt_handles (sv_router sv) (route_text meth (get_path u)) = Some h"
      "\<And>req. sees meth u (hc_req_headers cl) content req \<Longrightarrow>
         h req (hx_response c) = (True, answered status hs ans (hx_response c))"
  obtains c' where "start_step sv c = (c', Next)"
    "hx_out c' = hx_out c @ fst (to_buffers (sv_date sv) (sv_expires sv) (answered status hs ans (hx_response c)))"
    "hx_head_buf c' = []" "concat (hx_segs c') = []" "idle c'"
proof -
  let ?hs = "hc_req_headers cl"
  let ?ls = "client_lines (u_host u) ?hs meth content"
  have lines: "\<forall>l \<in> set ?ls. line_ok l"
    using assms(1,2) by (intro client_lines_ok) (simp_all add: simple_uri_def simple_client_def)
  have bytes: "hx_head_buf c @ concat (hx_segs c) = request_text (method_name meth) (request_path u) 1 ?ls @ content"
    using stream by (simp add: build_request_text [OF assms(1)])
  define req_head where "req_head = request_text (method_name meth) (request_path u) 1 ?ls"
  have "1 \<le> (9 :: nat)" by simp
  from read_request_head [OF token_text(1) request_path_ok(1) [OF assms(2)] this lines bytes]
  obtain buf segs where r: "read_until TWO_CRCF (hx_head_buf c) (hx_segs c) = Some (length req_head, buf, segs)"
    "take (length req_head) buf = req_head" "drop (length req_head) buf @ concat segs = content"
    unfolding req_head_def by metis
  obtain segs' where body: "read_body (length content) (drop (length req_head) buf) segs = Some (content, [], segs')"
    "concat segs' = []" using read_body_content [OF r(3)] by blast
  show ?thesis
    by (rule server_step [OF assms(1-6) r(1,2) req_head_def body(1) h]) (use that body(2) in simp_all)
qed

section \<open>The client\<close>

lemma server_find:
  fixes date content :: bytes
  assumes "list_all plain_header hs"
  defines "h \<equiv> map snd (server_lines date hs content)"
  shows "find_header h (text_bytes ''content-length'') = to_chars 10 (length content)"
    "find_header h (text_bytes ''transfer-encoding'') = []" "find_header h (text_bytes ''Content-Type'') = []"
    "find_header h (text_bytes ''Upgrade'') = []" "find_header h (text_bytes ''connection'') = []"
proof -
  have h: "h = named ''Server'' (text_bytes ''cinatra'') # named ''Content-Length'' (to_chars 10 (length content)) #
      named ''Date'' date # map hdr hs @ []"
    by (simp add: h_def server_lines_def comp_def)
  show "find_header h (text_bytes ''content-length'') = to_chars 10 (length content)"
    "find_header h (text_bytes ''transfer-encoding'') = []" "find_header h (text_bytes ''Content-Type'') = []"
    "find_header h (text_bytes ''Upgrade'') = []" "find_header h (text_bytes ''connection'') = []"
    unfolding h by (simp_all add: iequal0_length find_plain [OF assms(1)] del: append_Nil2)
qed

lemma client_reads:
  assumes "hc_head_buf cl = []" "meth \<noteq> HEAD" "value_ok date" "list_all plain_header hs" "length hs \<le> 90"
    and "map_of status_strings status = Some msg" "length ans < 2 ^ 63"
    and "int (length ans) \<le> hc_max_http_body_len cl"
    and bytes: "concat segs = response_text 1 status (text_bytes msg) (server_lines date hs ans) @ ans"
  obtains data cl' segs' where "handle_read meth cl segs = (Cl_ok, data, True, cl', segs')" "concat segs' = []"
    "rd_status data = status" "rd_resp_body data = ans" "rd_resp_headers data = map snd (server_lines date hs ans)"
    "hc_head_buf cl' = []" "rd_eof data"
proof -
  let ?ls = "server_lines date hs ans"
  define resp_head where "resp_head = response_text 1 status (text_bytes msg) ?ls"
  note status = status_text [OF assms(6)]
  have "value_ok (text_bytes ''cinatra'')" by (rule value_ok_plain) (simp add: text_bytes_def)
  then have lines: "\<forall>l \<in> set ?ls. line_ok l"
    using plain_lines [OF assms(4)] assms(3) number_ok fixed_lines_ok by (auto simp: server_lines_def)
  obtain buf segs' where r: "read_until TWO_CRCF (hc_head_buf cl) segs = Some (length resp_head, buf, segs')"
    "take (length resp_head) buf = resp_head" "drop (length resp_head) buf @ concat segs' = ans"
    using read_response_head [OF _ status(2,4) lines, of 1 "hc_head_buf cl" segs ans] assms(1) bytes
    by (auto simp: resp_head_def)
  define p where "p = snd (parse_response_head resp_head (hc_parser cl))"
  have "length ?ls \<le> 100" using assms(5) by (simp add: server_lines_def)
  then have phr: "phr_parse_response 100 0 (resp_head @ []) =
      Parsed (\<lparr>rp_minor = 1, rp_status = status, rp_msg = text_bytes msg, rp_headers = map snd ?ls\<rparr>, length resp_head) []"
    using parse_response_text [OF _ status(2,4) lines, of 1 100 "[]"]
    by (simp add: phr_counted counted_def resp_head_def)
  then have ret: "parse_response_head resp_head (hc_parser cl) = (int (length resp_head), p)"
    and p: "hp_headers p = map snd ?ls" "hp_status p = status"
    by (simp_all add: p_def parse_response_head_def CINATRA_MAX_HTTP_HEADER_FIELD_SIZE_def parse_body_len_def Let_def)
  note find = server_find [OF assms(4), of date ans]
  have len: "hp_body_len p = int (length ans)"
    using phr find(1) from_chars_signed_to_chars [of "[]" "length ans" 64] to_chars_digits [of 10 "length ans"] assms(7)
    by (simp add: p_def parse_response_head_def CINATRA_MAX_HTTP_HEADER_FIELD_SIZE_def parse_body_len_def
        get_header_value_def Let_def)
  have chunked: "\<not> is_chunked p" "\<not> is_multipart p" "keep_alive p"
    using find by (simp_all add: is_chunked_def is_multipart_def keep_alive_def is_websocket_def get_header_value_def p(1))
      (simp add: text_bytes_def)
  let ?data = "no_data\<lparr>rd_status := status, rd_resp_headers := map snd ?ls\<rparr>"
  let ?cl = "cl\<lparr>hc_head_buf := drop (length resp_head) buf, hc_parser := p\<rparr>"
  have header: "handle_header (length resp_head) (cl\<lparr>hc_head_buf := buf\<rparr>) = (Cl_ok, ?data, ?cl)"
    using assms(8) len by (simp add: handle_header_def r(2) ret p Let_def)
  let ?b = "drop (length resp_head) buf"
  let ?redirected = "?cl\<lparr>hc_redirect_uri := (if is_location p then get_header_value p (text_bytes ''Location'') else [])\<rparr>"
  have "handle_read meth cl segs = read_response_body ?data ?cl segs'"
    using assms(2) by (simp add: handle_read_def r(1) header flip: TWO_CRCF_def)
  also have "\<dots> = read_content ?data True ?redirected segs'"
    using chunked by (simp add: read_response_body_def Let_def)
  finally have read: "handle_read meth cl segs = read_content ?data True ?redirected segs'" .
  have "\<exists>cl' segs''. read_content ?data True ?redirected segs' =
      (Cl_ok, handle_entire_content ans ?data cl', True, cl', segs'') \<and> hc_head_buf cl' = [] \<and> concat segs'' = []"
    using content_arrives [OF r(3)]
  proof (elim disjE conjE exE)
    assume "length ans \<le> length ?b" "?b = ans" "concat segs' = []"
    then show ?thesis by (auto simp: read_content_def len Let_def)
  next
    fix left segs''
    assume "length ?b < length ans" "read_exactly (length ans - length ?b) [] segs' = Some (left, segs'')"
      "?b @ left = ans" "concat segs'' = []"
    then show ?thesis by (auto simp: read_content_def len Let_def)
  qed
  then obtain cl' segs'' where res: "read_content ?data True ?redirected segs' =
      (Cl_ok, handle_entire_content ans ?data cl', True, cl', segs'')" "hc_head_buf cl' = []" "concat segs'' = []"
    by blast
  then have all: "handle_read meth cl segs = (Cl_ok, handle_entire_content ans ?data cl', True, cl', segs'')"
    by (simp only: read)
  show ?thesis
    by (rule that [OF all res(3)]) (use res(2) in \<open>simp_all add: handle_entire_content_def no_data_def Let_def\<close>)
qed

section \<open>A client and a server\<close>

text \<open>A server with one route, whose handler answers with the body of the request, and a client for it.\<close>

definition echo :: handler where
  "echo req resp = (True, answered 200 [(text_bytes ''X-Echo'', text_bytes ''yes'')] (hq_body req) resp)"

definition echo_server :: http_server where
  "echo_server = \<lparr>sv_router = set_http_handler (\<lambda>_ _. False) False POST (text_bytes ''/hello'') echo [] new_router,
     sv_default_handler = None, sv_max_http_body_len = 1000, sv_date = [], sv_expires = (\<lambda>_. []), sv_garbage = []\<rparr>"

definition echo_client :: http_client where
  "echo_client = \<lparr>hc_req_headers = [(text_bytes ''User-Agent'', text_bytes ''me'')], hc_proxy_user = [],
     hc_proxy_password = [], hc_proxy_token = [], hc_max_http_body_len = 1000, hc_parser = new_parser,
     hc_head_buf = [], hc_chunked_buf = [], hc_redirect_uri = []\<rparr>"

definition echo_uri :: uri where
  "echo_uri = \<lparr>u_host = text_bytes ''localhost'', u_path = text_bytes ''/hello'', u_query = text_bytes ''a=1''\<rparr>"

lemma echo_ok:
  "simple_client echo_client" "hc_head_buf echo_client = []" "simple_uri echo_uri"
  "body_allowed POST (text_bytes ''hi'')" "value_ok (sv_date echo_server)"
  by code_simp+

lemma no_aspects: "with_aspects [] h = h"
  by (intro ext) (simp add: with_aspects_def)

lemma echo_route: "rt_handles (sv_router echo_server) (route_text POST (get_path echo_uri)) = Some echo"
  by (simp add: echo_server_def echo_uri_def set_http_handler_def new_router_def no_aspects get_path_def
      route_text_def text_bytes_def Let_def)

lemma echo_connection:
  "idle (new_connection segs)" "hx_head_buf (new_connection segs) = []" "hx_segs (new_connection segs) = segs"
  by (simp_all add: new_connection_def idle_def fresh_response_def new_parser_def no_flags_def)

lemma echo_sees:
  "sees POST echo_uri hs content req \<Longrightarrow>
    echo req r = (True, answered 200 [(text_bytes ''X-Echo'', text_bytes ''yes'')] content r)"
  by (simp add: echo_def sees_def)

section \<open>The exchange\<close>

text \<open>
  C3 (refinement). A request of the client is a call of the registered handler: the server, reading the
  client's bytes in whatever pieces they arrive, calls the handler of the method and path
  with these, the headers and the body, writes one answer, and is idle again, with nothing left over;
  and the client, reading this answer in whatever pieces it arrives, returns the status, the body and
  the headers the handler has set. The headers are others than those client and server set themselves, a
  GET has no body, and the sizes are below the limits of both sides.
\<close>
theorem http_exchange:
  assumes "simple_client cl" "hc_head_buf cl = []" "simple_uri u" "body_allowed meth content"
    and "length content < 2 ^ 63" "int (length content) \<le> sv_max_http_body_len sv"
    and "idle c" "hx_head_buf c = []" "value_ok (sv_date sv)"
    and "concat (hx_segs c) = fst (build_request_header u meth (plain_context content) False [] cl) @ content"
    and "rt_handles (sv_router sv) (route_text meth (get_path u)) = Some h"
    and "\<And>req. sees meth u (hc_req_headers cl) content req \<Longrightarrow>
      h req (hx_response c) = (True, answered status hs ans (hx_response c))"
    and "map_of status_strings status = Some msg" "list_all plain_header hs" "length hs \<le> 90"
    and "length ans < 2 ^ 63" "int (length ans) \<le> hc_max_http_body_len cl"
  shows "\<exists>c' out. start_step sv c = (c', Next) \<and> hx_out c' = hx_out c @ out \<and>
    idle c' \<and> hx_head_buf c' = [] \<and> concat (hx_segs c') = [] \<and>
    (\<forall>segs. concat segs = out \<longrightarrow>
      (\<exists>data cl' segs'. handle_read meth cl segs = (Cl_ok, data, True, cl', segs') \<and> concat segs' = [] \<and>
         rd_status data = status \<and> rd_resp_body data = ans \<and> set (map hdr hs) \<subseteq> set (rd_resp_headers data)))"
proof -
  let ?out = "fst (to_buffers (sv_date sv) (sv_expires sv) (answered status hs ans (hx_response c)))"
  have "hx_head_buf c @ concat (hx_segs c) =
      fst (build_request_header u meth (plain_context content) False [] cl) @ content" using assms(8,10) by simp
  then obtain c' where c': "start_step sv c = (c', Next)" "hx_out c' = hx_out c @ ?out" "hx_head_buf c' = []"
    "concat (hx_segs c') = []" "idle c'"
    using server_answers [OF assms(1,3,4,5,6,7) _ assms(11,12)] by blast
  have fresh: "fresh_response (hx_response c)" using assms(7) by (simp add: idle_def)
  have "meth \<noteq> HEAD" using assms(4) by (simp add: body_allowed_def)
  have "\<exists>data cl' segs'. handle_read meth cl segs = (Cl_ok, data, True, cl', segs') \<and> concat segs' = [] \<and>
      rd_status data = status \<and> rd_resp_body data = ans \<and> set (map hdr hs) \<subseteq> set (rd_resp_headers data)"
    if "concat segs = ?out" for segs
  proof -
    have "concat segs = response_text 1 status (text_bytes msg) (server_lines (sv_date sv) hs ans) @ ans"
      using that answer_text [OF fresh assms(13,14)] by simp
    then obtain data cl' segs' where "handle_read meth cl segs = (Cl_ok, data, True, cl', segs')" "concat segs' = []"
      "rd_status data = status" "rd_resp_body data = ans"
      "rd_resp_headers data = map snd (server_lines (sv_date sv) hs ans)"
      using client_reads [OF assms(2) \<open>meth \<noteq> HEAD\<close> assms(9,14,15,13,16,17)] by metis
    moreover have "set (map hdr hs) \<subseteq> set (map snd (server_lines (sv_date sv) hs ans))"
      by (auto simp: server_lines_def)
    ultimately show ?thesis by metis
  qed
  with c' show ?thesis by blast
qed

lemma http_exchange_witness:
  "\<exists>c' out. start_step echo_server (new_connection [fst (build_request_header echo_uri POST
      (plain_context (text_bytes ''hi'')) False [] echo_client), text_bytes ''hi'']) = (c', Next) \<and> hx_out c' = [] @ out \<and>
    idle c' \<and> hx_head_buf c' = [] \<and> concat (hx_segs c') = [] \<and>
    (\<forall>segs. concat segs = out \<longrightarrow>
      (\<exists>data cl' segs'. handle_read POST echo_client segs = (Cl_ok, data, True, cl', segs') \<and> concat segs' = [] \<and>
         rd_status data = 200 \<and> rd_resp_body data = text_bytes ''hi'' \<and>
         set (map hdr [(text_bytes ''X-Echo'', text_bytes ''yes'')]) \<subseteq> set (rd_resp_headers data)))"
proof -
  have "map_of status_strings 200 = Some ''OK''" "list_all plain_header [(text_bytes ''X-Echo'', text_bytes ''yes'')]"
    by code_simp+
  note ok = this
  show ?thesis
    using http_exchange [OF echo_ok(1,2,3,4) _ _ echo_connection(1,2) echo_ok(5) _ echo_route echo_sees ok]
    by (simp add: echo_connection echo_server_def echo_client_def text_bytes_def new_connection_def)
qed

text \<open>
  C39 (error). A request that arrives together with the body of the one before it is lost: the server
  answers the first one and throws away all of its buffer, so that the connection ends with one
  answer.
\<close>
theorem request_behind_body_lost:
  assumes "simple_client cl" "simple_uri u" "body_allowed meth content" "content \<noteq> []"
    and "length content < 2 ^ 63" "int (length content) \<le> sv_max_http_body_len sv" "idle c" "hx_head_buf c = []"
    and "hx_segs c = [fst (build_request_header u meth (plain_context content) False [] cl) @ content @ behind]"
    and "rt_handles (sv_router sv) (route_text meth (get_path u)) = Some h"
    and "\<And>req. sees meth u (hc_req_headers cl) content req \<Longrightarrow>
      h req (hx_response c) = (True, answered status hs ans (hx_response c))"
  shows "\<exists>c'. start sv c = (c', Closed) \<and> hx_out c' = hx_out c @
    fst (to_buffers (sv_date sv) (sv_expires sv) (answered status hs ans (hx_response c)))"
proof -
  let ?ls = "client_lines (u_host u) (hc_req_headers cl) meth content"
  define req_head where "req_head = request_text (method_name meth) (request_path u) 1 ?ls"
  have lines: "\<forall>l \<in> set ?ls. line_ok l"
    using assms(1,2) by (intro client_lines_ok) (simp_all add: simple_uri_def simple_client_def)
  have "1 \<le> (9 :: nat)" by simp
  have "[] @ concat [req_head @ content @ behind] =
      request_text (method_name meth) (request_path u) 1 ?ls @ content @ behind" by (simp add: req_head_def)
  then obtain buf segs where r: "read_until TWO_CRCF [] [req_head @ content @ behind] = Some (length req_head, buf, segs)"
    unfolding req_head_def
    by (rule read_request_head [OF token_text(1) [of meth] request_path_ok(1) [OF assms(2)] \<open>1 \<le> (9 :: nat)\<close> lines])
  then have "buf = req_head @ content @ behind" "segs = []"
    by (auto simp: read_until_def TWO_CRCF_eq split: option.splits)
  moreover from this have "read_body (length content) (drop (length req_head) buf) segs = Some (content, [], [])"
    using assms(4) by (simp add: read_body_def)
  ultimately obtain c' where c': "start_step sv c = (c', Next)" "hx_head_buf c' = []" "hx_segs c' = []"
    "hx_out c' = hx_out c @ fst (to_buffers (sv_date sv) (sv_expires sv) (answered status hs ans (hx_response c)))"
    using server_step [OF assms(1,2,3,5,6,7) _ _ req_head_def _ assms(10,11), of buf segs "[]"] r assms(8,9)
    by (auto simp: build_request_text [OF assms(1)] req_head_def)
  have "start_step sv c' = (c'\<lparr>hx_head_buf := [], hx_segs := []\<rparr>, Closed)"
    using c'(2,3) by (simp add: start_step_def read_until_def TWO_CRCF_eq)
  then have "start sv c = (c'\<lparr>hx_head_buf := [], hx_segs := []\<rparr>, Closed)"
    by (subst start.simps, subst c'(1)) (simp, subst start.simps, simp)
  with c'(4) show ?thesis by auto
qed

lemma request_behind_body_lost_witness:
  "\<exists>c'. start echo_server (new_connection [fst (build_request_header echo_uri POST (plain_context (text_bytes ''hi''))
        False [] echo_client) @ text_bytes ''hi'' @ text_bytes ''GET / HTTP/1.1'' @ crlf @ crlf]) = (c', Closed) \<and>
    hx_out c' = [] @ fst (to_buffers (sv_date echo_server) (sv_expires echo_server)
      (answered 200 [(text_bytes ''X-Echo'', text_bytes ''yes'')] (text_bytes ''hi'') new_response))"
  using request_behind_body_lost [OF echo_ok(1,3,4) _ _ _ echo_connection(1,2) echo_connection(3) echo_route echo_sees]
  by (simp add: echo_server_def text_bytes_def new_connection_def)

end
