(* ===== verification/HttpRange.thy ===== *)
theory HttpRange
  imports HttpText
begin

text \<open>
  The byte ranges of a request (\<open>parse_ranges\<close> of \<open>coro_http_request.hpp\<close>), for a file of
  \<open>file_size\<close> bytes: \<open>a-b\<close>, \<open>a-\<close> and the last \<open>n\<close> bytes, \<open>-n\<close>. The positions are \<open>int\<close>, 32 bits wide;
  \<open>None\<close> is \<open>is_valid = false\<close>.
\<close>

definition i32 :: "int \<Rightarrow> int" where
  "i32 n = sint (word_of_int n :: 32 word)"

definition parse_range :: "nat \<Rightarrow> bytes \<Rightarrow> (int \<times> int) option" where
  "parse_range file_size rng =
     (let sub_range = split_sv [0x2d] rng;
          fist_range = trim_sv (sub_range ! 0);
          last = i32 (int file_size - 1);
          size = i32 (int file_size)
      in case (if fist_range = [] then Some (- 1) else from_chars_signed 32 fist_range) of None \<Rightarrow> None
         | Some start \<Rightarrow>
             (case (if length sub_range = 1 then Some last
                    else let second_range = trim_sv (sub_range ! 1) in
                         if second_range = [] then Some last else from_chars_signed 32 second_range) of
                None \<Rightarrow> None
              | Some e \<Rightarrow>
                  if start > 0 \<and> (start \<ge> size \<or> start = e) then None
                  else
                    let e = (if e > 0 \<and> e \<ge> size then last else e) in
                    Some (if start = - 1 then (i32 (int file_size - e), last) else (start, e))))"

fun parse_range_list :: "nat \<Rightarrow> bytes list \<Rightarrow> (int \<times> int) list option" where
  "parse_range_list file_size [] = Some []"
| "parse_range_list file_size (rng # ranges) =
     (case parse_range file_size rng of None \<Rightarrow> None
      | Some r \<Rightarrow> (case parse_range_list file_size ranges of None \<Rightarrow> None | Some rs \<Rightarrow> Some (r # rs)))"

definition parse_ranges :: "bytes \<Rightarrow> nat \<Rightarrow> (int \<times> int) list option" where
  "parse_ranges range_str file_size =
     (let range_str = trim_sv range_str in
      if range_str = [] then Some [(0, i32 (int file_size - 1))]
      else if contains_sub [0x2d, 0x2d] range_str then None
      else if range_str = [0x2d] then Some [(0, i32 (int file_size - 1))]
      else parse_range_list file_size (split_sv [0x2c] range_str))"

section \<open>Splitting\<close>

lemma split_sv_sep:
  "c \<in> set d \<Longrightarrow> \<forall>x \<in> set s. x \<notin> set d \<Longrightarrow> split_sv d (s @ c # t) = s # split_sv d t"
  by (subst split_sv.simps) (simp add: takeWhile_append2 dropWhile_append2)

lemma split_sv_whole: "\<forall>x \<in> set s. x \<notin> set d \<Longrightarrow> split_sv d s = [s]"
  by (subst split_sv.simps) (simp add: Let_def takeWhile_eq_all_conv [THEN iffD2])

lemma trim_sv_id: "0x20 \<notin> set v \<Longrightarrow> trim_sv v = v"
proof -
  assume v: "0x20 \<notin> set v"
  have "dropWhile (\<lambda>c. c = 0x20) w = w" if "0x20 \<notin> set w" for w :: bytes
    using that by (cases w) auto
  with v show ?thesis by (simp add: trim_sv_def)
qed

lemma contains_sub_sep:
  "c \<notin> set pat \<Longrightarrow> contains_sub pat (s @ c # t) \<Longrightarrow> contains_sub pat s \<or> contains_sub pat t"
proof (induction s)
  case Nil
  then show ?case by (cases pat) auto
next
  case (Cons x s)
  show ?case
  proof (cases "take (length pat) ((x # s) @ c # t) = pat")
    case True
    then have "length pat \<le> length (x # s)"
      using Cons.prems(1) by (metis in_set_conv_decomp linorder_not_le nth_append_length nth_mem nth_take)
    then have "take (length pat) ((x # s) @ c # t) = take (length pat) (x # s)" by (cases "length pat") simp_all
    with True show ?thesis by simp
  next
    case False
    with Cons show ?thesis by auto
  qed
qed

lemma join_split:
  "\<forall>s \<in> set ss. c \<notin> set s \<Longrightarrow> ss \<noteq> [] \<Longrightarrow>
   split_sv [c] (concat (map (\<lambda>s. s @ [c]) (butlast ss)) @ last ss) = ss"
proof (induction ss)
  case (Cons s ss)
  show ?case
  proof (cases "ss = []")
    case True
    with Cons.prems show ?thesis by (auto intro!: split_sv_whole)
  next
    case False
    have "\<forall>x \<in> set s. x \<notin> set [c]" using Cons.prems by auto
    from split_sv_sep [OF _ this] False Cons show ?thesis by simp
  qed
qed simp

section \<open>What the header means\<close>

datatype byte_range = Span nat nat | Open_end nat | Suffix nat

primrec range_text :: "byte_range \<Rightarrow> bytes" where
  "range_text (Span a b) = to_chars 10 a @ 0x2d # to_chars 10 b"
| "range_text (Open_end a) = to_chars 10 a @ [0x2d]"
| "range_text (Suffix n) = 0x2d # to_chars 10 n"

definition ranges_text :: "byte_range list \<Rightarrow> bytes" where
  "ranges_text rs = concat (map (\<lambda>r. range_text r @ [0x2c]) (butlast rs)) @ range_text (last rs)"

text \<open>The ranges of RFC 9110 that the function understands, and the bytes they select.\<close>

primrec range_ok :: "nat \<Rightarrow> byte_range \<Rightarrow> bool" where
  "range_ok fs (Span a b) \<longleftrightarrow> a < fs \<and> b < 2 ^ 31 \<and> (a < b \<or> a = 0)"
| "range_ok fs (Open_end a) \<longleftrightarrow> a < fs \<and> (a + 1 < fs \<or> a = 0)"
| "range_ok fs (Suffix n) \<longleftrightarrow> 0 < n \<and> n < fs"

primrec selected :: "nat \<Rightarrow> byte_range \<Rightarrow> int \<times> int" where
  "selected fs (Span a b) = (int a, min (int b) (int fs - 1))"
| "selected fs (Open_end a) = (int a, int fs - 1)"
| "selected fs (Suffix n) = (int fs - int n, int fs - 1)"

lemma i32_id: "- (2 ^ 31) \<le> n \<Longrightarrow> n < 2 ^ 31 \<Longrightarrow> i32 n = n"
  by (simp add: i32_def sint_sbintrunc' signed_take_bit_int_eq_self)

lemma number_plain:
  "c \<in> set (to_chars 10 n) \<Longrightarrow> c \<noteq> 0x2d \<and> c \<noteq> 0x2c \<and> c \<noteq> 0x20"
  using to_chars_digits [of 10 n] by (auto simp: digit_value_def)

lemma number_not_empty [simp]: "to_chars 10 n \<noteq> []"
  using to_chars_digits [of 10 n] by simp

lemma number_read: "n < 2 ^ 31 \<Longrightarrow> from_chars_signed 32 (to_chars 10 n) = Some (int n)"
  using from_chars_signed_to_chars [of "[]" n 32] by simp

lemma number_trim [simp]: "trim_sv (to_chars 10 n) = to_chars 10 n"
  using number_plain [of "0x20" n] by (intro trim_sv_id) auto

lemma number_split: "split_sv [0x2d] (to_chars 10 a @ 0x2d # s) = to_chars 10 a # split_sv [0x2d] s"
  using number_plain by (intro split_sv_sep) auto

lemma number_split_end: "split_sv [0x2d] (to_chars 10 a) = [to_chars 10 a]"
  using number_plain by (intro split_sv_whole) auto

lemma trim_sv_nil [simp]: "trim_sv [] = []"
  by (simp add: trim_sv_def)

lemma split_sv_nil [simp]: "split_sv d [] = [[]]"
  by (simp add: split_sv.simps)

lemma suffix_split: "split_sv [0x2d] (0x2d # s) = [] # split_sv [0x2d] s"
  using split_sv_sep [of "0x2d" "[0x2d]" "[]" s] by simp

lemmas range_splits = number_split number_split_end suffix_split

lemma parse_range_text:
  assumes "0 < fs" "fs < 2 ^ 31" "range_ok fs r"
  shows "parse_range fs (range_text r) = Some (selected fs r)"
proof (cases r)
  case (Span a b)
  with assms show ?thesis
    by (simp add: parse_range_def range_splits number_read Let_def i32_id) auto
next
  case (Open_end a)
  with assms show ?thesis
    by (simp add: parse_range_def range_splits number_read Let_def i32_id) auto
next
  case (Suffix n)
  with assms show ?thesis
    by (simp add: parse_range_def range_splits number_read Let_def i32_id)
qed

lemma range_text_plain: "c \<in> set (range_text r) \<Longrightarrow> c \<noteq> 0x2c \<and> c \<noteq> 0x20"
  by (cases r) (auto dest: number_plain)

lemma range_text_one: "\<not> contains_sub [0x2d, 0x2d] (range_text r)"
proof -
  have none: "\<not> contains_sub [0x2d, 0x2d] s" if "0x2d \<notin> set s" for s
    using that by (induction s) auto
  have digits: "0x2d \<notin> set (to_chars 10 n)" for n using number_plain by auto
  have start: "\<not> contains_sub [0x2d, 0x2d] (0x2d # s)" if "0x2d \<notin> set s" for s
    using that none [OF that] by (cases s) auto
  have "\<not> contains_sub [0x2d, 0x2d] (t @ 0x2d # s)" if "0x2d \<notin> set t" "0x2d \<notin> set s" for s t
    using that by (induction t) (use start in \<open>auto simp: neq_Nil_conv\<close>)
  with start digits show ?thesis by (cases r) (auto simp: start [of "[]", simplified])
qed

lemma ranges_text_one: "\<not> contains_sub [0x2d, 0x2d] (ranges_text rs)"
proof -
  have "\<not> contains_sub [0x2d, 0x2d] (concat (map (\<lambda>r. range_text r @ [0x2c]) rs') @ range_text r)" for r rs'
  proof (induction rs')
    case (Cons x rs')
    then show ?case
      using contains_sub_sep [of "0x2c" "[0x2d, 0x2d]" "range_text x"] range_text_one [of x] by auto
  qed (simp add: range_text_one)
  then show ?thesis by (simp add: ranges_text_def)
qed

lemma range_text_nonempty [simp]: "range_text r \<noteq> []" "range_ok fs r \<Longrightarrow> range_text r \<noteq> [0x2d]"
  by (cases r; auto simp: append_eq_Cons_conv)+

lemma parse_range_list_text:
  "0 < fs \<Longrightarrow> fs < 2 ^ 31 \<Longrightarrow> \<forall>r \<in> set rs. range_ok fs r \<Longrightarrow>
   parse_range_list fs (map range_text rs) = Some (map (selected fs) rs)"
  by (induction rs) (simp_all add: parse_range_text)

lemma ranges_text_split: "rs \<noteq> [] \<Longrightarrow> split_sv [0x2c] (ranges_text rs) = map range_text rs"
  using join_split [of "map range_text rs" "0x2c"] range_text_plain
  by (auto simp: ranges_text_def map_butlast last_map comp_def)

lemma ranges_text_plain: "rs \<noteq> [] \<Longrightarrow> 0x20 \<notin> set (ranges_text rs)"
  using range_text_plain by (auto simp: ranges_text_def)

lemma ranges_text_more:
  assumes "rs \<noteq> []" "\<forall>r \<in> set rs. range_ok fs r"
  shows "ranges_text rs \<noteq> [] \<and> ranges_text rs \<noteq> [0x2d]"
  using assms range_text_nonempty(2) [of fs "last rs"] last_in_set [of rs]
  by (cases "butlast rs") (auto simp: ranges_text_def append_eq_Cons_conv)

text \<open>
  Every list of ranges with at least two bytes each, or starting at 0, that lie in the
  file selects the bytes RFC 9110 says, in the order of the list.
\<close>
theorem byte_ranges_selected:
  assumes "rs \<noteq> []" "\<forall>r \<in> set rs. range_ok fs r" "0 < fs" "fs < 2 ^ 31"
  shows "parse_ranges (ranges_text rs) fs = Some (map (selected fs) rs)"
  using assms ranges_text_one [of rs] ranges_text_more [OF assms(1,2)]
  by (simp add: parse_ranges_def trim_sv_id ranges_text_plain ranges_text_split parse_range_list_text)

text \<open>
  The function deviates from RFC 9110 where it is not covered by
  \<open>byte_ranges_selected\<close>: a range of one byte that is not the first one is rejected, a suffix that
  is as long as the file or longer loses the first byte of the file, and a range that ends before
  it starts is accepted.
\<close>
theorem byte_ranges_wrong:
  assumes "0 < a" "a < fs" "fs < 2 ^ 31" "fs \<le> n" "n < 2 ^ 31"
  shows "parse_ranges (ranges_text [Span a a]) fs = None \<and>
    parse_ranges (ranges_text [Open_end (fs - 1)]) fs = None \<and>
    parse_ranges (ranges_text [Suffix n]) fs = Some [(1, int fs - 1)] \<and>
    parse_ranges (ranges_text [Span a 0]) fs = Some [(int a, 0)]"
proof -
  have one: "parse_ranges (ranges_text [r]) fs = (case parse_range fs (range_text r) of
      None \<Rightarrow> None | Some x \<Rightarrow> Some [x])" if "range_text r \<noteq> [0x2d]" for r
    using that ranges_text_one [of "[r]"] ranges_text_split [of "[r]"] ranges_text_plain [of "[r]"]
    by (simp add: parse_ranges_def trim_sv_id ranges_text_def split: option.split)
  have "1 < fs" using assms by simp
  with assms show ?thesis
    by (auto simp: one parse_range_def range_splits number_read Let_def i32_id append_eq_Cons_conv)
qed

theorem byte_ranges_selected_witness:
  "parse_ranges (ranges_text [Span 10 20, Suffix 5]) 100 = Some [(10, 20), (95, 99)]"
  using byte_ranges_selected [of "[Span 10 20, Suffix 5]" 100] by simp

theorem byte_ranges_wrong_witness:
  "parse_ranges (ranges_text [Span 5 5]) 10 = None \<and>
   parse_ranges (ranges_text [Suffix 10]) 10 = Some [(1, 9)]"
  using byte_ranges_wrong [of 5 10 10] by simp

end
