(* ===== verification/SpEndian.thy ===== *)
theory SpEndian
  imports Prelude
begin

text \<open>
  The byte-level layer of struct_pack: \<open>endian_wrapper.hpp\<close> (byte swapping and the
  read/write wrappers that keep the wire format little-endian on every machine), the
  error codes of \<open>error_code.hpp\<close>, and the \<open>memory_reader\<close> of \<open>unpacker.hpp\<close>.

  A C++ object is its memory image, a list of bytes in address order. \<open>little\<close> stands
  for \<open>is_system_little_endian\<close>. A writer is the list of bytes written so far. An access
  outside an object is the value \<open>None\<close>: undefined behaviour is a visible result.
\<close>

section \<open>Error codes\<close>

datatype errc = Ok | NoBufferSpace | InvalidBuffer | HashConflict | InvalidWidth

definition errc_val :: "errc \<Rightarrow> nat" where
  "errc_val ec = (case ec of Ok \<Rightarrow> 0 | NoBufferSpace \<Rightarrow> 1 | InvalidBuffer \<Rightarrow> 2
     | HashConflict \<Rightarrow> 3 | InvalidWidth \<Rightarrow> 4)"

definition make_error_message :: "errc \<Rightarrow> string" where
  "make_error_message ec = (case ec of
       Ok \<Rightarrow> ''ok''
     | NoBufferSpace \<Rightarrow> ''no buffer space''
     | InvalidBuffer \<Rightarrow> ''invalid argument''
     | HashConflict \<Rightarrow> ''hash conflict''
     | InvalidWidth \<Rightarrow> ''invalid width of container length'')"

text \<open>\<open>err_code::operator bool\<close>: true exactly when there is an error.\<close>

definition is_err :: "errc \<Rightarrow> bool" where
  "is_err ec \<longleftrightarrow> ec \<noteq> Ok"

lemma is_err_simps [simp]:
  "\<not> is_err Ok" "is_err NoBufferSpace" "is_err InvalidBuffer" "is_err HashConflict"
  "is_err InvalidWidth"
  by (simp_all add: is_err_def)

lemma errc_val_inj: "errc_val a = errc_val b \<Longrightarrow> a = b"
  by (cases a; cases b) (simp_all add: errc_val_def)

section \<open>The memory reader\<close>

text \<open>
  \<open>now\<close> is the offset of the read position in the buffer, \<open>rest\<close> the bytes in
  \<open>[now, end)\<close>.
\<close>

record memory_reader =
  now :: nat
  rest :: bytes

definition mk_reader :: "bytes \<Rightarrow> memory_reader" where
  "mk_reader bs = \<lparr>now = 0, rest = bs\<rparr>"

definition advance :: "nat \<Rightarrow> memory_reader \<Rightarrow> memory_reader" where
  "advance len r = r\<lparr>now := now r + len, rest := drop len (rest r)\<rparr>"

definition rd_read :: "nat \<Rightarrow> memory_reader \<Rightarrow> (bytes \<times> memory_reader) option" where
  "rd_read len r =
     (if length (rest r) < len then None else Some (take len (rest r), advance len r))"

definition rd_check :: "nat \<Rightarrow> memory_reader \<Rightarrow> bool" where
  "rd_check len r \<longleftrightarrow> length (rest r) \<ge> len"

definition rd_view :: "nat \<Rightarrow> memory_reader \<Rightarrow> (bytes \<times> memory_reader) option" where
  "rd_view len r =
     (if length (rest r) < len then None else Some (take len (rest r), advance len r))"

definition rd_ignore :: "nat \<Rightarrow> memory_reader \<Rightarrow> memory_reader option" where
  "rd_ignore len r = (if length (rest r) < len then None else Some (advance len r))"

definition rd_tellg :: "memory_reader \<Rightarrow> nat" where
  "rd_tellg r = now r"

lemma rest_advance [simp]: "rest (advance n r) = drop n (rest r)"
  and now_advance [simp]: "now (advance n r) = now r + n"
  by (simp_all add: advance_def)

lemma advance_advance [simp]: "advance m (advance n r) = advance (n + m) r"
  by (simp add: advance_def add.commute)

lemma advance_0 [simp]: "advance 0 r = r"
  by (simp add: advance_def)

lemma rd_read_append [codec_simps]:
  "rest r = bs @ sfx \<Longrightarrow> n = length bs \<Longrightarrow> rd_read n r = Some (bs, advance n r)"
  by (simp add: rd_read_def)

lemma rd_read_length: "rd_read n r = Some (bs, r') \<Longrightarrow> length bs = n"
  by (auto simp: rd_read_def split: if_splits)

lemma rd_read_None_iff: "rd_read n r = None \<longleftrightarrow> length (rest r) < n"
  by (simp add: rd_read_def)

section \<open>Byte swapping\<close>

text \<open>\<open>swap_endian\<close>: \<open>dest.u8[k] = source.u8[sizeof(T) - k - 1]\<close> for every \<open>k\<close>.\<close>

definition swap_endian :: "bytes \<Rightarrow> bytes" where
  "swap_endian img = map (\<lambda>k. img ! (length img - k - 1)) [0..<length img]"

lemma swap_endian_rev: "swap_endian img = rev img"
  by (rule nth_equalityI) (simp_all add: swap_endian_def rev_nth)

text \<open>The compiler builtins behind \<open>bswap16\<close>, \<open>bswap32\<close>, \<open>bswap64\<close> on values.\<close>

definition bswap16 :: "u16 \<Rightarrow> u16" where
  "bswap16 v = push_bit 8 v OR drop_bit 8 v"

definition bswap32 :: "u32 \<Rightarrow> u32" where
  "bswap32 v = push_bit 24 (v AND 255) OR push_bit 16 (drop_bit 8 v AND 255) OR
     push_bit 8 (drop_bit 16 v AND 255) OR (drop_bit 24 v AND 255)"

lemma bswap16_involutive: "bswap16 (bswap16 v) = v"
  by (rule bit_eqI) (auto simp: bswap16_def bit_simps)

section \<open>Reading and writing an integer\<close>

definition mem_read :: "bytes \<Rightarrow> nat \<Rightarrow> nat \<Rightarrow> bytes option" where
  "mem_read obj off len =
     (if off + len \<le> length obj then Some (take len (drop off obj)) else None)"

definition is_little_endian_copyable :: "bool \<Rightarrow> nat \<Rightarrow> bool" where
  "is_little_endian_copyable little block_size \<longleftrightarrow> little \<or> block_size = 1"

text \<open>\<open>writer.write(data + off, len)\<close>.\<close>

definition wr_write :: "bytes \<Rightarrow> bytes \<Rightarrow> nat \<Rightarrow> nat \<Rightarrow> bytes option" where
  "wr_write w obj off len = map_option (\<lambda>bs. w @ bs) (mem_read obj off len)"

text \<open>
  \<open>write_wrapper<block_size>(writer, data)\<close>. In the 16-byte branch \<open>tmp1\<close> and \<open>tmp2\<close> are
  8-byte integers, and each is written with length \<open>block_size = 16\<close>.
\<close>

definition write_wrapper :: "bool \<Rightarrow> nat \<Rightarrow> bytes \<Rightarrow> bytes \<Rightarrow> bytes option" where
  "write_wrapper little block_size data w =
     (if little \<or> block_size = 1 then wr_write w data 0 block_size
      else if block_size = 2 \<or> block_size = 4 \<or> block_size = 8 then
        Option.bind (mem_read data 0 block_size)
          (\<lambda>img. wr_write w (swap_endian img) 0 block_size)
      else if block_size = 16 then
        Option.bind (mem_read data 0 8) (\<lambda>img1.
        Option.bind (mem_read data 8 8) (\<lambda>img2.
          let tmp1 = swap_endian img1; tmp2 = swap_endian img2 in
          Option.bind (wr_write w tmp2 0 block_size)
            (\<lambda>w'. wr_write w' tmp1 0 block_size)))
      else None)"

definition write_bytes_array :: "bytes \<Rightarrow> bytes \<Rightarrow> nat \<Rightarrow> bytes option" where
  "write_bytes_array w data len = (if len \<ge> 2 ^ 63 - 1 then None else wr_write w data 0 len)"

text \<open>
  \<open>low_bytes_write_wrapper<block_size>(writer, elem)\<close>: the \<open>block_size\<close> low-order bytes of
  \<open>elem\<close>, which lie at the end of its image on a big-endian machine.
\<close>

definition low_bytes_write_wrapper :: "bool \<Rightarrow> nat \<Rightarrow> bytes \<Rightarrow> bytes \<Rightarrow> bytes option" where
  "low_bytes_write_wrapper little block_size elem w =
     (if length elem < block_size then None
      else if little then wr_write w elem 0 block_size
      else if block_size = length elem then write_wrapper little block_size elem w
      else
        let off = length elem - block_size in
        if block_size = 1 then wr_write w elem off block_size
        else if block_size = 2 \<or> block_size = 4 then
          Option.bind (mem_read elem off block_size)
            (\<lambda>img. wr_write w (swap_endian img) 0 block_size)
        else None)"

text \<open>
  \<open>read_wrapper<block_size>(reader, data)\<close> returns the bytes stored into \<open>data\<close>. In the
  16-byte branch \<open>&tmp + 8\<close> points eight whole arrays behind \<open>tmp\<close>.
\<close>

definition read_wrapper ::
  "bool \<Rightarrow> nat \<Rightarrow> memory_reader \<Rightarrow> (bytes \<times> memory_reader) option option" where
  "read_wrapper little block_size r =
     (if little \<or> block_size = 1 then Some (rd_read block_size r)
      else case rd_read block_size r of
          None \<Rightarrow> Some None
        | Some (tmp, r') \<Rightarrow>
           (if block_size = 2 \<or> block_size = 4 \<or> block_size = 8
            then Some (Some (swap_endian tmp, r'))
            else if block_size = 16 then
              Option.bind (mem_read tmp 0 8) (\<lambda>hi.
              Option.bind (mem_read tmp (8 * 16) 8) (\<lambda>lo.
                Some (Some (swap_endian lo @ swap_endian hi, r'))))
            else None))"

definition read_bytes_array :: "nat \<Rightarrow> memory_reader \<Rightarrow> (bytes \<times> memory_reader) option" where
  "read_bytes_array len r = rd_read len r"

text \<open>
  \<open>low_bytes_read_wrapper<block_size>(reader, elem)\<close>: only the low-order bytes of \<open>elem\<close> are
  replaced, the others keep their value.
\<close>

definition low_bytes_read_wrapper ::
  "bool \<Rightarrow> nat \<Rightarrow> bytes \<Rightarrow> memory_reader \<Rightarrow> (bytes \<times> memory_reader) option option" where
  "low_bytes_read_wrapper little block_size elem r =
     (if length elem < block_size then None
      else if little then
        Some (map_option (\<lambda>(bs, r'). (bs @ drop block_size elem, r')) (rd_read block_size r))
      else if block_size = length elem then read_wrapper little block_size r
      else
        let keep = take (length elem - block_size) elem in
        if block_size > 1 then
          (case rd_read block_size r of
             None \<Rightarrow> Some None
           | Some (tmp, r') \<Rightarrow>
              (if block_size = 2 \<or> block_size = 4
               then Some (Some (keep @ swap_endian tmp, r'))
               else None))
        else Some (map_option (\<lambda>(bs, r'). (keep @ bs, r')) (rd_read block_size r)))"

section \<open>The wire format does not depend on the machine\<close>

text \<open>The memory image of an integer of \<open>n\<close> bytes on either kind of machine.\<close>

definition mem_image :: "bool \<Rightarrow> nat \<Rightarrow> nat \<Rightarrow> bytes" where
  "mem_image little n v = (if little then le_bytes n v else be_bytes n v)"

lemma length_mem_image [simp]: "length (mem_image little n v) = n"
  by (simp add: mem_image_def)

lemma mem_read_all [simp]: "mem_read obj 0 (length obj) = Some obj"
  by (simp add: mem_read_def)

lemma wr_write_all: "n = length obj \<Longrightarrow> wr_write w obj 0 n = Some (w @ obj)"
  by (simp add: wr_write_def)

lemma mem_image_swap: "swap_endian (mem_image False n v) = le_bytes n v"
  by (simp add: mem_image_def swap_endian_rev be_bytes_def)

lemma write_wrapper_image:
  assumes "n \<in> {1, 2, 4, 8}"
  shows "write_wrapper little n (mem_image little n v) w = Some (w @ le_bytes n v)"
proof (cases little)
  case True
  then show ?thesis
    by (simp add: write_wrapper_def mem_image_def wr_write_all)
next
  case False
  have one: "mem_image False 1 v = le_bytes 1 v"
    by (simp add: mem_image_def be_bytes_def)
  have big: "mem_read (mem_image False n v) 0 n = Some (mem_image False n v)"
    using mem_read_all [of "mem_image False n v"] by (simp only: length_mem_image)
  show ?thesis
  proof (cases "n = 1")
    case True
    with False one show ?thesis
      by (simp add: write_wrapper_def wr_write_all)
  next
    case neq: False
    with assms False big show ?thesis
      by (auto simp: write_wrapper_def mem_image_swap wr_write_all)
  qed
qed

lemma read_wrapper_image:
  assumes "n \<in> {1, 2, 4, 8}" and "rest r = le_bytes n v @ sfx"
  shows "read_wrapper little n r = Some (Some (mem_image little n v, advance n r))"
proof -
  have rd: "rd_read n r = Some (le_bytes n v, advance n r)"
    using assms(2) by (simp add: rd_read_append)
  show ?thesis
  proof (cases "little \<or> n = 1")
    case True
    then have "mem_image little n v = le_bytes n v"
      by (auto simp: mem_image_def be_bytes_def)
    with True rd show ?thesis by (simp add: read_wrapper_def)
  next
    case False
    with assms(1) rd show ?thesis
      by (auto simp: read_wrapper_def mem_image_def be_bytes_def swap_endian_rev)
  qed
qed

text \<open>
  For integers of 1, 2, 4 and 8 bytes the two wrappers make the wire format
  independent of the machine: whatever the endianness of the writer and of the reader,
  the bytes on the wire are the little-endian image of the value, and reading them
  stores the reader's own memory image of that value.
\<close>
theorem wire_format_portable:
  assumes "n \<in> {1, 2, 4, 8}"
  shows "write_wrapper wl n (mem_image wl n v) [] = Some (le_bytes n v) \<and>
    read_wrapper rl n (mk_reader (le_bytes n v @ sfx)) =
      Some (Some (mem_image rl n v, advance n (mk_reader (le_bytes n v @ sfx))))"
  using write_wrapper_image [OF assms, of wl v "[]"]
    read_wrapper_image [OF assms, of "mk_reader (le_bytes n v @ sfx)" v sfx rl]
  by (simp add: mk_reader_def)

theorem wire_format_portable_witness:
  "write_wrapper False 2 (mem_image False 2 258) [] = Some [2, 1] \<and>
   read_wrapper False 2 (mk_reader [2, 1, 7]) =
     Some (Some (mem_image False 2 258, advance 2 (mk_reader [2, 1, 7])))"
proof -
  have img: "le_bytes 2 258 = [2, 1]" by code_simp
  show ?thesis
    using wire_format_portable [of 2 False 258 False "[7]"]
    by (simp add: img mem_image_def be_bytes_def)
qed

text \<open>
  On a big-endian machine the 16-byte branches of both wrappers leave their
  objects: \<open>write_wrapper\<close> reads 16 bytes out of an 8-byte integer for every input, and
  \<open>read_wrapper\<close> reads outside its temporary whenever 16 bytes are available.
\<close>
theorem wide_block_out_of_bounds:
  "write_wrapper False 16 data w = None \<and>
   (16 \<le> length (rest r) \<longrightarrow> read_wrapper False 16 r = None)"
proof -
  have "wr_write w (swap_endian img) 0 16 = None"
    if "mem_read data off 8 = Some img" for off img
    using that by (auto simp: wr_write_def mem_read_def swap_endian_rev split: if_splits)
  then have "write_wrapper False 16 data w = None"
    by (auto simp: write_wrapper_def Let_def bind_eq_None_conv split: option.splits)
  moreover have "read_wrapper False 16 r = None" if "16 \<le> length (rest r)"
    using that by (simp add: read_wrapper_def rd_read_def mem_read_def)
  ultimately show ?thesis by blast
qed

theorem wide_block_out_of_bounds_witness:
  "read_wrapper False 16 (mk_reader (replicate 16 0)) = None"
  using wide_block_out_of_bounds [of "[]" "[]" "mk_reader (replicate 16 0)"]
  by (simp add: mk_reader_def)

end
