(* ===== verification/SpVarint.thy ===== *)
theory SpVarint
  imports SpEndian
begin

text \<open>
  The variable-length integers of struct_pack (\<open>varint.hpp\<close>): zigzag mapping of signed
  values, the base-128 encoder \<open>serialize_varint\<close>, its decoder \<open>deserialize_varint\<close> with
  the bound of ten bytes, and \<open>calculate_varint_size\<close>.

  \<open>vkind\<close> names the integer types that take this path: \<open>var_int32_t\<close>/\<open>var_int64_t\<close> (class
  \<open>sint\<close>, zigzag), \<open>var_uint32_t\<close>/\<open>var_uint64_t\<close> and plain unsigned members, and plain
  \<open>int32_t\<close>/\<open>int64_t\<close> members of a struct tagged \<open>ENCODING_WITH_VARINT\<close> (no zigzag).
\<close>

datatype vkind = VSint32 | VSint64 | VUint32 | VUint64 | VInt32 | VInt64

definition is_enable_fast_varint_coding :: "u64 \<Rightarrow> bool" where
  "is_enable_fast_varint_coding tag \<longleftrightarrow> tag AND 8 \<noteq> 0"

text \<open>\<open>sizeof(T)\<close>, signedness and range of the value of each kind.\<close>

definition vwidth :: "vkind \<Rightarrow> nat" where
  "vwidth k = (case k of VSint32 \<Rightarrow> 4 | VUint32 \<Rightarrow> 4 | VInt32 \<Rightarrow> 4
     | VSint64 \<Rightarrow> 8 | VUint64 \<Rightarrow> 8 | VInt64 \<Rightarrow> 8)"

definition vsigned :: "vkind \<Rightarrow> bool" where
  "vsigned k = (case k of VUint32 \<Rightarrow> False | VUint64 \<Rightarrow> False | _ \<Rightarrow> True)"

definition vrange :: "vkind \<Rightarrow> int \<Rightarrow> bool" where
  "vrange k v = (if vsigned k
     then - (2 ^ (8 * vwidth k - 1)) \<le> v \<and> v < 2 ^ (8 * vwidth k - 1)
     else 0 \<le> v \<and> v < 2 ^ (8 * vwidth k))"

section \<open>Zigzag\<close>

text \<open>
  \<open>encode_zigzag<U, T, Shift>\<close> with \<open>Shift\<close> the width less one (31 and 63 in the source).
\<close>

definition encode_zigzag :: "'a::len word \<Rightarrow> 'a word" where
  "encode_zigzag t = push_bit 1 t XOR (- drop_bit (LENGTH('a) - 1) t)"

definition decode_zigzag :: "'a::len word \<Rightarrow> 'a word" where
  "decode_zigzag u = drop_bit 1 u XOR (- (u AND 1))"

lemma neg_msb_bit:
  "bit (- drop_bit (LENGTH('a) - 1) t :: 'a::len word) n \<longleftrightarrow>
     n < LENGTH('a) \<and> bit t (LENGTH('a) - 1)"
proof -
  have "drop_bit (LENGTH('a) - 1) t = of_bool (bit t (LENGTH('a) - 1))"
  proof (rule bit_word_eqI)
    fix m
    show "bit (drop_bit (LENGTH('a) - 1) t) m \<longleftrightarrow>
      bit (of_bool (bit t (LENGTH('a) - 1)) :: 'a word) m"
      using bit_imp_le_length [of t "LENGTH('a) - 1 + m"]
      by (cases m) (auto simp: bit_drop_bit_eq bit_of_bool_iff)
  qed
  then show ?thesis by (auto simp: bit_simps)
qed

lemma neg_lsb_bit:
  "bit (- (u AND 1) :: 'a::len word) n \<longleftrightarrow> n < LENGTH('a) \<and> bit u 0"
proof -
  have "u AND 1 = of_bool (bit u 0)"
    by (rule bit_word_eqI) (auto simp: bit_simps)
  then show ?thesis by (auto simp: bit_simps)
qed

lemma encode_zigzag_bit:
  "bit (encode_zigzag (t :: 'a::len word)) n \<longleftrightarrow> n < LENGTH('a) \<and>
     ((0 < n \<and> bit t (n - 1)) \<noteq> bit t (LENGTH('a) - 1))"
  unfolding encode_zigzag_def
  by (auto simp only: bit_xor_iff bit_push_bit_iff neg_msb_bit possible_bit_word)

lemma decode_zigzag_bit:
  "bit (decode_zigzag (u :: 'a::len word)) n \<longleftrightarrow>
     n < LENGTH('a) \<and> (bit u (Suc n) \<noteq> bit u 0)"
  unfolding decode_zigzag_def
  by (auto simp: bit_xor_iff neg_lsb_bit bit_drop_bit_eq dest: bit_imp_le_length)

lemma decode_encode_zigzag [codec_simps]: "decode_zigzag (encode_zigzag t) = t"
  for t :: "'a::len word"
proof (rule bit_word_eqI)
  fix n
  assume n: "n < LENGTH('a)"
  show "bit (decode_zigzag (encode_zigzag t)) n \<longleftrightarrow> bit t n"
  proof (cases "Suc n < LENGTH('a)")
    case True
    with n show ?thesis by (auto simp: decode_zigzag_bit encode_zigzag_bit)
  next
    case False
    with n have "n = LENGTH('a) - 1" by simp
    with n False show ?thesis by (auto simp: decode_zigzag_bit encode_zigzag_bit)
  qed
qed

section \<open>Base-128 encoding\<close>

lemma drop_bit_7_neq_0_iff: "drop_bit 7 t \<noteq> 0 \<longleftrightarrow> 128 \<le> unat (t :: 'a::len word)"
proof -
  have "drop_bit 7 t = 0 \<longleftrightarrow> unat (drop_bit 7 t) = 0"
    by (simp only: unsigned_eq_0_iff)
  also have "\<dots> \<longleftrightarrow> unat t div 2 ^ 7 = 0" by (simp only: unat_drop_bit_div)
  finally show ?thesis by (simp add: div_eq_0_iff not_less)
qed

text \<open>
  \<open>while (v >= 0x80) { write((uint8_t)(v | 0x80)); v >>= 7; } write((uint8_t)v);\<close>
\<close>

lemma drop_bit_7_less: "(128 :: u64) \<le> v \<Longrightarrow> unat (drop_bit 7 v) < unat v"
  by (simp add: unat_drop_bit_div word_le_nat_alt)

function write_varint :: "u64 \<Rightarrow> bytes" where
  "write_varint v =
     (if v \<ge> 0x80 then ucast (v OR 0x80) # write_varint (drop_bit 7 v) else [ucast v])"
  by pat_completeness auto
termination
  by (relation "measure unat") (auto intro!: drop_bit_7_less simp: not_less)

declare write_varint.simps [simp del]

text \<open>The \<open>uint64_t v\<close> that \<open>serialize_varint\<close> starts from.\<close>

definition varint_to_u64 :: "vkind \<Rightarrow> int \<Rightarrow> u64" where
  "varint_to_u64 k t = (case k of
       VSint32 \<Rightarrow> ucast (encode_zigzag (word_of_int t :: u32))
     | VSint64 \<Rightarrow> encode_zigzag (word_of_int t :: u64)
     | _ \<Rightarrow> word_of_int t)"

definition serialize_varint :: "vkind \<Rightarrow> int \<Rightarrow> bytes" where
  "serialize_varint k t = write_varint (varint_to_u64 k t)"

text \<open>
  \<open>deserialize_varint_impl\<close>: \<open>fuel\<close> counts the iterations left of
  \<open>max_varint_length = sizeof(uint64_t) * 8 / 7 + 1\<close>.
\<close>

definition max_varint_length :: nat where
  "max_varint_length = 8 * 8 div 7 + 1"

fun varint_loop :: "nat \<Rightarrow> nat \<Rightarrow> u64 \<Rightarrow> memory_reader \<Rightarrow> errc \<times> u64 \<times> memory_reader" where
  "varint_loop 0 i v r = (InvalidBuffer, v, r)"
| "varint_loop (Suc fuel) i v r =
     (case rd_read 1 r of
        None \<Rightarrow> (NoBufferSpace, v, r)
      | Some (bs, r') \<Rightarrow>
          let b = hd bs;
              v' = v OR push_bit (i * 7) (ucast (b AND 0x7f))
          in if b AND 0x80 = 0 then (Ok, v', r') else varint_loop fuel (Suc i) v' r')"

definition deserialize_varint_impl :: "memory_reader \<Rightarrow> u64 \<Rightarrow> errc \<times> u64 \<times> memory_reader" where
  "deserialize_varint_impl r v = varint_loop max_varint_length 0 v r"

text \<open>The assignment \<open>t = ...\<close> at the end of \<open>deserialize_varint\<close>, with its conversions.\<close>

definition varint_of_u64 :: "vkind \<Rightarrow> u64 \<Rightarrow> int" where
  "varint_of_u64 k v = (case k of
       VSint32 \<Rightarrow> sint (ucast (decode_zigzag v) :: u32)
     | VSint64 \<Rightarrow> sint (decode_zigzag v)
     | VUint32 \<Rightarrow> uint (ucast v :: u32)
     | VUint64 \<Rightarrow> uint v
     | VInt32 \<Rightarrow> sint (ucast v :: u32)
     | VInt64 \<Rightarrow> sint v)"

definition deserialize_varint ::
  "bool \<Rightarrow> vkind \<Rightarrow> int \<Rightarrow> memory_reader \<Rightarrow> errc \<times> int \<times> memory_reader" where
  "deserialize_varint NotSkip k t r =
     (let (ec, v, r') = deserialize_varint_impl r 0
      in (ec, (if NotSkip \<and> \<not> is_err ec then varint_of_u64 k v else t), r'))"

text \<open>\<open>do { ret++; t >>= 7; } while (t != 0)\<close>\<close>

lemma drop_bit_7_less_pos:
  "drop_bit 7 t \<noteq> 0 \<Longrightarrow> unat (drop_bit 7 t) < unat (t :: 'a::len word)"
proof -
  assume "drop_bit 7 t \<noteq> 0"
  then have "128 \<le> unat t" by (simp only: drop_bit_7_neq_0_iff)
  then show ?thesis by (simp add: unat_drop_bit_div)
qed

function varint_size_loop :: "'a::len word \<Rightarrow> nat" where
  "varint_size_loop t =
     (if drop_bit 7 t \<noteq> 0 then Suc (varint_size_loop (drop_bit 7 t)) else 1)"
  by pat_completeness auto
termination
  by (relation "measure unat") (auto intro!: drop_bit_7_less_pos)

declare varint_size_loop.simps [simp del]

definition calculate_varint_size :: "vkind \<Rightarrow> int \<Rightarrow> nat" where
  "calculate_varint_size k t = (case k of
       VSint32 \<Rightarrow> varint_size_loop (encode_zigzag (word_of_int t :: u32))
     | VSint64 \<Rightarrow> varint_size_loop (encode_zigzag (word_of_int t :: u64))
     | VUint32 \<Rightarrow> varint_size_loop (word_of_int t :: u32)
     | VUint64 \<Rightarrow> varint_size_loop (word_of_int t :: u64)
     | VInt32 \<Rightarrow> varint_size_loop (word_of_int t :: u64)
     | VInt64 \<Rightarrow> varint_size_loop (word_of_int t :: u64))"

section \<open>Facts on the encoder and the decoder\<close>

lemma write_varint_nonempty [simp]: "write_varint v \<noteq> []"
  by (subst write_varint.simps) simp

lemma bit_128: "bit (128 :: int) n \<longleftrightarrow> n = 7"
proof -
  have "bit (128 :: int) n \<longleftrightarrow> bit ((2 :: int) ^ 7) n" by simp
  then show ?thesis by (simp only: bit_exp_iff) simp
qed

lemma bit_word_128: "bit (128 :: 'a::len word) n \<longleftrightarrow> n = 7 \<and> n < LENGTH('a)"
  by (auto simp: bit_128)

lemma mask_7: "(127 :: 'a::len word) = mask 7"
  by (simp add: mask_eq_exp_minus_1)

lemma continuation_byte: "(ucast (v OR 0x80 :: u64) :: byte) AND 0x80 \<noteq> 0"
proof
  assume "(ucast (v OR 0x80 :: u64) :: byte) AND 0x80 = 0"
  then have "\<not> bit ((ucast (v OR 0x80 :: u64) :: byte) AND 0x80) 7" by simp
  then show False by (simp add: bit_simps bit_128)
qed

lemma last_byte:
  assumes "v < (0x80 :: u64)"
  shows "(ucast v :: byte) AND 0x80 = 0"
proof (rule bit_word_eqI)
  fix n
  have "\<not> bit (unat v) 7"
    using assms by (simp add: bit_iff_odd word_less_nat_alt)
  then have "\<not> bit v 7" by (simp add: bit_unsigned_iff)
  then show "bit ((ucast v :: byte) AND 0x80) n \<longleftrightarrow> bit (0 :: byte) n"
    by (auto simp: bit_and_iff bit_unsigned_iff bit_128)
qed

lemma low_seven_continue:
  "(ucast ((ucast (v OR 0x80 :: u64) :: byte) AND 0x7f) :: u64) OR push_bit 7 (drop_bit 7 v) = v"
proof (rule bit_word_eqI)
  fix n
  assume n: "n < LENGTH(64)"
  show "bit ((ucast ((ucast (v OR 0x80 :: u64) :: byte) AND 0x7f) :: u64) OR
      push_bit 7 (drop_bit 7 v)) n \<longleftrightarrow> bit v n"
    using n unfolding mask_7
    by (cases "n < 7") (auto simp only: bit_or_iff bit_and_iff bit_unsigned_iff bit_mask_iff
        bit_push_bit_iff bit_drop_bit_eq bit_word_128 possible_bit_word, auto)
qed

lemma low_seven_last:
  "v < 0x80 \<Longrightarrow> (ucast ((ucast (v :: u64) :: byte) AND 0x7f) :: u64) = v"
proof -
  assume v: "v < 0x80"
  have "(ucast ((ucast v :: byte) AND 0x7f) :: u64) = v AND mask 7"
    by (rule bit_word_eqI) (auto simp: bit_simps mask_7)
  also have "\<dots> = v"
    using v by (simp add: word_unat_eq_iff unat_and_mask_mod word_less_nat_alt)
  finally show ?thesis .
qed

lemma varint_loop_write:
  assumes "rest r = write_varint x @ sfx"
    and "unat x < 2 ^ (64 - 7 * i)" and "i \<le> 9" and "fuel = 10 - i"
  shows "varint_loop fuel i v r =
    (Ok, v OR push_bit (i * 7) x, advance (length (write_varint x)) r)"
  using assms
proof (induction x arbitrary: fuel i v r rule: write_varint.induct)
  case (1 x)
  obtain k where k: "fuel = Suc k"
  proof (rule that)
    show "fuel = Suc (9 - i)" using 1(4,5) by simp
  qed
  show ?case
  proof (cases "x \<ge> 0x80")
    case False
    then have enc: "write_varint x = [ucast x]"
      by (subst write_varint.simps) simp
    have "rd_read 1 r = Some ([ucast x], advance 1 r)"
      using 1(2) enc by (simp add: rd_read_append)
    with False show ?thesis
      by (simp add: k enc Let_def last_byte low_seven_last not_le)
  next
    case True
    let ?b = "ucast (x OR 0x80 :: u64) :: byte"
    have enc: "write_varint x = ?b # write_varint (drop_bit 7 x)"
      using True by (subst write_varint.simps) simp
    have i8: "i \<le> 8"
    proof (rule ccontr)
      assume "\<not> i \<le> 8"
      with 1(4) have "i = 9" by simp
      with 1(3) True show False by (simp add: word_le_nat_alt)
    qed
    have small: "unat (drop_bit 7 x) < 2 ^ (64 - 7 * Suc i)"
    proof -
      have "64 - 7 * i = (64 - 7 * Suc i) + 7" using i8 by simp
      then have "unat x < 2 ^ (64 - 7 * Suc i) * 2 ^ 7"
        using 1(3) by (metis power_add)
      then show ?thesis
        by (simp only: unat_drop_bit_div) (simp add: less_mult_imp_div_less)
    qed
    have k9: "k = 9 - i" using k 1(5) by simp
    have rd: "rd_read 1 r = Some ([?b], advance 1 r)"
      using 1(2) enc by (simp add: rd_read_append)
    have "varint_loop fuel i v r = varint_loop k (Suc i)
        (v OR push_bit (i * 7) (ucast (?b AND 0x7f))) (advance 1 r)"
      using rd by (simp add: k Let_def continuation_byte)
    also have "\<dots> = (Ok, v OR push_bit (i * 7) (ucast (?b AND 0x7f)) OR
         push_bit (Suc i * 7) (drop_bit 7 x),
         advance (length (write_varint (drop_bit 7 x))) (advance 1 r))"
      using 1(1) [OF True, where i = "Suc i" and fuel = k and r = "advance 1 r"
          and v = "v OR push_bit (i * 7) (ucast (?b AND 0x7f))"]
        1(2,5) enc small i8 k9 by (simp add: or.assoc)
    also have "v OR push_bit (i * 7) (ucast (?b AND 0x7f)) OR
         push_bit (Suc i * 7) (drop_bit 7 x) =
       v OR push_bit (i * 7) (ucast (?b AND 0x7f) OR push_bit 7 (drop_bit 7 x))"
      by (simp add: push_bit_or add.commute or.assoc)
    also have "\<dots> = v OR push_bit (i * 7) x"
      by (simp only: low_seven_continue)
    finally show ?thesis by (simp add: enc)
  qed
qed

lemma deserialize_varint_impl_write:
  "rest r = write_varint x @ sfx \<Longrightarrow>
   deserialize_varint_impl r 0 = (Ok, x, advance (length (write_varint x)) r)"
  using varint_loop_write [of r x sfx 0 10 0]
  by (simp add: deserialize_varint_impl_def max_varint_length_def)

lemma varint_of_to_u64:
  assumes "vrange k t"
  shows "varint_of_u64 k (varint_to_u64 k t) = t"
proof -
  have zz32: "(ucast (decode_zigzag (ucast (encode_zigzag w) :: u64)) :: u32) = w" for w :: u32
  proof -
    have "(ucast (decode_zigzag (ucast e :: u64)) :: u32) = decode_zigzag e" for e :: u32
      by (rule bit_word_eqI) (auto simp: decode_zigzag_bit bit_unsigned_iff
          dest: bit_imp_le_length)
    then show ?thesis by (simp add: decode_encode_zigzag)
  qed
  have s32: "sint (word_of_int t :: u32) = t" if "- (2 ^ 31) \<le> t" "t < 2 ^ 31"
    using that by (simp only: sint_sbintrunc') (simp add: signed_take_bit_int_eq_self)
  have s64: "sint (word_of_int t :: u64) = t" if "- (2 ^ 63) \<le> t" "t < 2 ^ 63"
    using that by (simp only: sint_sbintrunc') (simp add: signed_take_bit_int_eq_self)
  have tr: "(ucast (word_of_int t :: u64) :: u32) = word_of_int t"
    by (rule bit_word_eqI) (auto simp: bit_simps)
  show ?thesis
    using assms
    by (cases k) (auto simp: varint_of_u64_def varint_to_u64_def vrange_def vsigned_def
        vwidth_def decode_encode_zigzag zz32 s32 s64 tr take_bit_int_eq_self
        uint_word_of_int_eq)
qed

lemma serialize_varint_nonempty [simp]: "serialize_varint k t \<noteq> []"
  by (simp add: serialize_varint_def)

lemma deserialize_serialize_varint:
  assumes "vrange k t" and "rest r = serialize_varint k t @ sfx"
  shows "deserialize_varint True k t0 r =
    (Ok, t, advance (length (serialize_varint k t)) r)"
  using deserialize_varint_impl_write [of r "varint_to_u64 k t" sfx] assms
  by (simp add: deserialize_varint_def serialize_varint_def varint_of_to_u64)

lemma skip_serialize_varint:
  "rest r = serialize_varint k t @ sfx \<Longrightarrow>
   deserialize_varint False k t0 r = (Ok, t0, advance (length (serialize_varint k t)) r)"
  using deserialize_varint_impl_write [of r "varint_to_u64 k t" sfx]
  by (simp add: deserialize_varint_def serialize_varint_def)

section \<open>Sizes\<close>

lemma length_write_varint: "length (write_varint v) = varint_size_loop v"
proof (induction v rule: write_varint.induct)
  case (1 v)
  have iff: "drop_bit 7 v \<noteq> 0 \<longleftrightarrow> v \<ge> 0x80"
    by (simp only: drop_bit_7_neq_0_iff word_le_nat_alt) simp
  show ?case
    using "1.IH" by (simp add: write_varint.simps [of v] varint_size_loop.simps [of v] iff)
qed

lemma varint_size_loop_ucast:
  "varint_size_loop (ucast (w :: u32) :: u64) = varint_size_loop w"
proof (induction w rule: varint_size_loop.induct)
  case (1 w)
  have sh: "drop_bit 7 (ucast w :: u64) = ucast (drop_bit 7 w)"
    by (rule bit_word_eqI) (auto simp: bit_unsigned_iff bit_drop_bit_eq dest: bit_imp_le_length)
  have z: "(ucast (drop_bit 7 w) :: u64) = 0 \<longleftrightarrow> drop_bit 7 w = 0"
      proof -
    have "unat (ucast (drop_bit 7 w) :: u64) = unat (drop_bit 7 w)"
      using less_trans [OF unat_u32_lt [of "drop_bit 7 w"], of "2 ^ 64"]
      by (simp add: unsigned_ucast_eq take_bit_nat_eq_self)
    then show ?thesis by (metis unsigned_eq_0_iff)
  qed
  show ?case
    using "1.IH" by (simp add: varint_size_loop.simps [of "ucast w :: u64"]
        varint_size_loop.simps [of w] sh z)
qed

lemma calculate_varint_size_eq:
  "vrange k t \<Longrightarrow> calculate_varint_size k t = length (serialize_varint k t)"
proof -
  assume r: "vrange k t"
  have u32: "(word_of_int t :: u64) = ucast (word_of_int t :: u32)" if "k = VUint32"
    using r that by (simp add: vrange_def vsigned_def vwidth_def word_uint_eq_iff
        uint_word_of_int_eq take_bit_int_eq_self unsigned_ucast_eq)
  show ?thesis
    by (cases k) (auto simp: calculate_varint_size_def serialize_varint_def
        varint_to_u64_def length_write_varint varint_size_loop_ucast u32)
qed

lemma varint_size_bound: "unat v < 2 ^ (7 * n) \<Longrightarrow> 0 < n \<Longrightarrow> varint_size_loop v \<le> n"
proof (induction v arbitrary: n rule: varint_size_loop.induct)
  case (1 v)
  show ?case
  proof (cases "drop_bit 7 v \<noteq> 0")
    case False
    with "1.prems" show ?thesis by (simp add: varint_size_loop.simps [of v])
  next
    case True
    then have big: "128 \<le> unat v" by (simp only: drop_bit_7_neq_0_iff)
    have n1: "1 < n"
    proof (rule ccontr)
      assume "\<not> 1 < n"
      with "1.prems" have "n = 1" by simp
      with "1.prems" big show False by simp
    qed
    then have "7 * n = 7 * (n - 1) + 7" by simp
    with "1.prems"(1) have "unat v < 2 ^ (7 * (n - 1)) * 2 ^ 7" by (metis power_add)
    then have "unat (drop_bit 7 v) < 2 ^ (7 * (n - 1))"
      by (simp only: unat_drop_bit_div) (simp add: less_mult_imp_div_less)
    with "1.IH" True n1 have "varint_size_loop (drop_bit 7 v) \<le> n - 1" by simp
    with True n1 show ?thesis by (simp add: varint_size_loop.simps [of v])
  qed
qed

lemma varint_size_pos: "0 < varint_size_loop v"
  by (subst varint_size_loop.simps) simp

lemma length_write_varint_le: "length (write_varint v) \<le> 10"
proof -
  have "unat v < 2 ^ (7 * 10)"
    by (rule less_trans [OF unat_u64_lt]) simp
  then show ?thesis
    unfolding length_write_varint by (rule varint_size_bound) simp
qed

section \<open>Errors of the decoder\<close>

lemma varint_loop_short:
  assumes "\<forall>b \<in> set bs. b AND 0x80 \<noteq> 0" and "rest r = bs" and "length bs < fuel"
  shows "fst (varint_loop fuel i v r) = NoBufferSpace"
  using assms
proof (induction fuel arbitrary: bs i v r)
  case 0
  then show ?case by simp
next
  case (Suc fuel)
  show ?case
  proof (cases bs)
    case Nil
    with Suc.prems show ?thesis by (simp add: rd_read_def)
  next
    case (Cons b bs')
    with Suc.prems have "rd_read 1 r = Some ([b], advance 1 r)"
      by (simp add: rd_read_append [where sfx = bs'])
    with Cons Suc.prems Suc.IH [of bs' "advance 1 r"] show ?thesis by (simp add: Let_def)
  qed
qed

lemma varint_loop_long:
  assumes "\<forall>b \<in> set bs. b AND 0x80 \<noteq> 0" and "rest r = bs @ sfx" and "length bs = fuel"
  shows "fst (varint_loop fuel i v r) = InvalidBuffer"
  using assms
proof (induction fuel arbitrary: bs i v r)
  case 0
  then show ?case by simp
next
  case (Suc fuel)
  then obtain b bs' where bs: "bs = b # bs'" by (cases bs) auto
  with Suc.prems have "rd_read 1 r = Some ([b], advance 1 r)"
    by (simp add: rd_read_append [where sfx = "bs' @ sfx"])
  with bs Suc.prems Suc.IH [of bs' "advance 1 r"] show ?case by (simp add: Let_def)
qed

text \<open>
  Every value of every varint type is read back exactly from its encoding,
  whatever follows it in the buffer and whatever the target held before; the reader
  stops right behind the encoding, which takes between one and ten bytes and exactly
  the number \<open>calculate_varint_size\<close> announces.
\<close>
theorem varint_roundtrip:
  assumes "vrange k t"
  shows "deserialize_varint True k t0 (mk_reader (serialize_varint k t @ sfx)) =
      (Ok, t, \<lparr>now = calculate_varint_size k t, rest = sfx\<rparr>) \<and>
    1 \<le> calculate_varint_size k t \<and> calculate_varint_size k t \<le> 10"
proof -
  have "deserialize_varint True k t0 (mk_reader (serialize_varint k t @ sfx)) =
      (Ok, t, advance (length (serialize_varint k t)) (mk_reader (serialize_varint k t @ sfx)))"
    using assms by (rule deserialize_serialize_varint) (simp add: mk_reader_def)
  moreover have "1 \<le> length (serialize_varint k t)" "length (serialize_varint k t) \<le> 10"
    using varint_size_pos length_write_varint_le
    by (simp_all add: serialize_varint_def length_write_varint Suc_le_eq)
  ultimately show ?thesis
    using assms by (simp add: calculate_varint_size_eq advance_def mk_reader_def)
qed

theorem varint_roundtrip_witness:
  "deserialize_varint True VSint32 9 (mk_reader (serialize_varint VSint32 (-3) @ [7])) =
    (Ok, -3, \<lparr>now = calculate_varint_size VSint32 (-3), rest = [7]\<rparr>)"
  using varint_roundtrip [of VSint32 "-3" 9 "[7]"]
  by (simp add: vrange_def vsigned_def vwidth_def)

text \<open>
  Malformed varints never loop and never yield a value: a buffer that ends
  within the first nine continuation bytes is \<open>no_buffer_space\<close>, ten continuation
  bytes are \<open>invalid_buffer\<close>, and in both cases the target keeps its old value.
\<close>
theorem varint_malformed:
  assumes "\<forall>b \<in> set bs. b AND 0x80 \<noteq> 0"
  shows "(length bs < 10 \<longrightarrow> (\<exists>r. deserialize_varint ns k t0 (mk_reader bs) = (NoBufferSpace, t0, r))) \<and>
    (length bs = 10 \<longrightarrow>
      (\<exists>r. deserialize_varint ns k t0 (mk_reader (bs @ sfx)) = (InvalidBuffer, t0, r)))"
proof -
  have "fst (deserialize_varint_impl (mk_reader bs) 0) = NoBufferSpace" if "length bs < 10"
    unfolding deserialize_varint_impl_def
    by (rule varint_loop_short [OF assms]) (simp_all add: mk_reader_def max_varint_length_def that)
  moreover have "fst (deserialize_varint_impl (mk_reader (bs @ sfx)) 0) = InvalidBuffer"
    if "length bs = 10"
    unfolding deserialize_varint_impl_def
    by (rule varint_loop_long [OF assms]) (simp_all add: mk_reader_def max_varint_length_def that)
  ultimately show ?thesis
    by (auto simp: deserialize_varint_def split: prod.splits)
qed

theorem varint_malformed_witness:
  "(\<exists>r. deserialize_varint True VUint64 5 (mk_reader (replicate 3 0xff)) = (NoBufferSpace, 5, r)) \<and>
   (\<exists>r. deserialize_varint True VUint64 5 (mk_reader (replicate 10 0xff @ [1])) =
      (InvalidBuffer, 5, r))"
  using varint_malformed [of "replicate 3 0xff" True VUint64 5 "[]"]
    varint_malformed [of "replicate 10 0xff" True VUint64 5 "[1]"]
  by simp

end
