(* ===== verification/SpTypes.thy ===== *)
theory SpTypes
  imports SpVarint
begin

text \<open>
  The type system of struct_pack: the C++ types its templates are instantiated with, the
  type identifiers (\<open>type_id.hpp\<close>), triviality (\<open>reflection.hpp\<close>), sizes and paddings
  (\<open>alignment.hpp\<close>) and the type literal that the type hash is computed from
  (\<open>type_calculate.hpp\<close>).

  A template instantiation is a function applied to a type descriptor \<open>sp_ty\<close>, and
  \<open>if constexpr\<close> on the type is a case distinction on the descriptor. Descriptors are finite
  trees, so the cycle checks of the source (a class that contains itself through a pointer)
  never fire and have no counterpart. Not represented: polymorphic pointers, bitsets, views,
  classes with user-defined serialization, and explicit alignment or packing attributes.
\<close>

section \<open>Type descriptors\<close>

datatype fund =
    Int8 | Uint8 | Int16 | Uint16 | Int32 | Uint32 | Int64 | Uint64
  | Bool | Char8 | Char16 | Char32 | Float32 | Float64

text \<open>
  \<open>TSeq continuous t\<close> is a sequence container (\<open>continuous\<close> for \<open>std::vector\<close>, not for
  \<open>std::list\<close> or \<open>std::deque\<close>), \<open>TString\<close> a \<open>std::basic_string\<close>, \<open>TStruct cfg ts\<close> an
  aggregate or \<open>std::pair\<close> with its \<open>sp_config\<close>, \<open>TCompat t ver\<close> the type
  \<open>compatible<t, ver>\<close>, \<open>TUnique t\<close> a \<open>std::unique_ptr\<close> to a non-polymorphic class.
\<close>

datatype sp_ty =
    TFund fund
  | TVarint vkind
  | TMono
  | TArray sp_ty nat
  | TString fund
  | TSeq bool sp_ty
  | TSet sp_ty
  | TMap sp_ty sp_ty
  | TOptional sp_ty
  | TUnique sp_ty
  | TVariant "sp_ty list"
  | TExpected sp_ty sp_ty
  | TTuple "sp_ty list"
  | TStruct u64 "sp_ty list"
  | TCompat sp_ty nat

text \<open>\<open>sp_config\<close>\<close>

definition DISABLE_TYPE_INFO :: u64 where "DISABLE_TYPE_INFO = 1"
definition ENABLE_TYPE_INFO :: u64 where "ENABLE_TYPE_INFO = 2"
definition DISABLE_ALL_META_INFO :: u64 where "DISABLE_ALL_META_INFO = 3"
definition ENCODING_WITH_VARINT :: u64 where "ENCODING_WITH_VARINT = 4"
definition USE_FAST_VARINT :: u64 where "USE_FAST_VARINT = 8"

definition fund_size :: "fund \<Rightarrow> nat" where
  "fund_size f = (case f of Int8 \<Rightarrow> 1 | Uint8 \<Rightarrow> 1 | Bool \<Rightarrow> 1 | Char8 \<Rightarrow> 1
     | Int16 \<Rightarrow> 2 | Uint16 \<Rightarrow> 2 | Char16 \<Rightarrow> 2
     | Int32 \<Rightarrow> 4 | Uint32 \<Rightarrow> 4 | Char32 \<Rightarrow> 4 | Float32 \<Rightarrow> 4
     | Int64 \<Rightarrow> 8 | Uint64 \<Rightarrow> 8 | Float64 \<Rightarrow> 8)"

definition fund_signed :: "fund \<Rightarrow> bool" where
  "fund_signed f \<longleftrightarrow> f \<in> {Int8, Int16, Int32, Int64}"

lemma fund_size_pos [simp]: "0 < fund_size f"
  by (cases f) (simp_all add: fund_size_def)

text \<open>
  \<open>varint_t<T, parent_tag>\<close>: the varint classes always, the plain 32 and 64 bit integers when
  they are direct members of a struct tagged \<open>ENCODING_WITH_VARINT\<close>.
\<close>

definition varint_kind :: "sp_ty \<Rightarrow> u64 \<Rightarrow> vkind option" where
  "varint_kind t tag = (case t of
       TVarint k \<Rightarrow> Some k
     | TFund f \<Rightarrow>
         if tag AND ENCODING_WITH_VARINT \<noteq> 0 then
           (case f of Int32 \<Rightarrow> Some VInt32 | Uint32 \<Rightarrow> Some VUint32
              | Int64 \<Rightarrow> Some VInt64 | Uint64 \<Rightarrow> Some VUint64 | _ \<Rightarrow> None)
         else None
     | _ \<Rightarrow> None)"

definition varint_t :: "sp_ty \<Rightarrow> u64 \<Rightarrow> bool" where
  "varint_t t tag \<longleftrightarrow> varint_kind t tag \<noteq> None"

lemma varint_kind_simps [simp]:
  "varint_kind TMono tag = None"
  "varint_kind (TVarint k) tag = Some k"
  "varint_kind (TArray t n) tag = None" "varint_kind (TString f) tag = None"
  "varint_kind (TSeq b t) tag = None" "varint_kind (TSet t) tag = None"
  "varint_kind (TMap t u) tag = None" "varint_kind (TOptional t) tag = None"
  "varint_kind (TUnique t) tag = None" "varint_kind (TVariant ts) tag = None"
  "varint_kind (TExpected t u) tag = None" "varint_kind (TTuple ts) tag = None"
  "varint_kind (TStruct cfg ts) tag = None" "varint_kind (TCompat t ver) tag = None"
  "varint_kind (TFund f) 0 = None"
  by (simp_all add: varint_kind_def)

section \<open>Triviality, sizes, paddings\<close>

text \<open>
  \<open>is_trivial_serializable<T, ignore_compatible, parent_tag>\<close>. Members of a struct are asked
  with the tag of the struct; array elements with the default tag.
\<close>

fun is_trivial_serializable :: "sp_ty \<Rightarrow> bool \<Rightarrow> u64 \<Rightarrow> bool"
  and all_trivial_serializable :: "sp_ty list \<Rightarrow> bool \<Rightarrow> u64 \<Rightarrow> bool" where
  "is_trivial_serializable (TFund f) ign tag = (varint_kind (TFund f) tag = None)"
| "is_trivial_serializable TMono ign tag = True"
| "is_trivial_serializable (TVarint k) ign tag = False"
| "is_trivial_serializable (TCompat t ver) ign tag = ign"
| "is_trivial_serializable (TArray t n) ign tag = is_trivial_serializable t ign 0"
| "is_trivial_serializable (TStruct cfg ts) ign tag = all_trivial_serializable ts ign cfg"
| "is_trivial_serializable _ ign tag = False"
| "all_trivial_serializable [] ign tag = True"
| "all_trivial_serializable (t # ts) ign tag =
     (is_trivial_serializable t ign tag \<and> all_trivial_serializable ts ign tag)"

text \<open>
  \<open>align::alignment_v<T>\<close> without attributes: the alignment of a fundamental type is its size,
  of a class the maximum over its members, compatible members counting as 0.
\<close>

fun ty_align :: "sp_ty \<Rightarrow> nat"
  and max_align :: "sp_ty list \<Rightarrow> nat" where
  "ty_align (TFund f) = fund_size f"
| "ty_align TMono = 1"
| "ty_align (TArray t n) = ty_align t"
| "ty_align (TStruct cfg ts) = max_align ts"
| "ty_align _ = 0"
| "max_align [] = 0"
| "max_align (t # ts) = max (ty_align t) (max_align ts)"

definition pad_to :: "nat \<Rightarrow> nat \<Rightarrow> nat" where
  "pad_to al offset = (if al = 0 \<or> offset mod al = 0 then 0 else al - offset mod al)"

text \<open>
  \<open>pad_before t offset\<close> is the padding of \<open>calculate_padding_size_impl\<close> in front of a
  member; \<open>min(pack_alignment - 1, ..)\<close> is the second operand, since every member's alignment
  is at most the pack alignment (the maximum over the members). \<open>ty_size\<close> is \<open>sizeof\<close> of a
  trivial type, \<open>members_end\<close> the offset behind the last member.
\<close>

fun ty_size :: "sp_ty \<Rightarrow> nat"
  and members_end :: "sp_ty list \<Rightarrow> nat \<Rightarrow> nat" where
  "ty_size (TFund f) = fund_size f"
| "ty_size TMono = 1"
| "ty_size (TArray t n) = n * ty_size t"
| "ty_size (TStruct cfg ts) =
     (let e = members_end ts 0 in e + pad_to (max_align ts) e)"
| "ty_size _ = 0"
| "members_end [] offset = offset"
| "members_end (t # ts) offset =
     members_end ts (offset + pad_to (ty_align t) offset + ty_size t)"

text \<open>
  \<open>padding_size<T>\<close>: the padding in front of each member and, last, behind all of them.
\<close>

fun paddings_from :: "nat \<Rightarrow> sp_ty list \<Rightarrow> nat \<Rightarrow> nat list" where
  "paddings_from al [] offset = [pad_to al offset]"
| "paddings_from al (t # ts) offset =
     pad_to (ty_align t) offset #
     paddings_from al ts (offset + pad_to (ty_align t) offset + ty_size t)"

definition calculate_padding_size :: "sp_ty list \<Rightarrow> nat list" where
  "calculate_padding_size ts = paddings_from (max_align ts) ts 0"

definition total_padding_size :: "sp_ty list \<Rightarrow> nat" where
  "total_padding_size ts = sum_list (calculate_padding_size ts)"

lemma length_paddings_from [simp, length_simps]:
  "length (paddings_from al ts offset) = Suc (length ts)"
  by (induction ts arbitrary: offset) simp_all

lemma length_calculate_padding_size [simp, length_simps]:
  "length (calculate_padding_size ts) = Suc (length ts)"
  by (simp add: calculate_padding_size_def)

lemma first_padding_0: "calculate_padding_size ts ! 0 = 0"
  by (cases ts) (simp_all add: calculate_padding_size_def pad_to_def)

lemma sum_paddings_from:
  "offset + sum_list (paddings_from al ts offset) + sum_list (map ty_size ts) =
     members_end ts offset + pad_to al (members_end ts offset)"
proof (induction ts arbitrary: offset)
  case Nil
  then show ?case by simp
next
  case (Cons t ts)
  show ?case
    using Cons [of "offset + pad_to (ty_align t) offset + ty_size t"] by simp
qed

lemma struct_size_padding:
  "ty_size (TStruct cfg ts) = sum_list (map ty_size ts) + total_padding_size ts"
  using sum_paddings_from [of 0 "max_align ts" ts]
  by (simp add: total_padding_size_def calculate_padding_size_def Let_def)

lemma pad_to_aligned: "0 < al \<Longrightarrow> (offset + pad_to al offset) mod al = 0"
proof -
  assume al: "0 < al"
  show ?thesis
  proof (cases "offset mod al = 0")
    case True
    then show ?thesis by (simp add: pad_to_def)
  next
    case False
    have "offset mod al + (al - offset mod al) = al"
      using al by (simp add: less_imp_le)
    then have "offset + (al - offset mod al) = offset div al * al + al"
      by (metis add.assoc div_mult_mod_eq)
    then have "(offset + (al - offset mod al)) mod al = 0" by simp
    with False al show ?thesis by (simp add: pad_to_def)
  qed
qed

lemma pad_to_less: "0 < al \<Longrightarrow> pad_to al offset < al"
  by (auto simp: pad_to_def)

section \<open>Type identifiers\<close>

datatype type_id =
    id_compatible | id_int32 | id_uint32 | id_int64 | id_uint64 | id_int8 | id_uint8
  | id_int16 | id_uint16 | id_int128 | id_uint128 | id_bool | id_char_8 | id_char_16
  | id_char_32 | id_w_char | id_float16 | id_float32 | id_float64 | id_float128
  | id_vint32 | id_vint64 | id_vuint32 | id_vuint64
  | id_fast_vint32 | id_fast_vint64 | id_fast_vuint32 | id_fast_vuint64
  | id_string | id_array | id_map_container | id_set_container | id_container | id_optional
  | id_variant | id_expected | id_bitset | id_polymorphic_unique_ptr
  | id_user_defined_type | id_monostate | id_circle_flag | id_type_end_flag_with_id
  | id_struct | id_type_end_flag

definition type_id_val :: "type_id \<Rightarrow> nat" where
  "type_id_val i = (case i of
       id_compatible \<Rightarrow> 0 | id_int32 \<Rightarrow> 1 | id_uint32 \<Rightarrow> 2 | id_int64 \<Rightarrow> 3 | id_uint64 \<Rightarrow> 4
     | id_int8 \<Rightarrow> 5 | id_uint8 \<Rightarrow> 6 | id_int16 \<Rightarrow> 7 | id_uint16 \<Rightarrow> 8
     | id_int128 \<Rightarrow> 9 | id_uint128 \<Rightarrow> 10 | id_bool \<Rightarrow> 11 | id_char_8 \<Rightarrow> 12 | id_char_16 \<Rightarrow> 13
     | id_char_32 \<Rightarrow> 14 | id_w_char \<Rightarrow> 15 | id_float16 \<Rightarrow> 16 | id_float32 \<Rightarrow> 17
     | id_float64 \<Rightarrow> 18 | id_float128 \<Rightarrow> 19
     | id_vint32 \<Rightarrow> 20 | id_vint64 \<Rightarrow> 21 | id_vuint32 \<Rightarrow> 22 | id_vuint64 \<Rightarrow> 23
     | id_fast_vint32 \<Rightarrow> 24 | id_fast_vint64 \<Rightarrow> 25 | id_fast_vuint32 \<Rightarrow> 26
     | id_fast_vuint64 \<Rightarrow> 27
     | id_string \<Rightarrow> 128 | id_array \<Rightarrow> 129 | id_map_container \<Rightarrow> 130 | id_set_container \<Rightarrow> 131
     | id_container \<Rightarrow> 132 | id_optional \<Rightarrow> 133 | id_variant \<Rightarrow> 134 | id_expected \<Rightarrow> 135
     | id_bitset \<Rightarrow> 136 | id_polymorphic_unique_ptr \<Rightarrow> 137
     | id_user_defined_type \<Rightarrow> 249 | id_monostate \<Rightarrow> 250 | id_circle_flag \<Rightarrow> 251
     | id_type_end_flag_with_id \<Rightarrow> 252 | id_struct \<Rightarrow> 253 | id_type_end_flag \<Rightarrow> 255)"

lemma type_id_val_inj: "type_id_val a = type_id_val b \<longleftrightarrow> a = b"
  by (cases a; cases b) (simp_all add: type_id_val_def)

lemma type_id_val_lt: "type_id_val a < 256"
  by (cases a) (simp_all add: type_id_val_def)

definition get_varint_type :: "vkind \<Rightarrow> u64 \<Rightarrow> type_id" where
  "get_varint_type k tag =
     (if is_enable_fast_varint_coding tag then
        (case k of VSint32 \<Rightarrow> id_fast_vint32 | VInt32 \<Rightarrow> id_fast_vint32
           | VSint64 \<Rightarrow> id_fast_vint64 | VInt64 \<Rightarrow> id_fast_vint64
           | VUint32 \<Rightarrow> id_fast_vuint32 | VUint64 \<Rightarrow> id_fast_vuint64)
      else
        (case k of VSint32 \<Rightarrow> id_vint32 | VInt32 \<Rightarrow> id_vint32
           | VSint64 \<Rightarrow> id_vint64 | VInt64 \<Rightarrow> id_vint64
           | VUint32 \<Rightarrow> id_vuint32 | VUint64 \<Rightarrow> id_vuint64))"

definition get_integral_type :: "fund \<Rightarrow> type_id" where
  "get_integral_type f = (case f of
       Int32 \<Rightarrow> id_int32 | Uint32 \<Rightarrow> id_uint32 | Int64 \<Rightarrow> id_int64 | Uint64 \<Rightarrow> id_uint64
     | Int8 \<Rightarrow> id_int8 | Uint8 \<Rightarrow> id_uint8 | Int16 \<Rightarrow> id_int16 | Uint16 \<Rightarrow> id_uint16
     | Char8 \<Rightarrow> id_char_8 | Char16 \<Rightarrow> id_char_16 | Char32 \<Rightarrow> id_char_32
     | Bool \<Rightarrow> id_bool | Float32 \<Rightarrow> id_float32 | Float64 \<Rightarrow> id_float64)"

definition get_type_id :: "sp_ty \<Rightarrow> u64 \<Rightarrow> type_id" where
  "get_type_id t tag =
     (case varint_kind t tag of
        Some k \<Rightarrow> get_varint_type k tag
      | None \<Rightarrow> (case t of
            TCompat _ _ \<Rightarrow> id_compatible
          | TFund f \<Rightarrow> get_integral_type f
          | TVarint k \<Rightarrow> get_varint_type k tag
          | TMono \<Rightarrow> id_monostate
          | TString _ \<Rightarrow> id_string
          | TArray _ _ \<Rightarrow> id_array
          | TMap _ _ \<Rightarrow> id_map_container
          | TSet _ \<Rightarrow> id_set_container
          | TSeq _ _ \<Rightarrow> id_container
          | TOptional _ \<Rightarrow> id_optional
          | TUnique _ \<Rightarrow> id_optional
          | TVariant _ \<Rightarrow> id_variant
          | TExpected _ _ \<Rightarrow> id_expected
          | TTuple _ \<Rightarrow> id_struct
          | TStruct _ _ \<Rightarrow> id_struct))"

section \<open>Type literals\<close>

text \<open>
  \<open>get_size_literal<size>\<close>: base-127 digits, least significant first, each digit plus 1 and the
  last one plus 129. The source spells out one to eight digits.
\<close>

fun get_size_literal :: "nat \<Rightarrow> bytes" where
  "get_size_literal sz =
     (if sz < 127 then [word_of_nat (sz + 129)]
      else word_of_nat (sz mod 127 + 1) # get_size_literal (sz div 127))"

declare get_size_literal.simps [simp del]

definition id_byte :: "type_id \<Rightarrow> byte" where
  "id_byte i = word_of_nat (type_id_val i)"

lemma id_byte_inj [simp]: "id_byte a = id_byte b \<longleftrightarrow> a = b"
proof
  assume "id_byte a = id_byte b"
  then have "unat (id_byte a) = unat (id_byte b)" by simp
  then show "a = b"
    using type_id_val_lt [of a] type_id_val_lt [of b]
    by (simp add: id_byte_def type_id_val_inj)
qed simp

text \<open>
  \<open>get_type_literal<Arg, ParentArgs...>\<close>; \<open>tag\<close> is the configuration of the immediate parent
  (\<open>get_parent_tag\<close>). Compatible members have an empty literal, so that a type and its
  extension by compatible members hash alike.
\<close>

fun get_type_literal :: "sp_ty \<Rightarrow> u64 \<Rightarrow> bytes"
  and get_types_literal_impl :: "sp_ty list \<Rightarrow> u64 \<Rightarrow> bytes" where
  "get_type_literal (TFund f) tag = [id_byte (get_type_id (TFund f) tag)]"
| "get_type_literal (TVarint k) tag = [id_byte (get_type_id (TVarint k) tag)]"
| "get_type_literal TMono tag = [id_byte id_monostate]"
| "get_type_literal (TArray t n) tag =
     id_byte id_array # get_type_literal t 0 @ get_size_literal n"
| "get_type_literal (TString f) tag = [id_byte id_string, id_byte (get_type_id (TFund f) 0)]"
| "get_type_literal (TSeq b t) tag = id_byte id_container # get_type_literal t 0"
| "get_type_literal (TSet t) tag = id_byte id_set_container # get_type_literal t 0"
| "get_type_literal (TMap k v) tag =
     id_byte id_map_container # get_type_literal k 0 @ get_type_literal v 0"
| "get_type_literal (TOptional t) tag = id_byte id_optional # get_type_literal t 0"
| "get_type_literal (TUnique t) tag = id_byte id_optional # get_type_literal t 0"
| "get_type_literal (TVariant ts) tag =
     id_byte id_variant # get_types_literal_impl ts 0 @ [id_byte id_type_end_flag]"
| "get_type_literal (TExpected t e) tag =
     id_byte id_expected # get_type_literal t 0 @ get_type_literal e 0"
| "get_type_literal (TTuple ts) tag =
     id_byte id_struct # get_types_literal_impl ts 0 @ [id_byte id_type_end_flag]"
| "get_type_literal (TStruct cfg ts) tag =
     id_byte id_struct # get_types_literal_impl ts cfg @
     (if all_trivial_serializable ts True cfg
      then get_size_literal (max_align ts) @ get_size_literal (max_align ts) else []) @
     [id_byte id_type_end_flag]"
| "get_type_literal (TCompat t ver) tag = []"
| "get_types_literal_impl [] tag = []"
| "get_types_literal_impl (t # ts) tag =
     get_type_literal t tag @ get_types_literal_impl ts tag"

text \<open>\<open>get_types_literal<T, get_types<T>...>\<close>: the literal of a root type.\<close>

definition get_types_literal :: "sp_ty \<Rightarrow> bytes" where
  "get_types_literal t = get_type_literal t 0"

lemma get_size_literal_cases:
  "sz < 127 \<Longrightarrow> get_size_literal sz = [word_of_nat (sz + 129)]"
  "127 \<le> sz \<Longrightarrow> get_size_literal sz =
     word_of_nat (sz mod 127 + 1) # get_size_literal (sz div 127)"
  by (simp_all add: get_size_literal.simps [of sz])

lemma byte_of_nat_eq_iff:
  "m < 256 \<Longrightarrow> n < 256 \<Longrightarrow> (word_of_nat m :: byte) = word_of_nat n \<longleftrightarrow> m = n"
  by (metis mod_less unat_byte_of_nat)

lemma last_digit_eq:
  "a < 127 \<Longrightarrow> b < 127 \<Longrightarrow> (word_of_nat (a + 129) :: byte) = word_of_nat (b + 129) \<longleftrightarrow> a = b"
  using byte_of_nat_eq_iff [of "a + 129" "b + 129"] by linarith

lemma digit_eq:
  "(word_of_nat (a mod 127 + 1) :: byte) = word_of_nat (b mod 127 + 1) \<longleftrightarrow> a mod 127 = b mod 127"
  using byte_of_nat_eq_iff [of "a mod 127 + 1" "b mod 127 + 1"]
    mod_less_divisor [of 127 a] mod_less_divisor [of 127 b] by linarith

lemma last_digit_neq_digit:
  "a < 127 \<Longrightarrow> (word_of_nat (a + 129) :: byte) \<noteq> word_of_nat (b mod 127 + 1)"
  using byte_of_nat_eq_iff [of "a + 129" "b mod 127 + 1"] mod_less_divisor [of 127 b]
  by linarith

text \<open>
  The size literals form a prefix code: from the concatenation of size literals
  with anything behind them, the sizes and the rest can be recovered, so no two
  array lengths or alignments can be confused inside a type literal.
\<close>
theorem size_literal_prefix_code:
  "get_size_literal a @ x = get_size_literal b @ y \<longleftrightarrow> a = b \<and> x = y"
proof (induction a arbitrary: b rule: get_size_literal.induct)
  case (1 a)
  note lits = get_size_literal_cases append_Cons append_Nil list.inject
  show ?case
  proof (cases "a < 127"; cases "b < 127")
    assume "a < 127" "b < 127"
    then show ?thesis by (simp only: lits last_digit_eq)
  next
    assume ab: "a < 127" "\<not> b < 127"
    then have "a \<noteq> b" by blast
    with ab show ?thesis
      using last_digit_neq_digit [OF ab(1), of b] by (simp only: lits not_less) blast
  next
    assume ab: "\<not> a < 127" "b < 127"
    then have "a \<noteq> b" by blast
    with ab show ?thesis
      using last_digit_neq_digit [OF ab(2), of a] by (simp only: lits not_less) metis
  next
    assume ab: "\<not> a < 127" "\<not> b < 127"
    have "a = b \<longleftrightarrow> a mod 127 = b mod 127 \<and> a div 127 = b div 127"
      by (metis div_mult_mod_eq)
    then show ?thesis
      using ab "1.IH" [OF ab(1), of "b div 127"]
      by (simp only: lits not_less digit_eq) blast
  qed
qed

lemma insert_compat_literal:
  "get_type_literal (TTuple (xs @ TCompat t ver # ys)) tag = get_type_literal (TTuple (xs @ ys)) tag \<and>
   get_type_literal (TStruct cfg (xs @ TCompat t ver # ys)) tag =
     get_type_literal (TStruct cfg (xs @ ys)) tag"
proof -
  have lit: "get_types_literal_impl (xs @ TCompat t ver # ys) c = get_types_literal_impl (xs @ ys) c" for c
    by (induction xs) simp_all
  have triv: "all_trivial_serializable (xs @ TCompat t ver # ys) True c =
      all_trivial_serializable (xs @ ys) True c" for c
    by (induction xs) simp_all
  have al: "max_align (xs @ TCompat t ver # ys) = max_align (xs @ ys)"
    by (induction xs) simp_all
  show ?thesis by (simp add: lit triv al)
qed

text \<open>
  Compatible members are invisible in the type literal: inserting a
  \<open>compatible\<close> member anywhere in a struct or tuple changes neither the literal nor,
  with it, the type hash that guards the wire format.
\<close>
theorem compatible_member_invisible:
  "get_type_literal (TTuple (xs @ TCompat t ver # ys)) tag = get_type_literal (TTuple (xs @ ys)) tag \<and>
   get_type_literal (TStruct cfg (xs @ TCompat t ver # ys)) tag =
     get_type_literal (TStruct cfg (xs @ ys)) tag"
  by (rule insert_compat_literal)

end
