(* ===== verification/SpFastVarint.thy ===== *)
theory SpFastVarint
  imports SpTypes
begin

text \<open>
  The block encoding of the integer members of a struct tagged \<open>USE_FAST_VARINT\<close>: a bit vector
  that tells which members are nonzero and, in its last two bits, the byte width shared by
  all of them, followed by the nonzero members at that width (\<open>calculate_size.hpp\<close>,
  \<open>packer.hpp\<close>, \<open>unpacker.hpp\<close>).

  The parameter pack \<open>items...\<close> is the list of those members for which \<open>varint_t\<close> holds, in
  order, as pairs of kind and value; every function of the source skips the other members.
\<close>

type_synonym fast_member = "vkind \<times> int"

section \<open>Counting and widths\<close>

definition calculate_fast_varint_count :: "fast_member list \<Rightarrow> nat" where
  "calculate_fast_varint_count ms = length ms"

definition has_signed_varint :: "fast_member list \<Rightarrow> bool" where
  "has_signed_varint ms = list_ex (\<lambda>(k, v). vsigned k) ms"

definition has_unsigned_varint :: "fast_member list \<Rightarrow> bool" where
  "has_unsigned_varint ms = list_ex (\<lambda>(k, v). \<not> vsigned k) ms"

definition has_64bits_varint :: "fast_member list \<Rightarrow> bool" where
  "has_64bits_varint ms = list_ex (\<lambda>(k, v). vwidth k = 8) ms"

definition bitset_size :: "nat \<Rightarrow> nat" where
  "bitset_size cnt = ((cnt + 2) + 7) div 8"

text \<open>\<open>get_fast_varint_width_from_max\<close>: the width code 0..3 stands for 1, 2, 4, 8 bytes.\<close>

definition width_unsigned :: "int \<Rightarrow> nat" where
  "width_unsigned m = (if m \<le> 255 then 0 else if m \<le> 65535 then 1
     else if m \<le> 4294967295 then 2 else 3)"

definition width_signed :: "int \<Rightarrow> nat" where
  "width_signed m = (if m \<le> 127 then 0 else if m \<le> 32767 then 1
     else if m \<le> 2147483647 then 2 else 3)"

definition get_fast_varint_width_from_max :: "fast_member list \<Rightarrow> int \<Rightarrow> int \<Rightarrow> nat" where
  "get_fast_varint_width_from_max ms unsigned_max signed_max =
     (let wu = (if has_unsigned_varint ms then width_unsigned unsigned_max else 0);
          ws = (if has_signed_varint ms then width_signed signed_max else 0)
      in if has_signed_varint ms \<and> has_unsigned_varint ms then max wu ws
         else if has_signed_varint ms then ws
         else if has_unsigned_varint ms then wu else 0)"

text \<open>The magnitude a signed value contributes to \<open>signed_max\<close>.\<close>

definition signed_mag :: "int \<Rightarrow> int" where
  "signed_mag v = (if v > 0 then v else - (v + 1))"

section \<open>Size\<close>

text \<open>
  \<open>get_fast_varint_width_impl\<close> of \<open>calculate_size.hpp\<close>; the state is
  \<open>(non_zero_cnt32, non_zero_cnt64, unsigned_max, signed_max)\<close>.
\<close>

definition size_width_impl ::
  "nat \<times> nat \<times> int \<times> int \<Rightarrow> fast_member \<Rightarrow> nat \<times> nat \<times> int \<times> int" where
  "size_width_impl = (\<lambda>(c32, c64, um, sm) (k, v).
     if v \<noteq> 0 then
       (if vwidth k = 4 then Suc c32 else c32,
        if vwidth k = 8 then Suc c64 else c64,
        if vsigned k then um else max um v,
        if vsigned k then max sm (signed_mag v) else sm)
     else (c32, c64, um, sm))"

definition fast_varint_payload :: "fast_member list \<Rightarrow> nat" where
  "fast_varint_payload ms =
     (let (c32, c64, um, sm) = foldl size_width_impl (0, 0, 0, 0) ms;
          width = 2 ^ get_fast_varint_width_from_max ms um sm
      in width * c64 + (if width > 4 then 4 else width) * c32)"

definition calculate_fast_varint_size :: "fast_member list \<Rightarrow> nat" where
  "calculate_fast_varint_size ms =
     (let cnt = calculate_fast_varint_count ms
      in if cnt = 0 then 0 else fast_varint_payload ms + bitset_size cnt)"

section \<open>Packing\<close>

text \<open>\<open>vec[i / 8] |= b << (i % 8)\<close> and the test of that bit.\<close>

definition vec_or :: "bytes \<Rightarrow> nat \<Rightarrow> bool \<Rightarrow> bytes" where
  "vec_or vec i b = vec[i div 8 := vec ! (i div 8) OR push_bit (i mod 8) (of_bool b)]"

definition vec_test :: "bytes \<Rightarrow> nat \<Rightarrow> bool" where
  "vec_test vec i \<longleftrightarrow> vec ! (i div 8) AND push_bit (i mod 8) 1 \<noteq> 0"

text \<open>
  \<open>get_fast_varint_width_impl\<close> of \<open>packer.hpp\<close>; the state is
  \<open>(vec, i, unsigned_max, signed_max)\<close>.
\<close>

definition pack_width_impl ::
  "bytes \<times> nat \<times> int \<times> int \<Rightarrow> fast_member \<Rightarrow> bytes \<times> nat \<times> int \<times> int" where
  "pack_width_impl = (\<lambda>(vec, i, um, sm) (k, v).
     if v \<noteq> 0 then
       (vec_or vec i True, Suc i,
        if vsigned k then um else max um v,
        if vsigned k then max sm (signed_mag v) else sm)
     else (vec, Suc i, um, sm))"

text \<open>The low-order bytes of the two's complement image of an integer.\<close>

definition int_bytes :: "nat \<Rightarrow> int \<Rightarrow> bytes" where
  "int_bytes n v = le_bytes n (nat (v mod 2 ^ (8 * n)))"

definition serialize_one_fast_varint :: "nat \<Rightarrow> fast_member \<Rightarrow> bytes" where
  "serialize_one_fast_varint sz = (\<lambda>(k, v). if v \<noteq> 0 then int_bytes (min sz (vwidth k)) v else [])"

definition serialize_fast_varint :: "fast_member list \<Rightarrow> bytes" where
  "serialize_fast_varint ms =
     (let cnt = calculate_fast_varint_count ms
      in if cnt = 0 then [] else
        let (vec, i, um, sm) = foldl pack_width_impl (replicate (bitset_size cnt) 0, 0, 0, 0) ms;
            width = get_fast_varint_width_from_max ms um sm;
            vec = vec_or vec cnt (odd width);
            vec = vec_or vec (cnt + 1) (width div 2 mod 2 = 1)
        in vec @ concat (map (serialize_one_fast_varint (2 ^ width)) ms))"

section \<open>Unpacking\<close>

text \<open>
  \<open>deserialize_one_fast_varint\<close>: a member whose bit is clear is left as it is. An unsigned
  target is zeroed and its low bytes are read; a signed one is read at the width of the
  block and sign-extended by the assignment.
\<close>

definition int_of_bytes :: "bool \<Rightarrow> bytes \<Rightarrow> int" where
  "int_of_bytes sg bs =
     (let u = int (le_nat bs)
      in if sg \<and> 2 * u \<ge> 2 ^ (8 * length bs) then u - 2 ^ (8 * length bs) else u)"

definition deserialize_one_fast_varint ::
  "bool \<Rightarrow> nat \<Rightarrow> bytes \<Rightarrow> nat \<Rightarrow> fast_member \<Rightarrow> memory_reader \<Rightarrow> errc \<times> int \<times> memory_reader" where
  "deserialize_one_fast_varint no_skip width vec index = (\<lambda>(k, item) r.
     let real_width = min width (vwidth k) in
     if \<not> vec_test vec index then (Ok, item, r)
     else if \<not> no_skip then
       (case rd_ignore real_width r of
          None \<Rightarrow> (NoBufferSpace, item, r) | Some r' \<Rightarrow> (Ok, item, r'))
     else
       (case rd_read real_width r of
          None \<Rightarrow> (NoBufferSpace, if vsigned k then item else 0, r)
        | Some (bs, r') \<Rightarrow> (Ok, int_of_bytes (vsigned k) bs, r')))"

primrec deserialize_fast_varint_helper ::
  "bool \<Rightarrow> nat \<Rightarrow> bytes \<Rightarrow> nat \<Rightarrow> fast_member list \<Rightarrow> memory_reader \<Rightarrow>
     errc \<times> int list \<times> memory_reader" where
  "deserialize_fast_varint_helper no_skip width vec i [] r = (Ok, [], r)"
| "deserialize_fast_varint_helper no_skip width vec i (m # ms) r =
     (let (ec, v, r') = deserialize_one_fast_varint no_skip width vec i m r
      in if is_err ec then (ec, v # map snd ms, r')
         else
           let (ec', vs, r'') = deserialize_fast_varint_helper no_skip width vec (Suc i) ms r'
           in (ec', v # vs, r''))"

definition deserialize_fast_varint ::
  "bool \<Rightarrow> fast_member list \<Rightarrow> memory_reader \<Rightarrow> errc \<times> int list \<times> memory_reader" where
  "deserialize_fast_varint no_skip ms r =
     (let cnt = calculate_fast_varint_count ms
      in case rd_read (bitset_size cnt) r of
           None \<Rightarrow> (NoBufferSpace, map snd ms, r)
         | Some (vec, r') \<Rightarrow>
             let width = of_bool (vec_test vec cnt) + of_bool (vec_test vec (cnt + 1)) * 2
             in if width = 3 \<and> \<not> has_64bits_varint ms then (InvalidBuffer, map snd ms, r')
                else deserialize_fast_varint_helper no_skip (2 ^ width) vec 0 ms r')"


section \<open>The two folds\<close>

primrec marks :: "bytes \<Rightarrow> nat \<Rightarrow> fast_member list \<Rightarrow> bytes" where
  "marks vec i [] = vec"
| "marks vec i (m # ms) = marks (if snd m \<noteq> 0 then vec_or vec i True else vec) (Suc i) ms"

primrec umax :: "int \<Rightarrow> fast_member list \<Rightarrow> int" where
  "umax a [] = a"
| "umax a (m # ms) = umax (if snd m \<noteq> 0 \<and> \<not> vsigned (fst m) then max a (snd m) else a) ms"

primrec smax :: "int \<Rightarrow> fast_member list \<Rightarrow> int" where
  "smax a [] = a"
| "smax a (m # ms) =
     smax (if snd m \<noteq> 0 \<and> vsigned (fst m) then max a (signed_mag (snd m)) else a) ms"

definition cnt_width :: "nat \<Rightarrow> fast_member list \<Rightarrow> nat" where
  "cnt_width w ms = length (filter (\<lambda>(k, v). v \<noteq> 0 \<and> vwidth k = w) ms)"

lemma foldl_pack_width:
  "foldl pack_width_impl (vec, i, um, sm) ms =
     (marks vec i ms, i + length ms, umax um ms, smax sm ms)"
  by (induction ms arbitrary: vec i um sm) (auto simp: pack_width_impl_def)

lemma foldl_size_width:
  "foldl size_width_impl (c32, c64, um, sm) ms =
     (c32 + cnt_width 4 ms, c64 + cnt_width 8 ms, umax um ms, smax sm ms)"
  by (induction ms arbitrary: c32 c64 um sm) (auto simp: size_width_impl_def cnt_width_def split: if_splits)

lemma umax_ge: "a \<le> umax a ms"
proof (induction ms arbitrary: a)
  case (Cons m ms)
  show ?case
    using Cons [of a] Cons [of "max a (snd m)"] by (cases "snd m \<noteq> 0 \<and> \<not> vsigned (fst m)") auto
qed simp

lemma smax_ge: "a \<le> smax a ms"
proof (induction ms arbitrary: a)
  case (Cons m ms)
  show ?case
    using Cons [of a] Cons [of "max a (signed_mag (snd m))"]
    by (cases "snd m \<noteq> 0 \<and> vsigned (fst m)") auto
qed simp

lemma umax_member:
  "(k, v) \<in> set ms \<Longrightarrow> v \<noteq> 0 \<Longrightarrow> \<not> vsigned k \<Longrightarrow> v \<le> umax a ms"
proof (induction ms arbitrary: a)
  case (Cons m ms)
  show ?case
  proof (cases "m = (k, v)")
    case True
    with Cons.prems show ?thesis using umax_ge [of "max a v" ms] by simp
  next
    case False
    with Cons show ?thesis by simp
  qed
qed simp

lemma smax_member:
  "(k, v) \<in> set ms \<Longrightarrow> v \<noteq> 0 \<Longrightarrow> vsigned k \<Longrightarrow> signed_mag v \<le> smax a ms"
proof (induction ms arbitrary: a)
  case (Cons m ms)
  show ?case
  proof (cases "m = (k, v)")
    case True
    with Cons.prems show ?thesis using smax_ge [of "max a (signed_mag v)" ms] by simp
  next
    case False
    with Cons show ?thesis by simp
  qed
qed simp

lemma umax_less:
  "a < b \<Longrightarrow> (\<And>k v. (k, v) \<in> set ms \<Longrightarrow> \<not> vsigned k \<Longrightarrow> v < b) \<Longrightarrow> umax a ms < b"
proof (induction ms arbitrary: a)
  case (Cons m ms)
  show ?case
    using Cons.prems Cons.IH [of a] Cons.IH [of "max a (snd m)"] by (cases m) auto
qed simp

lemma smax_less:
  "a < b \<Longrightarrow> (\<And>k v. (k, v) \<in> set ms \<Longrightarrow> vsigned k \<Longrightarrow> signed_mag v < b) \<Longrightarrow> smax a ms < b"
proof (induction ms arbitrary: a)
  case (Cons m ms)
  show ?case
    using Cons.prems Cons.IH [of a] Cons.IH [of "max a (signed_mag (snd m))"] by (cases m) auto
qed simp

section \<open>The shared width suffices\<close>

definition width_code :: "fast_member list \<Rightarrow> nat" where
  "width_code ms = get_fast_varint_width_from_max ms (umax 0 ms) (smax 0 ms)"

definition fits :: "bool \<Rightarrow> nat \<Rightarrow> int \<Rightarrow> bool" where
  "fits sg n v = (if sg then - (2 ^ (8 * n - 1)) \<le> v \<and> v < 2 ^ (8 * n - 1)
     else 0 \<le> v \<and> v < 2 ^ (8 * n))"

lemma vwidth_cases: "vwidth k = 4 \<or> vwidth k = 8"
  by (cases k) (simp_all add: vwidth_def)

lemma width_code_le: "width_code ms \<le> 3"
  by (simp add: width_code_def get_fast_varint_width_from_max_def width_unsigned_def
      width_signed_def Let_def)

lemma code_cases: "w \<le> 3 \<Longrightarrow> w = 0 \<or> w = 1 \<or> w = 2 \<or> w = (3 :: nat)"
  by linarith

lemma width_code_ge:
  "has_unsigned_varint ms \<Longrightarrow> width_unsigned (umax 0 ms) \<le> width_code ms"
  "has_signed_varint ms \<Longrightarrow> width_signed (smax 0 ms) \<le> width_code ms"
  by (simp_all add: width_code_def get_fast_varint_width_from_max_def Let_def)

lemma width_unsigned_fits:
  "width_unsigned m \<le> w \<Longrightarrow> w \<le> 3 \<Longrightarrow> m < 2 ^ 64 \<Longrightarrow> m < 2 ^ (8 * 2 ^ w)"
  using code_cases [of w] by (auto simp: width_unsigned_def split: if_splits)

lemma width_signed_fits:
  "width_signed m \<le> w \<Longrightarrow> w \<le> 3 \<Longrightarrow> m < 2 ^ 63 \<Longrightarrow> m < 2 ^ (8 * 2 ^ w - 1)"
  using code_cases [of w] by (auto simp: width_signed_def split: if_splits)

lemma signed_mag_range:
  assumes "signed_mag v < 2 ^ n"
  shows "- (2 ^ n) \<le> v \<and> v < (2 :: int) ^ n"
proof (cases "0 < v")
  case True
  then show ?thesis using assms by (simp add: signed_mag_def)
next
  case False
  have "(0 :: int) < 2 ^ n" by simp
  with False have "v < 2 ^ n" by linarith
  with False show ?thesis using assms by (simp add: signed_mag_def)
qed

lemma vrange_mag: "vrange k v \<Longrightarrow> vsigned k \<Longrightarrow> signed_mag v < 2 ^ (8 * vwidth k - 1)"
  by (auto simp: vrange_def signed_mag_def)

lemma fits_min:
  assumes "(k, v) \<in> set ms" "v \<noteq> 0" and r: "\<forall>(k, v) \<in> set ms. vrange k v"
  shows "fits (vsigned k) (min (2 ^ width_code ms) (vwidth k)) v"
proof -
  have vr: "vrange k v" using assms by blast
  have own: "fits (vsigned k) (vwidth k) v"
    using vr by (simp add: fits_def vrange_def)
  have "fits (vsigned k) (2 ^ width_code ms) v"
  proof (cases "vsigned k")
    case True
    have "has_signed_varint ms"
      using assms(1) True by (auto simp: has_signed_varint_def list_ex_iff)
    then have w: "width_signed (smax 0 ms) \<le> width_code ms" by (rule width_code_ge)
    have "smax 0 ms < 2 ^ 63"
    proof (rule smax_less)
      show "signed_mag y < 2 ^ 63" if "(x, y) \<in> set ms" "vsigned x" for x y
        using vrange_mag [of x y] vwidth_cases [of x] r that by auto
    qed simp
    then have "smax 0 ms < 2 ^ (8 * 2 ^ width_code ms - 1)"
      by (rule width_signed_fits [OF w width_code_le])
    then have "signed_mag v < 2 ^ (8 * 2 ^ width_code ms - 1)"
      using smax_member [OF assms(1,2) True, of 0] by (rule le_less_trans [rotated])
    with True show ?thesis using signed_mag_range unfolding fits_def by simp
  next
    case False
    have "has_unsigned_varint ms"
      using assms(1) False by (auto simp: has_unsigned_varint_def list_ex_iff)
    then have w: "width_unsigned (umax 0 ms) \<le> width_code ms" by (rule width_code_ge)
    have "umax 0 ms < 2 ^ 64"
    proof (rule umax_less)
      show "y < 2 ^ 64" if "(x, y) \<in> set ms" "\<not> vsigned x" for x y
        using vwidth_cases [of x] r that by (auto simp: vrange_def)
    qed simp
    then have "umax 0 ms < 2 ^ (8 * 2 ^ width_code ms)"
      by (rule width_unsigned_fits [OF w width_code_le])
    then have "v < 2 ^ (8 * 2 ^ width_code ms)"
      using umax_member [OF assms(1,2) False, of 0] by (rule le_less_trans [rotated])
    with False vr show ?thesis by (simp add: fits_def vrange_def)
  qed
  with own show ?thesis by (simp add: min_def)
qed

lemma width_code_3_has_64:
  assumes "\<forall>(k, v) \<in> set ms. vrange k v" and "width_code ms = 3"
  shows "has_64bits_varint ms"
proof (rule ccontr)
  assume no: "\<not> has_64bits_varint ms"
  then have w4: "vwidth k = 4" if "(k, v) \<in> set ms" for k v
    using that vwidth_cases [of k] by (auto simp: has_64bits_varint_def list_ex_iff)
  have "smax 0 ms < 2 ^ 31"
  proof (rule smax_less)
    show "signed_mag y < 2 ^ 31" if "(x, y) \<in> set ms" "vsigned x" for x y
      using vrange_mag [of x y] w4 [OF that(1)] assms(1) that by auto
  qed simp
  moreover have "umax 0 ms < 2 ^ 32"
  proof (rule umax_less)
    show "y < 2 ^ 32" if "(x, y) \<in> set ms" "\<not> vsigned x" for x y
      using w4 [OF that(1)] assms(1) that by (auto simp: vrange_def)
  qed simp
  ultimately have "width_code ms \<le> 2"
    by (simp add: width_code_def get_fast_varint_width_from_max_def width_unsigned_def
        width_signed_def Let_def)
  with assms(2) show False by simp
qed


section \<open>Integers of a given width\<close>

lemma length_int_bytes [simp, length_simps]: "length (int_bytes n v) = n"
  by (simp add: int_bytes_def)

lemma le_nat_int_bytes: "int (le_nat (int_bytes n v)) = v mod 2 ^ (8 * n)"
proof -
  have "(256 :: nat) ^ n = 2 ^ (8 * n)" by (simp add: power_mult)
  moreover have "nat (v mod 2 ^ (8 * n)) < 2 ^ (8 * n)" by (simp add: nat_less_iff)
  ultimately show ?thesis by (simp add: int_bytes_def le_nat_le_bytes_id)
qed

lemma double_power: "0 < n \<Longrightarrow> (2 :: int) ^ (8 * n) = 2 * 2 ^ (8 * n - 1)"
proof -
  assume "0 < n"
  then have "8 * n = Suc (8 * n - 1)" by simp
  then show ?thesis by (metis power_Suc)
qed

lemma int_of_int_bytes [codec_simps]:
  assumes "fits sg n v" and "0 < n"
  shows "int_of_bytes sg (int_bytes n v) = v"
proof (cases "sg \<and> v < 0")
  case False
  have "v < 2 ^ (8 * n - 1)" if sg using assms(1) that by (simp add: fits_def)
  moreover have "(2 :: int) ^ (8 * n) = 2 * 2 ^ (8 * n - 1)"
    by (rule double_power) (rule assms(2))
  moreover have "0 \<le> v" using assms False by (auto simp: fits_def)
  moreover have "v < 2 ^ (8 * n)"
  proof (cases sg)
    case True
    have "(0 :: int) < 2 ^ (8 * n - 1)" by simp
    with True show ?thesis using calculation(1,2) by linarith
  next
    case False
    with assms(1) show ?thesis by (simp add: fits_def)
  qed
  ultimately show ?thesis
    by (auto simp: int_of_bytes_def Let_def le_nat_int_bytes mod_pos_pos_trivial)
next
  case True
  have two: "(2 :: int) ^ (8 * n) = 2 * 2 ^ (8 * n - 1)"
    by (rule double_power) (rule assms(2))
  have v: "- (2 ^ (8 * n - 1)) \<le> v" "v < 0" using assms(1) True by (simp_all add: fits_def)
  have "v mod 2 ^ (8 * n) = (v + 2 ^ (8 * n)) mod 2 ^ (8 * n)" by simp
  also have "\<dots> = v + 2 ^ (8 * n)"
    by (rule mod_pos_pos_trivial) (use v two in linarith)+
  finally have "v mod 2 ^ (8 * n) = v + 2 ^ (8 * n)" .
  moreover have "2 * (v + 2 ^ (8 * n)) \<ge> 2 ^ (8 * n)"
  proof -
    have "P \<ge> - a \<Longrightarrow> 2 * a \<le> 2 * (P + 2 * a)" for a P :: int by presburger
    from this [OF v(1)] show ?thesis unfolding two .
  qed
  ultimately show ?thesis
    using True by (simp add: int_of_bytes_def Let_def le_nat_int_bytes)
qed

section \<open>The bit vector\<close>

lemma length_vec_or [simp, length_simps]: "length (vec_or vec i b) = length vec"
  by (simp add: vec_or_def)

lemma vec_test_bit: "i < 8 * length vec \<Longrightarrow> vec_test vec i = bit (vec ! (i div 8)) (i mod 8)"
proof -
  have "(w AND push_bit k 1 \<noteq> 0) = bit w k" if "k < 8" for w :: byte and k
  proof -
    have "w AND push_bit k 1 = (if bit w k then push_bit k 1 else 0)"
      by (rule bit_word_eqI) (auto simp: bit_simps)
    moreover have "push_bit k 1 \<noteq> (0 :: byte)"
    proof
      assume "push_bit k 1 = (0 :: byte)"
      moreover have "bit (push_bit k 1 :: byte) k"
        using that by (simp only: bit_push_bit_iff possible_bit_word) simp
      ultimately show False by (simp only: bit_0_eq bot_apply) simp
    qed
    ultimately show ?thesis by simp
  qed
  then show "i < 8 * length vec \<Longrightarrow> vec_test vec i = bit (vec ! (i div 8)) (i mod 8)"
    by (simp add: vec_test_def)
qed

lemma vec_test_or:
  assumes "i < 8 * length vec" "j < 8 * length vec"
  shows "vec_test (vec_or vec i b) j \<longleftrightarrow> vec_test vec j \<or> (j = i \<and> b)"
proof -
  have pb: "bit (push_bit k (of_bool b) :: byte) m \<longleftrightarrow> m = k \<and> b" if "m < 8" for k m
    using that by (auto simp: bit_push_bit_iff bit_of_bool_iff)
  have ij: "j div 8 = i div 8 \<and> j mod 8 = i mod 8 \<longleftrightarrow> j = i"
    by (metis div_mult_mod_eq)
  have "i div 8 < length vec" "j div 8 < length vec" using assms by simp_all
  then show ?thesis
    using assms ij
    by (auto simp: vec_test_bit vec_or_def nth_list_update bit_or_iff pb)
qed

lemma length_marks [simp]: "length (marks vec i ms) = length vec"
  by (induction ms arbitrary: vec i) simp_all

lemma vec_test_marks:
  assumes "i + length ms \<le> 8 * length vec" "j < 8 * length vec"
  shows "vec_test (marks vec i ms) j \<longleftrightarrow>
    vec_test vec j \<or> (i \<le> j \<and> j < i + length ms \<and> snd (ms ! (j - i)) \<noteq> 0)"
  using assms
proof (induction ms arbitrary: vec i)
  case (Cons m ms)
  have "vec_test (marks vec i (m # ms)) j \<longleftrightarrow>
      (vec_test vec j \<or> (j = i \<and> snd m \<noteq> 0)) \<or>
      (Suc i \<le> j \<and> j < Suc i + length ms \<and> snd (ms ! (j - Suc i)) \<noteq> 0)"
    using Cons.IH [of "Suc i"] Cons.prems by (auto simp: vec_test_or)
  also have "\<dots> \<longleftrightarrow> vec_test vec j \<or>
      (i \<le> j \<and> j < i + length (m # ms) \<and> snd ((m # ms) ! (j - i)) \<noteq> 0)"
    by (cases "j = i") (auto simp: nth_Cons' Suc_le_eq)
  finally show ?case .
qed auto

lemma vec_test_zeros: "j < 8 * n \<Longrightarrow> \<not> vec_test (replicate n 0) j"
  by (simp add: vec_test_bit)

definition fast_vec :: "fast_member list \<Rightarrow> bytes" where
  "fast_vec ms =
     (let cnt = length ms; w = width_code ms;
          vec = vec_or (marks (replicate (bitset_size cnt) 0) 0 ms) cnt (odd w)
      in vec_or vec (cnt + 1) (w div 2 mod 2 = 1))"

lemma length_fast_vec [simp]: "length (fast_vec ms) = bitset_size (length ms)"
  by (simp add: fast_vec_def Let_def)

lemma bitset_size_enough: "cnt + 2 \<le> 8 * bitset_size cnt"
  by (simp add: bitset_size_def)

lemma vec_test_fast_vec:
  "j < length ms \<Longrightarrow> vec_test (fast_vec ms) j \<longleftrightarrow> snd (ms ! j) \<noteq> 0"
  "vec_test (fast_vec ms) (length ms) \<longleftrightarrow> odd (width_code ms)"
  "vec_test (fast_vec ms) (Suc (length ms)) \<longleftrightarrow> width_code ms div 2 mod 2 = 1"
  using bitset_size_enough [of "length ms"]
  by (simp_all add: fast_vec_def Let_def vec_test_or vec_test_marks vec_test_zeros)

lemma serialize_fast_varint_eq:
  "ms \<noteq> [] \<Longrightarrow> serialize_fast_varint ms =
     fast_vec ms @ concat (map (serialize_one_fast_varint (2 ^ width_code ms)) ms)"
  by (simp add: serialize_fast_varint_def calculate_fast_varint_count_def foldl_pack_width
      fast_vec_def width_code_def Let_def)


section \<open>Reading a block back\<close>

lemma real_width_pos: "0 < min (2 ^ w) (vwidth k)"
  using vwidth_cases [of k] by auto

lemma read_one_fast_varint:
  assumes "j < length ms" "ms ! j = (k, v)" and r: "\<forall>(k, v) \<in> set ms. vrange k v"
    and "rest r = serialize_one_fast_varint (2 ^ width_code ms) (k, v) @ sfx"
  shows "deserialize_one_fast_varint True (2 ^ width_code ms) (fast_vec ms) j (k, t) r =
    (Ok, if v = 0 then t else v,
     advance (length (serialize_one_fast_varint (2 ^ width_code ms) (k, v))) r)"
proof (cases "v = 0")
  case True
  with assms(1,2) show ?thesis
    by (simp add: deserialize_one_fast_varint_def vec_test_fast_vec serialize_one_fast_varint_def)
next
  case False
  have "(k, v) \<in> set ms" using assms(1,2) by (metis nth_mem)
  then have "fits (vsigned k) (min (2 ^ width_code ms) (vwidth k)) v"
    using False r by (rule fits_min)
  then have dec: "int_of_bytes (vsigned k) (int_bytes (min (2 ^ width_code ms) (vwidth k)) v) = v"
    using real_width_pos by (rule int_of_int_bytes)
  have "rd_read (min (2 ^ width_code ms) (vwidth k)) r =
      Some (int_bytes (min (2 ^ width_code ms) (vwidth k)) v, advance (min (2 ^ width_code ms) (vwidth k)) r)"
    by (rule rd_read_append [where sfx = sfx])
      (use assms(4) False in \<open>simp_all add: serialize_one_fast_varint_def\<close>)
  with False assms(1,2) dec show ?thesis
    by (simp add: deserialize_one_fast_varint_def vec_test_fast_vec serialize_one_fast_varint_def
        Let_def)
qed

text \<open>What a target member holds after a block has been read into it.\<close>

definition fast_result :: "fast_member list \<Rightarrow> fast_member list \<Rightarrow> int list" where
  "fast_result ms ts = map2 (\<lambda>(k, v) (k', t). if v = 0 then t else v) ms ts"

lemma read_fast_varints:
  assumes "\<forall>(k, v) \<in> set ms. vrange k v" and "ms = pre @ todo"
    and "map fst ts = map fst todo"
    and "rest r = concat (map (serialize_one_fast_varint (2 ^ width_code ms)) todo) @ sfx"
  shows "deserialize_fast_varint_helper True (2 ^ width_code ms) (fast_vec ms) (length pre) ts r =
    (Ok, fast_result todo ts,
     advance (length (concat (map (serialize_one_fast_varint (2 ^ width_code ms)) todo))) r)"
  using assms(2-)
proof (induction todo arbitrary: pre ts r)
  case Nil
  then show ?case by (simp add: fast_result_def)
next
  case (Cons m todo)
  obtain k v where m: "m = (k, v)" by (cases m)
  from Cons.prems(2) obtain t ts' where ts: "ts = (k, t) # ts'" "map fst ts' = map fst todo"
    using m by (cases ts) auto
  let ?e = "serialize_one_fast_varint (2 ^ width_code ms)"
  have one: "deserialize_one_fast_varint True (2 ^ width_code ms) (fast_vec ms) (length pre) (k, t) r
      = (Ok, if v = 0 then t else v, advance (length (?e (k, v))) r)"
    by (rule read_one_fast_varint [where sfx = "concat (map ?e todo) @ sfx"])
      (use Cons.prems m assms(1) in simp_all)
  have "deserialize_fast_varint_helper True (2 ^ width_code ms) (fast_vec ms) (length (pre @ [m]))
      ts' (advance (length (?e m)) r) =
    (Ok, fast_result todo ts',
     advance (length (concat (map ?e todo))) (advance (length (?e m)) r))"
    by (rule Cons.IH) (use Cons.prems ts(2) in simp_all)
  with one show ?case by (simp add: ts m fast_result_def)
qed

text \<open>The bit vector and the width are read back; what follows is the loop over the members.\<close>

lemma deserialize_fast_varint_head:
  assumes "ms \<noteq> []" and "\<forall>(k, v) \<in> set ms. vrange k v" and "map fst ts = map fst ms"
    and "rest r = serialize_fast_varint ms @ sfx"
  shows "deserialize_fast_varint no_skip ts r =
    deserialize_fast_varint_helper no_skip (2 ^ width_code ms) (fast_vec ms) 0 ts
      (advance (bitset_size (length ms)) r)"
proof -
  let ?body = "concat (map (serialize_one_fast_varint (2 ^ width_code ms)) ms)"
  have len: "length ts = length ms" using assms(3) by (metis length_map)
  have rd: "rd_read (bitset_size (length ms)) r =
      Some (fast_vec ms, advance (bitset_size (length ms)) r)"
    by (rule rd_read_append [where sfx = "?body @ sfx"])
      (use assms(1,4) in \<open>simp_all add: serialize_fast_varint_eq\<close>)
  have w: "of_bool (odd (width_code ms)) + of_bool (width_code ms div 2 mod 2 = 1) * 2
      = width_code ms"
    using code_cases [OF width_code_le [of ms]] by auto
  have h64: "has_64bits_varint ts = has_64bits_varint ms"
  proof -
    have "has_64bits_varint xs = list_ex (\<lambda>k. vwidth k = 8) (map fst xs)" for xs
      by (induction xs) (auto simp: has_64bits_varint_def)
    with assms(3) show ?thesis by simp
  qed
  have ok: "\<not> (width_code ms = 3 \<and> \<not> has_64bits_varint ms)"
    using width_code_3_has_64 [OF assms(2)] by blast
  show ?thesis
    using rd w h64 ok assms(1)
    by (auto simp: deserialize_fast_varint_def calculate_fast_varint_count_def len Let_def
        vec_test_fast_vec)
qed

lemma deserialize_fast_varint_block:
  assumes "ms \<noteq> []" and "\<forall>(k, v) \<in> set ms. vrange k v" and "map fst ts = map fst ms"
    and "rest r = serialize_fast_varint ms @ sfx"
  shows "deserialize_fast_varint True ts r =
    (Ok, map2 (\<lambda>(k, v) (k', t). if v = 0 then t else v) ms ts,
     advance (length (serialize_fast_varint ms)) r)"
proof -
  let ?body = "concat (map (serialize_one_fast_varint (2 ^ width_code ms)) ms)"
  have "deserialize_fast_varint_helper True (2 ^ width_code ms) (fast_vec ms) (length ([] :: fast_member list)) ts
      (advance (bitset_size (length ms)) r) =
    (Ok, fast_result ms ts, advance (length ?body) (advance (bitset_size (length ms)) r))"
    by (rule read_fast_varints [where sfx = sfx])
      (use assms in \<open>simp_all add: serialize_fast_varint_eq\<close>)
  then show ?thesis
    using assms(1)
    by (simp add: deserialize_fast_varint_head [OF assms] fast_result_def serialize_fast_varint_eq)
qed

text \<open>
  C31 (roundtrip). Reading a packed block into any target of the same member types succeeds,
  stops right behind the block, and stores every nonzero member at its value; a member
  that was packed as zero keeps what the target held before. In particular a fresh
  (zero-initialised) target receives exactly the packed values, while deserializing into
  a reused object leaves stale members behind.
\<close>
theorem fast_varint_roundtrip:
  assumes "ms \<noteq> []" and "\<forall>(k, v) \<in> set ms. vrange k v" and "map fst ts = map fst ms"
    and "rest r = serialize_fast_varint ms @ sfx"
  shows "deserialize_fast_varint True ts r =
    (Ok, map2 (\<lambda>(k, v) (k', t). if v = 0 then t else v) ms ts,
     advance (length (serialize_fast_varint ms)) r)"
  by (rule deserialize_fast_varint_block [OF assms])

theorem fast_varint_roundtrip_witness:
  "deserialize_fast_varint True [(VSint32, 0), (VUint64, 7)]
     (mk_reader (serialize_fast_varint [(VSint32, -5), (VUint64, 0)] @ [9])) =
   (Ok, [-5, 7], advance (length (serialize_fast_varint [(VSint32, -5), (VUint64, 0)]))
     (mk_reader (serialize_fast_varint [(VSint32, -5), (VUint64, 0)] @ [9])))"
  using fast_varint_roundtrip [of "[(VSint32, -5), (VUint64, 0)]" "[(VSint32, 0), (VUint64, 7)]"
      "mk_reader (serialize_fast_varint [(VSint32, -5), (VUint64, 0)] @ [9])" "[9]"]
  by (simp add: vrange_def vsigned_def vwidth_def mk_reader_def)

section \<open>The announced size\<close>

lemma length_fast_body:
  "length (concat (map (serialize_one_fast_varint w) ms)) =
     min w 8 * cnt_width 8 ms + min w 4 * cnt_width 4 ms"
proof (induction ms)
  case (Cons m ms)
  obtain k v where m: "m = (k, v)" by (cases m)
  then show ?case
    using Cons vwidth_cases [of k]
    by (auto simp: cnt_width_def serialize_one_fast_varint_def)
qed (simp add: cnt_width_def)

lemma fast_varint_size: "calculate_fast_varint_size ms = length (serialize_fast_varint ms)"
proof (cases "ms = []")
  case True
  then show ?thesis
    by (simp add: calculate_fast_varint_size_def serialize_fast_varint_def
        calculate_fast_varint_count_def)
next
  case False
  have "(2 :: nat) ^ width_code ms \<le> 8"
    using code_cases [OF width_code_le [of ms]] by auto
  then show ?thesis
    using False
    by (simp add: calculate_fast_varint_size_def fast_varint_payload_def foldl_size_width
        calculate_fast_varint_count_def serialize_fast_varint_eq length_fast_body
        width_code_def [symmetric] Let_def min_def mult.commute)
qed

lemma skip_one_fast_varint:
  assumes "j < length ms" "ms ! j = (k, v)"
    and "rest r = serialize_one_fast_varint (2 ^ width_code ms) (k, v) @ sfx"
  shows "deserialize_one_fast_varint False (2 ^ width_code ms) (fast_vec ms) j (k, t) r =
    (Ok, t, advance (length (serialize_one_fast_varint (2 ^ width_code ms) (k, v))) r)"
  using assms
  by (auto simp: deserialize_one_fast_varint_def vec_test_fast_vec serialize_one_fast_varint_def
      rd_ignore_def Let_def)

lemma skip_fast_varints:
  assumes "ms = pre @ todo" and "map fst ts = map fst todo"
    and "rest r = concat (map (serialize_one_fast_varint (2 ^ width_code ms)) todo) @ sfx"
  shows "deserialize_fast_varint_helper False (2 ^ width_code ms) (fast_vec ms) (length pre) ts r =
    (Ok, map snd ts,
     advance (length (concat (map (serialize_one_fast_varint (2 ^ width_code ms)) todo))) r)"
  using assms
proof (induction todo arbitrary: pre ts r)
  case Nil
  then show ?case by simp
next
  case (Cons m todo)
  obtain k v where m: "m = (k, v)" by (cases m)
  from Cons.prems(2) obtain t ts' where ts: "ts = (k, t) # ts'" "map fst ts' = map fst todo"
    using m by (cases ts) auto
  let ?e = "serialize_one_fast_varint (2 ^ width_code ms)"
  have one: "deserialize_one_fast_varint False (2 ^ width_code ms) (fast_vec ms) (length pre) (k, t) r
      = (Ok, t, advance (length (?e (k, v))) r)"
    by (rule skip_one_fast_varint [where sfx = "concat (map ?e todo) @ sfx"])
      (use Cons.prems m in simp_all)
  have "deserialize_fast_varint_helper False (2 ^ width_code ms) (fast_vec ms) (length (pre @ [m]))
      ts' (advance (length (?e m)) r) =
    (Ok, map snd ts', advance (length (concat (map ?e todo))) (advance (length (?e m)) r))"
    by (rule Cons.IH) (use Cons.prems ts(2) in simp_all)
  with one show ?case by (simp add: ts m)
qed

lemma skip_fast_varint_block:
  assumes "ms \<noteq> []" and "\<forall>(k, v) \<in> set ms. vrange k v" and "map fst ts = map fst ms"
    and "rest r = serialize_fast_varint ms @ sfx"
  shows "deserialize_fast_varint False ts r =
    (Ok, map snd ts, advance (length (serialize_fast_varint ms)) r)"
proof -
  have "deserialize_fast_varint_helper False (2 ^ width_code ms) (fast_vec ms)
      (length ([] :: fast_member list)) ts (advance (bitset_size (length ms)) r) =
    (Ok, map snd ts, advance (length (concat (map (serialize_one_fast_varint (2 ^ width_code ms)) ms)))
       (advance (bitset_size (length ms)) r))"
    by (rule skip_fast_varints [where sfx = sfx])
      (use assms in \<open>simp_all add: serialize_fast_varint_eq\<close>)
  then show ?thesis
    using assms(1) by (simp add: deserialize_fast_varint_head [OF assms] serialize_fast_varint_eq)
qed

end
