(* ===== verification/SpMd5.thy ===== *)
theory SpMd5
  imports SpTypes
begin

text \<open>
  The compile-time MD5 of struct_pack (\<open>md5_constexpr.hpp\<close>) and the type hash built on it
  (\<open>get_types_code_impl\<close> in \<open>type_calculate.hpp\<close>). The source never builds the padded message:
  it computes each of its bytes from an index. The theory proves that these bytes are the
  padded message of RFC 1321.
\<close>

record IntermediateData =
  ida :: u32
  idb :: u32
  idc :: u32
  idd :: u32

section \<open>Constants\<close>

definition kConstants :: "u32 list" where
  "kConstants = [
     0xd76aa478, 0xe8c7b756, 0x242070db, 0xc1bdceee, 0xf57c0faf, 0x4787c62a,
     0xa8304613, 0xfd469501, 0x698098d8, 0x8b44f7af, 0xffff5bb1, 0x895cd7be,
     0x6b901122, 0xfd987193, 0xa679438e, 0x49b40821, 0xf61e2562, 0xc040b340,
     0x265e5a51, 0xe9b6c7aa, 0xd62f105d, 0x02441453, 0xd8a1e681, 0xe7d3fbc8,
     0x21e1cde6, 0xc33707d6, 0xf4d50d87, 0x455a14ed, 0xa9e3e905, 0xfcefa3f8,
     0x676f02d9, 0x8d2a4c8a, 0xfffa3942, 0x8771f681, 0x6d9d6122, 0xfde5380c,
     0xa4beea44, 0x4bdecfa9, 0xf6bb4b60, 0xbebfbc70, 0x289b7ec6, 0xeaa127fa,
     0xd4ef3085, 0x04881d05, 0xd9d4d039, 0xe6db99e5, 0x1fa27cf8, 0xc4ac5665,
     0xf4292244, 0x432aff97, 0xab9423a7, 0xfc93a039, 0x655b59c3, 0x8f0ccc92,
     0xffeff47d, 0x85845dd1, 0x6fa87e4f, 0xfe2ce6e0, 0xa3014314, 0x4e0811a1,
     0xf7537e82, 0xbd3af235, 0x2ad7d2bb, 0xeb86d391]"

definition kShifts :: "nat list" where
  "kShifts = [7, 12, 17, 22, 5, 9, 14, 20, 4, 11, 16, 23, 6, 10, 15, 21]"

definition kInitialIntermediateData :: IntermediateData where
  "kInitialIntermediateData =
     \<lparr>ida = 0x67452301, idb = 0xefcdab89, idc = 0x98badcfe, idd = 0x10325476\<rparr>"

section \<open>The padded message, byte by byte\<close>

definition GetPaddedMessageLength :: "u32 \<Rightarrow> u32" where
  "GetPaddedMessageLength n = word_of_nat (unat ((n + 1 + 8) + 63) div 64) * 64"

definition ExtractByte :: "u64 \<Rightarrow> u32 \<Rightarrow> byte" where
  "ExtractByte value i = ucast (drop_bit (unat i * 8) value AND 0xff)"

text \<open>\<open>n * 8\<close> is computed in 32 bits before it is widened to the \<open>uint64_t\<close> argument.\<close>

definition GetPaddedMessageByte :: "bytes \<Rightarrow> u32 \<Rightarrow> u32 \<Rightarrow> u32 \<Rightarrow> byte" where
  "GetPaddedMessageByte data n m i =
     (if i < n then data ! unat i
      else if i = n then 0x80
      else if i \<ge> m - 8 then ExtractByte (ucast (n * 8)) (i - (m - 8))
      else 0)"

definition GetPaddedMessageWord :: "bytes \<Rightarrow> u32 \<Rightarrow> u32 \<Rightarrow> u32 \<Rightarrow> u32" where
  "GetPaddedMessageWord data n m i =
     ucast (GetPaddedMessageByte data n m i) OR
     push_bit 8 (ucast (GetPaddedMessageByte data n m (i + 1))) OR
     push_bit 16 (ucast (GetPaddedMessageByte data n m (i + 2))) OR
     push_bit 24 (ucast (GetPaddedMessageByte data n m (i + 3)))"

definition GetRoundData :: "bytes \<Rightarrow> u32 \<Rightarrow> u32 \<Rightarrow> u32 \<Rightarrow> u32 list" where
  "GetRoundData data n m i =
     map (\<lambda>k. GetPaddedMessageWord data n m (i + word_of_nat (4 * k))) [0..<16]"

section \<open>The rounds\<close>

definition CalcF :: "nat \<Rightarrow> u32 \<Rightarrow> u32 \<Rightarrow> u32 \<Rightarrow> u32" where
  "CalcF i b c d =
     (if i < 16 then d XOR (b AND (c XOR d))
      else if i < 32 then c XOR (d AND (b XOR c))
      else if i < 48 then b XOR c XOR d
      else c XOR (b OR NOT d))"

definition CalcG :: "nat \<Rightarrow> nat" where
  "CalcG i =
     (if i < 16 then i
      else if i < 32 then (5 * i + 1) mod 16
      else if i < 48 then (3 * i + 5) mod 16
      else (7 * i) mod 16)"

definition GetShift :: "nat \<Rightarrow> nat" where
  "GetShift i = kShifts ! ((i div 16) * 4 + (i mod 4))"

definition LeftRotate :: "u32 \<Rightarrow> nat \<Rightarrow> u32" where
  "LeftRotate value bits = push_bit bits value OR drop_bit (32 - bits) value"

definition ApplyStep :: "u32 list \<Rightarrow> IntermediateData \<Rightarrow> nat \<Rightarrow> IntermediateData" where
  "ApplyStep data s i =
     (let g = CalcG i;
          f = CalcF i (idb s) (idc s) (idd s) + ida s + kConstants ! i + data ! g
      in \<lparr>ida = idd s, idb = idb s + LeftRotate f (GetShift i), idc = idb s, idd = idc s\<rparr>)"

definition Add :: "IntermediateData \<Rightarrow> IntermediateData \<Rightarrow> IntermediateData" where
  "Add s t = \<lparr>ida = ida s + ida t, idb = idb s + idb t, idc = idc s + idc t, idd = idd s + idd t\<rparr>"

text \<open>
  \<open>for (offset = 0; offset < m; offset += 64)\<close> with \<open>m\<close> a multiple of 64 makes \<open>m / 64\<close>
  iterations, the \<open>k\<close>-th at offset \<open>64 * k\<close>.
\<close>

definition ProcessBlock :: "u32 list \<Rightarrow> IntermediateData \<Rightarrow> IntermediateData" where
  "ProcessBlock data s = Add s (foldl (ApplyStep data) s [0..<64])"

definition ProcessMessage :: "bytes \<Rightarrow> u32 \<Rightarrow> IntermediateData" where
  "ProcessMessage message n =
     (let m = GetPaddedMessageLength n
      in foldl (\<lambda>s k. ProcessBlock (GetRoundData message n m (word_of_nat (64 * k))) s)
           kInitialIntermediateData [0..<unat m div 64])"

section \<open>Results\<close>

definition SwapEndian :: "u32 \<Rightarrow> u32" where
  "SwapEndian a = push_bit 24 (a AND 0xff) OR push_bit 16 (drop_bit 8 a AND 0xff) OR
     push_bit 8 (drop_bit 16 a AND 0xff) OR (drop_bit 24 a AND 0xff)"

definition Hash64 :: "bytes \<Rightarrow> u32 \<Rightarrow> u64" where
  "Hash64 data n =
     (let s = ProcessMessage data n
      in push_bit 32 (ucast (SwapEndian (ida s))) OR ucast (SwapEndian (idb s)))"

definition Hash32 :: "bytes \<Rightarrow> u32 \<Rightarrow> u32" where
  "Hash32 data n = SwapEndian (ida (ProcessMessage data n))"

definition MD5Hash32Constexpr :: "bytes \<Rightarrow> u32" where
  "MD5Hash32Constexpr s = Hash32 s (word_of_nat (length s))"

text \<open>\<open>get_types_code_impl\<close>: the hash of the type literal with the lowest bit cleared.\<close>

definition get_types_code :: "sp_ty \<Rightarrow> u32" where
  "get_types_code t = MD5Hash32Constexpr (get_types_literal t) AND 0xFFFFFFFE"

lemma get_types_code_even: "even (get_types_code t)"
proof -
  have "\<not> bit (0xFFFFFFFE :: u32) 0" by simp
  then have "\<not> bit (get_types_code t) 0"
    by (simp only: get_types_code_def bit_and_iff) simp
  then show ?thesis by (simp add: bit_0)
qed

section \<open>The padded message of RFC 1321\<close>

text \<open>
  Message, marker 0x80, zeros up to 56 modulo 64, then the bit length in 8 bytes,
  least significant byte first.
\<close>

definition rfc_zeros :: "nat \<Rightarrow> nat" where
  "rfc_zeros n = (119 - n mod 64) mod 64"

definition rfc_padded :: "bytes \<Rightarrow> bytes" where
  "rfc_padded msg =
     msg @ [0x80] @ replicate (rfc_zeros (length msg)) 0 @ le_bytes 8 (8 * length msg)"

lemma length_rfc_padded:
  "length (rfc_padded msg) = length msg + 9 + rfc_zeros (length msg)"
  by (simp add: rfc_padded_def)

lemma rfc_zeros_length: "n + 9 + rfc_zeros n = (n + 72) div 64 * 64"
proof -
  define q r where "q = n div 64" and "r = n mod 64"
  have n: "n = 64 * q + r" and r: "r < 64" by (simp_all add: q_def r_def)
  show ?thesis
  proof (cases "r < 56")
    case True
    then have "(119 - r) mod 64 = 55 - r" by (simp add: mod_if)
    moreover have "(n + 72) div 64 = q + 1" using n True by simp
    ultimately show ?thesis using n r True by (simp add: rfc_zeros_def r_def [symmetric])
  next
    case False
    then have "(119 - r) mod 64 = 119 - r" by simp
    moreover have "(n + 72) div 64 = q + 2" using n r False by simp
    ultimately show ?thesis using n r False by (simp add: rfc_zeros_def r_def [symmetric])
  qed
qed

lemma unat_GetPaddedMessageLength:
  assumes "n < 2 ^ 29"
  shows "unat (GetPaddedMessageLength (word_of_nat n)) = (n + 72) div 64 * 64"
proof -
  have "unat ((word_of_nat n + 1 + 8) + 63 :: u32) = n + 72"
  proof -
    have "(word_of_nat n + 1 + 8) + 63 = (word_of_nat (n + 72) :: u32)" by simp
    then show ?thesis using assms by (simp only: unat_of_nat) simp
  qed
  then have "GetPaddedMessageLength (word_of_nat n) = word_of_nat ((n + 72) div 64 * 64)"
    by (simp add: GetPaddedMessageLength_def)
  moreover have "(n + 72) div 64 * 64 < 2 ^ 32" using assms by simp
  ultimately show ?thesis by (simp only: unat_of_nat) simp
qed

lemma ExtractByte_le_bytes:
  assumes "j < 8"
  shows "ExtractByte (word_of_nat v) (word_of_nat j) = le_bytes 8 v ! j"
proof -
  have nth: "le_bytes k v ! j = word_of_nat (v div 256 ^ j)" if "j < k" for k
    using that
  proof (induction k arbitrary: v j)
    case 0
    then show ?case by simp
  next
    case (Suc k)
    then show ?case by (cases j) (simp_all add: div_mult2_eq)
  qed
  have mask: "(255 :: u64) = mask 8" by (simp add: mask_eq_exp_minus_1)
  have j: "unat (word_of_nat j :: u32) = j"
    using assms by (simp add: unat_of_nat)
  have "unat (ExtractByte (word_of_nat v) (word_of_nat j)) = v div 256 ^ j mod 256"
  proof -
    have "unat (drop_bit (j * 8) (word_of_nat v :: u64) AND 255) =
        (v mod 2 ^ 64) div 2 ^ (j * 8) mod 2 ^ 8"
      by (simp only: mask unat_and_mask_mod unat_drop_bit_div unat_of_nat) simp
    also have "(2 :: nat) ^ 64 = 2 ^ (j * 8) * (2 ^ 8 * 2 ^ (56 - j * 8))"
      using assms by (simp flip: power_add)
    also have "(v mod (2 ^ (j * 8) * (2 ^ 8 * 2 ^ (56 - j * 8)))) div 2 ^ (j * 8) mod 2 ^ 8 =
        v div 2 ^ (j * 8) mod (2 ^ 8 * 2 ^ (56 - j * 8)) mod 2 ^ 8"
      by (simp add: mod_mult2_eq [of v])
    also have "\<dots> = v div 2 ^ (j * 8) mod 2 ^ 8"
      by (simp add: mod_mod_cancel)
    also have "(2 :: nat) ^ (j * 8) = 256 ^ j"
    proof -
      have "(2 :: nat) ^ (j * 8) = (2 ^ 8) ^ j" by (simp only: power_mult mult.commute [of j 8])
      then show ?thesis by simp
    qed
    finally show ?thesis
      using mod_less_divisor [of 256 "v div 256 ^ j"]
      by (simp add: ExtractByte_def j unsigned_ucast_eq take_bit_nat_eq_self)
  qed
  then show ?thesis
    using nth [OF assms] by (simp add: word_unat_eq_iff unat_of_nat)
qed


lemma rfc_padded_nth:
  assumes "i < length (rfc_padded msg)"
  shows "rfc_padded msg ! i =
    (if i < length msg then msg ! i
     else if i = length msg then 0x80
     else if i < length msg + 1 + rfc_zeros (length msg) then 0
     else le_bytes 8 (8 * length msg) ! (i - (length msg + 1 + rfc_zeros (length msg))))"
proof -
  have "rfc_padded msg ! i = (if i < length msg then msg ! i else
      ([0x80] @ replicate (rfc_zeros (length msg)) 0 @ le_bytes 8 (8 * length msg)) ! (i - length msg))"
    by (simp only: rfc_padded_def nth_append)
  also have "\<dots> = (if i < length msg then msg ! i
     else if i = length msg then 0x80
     else if i < length msg + 1 + rfc_zeros (length msg) then 0
     else le_bytes 8 (8 * length msg) ! (i - (length msg + 1 + rfc_zeros (length msg))))"
    by (auto simp add: nth_append nth_Cons' simp del: le_bytes.simps)
  finally show ?thesis .
qed

lemma u32_of_nat_less:
  "i < 2 ^ 32 \<Longrightarrow> j < 2 ^ 32 \<Longrightarrow> (word_of_nat i :: u32) < word_of_nat j \<longleftrightarrow> i < j"
  by (simp add: word_less_nat_alt unat_of_nat)

lemma u32_of_nat_eq:
  "i < 2 ^ 32 \<Longrightarrow> j < 2 ^ 32 \<Longrightarrow> (word_of_nat i :: u32) = word_of_nat j \<longleftrightarrow> i = j"
  by (simp add: word_unat_eq_iff unat_of_nat)

text \<open>
  The message schedule is the padded message of RFC 1321: for every message
  shorter than 512 MiB (where the 32-bit product \<open>n * 8\<close> cannot wrap), the padded length is
  the length of the RFC padding, a multiple of 64, and every byte computed from its index
  is the byte of the padding at that index.
\<close>
theorem padded_message_is_rfc1321:
  assumes "length msg < 2 ^ 29" and n_def: "n = word_of_nat (length msg)"
    and m_def: "m = GetPaddedMessageLength n"
  shows "unat m = length (rfc_padded msg) \<and> 64 dvd unat m \<and>
    (\<forall>i < unat m. GetPaddedMessageByte msg n m (word_of_nat i) = rfc_padded msg ! i)"
proof -
  define l where "l = length msg"
  define z where "z = l + 1 + rfc_zeros l"
  have m: "unat m = (l + 72) div 64 * 64"
    unfolding m_def n_def l_def by (rule unat_GetPaddedMessageLength) (rule assms(1))
  have z: "z + 8 = unat m" using rfc_zeros_length [of l] by (simp only: z_def m)
  have len: "unat m = length (rfc_padded msg)"
    using z by (simp add: length_rfc_padded z_def l_def)
  have l: "l < 2 ^ 29" using assms(1) by (simp only: l_def)
  have mlt: "unat m < 2 ^ 32" using l by (simp add: m)
  have mw: "m = word_of_nat (unat m)" by simp
  have m8: "m - 8 = word_of_nat z"
    using z by (metis add_diff_cancel_right' mw of_nat_add of_nat_numeral)
  have unl: "unat n = l" using l by (simp add: n_def l_def unat_of_nat)
  have n8: "(ucast (n * 8) :: u64) = word_of_nat (8 * l)"
  proof -
    have "unat (n * 8) = 8 * l"
    proof -
      have "n * 8 = word_of_nat (8 * l)" by (simp add: n_def l_def)
      then show ?thesis using l by (simp only: unat_of_nat) simp
    qed
    then have "unat (ucast (n * 8) :: u64) = 8 * l"
      using l by (simp add: unsigned_ucast_eq take_bit_nat_eq_self)
    then show ?thesis using l by (simp only: word_unat_eq_iff unat_of_nat) simp
  qed
  have "\<forall>i < unat m. GetPaddedMessageByte msg n m (word_of_nat i) = rfc_padded msg ! i"
  proof (intro allI impI)
    fix i
    assume i: "i < unat m"
    have ilt: "i < 2 ^ 32" by (rule less_trans [OF i mlt])
    have zlt: "z < 2 ^ 32" using z mlt by linarith
    have llt: "length msg < 2 ^ 32" using l by (simp add: l_def)
    have c1: "(word_of_nat i :: u32) < n \<longleftrightarrow> i < l"
      unfolding n_def l_def by (rule u32_of_nat_less [OF ilt llt])
    have c2: "(word_of_nat i :: u32) = n \<longleftrightarrow> i = l"
      unfolding n_def l_def by (rule u32_of_nat_eq [OF ilt llt])
    have c3: "m - 8 \<le> (word_of_nat i :: u32) \<longleftrightarrow> \<not> i < z"
      using u32_of_nat_less [OF ilt zlt] by (simp add: m8 linorder_not_less [symmetric])
    have last: "ExtractByte (ucast (n * 8)) (word_of_nat i - (m - 8)) = le_bytes 8 (8 * l) ! (i - z)"
      if "\<not> i < z"
    proof -
      have "(word_of_nat i :: u32) - (m - 8) = word_of_nat (i - z)"
        using that by (simp add: m8)
      moreover have "i - z < 8" using i z that by simp
      ultimately show ?thesis by (simp only: n8 ExtractByte_le_bytes)
    qed
    have ui: "unat (word_of_nat i :: u32) = i" using ilt by (simp add: unat_of_nat)
    show "GetPaddedMessageByte msg n m (word_of_nat i) = rfc_padded msg ! i"
      using rfc_padded_nth [of i msg] i last
      by (simp only: len GetPaddedMessageByte_def c1 c2 c3 ui z_def l_def) simp
  qed
  then show ?thesis by (simp add: len [symmetric] m)
qed

theorem padded_message_is_rfc1321_witness:
  "length (rfc_padded [0x61]) = 64 \<and>
   map (\<lambda>i. GetPaddedMessageByte [0x61] 1 64 (word_of_nat i)) [0..<64] = rfc_padded [0x61]"
  using padded_message_is_rfc1321 [of "[0x61]" 1 64]
  by (auto simp: GetPaddedMessageLength_def intro!: nth_equalityI)

end
