(* ===== verification/SpConfig.thy ===== *)
theory SpConfig
  imports SpMd5 "HOL-Library.Multiset"
begin

text \<open>
  The static configuration of a (de)serialization, everything the templates of
  \<open>type_calculate.hpp\<close> compute from a type: whether it contains compatible members and which
  versions, whether it contains a container, whether a type literal and a meta-info byte go
  on the wire; and the compile-time sorting of the version numbers (\<open>util.h\<close>).
\<close>

section \<open>Compatible members\<close>

text \<open>
  \<open>check_if_compatible_element_exist\<close>: with \<open>None\<close> (the source's \<open>UINT64_MAX\<close>) any compatible
  member counts, with \<open>Some ver\<close> only one of that version.
\<close>

fun compatible_element_exist :: "nat option \<Rightarrow> sp_ty \<Rightarrow> bool"
  and compatible_element_exist_many :: "nat option \<Rightarrow> sp_ty list \<Rightarrow> bool" where
  "compatible_element_exist ver (TCompat t n) = (case ver of None \<Rightarrow> True | Some k \<Rightarrow> n = k)"
| "compatible_element_exist ver (TStruct cfg ts) = compatible_element_exist_many ver ts"
| "compatible_element_exist ver (TTuple ts) = compatible_element_exist_many ver ts"
| "compatible_element_exist ver (TOptional t) = compatible_element_exist ver t"
| "compatible_element_exist ver (TUnique t) = compatible_element_exist ver t"
| "compatible_element_exist ver (TArray t n) = compatible_element_exist ver t"
| "compatible_element_exist ver (TMap k t) =
     (compatible_element_exist ver k \<or> compatible_element_exist ver t)"
| "compatible_element_exist ver (TSet t) = compatible_element_exist ver t"
| "compatible_element_exist ver (TSeq c t) = compatible_element_exist ver t"
| "compatible_element_exist ver (TExpected t e) =
     (compatible_element_exist ver t \<or> compatible_element_exist ver e)"
| "compatible_element_exist ver (TVariant ts) = compatible_element_exist_many ver ts"
| "compatible_element_exist ver _ = False"
| "compatible_element_exist_many ver [] = False"
| "compatible_element_exist_many ver (t # ts) =
     (compatible_element_exist ver t \<or> compatible_element_exist_many ver ts)"

definition exist_compatible_member :: "sp_ty \<Rightarrow> bool" where
  "exist_compatible_member t = compatible_element_exist None t"

text \<open>\<open>get_compatible_version_numbers\<close>: the versions in the order of the members.\<close>

fun get_compatible_version_numbers :: "sp_ty \<Rightarrow> nat list"
  and get_compatible_version_numbers_many :: "sp_ty list \<Rightarrow> nat list" where
  "get_compatible_version_numbers (TCompat t n) = [n]"
| "get_compatible_version_numbers (TStruct cfg ts) = get_compatible_version_numbers_many ts"
| "get_compatible_version_numbers (TTuple ts) = get_compatible_version_numbers_many ts"
| "get_compatible_version_numbers (TOptional t) = get_compatible_version_numbers t"
| "get_compatible_version_numbers (TUnique t) = get_compatible_version_numbers t"
| "get_compatible_version_numbers (TArray t n) = get_compatible_version_numbers t"
| "get_compatible_version_numbers (TMap k t) =
     get_compatible_version_numbers k @ get_compatible_version_numbers t"
| "get_compatible_version_numbers (TSet t) = get_compatible_version_numbers t"
| "get_compatible_version_numbers (TSeq c t) = get_compatible_version_numbers t"
| "get_compatible_version_numbers (TExpected t e) =
     get_compatible_version_numbers t @ get_compatible_version_numbers e"
| "get_compatible_version_numbers (TVariant ts) = get_compatible_version_numbers_many ts"
| "get_compatible_version_numbers _ = []"
| "get_compatible_version_numbers_many [] = []"
| "get_compatible_version_numbers_many (t # ts) =
     get_compatible_version_numbers t @ get_compatible_version_numbers_many ts"

section \<open>Sorting the version numbers\<close>

text \<open>\<open>compile_time_sort\<close>: for each \<open>i\<close>, every later smaller element is swapped to place \<open>i\<close>.\<close>

definition swap_if_greater :: "nat \<Rightarrow> nat list \<Rightarrow> nat \<Rightarrow> nat list" where
  "swap_if_greater i xs j = (if xs ! i > xs ! j then xs[i := xs ! j, j := xs ! i] else xs)"

definition compile_time_sort :: "nat list \<Rightarrow> nat list" where
  "compile_time_sort xs =
     foldl (\<lambda>ys i. foldl (swap_if_greater i) ys [i + 1..<length ys]) xs [0..<length xs]"

definition calculate_uniqued_size :: "nat list \<Rightarrow> nat" where
  "calculate_uniqued_size xs =
     foldl (\<lambda>n i. if xs ! i = xs ! (i - 1) then n - 1 else n) (length xs) [1..<length xs]"

text \<open>\<open>compile_time_unique\<close>: keeps an element unless it equals the one before it.\<close>

fun compile_time_unique :: "nat list \<Rightarrow> nat list" where
  "compile_time_unique (x # y # ys) =
     (if y \<noteq> x then x # compile_time_unique (y # ys) else compile_time_unique (y # ys))"
| "compile_time_unique xs = xs"

definition compatible_version_number :: "sp_ty \<Rightarrow> nat list" where
  "compatible_version_number t =
     compile_time_unique (compile_time_sort (get_compatible_version_numbers t))"

section \<open>Containers and meta information\<close>

fun check_if_has_container :: "sp_ty \<Rightarrow> bool"
  and check_if_has_container_many :: "sp_ty list \<Rightarrow> bool" where
  "check_if_has_container (TStruct cfg ts) = check_if_has_container_many ts"
| "check_if_has_container (TTuple ts) = check_if_has_container_many ts"
| "check_if_has_container (TVariant ts) = check_if_has_container_many ts"
| "check_if_has_container (TArray t n) = check_if_has_container t"
| "check_if_has_container (TUnique t) = check_if_has_container t"
| "check_if_has_container (TSeq c t) = True"
| "check_if_has_container (TString f) = True"
| "check_if_has_container (TSet t) = True"
| "check_if_has_container (TMap k t) = True"
| "check_if_has_container (TOptional t) = check_if_has_container t"
| "check_if_has_container (TCompat t n) = check_if_has_container t"
| "check_if_has_container (TExpected t e) = (check_if_has_container t \<or> check_if_has_container e)"
| "check_if_has_container _ = False"
| "check_if_has_container_many [] = False"
| "check_if_has_container_many (t # ts) =
     (check_if_has_container t \<or> check_if_has_container_many ts)"

text \<open>
  \<open>get_type_config<T>\<close>: the configuration a class carries. \<open>ndebug\<close> is whether \<open>NDEBUG\<close> is
  defined; without it, type literals are on by default.
\<close>

definition get_type_config :: "sp_ty \<Rightarrow> u64" where
  "get_type_config t = (case t of TStruct cfg ts \<Rightarrow> cfg | _ \<Rightarrow> 0)"

definition check_if_add_type_literal :: "bool \<Rightarrow> u64 \<Rightarrow> sp_ty \<Rightarrow> bool" where
  "check_if_add_type_literal ndebug conf t =
     (let config = conf AND 3 in
      if config = 0 then
        (let config = get_type_config t AND 3 in
         if config = 0 then \<not> ndebug else config = ENABLE_TYPE_INFO)
      else config = ENABLE_TYPE_INFO)"

definition check_if_disable_hash_head :: "u64 \<Rightarrow> sp_ty \<Rightarrow> bool" where
  "check_if_disable_hash_head conf t =
     (let config = conf AND 3 in
      if config = 0 then get_type_config t AND 3 = DISABLE_ALL_META_INFO
      else config = DISABLE_ALL_META_INFO)"

definition check_has_metainfo :: "bool \<Rightarrow> u64 \<Rightarrow> sp_ty \<Rightarrow> bool" where
  "check_has_metainfo ndebug conf t \<longleftrightarrow>
     exist_compatible_member t \<or>
     (\<not> check_if_disable_hash_head conf t \<and> check_if_add_type_literal ndebug conf t) \<or>
     (check_if_disable_hash_head conf t \<and> check_if_has_container t)"

section \<open>Facts\<close>

lemma swap_if_greater_mset:
  "i < length xs \<Longrightarrow> j < length xs \<Longrightarrow> mset (swap_if_greater i xs j) = mset xs"
  by (simp add: swap_if_greater_def mset_swap)

lemma length_swap_if_greater [simp]: "length (swap_if_greater i xs j) = length xs"
  by (simp add: swap_if_greater_def)

lemma length_foldl_swap [simp]: "length (foldl (swap_if_greater i) xs js) = length xs"
  by (induction js arbitrary: xs) simp_all

lemma foldl_swap_mset:
  "i < length xs \<Longrightarrow> \<forall>j \<in> set js. j < length xs \<Longrightarrow>
   mset (foldl (swap_if_greater i) xs js) = mset xs"
  by (induction js arbitrary: xs) (simp_all add: swap_if_greater_mset)

text \<open>\<open>prefix_least i xs\<close>: each of the first \<open>i\<close> elements is at most every later one.\<close>

definition prefix_least :: "nat \<Rightarrow> nat list \<Rightarrow> bool" where
  "prefix_least i xs \<longleftrightarrow> (\<forall>a b. a < i \<longrightarrow> a < b \<longrightarrow> b < length xs \<longrightarrow> xs ! a \<le> xs ! b)"

lemma swap_prefix_least:
  "prefix_least i xs \<Longrightarrow> i < j \<Longrightarrow> j < length xs \<Longrightarrow> prefix_least i (swap_if_greater i xs j)"
  unfolding prefix_least_def swap_if_greater_def
  by (auto simp: nth_list_update)

lemma swap_least:
  assumes "\<forall>b. i < b \<longrightarrow> b < j \<longrightarrow> xs ! i \<le> xs ! b" "i < j" "j < length xs"
  shows "\<forall>b. i < b \<longrightarrow> b < Suc j \<longrightarrow> swap_if_greater i xs j ! i \<le> swap_if_greater i xs j ! b"
proof (intro allI impI)
  fix b
  assume b: "i < b" "b < Suc j"
  show "swap_if_greater i xs j ! i \<le> swap_if_greater i xs j ! b"
  proof (cases "xs ! i > xs ! j")
    case True
    then have "swap_if_greater i xs j = xs[i := xs ! j, j := xs ! i]"
      by (simp add: swap_if_greater_def)
    moreover have "xs ! j \<le> xs ! b" if "b < j" using assms(1) b(1) that True by fastforce
    ultimately show ?thesis using True b assms(2,3) by (auto simp: nth_list_update less_Suc_eq)
  next
    case False
    then show ?thesis using assms b by (auto simp: swap_if_greater_def less_Suc_eq not_less)
  qed
qed

lemma inner_loop:
  assumes "prefix_least i xs" "i < k" "k \<le> length xs"
  defines "ys \<equiv> foldl (swap_if_greater i) xs [i + 1..<k]"
  shows "prefix_least i ys \<and> (\<forall>b. i < b \<longrightarrow> b < k \<longrightarrow> ys ! i \<le> ys ! b)"
  using assms(2,3) unfolding ys_def
proof (induction k)
  case (Suc k)
  show ?case
  proof (cases "i = k")
    case True
    with assms(1) show ?thesis by auto
  next
    case False
    let ?ys = "foldl (swap_if_greater i) xs [i + 1..<k]"
    from False Suc have ih: "prefix_least i ?ys" "\<forall>b. i < b \<longrightarrow> b < k \<longrightarrow> ?ys ! i \<le> ?ys ! b"
      by simp_all
    have step: "[i + 1..<Suc k] = [i + 1..<k] @ [k]" using False Suc.prems(1) by simp
    show ?thesis
      using swap_prefix_least [OF ih(1), of k] swap_least [OF ih(2)] False Suc.prems
      by (simp add: step)
  qed
qed simp

lemma prefix_least_Suc:
  "prefix_least i ys \<Longrightarrow> \<forall>b. i < b \<longrightarrow> b < length ys \<longrightarrow> ys ! i \<le> ys ! b \<Longrightarrow>
   prefix_least (Suc i) ys"
  by (auto simp: prefix_least_def less_Suc_eq)

lemma outer_loop:
  assumes "n \<le> length xs"
  defines "ys \<equiv> foldl (\<lambda>ys i. foldl (swap_if_greater i) ys [i + 1..<length ys]) xs [0..<n]"
  shows "prefix_least n ys \<and> length ys = length xs \<and> mset ys = mset xs"
  using assms(1) unfolding ys_def
proof (induction n)
  case 0
  then show ?case by (simp add: prefix_least_def)
next
  case (Suc n)
  let ?ys = "foldl (\<lambda>ys i. foldl (swap_if_greater i) ys [i + 1..<length ys]) xs [0..<n]"
  let ?zs = "foldl (swap_if_greater n) ?ys [n + 1..<length ?ys]"
  from Suc have ih: "prefix_least n ?ys" "length ?ys = length xs" "mset ?ys = mset xs"
    by simp_all
  have "prefix_least n ?zs \<and> (\<forall>b. n < b \<longrightarrow> b < length ?ys \<longrightarrow> ?zs ! n \<le> ?zs ! b)"
    by (rule inner_loop [OF ih(1)]) (use Suc.prems ih(2) in simp_all)
  then have "prefix_least (Suc n) ?zs" by (intro prefix_least_Suc) simp_all
  moreover have "mset ?zs = mset xs"
    using foldl_swap_mset [of n ?ys "[n + 1..<length ?ys]"] Suc.prems ih(2,3) by simp
  ultimately show ?case using ih(2) by simp
qed

lemma sorted_compile_time_sort:
  "sorted (compile_time_sort xs) \<and> mset (compile_time_sort xs) = mset xs"
  using outer_loop [of "length xs" xs]
  by (simp add: compile_time_sort_def prefix_least_def sorted_iff_nth_mono_less)

lemma compile_time_unique_strict:
  "sorted xs \<Longrightarrow> sorted_wrt (<) (compile_time_unique xs) \<and>
     set (compile_time_unique xs) = set xs"
proof (induction xs rule: compile_time_unique.induct)
  case (1 x y ys)
  show ?case
  proof (cases "y = x")
    case True
    with 1 show ?thesis by auto
  next
    case False
    with 1(3) have "x < y" "\<forall>z \<in> set ys. y \<le> z" by auto
    with False 1 show ?thesis by fastforce
  qed
qed simp_all

lemma uniqued_size_foldl:
  "foldl (\<lambda>n i. if (x # xs) ! i = (x # xs) ! (i - 1) then n - 1 else n) (k + length xs)
     [1..<Suc (length xs)] =
   k + length (compile_time_unique (x # xs)) - 1"
proof (induction xs arbitrary: x k)
  case (Cons y ys)
  let ?f = "\<lambda>x xs n i. if (x # xs) ! i = (x # xs) ! (i - 1) then n - 1 else n :: nat"
  have shift: "foldl (?f x (y # ys)) n [Suc 1..<Suc (Suc m)] = foldl (?f y ys) n [1..<Suc m]"
    if "m \<le> length ys" for m n
    using that
  proof (induction m)
    case (Suc m)
    have "[Suc 1..<Suc (Suc (Suc m))] = [Suc 1..<Suc (Suc m)] @ [Suc (Suc m)]"
      "[1..<Suc (Suc m)] = [1..<Suc m] @ [Suc m]" by simp_all
    with Suc show ?case by (simp del: upt_Suc)
  qed simp
  have up: "[1..<Suc (length (y # ys))] = 1 # [Suc 1..<Suc (Suc (length ys))]"
    by (simp add: upt_conv_Cons del: upt_Suc)
  have "compile_time_unique (y # ys) \<noteq> []"
    by (induction "y # ys" arbitrary: y ys rule: compile_time_unique.induct) auto
  then have pos: "0 < length (compile_time_unique (y # ys))" by simp
  have "foldl (?f x (y # ys)) (k + length (y # ys)) [1..<Suc (length (y # ys))] =
      foldl (?f y ys) (if y = x then k + length ys else Suc k + length ys) [1..<Suc (length ys)]"
    unfolding up using shift [of "length ys"] by simp
  also have "\<dots> = (if y = x then k else Suc k) + length (compile_time_unique (y # ys)) - 1"
    using Cons [of y k] Cons [of y "Suc k"] by (auto simp del: upt_Suc)
  also have "\<dots> = k + length (compile_time_unique (x # y # ys)) - 1"
    using pos by simp
  finally show ?case .
qed simp


lemma calculate_uniqued_size_eq:
  "calculate_uniqued_size xs = length (compile_time_unique xs)"
proof (cases xs)
  case (Cons x ys)
  have "compile_time_unique (x # ys) \<noteq> []"
    by (induction "x # ys" arbitrary: x ys rule: compile_time_unique.induct) auto
  then have "0 < length (compile_time_unique (x # ys))" by simp
  then show ?thesis
    using uniqued_size_foldl [of x ys 1] Cons by (simp add: calculate_uniqued_size_def)
qed (simp add: calculate_uniqued_size_def)

lemma set_get_compatible_version_numbers:
  "ver \<in> set (get_compatible_version_numbers t) \<longleftrightarrow> compatible_element_exist (Some ver) t"
  "ver \<in> set (get_compatible_version_numbers_many ts) \<longleftrightarrow>
     compatible_element_exist_many (Some ver) ts"
  by (induction t and ts rule: get_compatible_version_numbers_get_compatible_version_numbers_many.induct)
    auto

lemma compatible_version_number_facts:
  "sorted_wrt (<) (compatible_version_number t)"
  "set (compatible_version_number t) = {ver. compatible_element_exist (Some ver) t}"
proof -
  let ?s = "compile_time_sort (get_compatible_version_numbers t)"
  have s: "sorted ?s" "mset ?s = mset (get_compatible_version_numbers t)"
    using sorted_compile_time_sort by blast+
  have "set ?s = {ver. compatible_element_exist (Some ver) t}"
    using mset_eq_setD [OF s(2)] set_get_compatible_version_numbers(1) by blast
  with compile_time_unique_strict [OF s(1)]
  show "sorted_wrt (<) (compatible_version_number t)"
    "set (compatible_version_number t) = {ver. compatible_element_exist (Some ver) t}"
    by (simp_all add: compatible_version_number_def)
qed

text \<open>
  The passes over the compatible members are made for exactly the versions
  that occur in the type, once each and in ascending order; the array that holds them has
  exactly the size computed for it, so the compile-time copy stays in bounds.
\<close>
theorem compatible_versions_sorted_unique:
  "sorted_wrt (<) (compatible_version_number t) \<and>
   set (compatible_version_number t) = {ver. compatible_element_exist (Some ver) t} \<and>
   length (compatible_version_number t) =
     calculate_uniqued_size (compile_time_sort (get_compatible_version_numbers t))"
  using compatible_version_number_facts
  by (simp add: compatible_version_number_def calculate_uniqued_size_eq)

end
