(* ===== verification/SpPack.thy ===== *)
theory SpPack
  imports SpFastVarint SpConfig
begin

text \<open>
  Values of the described types, the size computation (\<open>calculate_size.hpp\<close>,
  \<open>size_info.hpp\<close>) and the serializer (\<open>packer.hpp\<close>) on a little-endian machine.

  A value is a tree; \<open>VInt\<close> carries every fundamental type (a floating-point number is its
  bit pattern), \<open>VOpt\<close> optionals, unique pointers and compatible members. A container is
  the list of its elements in iteration order. A writer is the list of bytes appended to it.
  Sizes are natural numbers: the objects that are measured exist in memory, so their sizes
  are below \<open>2^64\<close>. The padding bytes of a trivially copied object, which C++ leaves
  unspecified, are taken to be zero.
\<close>

datatype sp_val =
    VInt int
  | VUnit
  | VList "sp_val list"
  | VMap "(sp_val \<times> sp_val) list"
  | VOpt "sp_val option"
  | VVar nat sp_val
  | VExp bool sp_val

definition val_int :: "sp_val \<Rightarrow> int" where
  "val_int v = (case v of VInt i \<Rightarrow> i | _ \<Rightarrow> 0)"

definition val_list :: "sp_val \<Rightarrow> sp_val list" where
  "val_list v = (case v of VList vs \<Rightarrow> vs | _ \<Rightarrow> [])"

definition val_map :: "sp_val \<Rightarrow> (sp_val \<times> sp_val) list" where
  "val_map v = (case v of VMap kvs \<Rightarrow> kvs | _ \<Rightarrow> [])"

definition val_opt :: "sp_val \<Rightarrow> sp_val option" where
  "val_opt v = (case v of VOpt x \<Rightarrow> x | _ \<Rightarrow> None)"

lemma val_simps [simp]:
  "val_int (VInt i) = i" "val_list (VList vs) = vs" "val_map (VMap kvs) = kvs"
  "val_opt (VOpt x) = x"
  by (simp_all add: val_int_def val_list_def val_map_def val_opt_def)

section \<open>Typing\<close>

definition fund_range :: "fund \<Rightarrow> int \<Rightarrow> bool" where
  "fund_range f i = (if f = Bool then i = 0 \<or> i = 1 else fits (fund_signed f) (fund_size f) i)"

text \<open>
  \<open>has_type v t\<close>: \<open>v\<close> is a value of the C++ type \<open>t\<close>. The elements of a container occupy
  at most \<open>SIZE_MAX\<close> bytes, sets and map keys are distinct, a variant has less than 256 alternatives.
\<close>

fun has_type :: "sp_ty \<Rightarrow> sp_val \<Rightarrow> bool"
  and has_types :: "sp_ty list \<Rightarrow> sp_val list \<Rightarrow> bool"
  and has_alt :: "sp_ty list \<Rightarrow> nat \<Rightarrow> sp_val \<Rightarrow> bool" where
  "has_type (TFund f) v = (case v of VInt i \<Rightarrow> fund_range f i | _ \<Rightarrow> False)"
| "has_type (TVarint k) v = (case v of VInt i \<Rightarrow> vrange k i | _ \<Rightarrow> False)"
| "has_type TMono v = (v = VUnit)"
| "has_type (TArray t n) v =
     (case v of VList vs \<Rightarrow> length vs = n \<and> list_all (\<lambda>x. has_type t x) vs | _ \<Rightarrow> False)"
| "has_type (TString f) v =
     (case v of VList vs \<Rightarrow> length vs * fund_size f < 2 ^ 64 \<and>
        list_all (\<lambda>x. case x of VInt i \<Rightarrow> fund_range f i | _ \<Rightarrow> False) vs | _ \<Rightarrow> False)"
| "has_type (TSeq c t) v =
     (case v of VList vs \<Rightarrow> length vs * ty_size t < 2 ^ 64 \<and> list_all (\<lambda>x. has_type t x) vs
      | _ \<Rightarrow> False)"
| "has_type (TSet t) v =
     (case v of VList vs \<Rightarrow> length vs * ty_size t < 2 ^ 64 \<and> distinct vs \<and>
        list_all (\<lambda>x. has_type t x) vs | _ \<Rightarrow> False)"
| "has_type (TMap k t) v =
     (case v of VMap kvs \<Rightarrow> length kvs * ty_size (TStruct 0 [k, t]) < 2 ^ 64 \<and> distinct (map fst kvs) \<and>
        list_all (\<lambda>x. has_type k (fst x) \<and> has_type t (snd x)) kvs | _ \<Rightarrow> False)"
| "has_type (TOptional t) v =
     (case v of VOpt None \<Rightarrow> True | VOpt (Some x) \<Rightarrow> has_type t x | _ \<Rightarrow> False)"
| "has_type (TUnique t) v =
     (case v of VOpt None \<Rightarrow> True | VOpt (Some x) \<Rightarrow> has_type t x | _ \<Rightarrow> False)"
| "has_type (TCompat t n) v =
     (case v of VOpt None \<Rightarrow> True | VOpt (Some x) \<Rightarrow> has_type t x | _ \<Rightarrow> False)"
| "has_type (TVariant ts) v =
     (length ts < 256 \<and> (case v of VVar i x \<Rightarrow> has_alt ts i x | _ \<Rightarrow> False))"
| "has_type (TExpected t e) v =
     (case v of VExp b x \<Rightarrow> if b then has_type t x else has_type e x | _ \<Rightarrow> False)"
| "has_type (TTuple ts) v = (case v of VList vs \<Rightarrow> has_types ts vs | _ \<Rightarrow> False)"
| "has_type (TStruct cfg ts) v = (case v of VList vs \<Rightarrow> has_types ts vs | _ \<Rightarrow> False)"
| "has_types [] vs = (vs = [])"
| "has_types (t # ts) vs = (case vs of [] \<Rightarrow> False | v # vs' \<Rightarrow> has_type t v \<and> has_types ts vs')"
| "has_alt [] i x = False"
| "has_alt (t # ts) i x = (case i of 0 \<Rightarrow> has_type t x | Suc j \<Rightarrow> has_alt ts j x)"

section \<open>The image of a trivially copyable object\<close>

fun obj_bytes :: "sp_ty \<Rightarrow> sp_val \<Rightarrow> bytes"
  and members_bytes :: "sp_ty list \<Rightarrow> sp_val list \<Rightarrow> nat \<Rightarrow> bytes" where
  "obj_bytes (TFund f) v = int_bytes (fund_size f) (val_int v)"
| "obj_bytes TMono v = [0]"
| "obj_bytes (TArray t n) v = concat (map (\<lambda>x. obj_bytes t x) (val_list v))"
| "obj_bytes (TStruct cfg ts) v =
     members_bytes ts (val_list v) 0 @ replicate (pad_to (max_align ts) (members_end ts 0)) 0"
| "obj_bytes _ v = []"
| "members_bytes [] vs offset = []"
| "members_bytes (t # ts) vs offset =
     replicate (pad_to (ty_align t) offset) 0 @ obj_bytes t (hd vs) @
     members_bytes ts (tl vs) (offset + pad_to (ty_align t) offset + ty_size t)"

lemma length_obj_bytes:
  "is_trivial_serializable t False tag \<Longrightarrow> has_type t v \<Longrightarrow> length (obj_bytes t v) = ty_size t"
  "all_trivial_serializable ts False tag \<Longrightarrow> has_types ts vs \<Longrightarrow>
     offset + length (members_bytes ts vs offset) = members_end ts offset"
proof (induction t v and ts vs offset arbitrary: tag and tag
    rule: obj_bytes_members_bytes.induct)
  case (3 t n v)
  then obtain vs where vs: "v = VList vs" "length vs = n" "list_all (has_type t) vs"
    by (auto split: sp_val.splits)
  have "\<forall>x \<in> set vs. length (obj_bytes t x) = ty_size t"
    using vs(1,3) 3 by (auto simp: list_all_iff)
  from length_concat_const [OF this] show ?case using vs(1,2) by simp
next
  case (4 cfg ts v)
  then show ?case by (auto split: sp_val.splits simp: Let_def)
next
  case (6 vs offset)
  then show ?case by simp
next
  case (7 t ts vs offset)
  then show ?case by (auto split: list.splits simp: add.assoc)
qed (auto split: sp_val.splits)


section \<open>Sizes\<close>

record size_info =
  total :: nat
  size_cnt :: nat
  max_size :: nat

definition no_size :: size_info where
  "no_size = \<lparr>total = 0, size_cnt = 0, max_size = 0\<rparr>"

definition of_total :: "nat \<Rightarrow> size_info" where
  "of_total n = \<lparr>total = n, size_cnt = 0, max_size = 0\<rparr>"

definition size_plus :: "size_info \<Rightarrow> size_info \<Rightarrow> size_info" where
  "size_plus a b = \<lparr>total = total a + total b, size_cnt = size_cnt a + size_cnt b,
     max_size = max (max_size a) (max_size b)\<rparr>"

lemma size_plus_simps [simp]:
  "total (size_plus a b) = total a + total b"
  "size_cnt (size_plus a b) = size_cnt a + size_cnt b"
  "max_size (size_plus a b) = max (max_size a) (max_size b)"
  by (simp_all add: size_plus_def)

lemma base_size_simps [simp]:
  "total no_size = 0" "size_cnt no_size = 0" "max_size no_size = 0"
  "total (of_total n) = n" "size_cnt (of_total n) = 0" "max_size (of_total n) = 0"
  by (simp_all add: no_size_def of_total_def)

text \<open>\<open>ret += calculate_one_size(i)\<close> for every element.\<close>

definition size_each :: "('a \<Rightarrow> size_info) \<Rightarrow> size_info \<Rightarrow> 'a list \<Rightarrow> size_info" where
  "size_each f acc xs = foldl (\<lambda>a x. size_plus a (f x)) acc xs"

text \<open>The members of a struct that go into the fast-varint block.\<close>

primrec fast_members :: "u64 \<Rightarrow> sp_ty list \<Rightarrow> sp_val list \<Rightarrow> fast_member list" where
  "fast_members tag [] vs = []"
| "fast_members tag (t # ts) vs =
     (case varint_kind t tag of
        Some k \<Rightarrow> (k, val_int (hd vs)) # fast_members tag ts (tl vs)
      | None \<Rightarrow> fast_members tag ts (tl vs))"

text \<open>The pair type of a map's elements.\<close>

abbreviation pair_ty :: "sp_ty \<Rightarrow> sp_ty \<Rightarrow> sp_ty" where
  "pair_ty k t \<equiv> TStruct 0 [k, t]"

fun calculate_one_size :: "u64 \<Rightarrow> sp_ty \<Rightarrow> sp_val \<Rightarrow> size_info"
  and calculate_payload_size :: "u64 \<Rightarrow> sp_ty list \<Rightarrow> sp_val list \<Rightarrow> size_info"
  and calculate_alt_size :: "sp_ty list \<Rightarrow> nat \<Rightarrow> sp_val \<Rightarrow> size_info" where
  "calculate_one_size tag (TFund f) v =
     (case varint_kind (TFund f) tag of
        Some k \<Rightarrow> if is_enable_fast_varint_coding tag then no_size
                  else of_total (calculate_varint_size k (val_int v))
      | None \<Rightarrow> of_total (fund_size f))"
| "calculate_one_size tag (TVarint k) v =
     (if is_enable_fast_varint_coding tag then no_size
      else of_total (calculate_varint_size k (val_int v)))"
| "calculate_one_size tag TMono v = no_size"
| "calculate_one_size tag (TArray t n) v =
     (if is_trivial_serializable (TArray t n) False 0 then of_total (ty_size (TArray t n))
      else size_each (\<lambda>x. calculate_one_size 0 t x) no_size (val_list v))"
| "calculate_one_size tag (TString f) v =
     \<lparr>total = length (val_list v) * fund_size f, size_cnt = 1, max_size = length (val_list v)\<rparr>"
| "calculate_one_size tag (TSeq c t) v =
     (if c \<and> is_trivial_serializable t False 0
      then \<lparr>total = length (val_list v) * ty_size t, size_cnt = 1, max_size = length (val_list v)\<rparr>
      else size_each (\<lambda>x. calculate_one_size 0 t x)
             \<lparr>total = 0, size_cnt = 1, max_size = length (val_list v)\<rparr> (val_list v))"
| "calculate_one_size tag (TSet t) v =
     size_each (\<lambda>x. calculate_one_size 0 t x)
       \<lparr>total = 0, size_cnt = 1, max_size = length (val_list v)\<rparr> (val_list v)"
| "calculate_one_size tag (TMap k t) v =
     size_each (\<lambda>x. if is_trivial_serializable (pair_ty k t) False 0
                     then of_total (ty_size (pair_ty k t))
                     else size_plus
                       (size_plus (calculate_one_size 0 k (fst x)) (calculate_one_size 0 t (snd x)))
                       (if is_trivial_serializable (pair_ty k t) True 0
                        then of_total (total_padding_size [k, t]) else no_size))
       \<lparr>total = 0, size_cnt = 1, max_size = length (val_map v)\<rparr> (val_map v)"
| "calculate_one_size tag (TOptional t) v =
     (case val_opt v of None \<Rightarrow> of_total 1
      | Some x \<Rightarrow> size_plus (of_total 1) (calculate_one_size 0 t x))"
| "calculate_one_size tag (TUnique t) v =
     (case val_opt v of None \<Rightarrow> of_total 1
      | Some x \<Rightarrow> size_plus (of_total 1) (calculate_one_size 0 t x))"
| "calculate_one_size tag (TCompat t n) v =
     (case val_opt v of None \<Rightarrow> of_total 1
      | Some x \<Rightarrow> size_plus (of_total 1) (calculate_one_size 0 t x))"
| "calculate_one_size tag (TVariant ts) v =
     (case v of VVar i x \<Rightarrow> size_plus (of_total 1) (calculate_alt_size ts i x) | _ \<Rightarrow> no_size)"
| "calculate_one_size tag (TExpected t e) v =
     (case v of VExp b x \<Rightarrow> size_plus (of_total 1)
        (if b then calculate_one_size 0 t x else calculate_one_size 0 e x) | _ \<Rightarrow> no_size)"
| "calculate_one_size tag (TTuple ts) v = calculate_payload_size 0 ts (val_list v)"
| "calculate_one_size tag (TStruct cfg ts) v =
     (if is_trivial_serializable (TStruct cfg ts) False 0 then of_total (ty_size (TStruct cfg ts))
      else if is_trivial_serializable (TStruct cfg ts) True 0 then
        size_plus (calculate_payload_size 0 ts (val_list v)) (of_total (total_padding_size ts))
      else size_plus
        (of_total (if is_enable_fast_varint_coding cfg
                   then calculate_fast_varint_size (fast_members cfg ts (val_list v)) else 0))
        (calculate_payload_size cfg ts (val_list v)))"
| "calculate_payload_size tag [] vs = no_size"
| "calculate_payload_size tag (t # ts) vs =
     size_plus (calculate_one_size tag t (hd vs)) (calculate_payload_size tag ts (tl vs))"
| "calculate_alt_size [] i x = no_size"
| "calculate_alt_size (t # ts) i x =
     (case i of 0 \<Rightarrow> calculate_one_size 0 t x | Suc j \<Rightarrow> calculate_alt_size ts j x)"


section \<open>Serialization\<close>

text \<open>
  \<open>low_bytes_write_wrapper<w>(writer, size)\<close>: the width \<open>sw\<close> is 1, 2, 4 or 8, from bits 3 and
  4 of the meta-info byte.
\<close>

definition write_size :: "nat \<Rightarrow> nat \<Rightarrow> bytes" where
  "write_size sw n = le_bytes sw n"

text \<open>
  \<open>serialize_one<size_type, UINT64_MAX, parent_tag>\<close>, the pass over everything except the
  compatible members. \<open>serialize_padded\<close> is the branch for a class that is trivially
  serializable apart from its compatible members: each member is followed by the padding
  behind it.
\<close>

fun serialize_one :: "nat \<Rightarrow> u64 \<Rightarrow> sp_ty \<Rightarrow> sp_val \<Rightarrow> bytes"
  and serialize_many :: "nat \<Rightarrow> u64 \<Rightarrow> sp_ty list \<Rightarrow> sp_val list \<Rightarrow> bytes"
  and serialize_padded :: "nat \<Rightarrow> sp_ty list \<Rightarrow> sp_val list \<Rightarrow> nat list \<Rightarrow> bytes"
  and serialize_alt :: "nat \<Rightarrow> sp_ty list \<Rightarrow> nat \<Rightarrow> sp_val \<Rightarrow> bytes" where
  "serialize_one sw tag (TFund f) v =
     (case varint_kind (TFund f) tag of
        Some k \<Rightarrow> if is_enable_fast_varint_coding tag then []
                  else serialize_varint k (val_int v)
      | None \<Rightarrow> int_bytes (fund_size f) (val_int v))"
| "serialize_one sw tag (TVarint k) v =
     (if is_enable_fast_varint_coding tag then [] else serialize_varint k (val_int v))"
| "serialize_one sw tag TMono v = []"
| "serialize_one sw tag (TCompat t n) v = []"
| "serialize_one sw tag (TUnique t) v =
     (case val_opt v of None \<Rightarrow> [0] | Some x \<Rightarrow> 1 # serialize_one sw 0 t x)"
| "serialize_one sw tag (TArray t n) v =
     (if is_trivial_serializable (TArray t n) False 0 then obj_bytes (TArray t n) v
      else concat (map (\<lambda>x. serialize_one sw 0 t x) (val_list v)))"
| "serialize_one sw tag (TString f) v =
     write_size sw (length (val_list v)) @
     concat (map (\<lambda>x. int_bytes (fund_size f) (val_int x)) (val_list v))"
| "serialize_one sw tag (TSeq c t) v =
     write_size sw (length (val_list v)) @
     (if c \<and> is_trivial_serializable t False 0
      then concat (map (\<lambda>x. obj_bytes t x) (val_list v))
      else concat (map (\<lambda>x. serialize_one sw 0 t x) (val_list v)))"
| "serialize_one sw tag (TSet t) v =
     write_size sw (length (val_list v)) @
     concat (map (\<lambda>x. serialize_one sw 0 t x) (val_list v))"
| "serialize_one sw tag (TMap k t) v =
     write_size sw (length (val_map v)) @
     concat (map (\<lambda>x.
       if is_trivial_serializable (pair_ty k t) False 0
       then obj_bytes (pair_ty k t) (VList [fst x, snd x])
       else if is_trivial_serializable (pair_ty k t) True 0
       then serialize_one sw 0 k (fst x) @ replicate (calculate_padding_size [k, t] ! 1) 0 @
            serialize_one sw 0 t (snd x) @ replicate (calculate_padding_size [k, t] ! 2) 0
       else serialize_one sw 0 k (fst x) @ serialize_one sw 0 t (snd x)) (val_map v))"
| "serialize_one sw tag (TTuple ts) v = serialize_many sw 0 ts (val_list v)"
| "serialize_one sw tag (TOptional t) v =
     (case val_opt v of None \<Rightarrow> [0] | Some x \<Rightarrow> 1 # serialize_one sw 0 t x)"
| "serialize_one sw tag (TVariant ts) v =
     (case v of VVar i x \<Rightarrow> word_of_nat i # serialize_alt sw ts i x | _ \<Rightarrow> [])"
| "serialize_one sw tag (TExpected t e) v =
     (case v of VExp b x \<Rightarrow> of_bool b #
        (if b then serialize_one sw 0 t x else serialize_one sw 0 e x) | _ \<Rightarrow> [])"
| "serialize_one sw tag (TStruct cfg ts) v =
     (if is_trivial_serializable (TStruct cfg ts) False 0 then obj_bytes (TStruct cfg ts) v
      else if is_trivial_serializable (TStruct cfg ts) True 0
      then serialize_padded sw ts (val_list v) (tl (calculate_padding_size ts))
      else (if is_enable_fast_varint_coding cfg
            then serialize_fast_varint (fast_members cfg ts (val_list v)) else []) @
           serialize_many sw cfg ts (val_list v))"
| "serialize_many sw tag [] vs = []"
| "serialize_many sw tag (t # ts) vs = serialize_one sw tag t (hd vs) @ serialize_many sw tag ts (tl vs)"
| "serialize_padded sw [] vs pads = []"
| "serialize_padded sw (t # ts) vs pads =
     serialize_one sw 0 t (hd vs) @ replicate (hd pads) 0 @ serialize_padded sw ts (tl vs) (tl pads)"
| "serialize_alt sw [] i x = []"
| "serialize_alt sw (t # ts) i x =
     (case i of 0 \<Rightarrow> serialize_one sw 0 t x | Suc j \<Rightarrow> serialize_alt sw ts j x)"

text \<open>
  \<open>serialize_one<size_type, version, parent_tag>\<close> for a version number: the pass that writes
  the compatible members of that version, wherever they are nested.
\<close>

fun serialize_compat :: "nat \<Rightarrow> nat \<Rightarrow> sp_ty \<Rightarrow> sp_val \<Rightarrow> bytes"
  and serialize_compat_many :: "nat \<Rightarrow> nat \<Rightarrow> sp_ty list \<Rightarrow> sp_val list \<Rightarrow> bytes"
  and serialize_compat_alt :: "nat \<Rightarrow> nat \<Rightarrow> sp_ty list \<Rightarrow> nat \<Rightarrow> sp_val \<Rightarrow> bytes" where
  "serialize_compat sw ver (TCompat t n) v =
     (if ver = n then
        (case val_opt v of None \<Rightarrow> [0] | Some x \<Rightarrow> 1 # serialize_one sw 0 t x) else [])"
| "serialize_compat sw ver (TUnique t) v =
     (case val_opt v of None \<Rightarrow> [] | Some x \<Rightarrow> serialize_compat sw ver t x)"
| "serialize_compat sw ver (TArray t n) v =
     concat (map (\<lambda>x. serialize_compat sw ver t x) (val_list v))"
| "serialize_compat sw ver (TSeq c t) v =
     concat (map (\<lambda>x. serialize_compat sw ver t x) (val_list v))"
| "serialize_compat sw ver (TSet t) v =
     concat (map (\<lambda>x. serialize_compat sw ver t x) (val_list v))"
| "serialize_compat sw ver (TMap k t) v =
     concat (map (\<lambda>x. serialize_compat sw ver k (fst x) @ serialize_compat sw ver t (snd x))
       (val_map v))"
| "serialize_compat sw ver (TTuple ts) v = serialize_compat_many sw ver ts (val_list v)"
| "serialize_compat sw ver (TOptional t) v =
     (case val_opt v of None \<Rightarrow> [] | Some x \<Rightarrow> serialize_compat sw ver t x)"
| "serialize_compat sw ver (TVariant ts) v =
     (case v of VVar i x \<Rightarrow> serialize_compat_alt sw ver ts i x | _ \<Rightarrow> [])"
| "serialize_compat sw ver (TExpected t e) v =
     (case v of VExp b x \<Rightarrow> if b then serialize_compat sw ver t x else serialize_compat sw ver e x
      | _ \<Rightarrow> [])"
| "serialize_compat sw ver (TStruct cfg ts) v = serialize_compat_many sw ver ts (val_list v)"
| "serialize_compat sw ver _ v = []"
| "serialize_compat_many sw ver [] vs = []"
| "serialize_compat_many sw ver (t # ts) vs =
     serialize_compat sw ver t (hd vs) @ serialize_compat_many sw ver ts (tl vs)"
| "serialize_compat_alt sw ver [] i x = []"
| "serialize_compat_alt sw ver (t # ts) i x =
     (case i of 0 \<Rightarrow> serialize_compat sw ver t x | Suc j \<Rightarrow> serialize_compat_alt sw ver ts j x)"

end
