(* ===== verification/SpPackSize.thy ===== *)
theory SpPackSize
  imports SpPack
begin

text \<open>
  The size computed before serialization is the number of bytes the serializer appends.
\<close>

text \<open>
  A compatible member inside the payload of another compatible member is counted but
  never written; \<open>flat_compat\<close> excludes it.
\<close>

fun flat_compat :: "sp_ty \<Rightarrow> bool"
  and flat_compat_many :: "sp_ty list \<Rightarrow> bool" where
  "flat_compat (TCompat t n) = (\<not> compatible_element_exist None t)"
| "flat_compat (TArray t n) = flat_compat t"
| "flat_compat (TSeq c t) = flat_compat t"
| "flat_compat (TSet t) = flat_compat t"
| "flat_compat (TMap k t) = (flat_compat k \<and> flat_compat t)"
| "flat_compat (TOptional t) = flat_compat t"
| "flat_compat (TUnique t) = flat_compat t"
| "flat_compat (TVariant ts) = flat_compat_many ts"
| "flat_compat (TExpected t e) = (flat_compat t \<and> flat_compat e)"
| "flat_compat (TTuple ts) = flat_compat_many ts"
| "flat_compat (TStruct cfg ts) = flat_compat_many ts"
| "flat_compat _ = True"
| "flat_compat_many [] = True"
| "flat_compat_many (t # ts) = (flat_compat t \<and> flat_compat_many ts)"

lemma trivial_no_compat:
  "is_trivial_serializable t False tag \<Longrightarrow> \<not> compatible_element_exist ver t"
  "all_trivial_serializable ts False tag \<Longrightarrow> \<not> compatible_element_exist_many ver ts"
proof (induction t False tag and ts False tag
    rule: is_trivial_serializable_all_trivial_serializable.induct)
qed auto

lemma no_compat_versions:
  "\<not> compatible_element_exist None t \<Longrightarrow> \<not> compatible_element_exist (Some n) t"
  "\<not> compatible_element_exist_many None ts \<Longrightarrow> \<not> compatible_element_exist_many (Some n) ts"
  by (induction "None :: nat option" t and "None :: nat option" ts
      rule: compatible_element_exist_compatible_element_exist_many.induct) auto

lemma serialize_compat_absent:
  "\<not> compatible_element_exist (Some ver) t \<Longrightarrow> serialize_compat sw ver t v = []"
  "\<not> compatible_element_exist_many (Some ver) ts \<Longrightarrow> serialize_compat_many sw ver ts vs = []"
  "\<not> compatible_element_exist_many (Some ver) ts \<Longrightarrow> serialize_compat_alt sw ver ts i v = []"
  by (induction sw ver t v and sw ver ts vs and sw ver ts i v
      rule: serialize_compat_serialize_compat_many_serialize_compat_alt.induct)
    (auto split: option.splits sp_val.splits nat.splits)

lemma length_serialize_padded:
  "length pads = length ts \<Longrightarrow>
   length (serialize_padded sw ts vs pads) = length (serialize_many sw 0 ts vs) + sum_list pads"
proof (induction ts arbitrary: vs pads)
  case (Cons t ts)
  then show ?case by (cases pads) auto
qed simp

lemma sum_tl_paddings: "sum_list (tl (calculate_padding_size ts)) = total_padding_size ts"
proof -
  obtain p ps where pp: "calculate_padding_size ts = p # ps"
    using length_calculate_padding_size [of ts] by (cases "calculate_padding_size ts") auto
  then show ?thesis
    using first_padding_0 [of ts] by (simp add: total_padding_size_def)
qed

text \<open>\<open>compat_len V sw t v\<close>: the bytes of all compatible passes for the versions in \<open>V\<close>.\<close>

definition compat_len :: "nat set \<Rightarrow> nat \<Rightarrow> sp_ty \<Rightarrow> sp_val \<Rightarrow> nat" where
  "compat_len V sw t v = (\<Sum>ver \<in> V. length (serialize_compat sw ver t v))"

definition compat_len_many :: "nat set \<Rightarrow> nat \<Rightarrow> sp_ty list \<Rightarrow> sp_val list \<Rightarrow> nat" where
  "compat_len_many V sw ts vs = (\<Sum>ver \<in> V. length (serialize_compat_many sw ver ts vs))"

definition compat_len_alt :: "nat set \<Rightarrow> nat \<Rightarrow> sp_ty list \<Rightarrow> nat \<Rightarrow> sp_val \<Rightarrow> nat" where
  "compat_len_alt V sw ts i v = (\<Sum>ver \<in> V. length (serialize_compat_alt sw ver ts i v))"

lemma compat_len_absent:
  "\<not> compatible_element_exist None t \<Longrightarrow> compat_len V sw t v = 0"
  by (simp add: compat_len_def serialize_compat_absent no_compat_versions)

lemma sum_length_concat:
  "finite V \<Longrightarrow> (\<Sum>ver \<in> V. length (concat (map (f ver) xs))) =
     (\<Sum>x \<leftarrow> xs. \<Sum>ver \<in> V. length (f ver x))"
  by (induction xs) (simp_all add: sum.distrib)

lemma compat_len_simps:
  assumes "finite V"
  shows "compat_len V sw (TFund f) v = 0" "compat_len V sw (TVarint vk) v = 0"
    "compat_len V sw TMono v = 0" "compat_len V sw (TString f) v = 0"
    "compat_len V sw (TUnique t) v = (case val_opt v of None \<Rightarrow> 0 | Some x \<Rightarrow> compat_len V sw t x)"
    "compat_len V sw (TOptional t) v = (case val_opt v of None \<Rightarrow> 0 | Some x \<Rightarrow> compat_len V sw t x)"
    "compat_len V sw (TArray t n) v = (\<Sum>x \<leftarrow> val_list v. compat_len V sw t x)"
    "compat_len V sw (TSeq c t) v = (\<Sum>x \<leftarrow> val_list v. compat_len V sw t x)"
    "compat_len V sw (TSet t) v = (\<Sum>x \<leftarrow> val_list v. compat_len V sw t x)"
    "compat_len V sw (TMap k t) v =
       (\<Sum>x \<leftarrow> val_map v. compat_len V sw k (fst x) + compat_len V sw t (snd x))"
    "compat_len V sw (TTuple ts) v = compat_len_many V sw ts (val_list v)"
    "compat_len V sw (TStruct cfg ts) v = compat_len_many V sw ts (val_list v)"
    "compat_len V sw (TVariant ts) (VVar i x) = compat_len_alt V sw ts i x"
    "compat_len V sw (TExpected t e) (VExp b x) =
       (if b then compat_len V sw t x else compat_len V sw e x)"
    "compat_len_many V sw [] vs = 0"
    "compat_len_many V sw (t # ts) vs = compat_len V sw t (hd vs) + compat_len_many V sw ts (tl vs)"
    "compat_len_alt V sw (t # ts) 0 x = compat_len V sw t x"
    "compat_len_alt V sw (t # ts) (Suc j) x = compat_len_alt V sw ts j x"
    "n \<in> V \<Longrightarrow> compat_len V sw (TCompat t n) v =
       (case val_opt v of None \<Rightarrow> 1 | Some x \<Rightarrow> 1 + length (serialize_one sw 0 t x))"
  using assms
  by (simp_all add: compat_len_def compat_len_many_def compat_len_alt_def sum_length_concat
      sum.distrib if_distrib [of length] sum.delta sum.delta' split: option.splits cong: if_cong)


section \<open>The announced size\<close>

lemma size_each_simps:
  "total (size_each f acc xs) = total acc + (\<Sum>x \<leftarrow> xs. total (f x))"
  "size_cnt (size_each f acc xs) = size_cnt acc + (\<Sum>x \<leftarrow> xs. size_cnt (f x))"
  by (induction xs arbitrary: acc) (simp_all add: size_each_def)

definition wire_len :: "nat \<Rightarrow> size_info \<Rightarrow> nat" where
  "wire_len sw s = total s + sw * size_cnt s"

lemma wire_len_simps [simp]:
  "wire_len sw no_size = 0" "wire_len sw (of_total n) = n"
  "wire_len sw (size_plus a b) = wire_len sw a + wire_len sw b"
  "wire_len sw (size_each f acc xs) = wire_len sw acc + (\<Sum>x \<leftarrow> xs. wire_len sw (f x))"
  "wire_len sw \<lparr>total = n, size_cnt = c, max_size = d\<rparr> = n + sw * c"
  by (simp_all add: wire_len_def size_each_simps algebra_simps sum_list_addf
      sum_list_const_mult)

definition versions_in :: "nat set \<Rightarrow> sp_ty \<Rightarrow> bool" where
  "versions_in V t \<longleftrightarrow> (\<forall>n. compatible_element_exist (Some n) t \<longrightarrow> n \<in> V)"

definition versions_in_many :: "nat set \<Rightarrow> sp_ty list \<Rightarrow> bool" where
  "versions_in_many V ts \<longleftrightarrow> (\<forall>n. compatible_element_exist_many (Some n) ts \<longrightarrow> n \<in> V)"

lemma versions_in_simps [simp]:
  "versions_in V (TArray t n) = versions_in V t"
  "versions_in V (TSeq c t) = versions_in V t" "versions_in V (TSet t) = versions_in V t"
  "versions_in V (TMap k t) \<longleftrightarrow> versions_in V k \<and> versions_in V t"
  "versions_in V (TExpected t e) \<longleftrightarrow> versions_in V t \<and> versions_in V e"
  "versions_in V (TOptional t) = versions_in V t" "versions_in V (TUnique t) = versions_in V t"
  "versions_in V (TVariant ts) = versions_in_many V ts"
  "versions_in V (TTuple ts) = versions_in_many V ts"
  "versions_in V (TStruct cfg ts) = versions_in_many V ts"
  "versions_in V (TCompat t m) \<longleftrightarrow> m \<in> V"
  "versions_in_many V (t # ts) \<longleftrightarrow> versions_in V t \<and> versions_in_many V ts"
  by (auto simp: versions_in_def versions_in_many_def)

lemma no_compat_flat:
  "\<not> compatible_element_exist None t \<Longrightarrow> flat_compat t"
  "\<not> compatible_element_exist_many None ts \<Longrightarrow> flat_compat_many ts"
  by (induction t and ts rule: flat_compat_flat_compat_many.induct) auto

lemma no_compat_versions_in: "\<not> compatible_element_exist None t \<Longrightarrow> versions_in V t"
  by (simp add: versions_in_def no_compat_versions)

lemma fund_range_vrange:
  "fund_range f i \<Longrightarrow> varint_kind (TFund f) tag = Some k \<Longrightarrow> vrange k i"
  by (cases f) (auto simp: fund_range_def varint_kind_def fits_def fund_signed_def fund_size_def
      vrange_def vsigned_def vwidth_def split: if_splits)

lemma length_concat_sum: "length (concat (map f xs)) = (\<Sum>x \<leftarrow> xs. length (f x))"
  by (induction xs) simp_all

lemma trivial_array [simp]:
  "is_trivial_serializable (TArray t n) ign tag = is_trivial_serializable t ign 0"
  "is_trivial_serializable (TStruct cfg ts) ign tag = all_trivial_serializable ts ign cfg"
  by simp_all

text \<open>Elementwise: a list of values of type \<open>t\<close> whose images have the announced lengths.\<close>

lemma sum_list_cong_set: "\<forall>x \<in> set xs. f x = g x \<Longrightarrow> (\<Sum>x \<leftarrow> xs. f x) = (\<Sum>x \<leftarrow> xs. g x)"
  by (induction xs) simp_all

lemma sum_list_plus: "(\<Sum>x \<leftarrow> xs. f x) + (\<Sum>x \<leftarrow> xs. g x) = (\<Sum>x \<leftarrow> xs. f x + g x :: nat)"
  by (simp add: sum_list_addf)

lemma pair_paddings:
  "calculate_padding_size [k, t] ! 1 + calculate_padding_size [k, t] ! 2 = total_padding_size [k, t]"
  using first_padding_0 [of "[k, t]"]
  by (simp add: total_padding_size_def calculate_padding_size_def)

lemma length_obj_struct:
  assumes "all_trivial_serializable ts False cfg" "has_types ts vs"
  shows "length (obj_bytes (TStruct cfg ts) (VList vs)) = ty_size (TStruct cfg ts)"
  using length_obj_bytes(1) [of "TStruct cfg ts" 0 "VList vs"] assms by simp

lemma announced_size:
  assumes fin: "finite V"
  shows "has_type t v \<Longrightarrow> flat_compat t \<Longrightarrow> versions_in V t \<Longrightarrow>
      length (serialize_one sw tag t v) + compat_len V sw t v =
        wire_len sw (calculate_one_size tag t v)"
    "has_types ts vs \<Longrightarrow> flat_compat_many ts \<Longrightarrow> versions_in_many V ts \<Longrightarrow>
      length (serialize_many sw tag ts vs) + compat_len_many V sw ts vs =
        wire_len sw (calculate_payload_size tag ts vs)"
    "has_alt ts i x \<Longrightarrow> flat_compat_many ts \<Longrightarrow> versions_in_many V ts \<Longrightarrow>
      length (serialize_alt sw ts i x) + compat_len_alt V sw ts i x =
        wire_len sw (calculate_alt_size ts i x)"
proof (induction tag t v and tag ts vs and ts i x
    rule: calculate_one_size_calculate_payload_size_calculate_alt_size.induct)
  case (1 tag f v)
  then show ?case
    by (auto simp: compat_len_simps [OF fin] calculate_varint_size_eq fund_range_vrange
        split: option.splits sp_val.splits)
next
  case (2 tag k v)
  then show ?case
    by (auto simp: compat_len_simps [OF fin] calculate_varint_size_eq split: sp_val.splits)
next
  case (3 tag v)
  then show ?case by (simp add: compat_len_simps [OF fin])
next
  case (4 tag t n v)
  then obtain vs where vs: "v = VList vs" "length vs = n" "\<forall>x \<in> set vs. has_type t x"
    by (auto split: sp_val.splits simp: list_all_iff)
  show ?case
  proof (cases "is_trivial_serializable t False 0")
    case True
    have "compat_len V sw (TArray t n) v = 0"
      by (rule compat_len_absent) (use trivial_no_compat(1) [OF True] in simp)
    with True 4 length_obj_bytes(1) [of "TArray t n" 0 v] show ?thesis by simp
  next
    case False
    with 4 vs have "\<forall>x \<in> set vs. length (serialize_one sw 0 t x) + compat_len V sw t x =
        wire_len sw (calculate_one_size 0 t x)" by simp
    from sum_list_cong_set [OF this] False vs show ?thesis
      by (simp add: compat_len_simps [OF fin] length_concat_sum sum_list_plus)
  qed
next
  case (5 tag f v)
  then show ?case
    by (auto simp: compat_len_simps [OF fin] write_size_def length_concat_sum sum_list_triv
        split: sp_val.splits)
next
  case (6 tag c t v)
  then obtain vs where vs: "v = VList vs" "\<forall>x \<in> set vs. has_type t x"
    by (auto split: sp_val.splits simp: list_all_iff)
  show ?case
  proof (cases "c \<and> is_trivial_serializable t False 0")
    case True
    have z: "compat_len V sw (TSeq c t) v = 0"
      by (rule compat_len_absent) (use trivial_no_compat(1) [of t 0 None] True in simp)
    have "\<forall>x \<in> set vs. length (obj_bytes t x) = ty_size t"
      using vs True length_obj_bytes(1) by blast
    from length_concat_const [OF this] z True vs show ?thesis by (simp add: write_size_def)
  next
    case False
    with 6 vs have "\<forall>x \<in> set vs. length (serialize_one sw 0 t x) + compat_len V sw t x =
        wire_len sw (calculate_one_size 0 t x)" by simp
    from sum_list_cong_set [OF this] False vs show ?thesis
      by (auto simp: compat_len_simps [OF fin] length_concat_sum write_size_def
          simp flip: sum_list_plus)
  qed
next
  case (7 tag t v)
  then obtain vs where vs: "v = VList vs" "\<forall>x \<in> set vs. has_type t x"
    by (auto split: sp_val.splits simp: list_all_iff)
  with 7 have "\<forall>x \<in> set vs. length (serialize_one sw 0 t x) + compat_len V sw t x =
      wire_len sw (calculate_one_size 0 t x)" by simp
  from sum_list_cong_set [OF this] vs show ?case
    by (auto simp: compat_len_simps [OF fin] length_concat_sum write_size_def
        simp flip: sum_list_plus)
next
  case (8 tag k t v)
  then obtain kvs where kvs: "v = VMap kvs" "\<forall>x \<in> set kvs. has_type k (fst x) \<and> has_type t (snd x)"
    by (auto split: sp_val.splits simp: list_all_iff)
  let ?sz = "\<lambda>x. if is_trivial_serializable (pair_ty k t) False 0
      then of_total (ty_size (pair_ty k t))
      else size_plus
        (size_plus (calculate_one_size 0 k (fst x)) (calculate_one_size 0 t (snd x)))
        (if is_trivial_serializable (pair_ty k t) True 0
         then of_total (total_padding_size [k, t]) else no_size)"
  let ?ser = "\<lambda>x. if is_trivial_serializable (pair_ty k t) False 0
       then obj_bytes (pair_ty k t) (VList [fst x, snd x])
       else if is_trivial_serializable (pair_ty k t) True 0
       then serialize_one sw 0 k (fst x) @ replicate (calculate_padding_size [k, t] ! 1) 0 @
            serialize_one sw 0 t (snd x) @ replicate (calculate_padding_size [k, t] ! 2) 0
       else serialize_one sw 0 k (fst x) @ serialize_one sw 0 t (snd x)"
  have "\<forall>x \<in> set kvs. length (?ser x) + (compat_len V sw k (fst x) + compat_len V sw t (snd x)) =
      wire_len sw (?sz x)"
  proof
    fix x
    assume x: "x \<in> set kvs"
    show "length (?ser x) + (compat_len V sw k (fst x) + compat_len V sw t (snd x)) =
      wire_len sw (?sz x)"
    proof (cases "is_trivial_serializable (pair_ty k t) False 0")
      case True
      then have "compat_len V sw k (fst x) = 0" "compat_len V sw t (snd x) = 0"
        by (auto intro!: compat_len_absent dest: trivial_no_compat(1))
      moreover have "length (obj_bytes (pair_ty k t) (VList [fst x, snd x])) = ty_size (pair_ty k t)"
        by (rule length_obj_struct) (use True x kvs in auto)
      ultimately show ?thesis using True by simp
    next
      case False
      have "length (serialize_one sw 0 k (fst x)) + compat_len V sw k (fst x) =
          wire_len sw (calculate_one_size 0 k (fst x))"
        "length (serialize_one sw 0 t (snd x)) + compat_len V sw t (snd x) =
          wire_len sw (calculate_one_size 0 t (snd x))"
        using 8 x kvs False by simp_all
      with False show ?thesis by (auto simp flip: pair_paddings)
    qed
  qed
  from sum_list_cong_set [OF this] kvs show ?case
    by (simp add: compat_len_simps [OF fin] length_concat_sum write_size_def
        del: trivial_array flip: sum_list_plus)
next
  case (9 tag t v)
  then show ?case by (auto simp: compat_len_simps [OF fin] split: sp_val.splits option.splits)
next
  case (10 tag t v)
  then show ?case by (auto simp: compat_len_simps [OF fin] split: sp_val.splits option.splits)
next
  case (11 tag t n v)
  then show ?case
    by (auto simp: compat_len_simps [OF fin] compat_len_absent no_compat_flat
        no_compat_versions_in split: sp_val.splits option.splits)
next
  case (12 tag ts v)
  then show ?case by (auto simp: compat_len_simps [OF fin] split: sp_val.splits)
next
  case (13 tag t e v)
  then show ?case by (auto simp: compat_len_simps [OF fin] split: sp_val.splits if_splits)
next
  case (14 tag ts v)
  then show ?case by (auto simp: compat_len_simps [OF fin] split: sp_val.splits)
next
  case (15 tag cfg ts v)
  then obtain vs where vs: "v = VList vs" "has_types ts vs" by (auto split: sp_val.splits)
  show ?case
  proof (cases "all_trivial_serializable ts False cfg")
    case True
    have "compat_len V sw (TStruct cfg ts) v = 0"
      by (rule compat_len_absent) (use trivial_no_compat(2) [OF True] in simp)
    with True vs length_obj_struct [OF True vs(2)] show ?thesis by simp
  next
    case False
    have pads: "length (tl (calculate_padding_size ts)) = length ts" by simp
    from False 15 vs show ?thesis
      by (auto simp: compat_len_simps [OF fin] fast_varint_size length_serialize_padded [OF pads]
          sum_tl_paddings)
  qed
next
  case (16 tag vs)
  then show ?case by (simp add: compat_len_simps [OF fin])
next
  case (17 tag t ts vs)
  then show ?case by (auto simp: compat_len_simps [OF fin] split: list.splits)
next
  case (18 i x)
  then show ?case by simp
next
  case (19 t ts i x)
  then show ?case by (auto simp: compat_len_simps [OF fin] split: nat.splits)
qed

end
