(* ===== verification/SpUnpack.thy ===== *)
theory SpUnpack
  imports SpPackSize
begin

text \<open>
  The deserializer (\<open>unpacker.hpp\<close>) over a \<open>memory_reader\<close> on a little-endian machine.

  \<open>deserialize_one sw tag t item r\<close> is \<open>deserialize_one<size_type, UINT64_MAX, true, tag>(item)\<close>:
  it takes the object that is deserialized into and returns, with the error code and the
  reader, what that object holds afterwards, also when there is an error. \<open>skip_one\<close> is the
  instantiation with \<open>NotSkip = false\<close>, which only moves the reader.

  The list of a set or map is the order of insertion. Not modelled: readers without
  \<open>check\<close>, views, and the address bookkeeping for compatible members inside maps.
\<close>

type_synonym ('r, 'a) desr = "'r \<Rightarrow> errc \<times> 'a \<times> 'r"
type_synonym 'a des = "(memory_reader, 'a) desr"

section \<open>Fresh objects\<close>

text \<open>A value-initialized object.\<close>

fun default_val :: "sp_ty \<Rightarrow> sp_val"
  and default_vals :: "sp_ty list \<Rightarrow> sp_val list" where
  "default_val (TFund f) = VInt 0"
| "default_val (TVarint k) = VInt 0"
| "default_val TMono = VUnit"
| "default_val (TArray t n) = VList (replicate n (default_val t))"
| "default_val (TMap k t) = VMap []"
| "default_val (TOptional t) = VOpt None"
| "default_val (TUnique t) = VOpt None"
| "default_val (TCompat t n) = VOpt None"
| "default_val (TVariant ts) = VVar 0 (hd (default_vals ts))"
| "default_val (TExpected t e) = VExp True (default_val t)"
| "default_val (TTuple ts) = VList (default_vals ts)"
| "default_val (TStruct cfg ts) = VList (default_vals ts)"
| "default_val _ = VList []"
| "default_vals [] = []"
| "default_vals (t # ts) = default_val t # default_vals ts"

text \<open>
  What the standard library implementations leave in an object that was moved from:
  containers and unique pointers are empty, everything else keeps its value.
\<close>

fun moved_from :: "sp_ty \<Rightarrow> sp_val \<Rightarrow> sp_val"
  and moved_from_many :: "sp_ty list \<Rightarrow> sp_val list \<Rightarrow> sp_val list" where
  "moved_from (TString f) v = VList []"
| "moved_from (TSeq c t) v = VList []"
| "moved_from (TSet t) v = VList []"
| "moved_from (TMap k t) v = VMap []"
| "moved_from (TUnique t) v = VOpt None"
| "moved_from (TOptional t) v = VOpt (map_option (\<lambda>x. moved_from t x) (val_opt v))"
| "moved_from (TArray t n) v = VList (map (\<lambda>x. moved_from t x) (val_list v))"
| "moved_from (TTuple ts) v = VList (moved_from_many ts (val_list v))"
| "moved_from (TStruct cfg ts) v = VList (moved_from_many ts (val_list v))"
| "moved_from _ v = v"
| "moved_from_many [] vs = []"
| "moved_from_many (t # ts) vs = moved_from t (hd vs) # moved_from_many ts (tl vs)"

section \<open>Reading a trivially copyable object\<close>

fun obj_of_bytes :: "sp_ty \<Rightarrow> bytes \<Rightarrow> sp_val"
  and members_of_bytes :: "sp_ty list \<Rightarrow> bytes \<Rightarrow> nat \<Rightarrow> sp_val list" where
  "obj_of_bytes (TFund f) bs = VInt (int_of_bytes (fund_signed f) bs)"
| "obj_of_bytes TMono bs = VUnit"
| "obj_of_bytes (TArray t n) bs =
     VList (map (\<lambda>i. obj_of_bytes t (take (ty_size t) (drop (i * ty_size t) bs))) [0..<n])"
| "obj_of_bytes (TStruct cfg ts) bs = VList (members_of_bytes ts bs 0)"
| "obj_of_bytes _ bs = VUnit"
| "members_of_bytes [] bs offset = []"
| "members_of_bytes (t # ts) bs offset =
     (let at = offset + pad_to (ty_align t) offset
      in obj_of_bytes t (take (ty_size t) (drop at bs)) # members_of_bytes ts bs (at + ty_size t))"

section \<open>Loops\<close>

text \<open>\<open>for (auto &i : item) { code = d(i); if (code) return code; }\<close>\<close>

primrec des_each :: "(sp_val \<Rightarrow> ('r, sp_val) desr) \<Rightarrow> sp_val list \<Rightarrow> ('r, sp_val list) desr" where
  "des_each d [] r = (Ok, [], r)"
| "des_each d (x # xs) r =
     (let (ec, x', r') = d x r
      in if is_err ec then (ec, x' # xs, r')
         else let (ec', xs', r'') = des_each d xs r' in (ec', x' # xs', r''))"

text \<open>\<open>item.emplace_back(); code = d(item.back());\<close> for \<open>size\<close> times.\<close>

primrec des_emplace_back :: "sp_val des \<Rightarrow> nat \<Rightarrow> sp_val list des" where
  "des_emplace_back d 0 r = (Ok, [], r)"
| "des_emplace_back d (Suc n) r =
     (let (ec, x, r') = d r
      in if is_err ec then (ec, [x], r')
         else let (ec', xs, r'') = des_emplace_back d n r' in (ec', x # xs, r''))"

text \<open>\<open>code = d(value); item.emplace(std::move(value));\<close>\<close>

primrec des_set ::
  "(sp_val \<Rightarrow> sp_val des) \<Rightarrow> (sp_val \<Rightarrow> sp_val) \<Rightarrow> nat \<Rightarrow> sp_val \<Rightarrow> sp_val list \<Rightarrow> sp_val list des" where
  "des_set d mv 0 val item r = (Ok, item, r)"
| "des_set d mv (Suc n) val item r =
     (let (ec, x, r') = d val r
      in if is_err ec then (ec, item, r')
         else des_set d mv n (mv x) (if x \<in> set item then item else item @ [x]) r')"

text \<open>
  The map loop with \<open>deserialize_map_value\<close>: the key is read into a fresh object, and
  \<open>try_emplace\<close> appends a fresh mapped object, which is deserialized in place; the value
  of a key that is already present is skipped.
\<close>

definition deserialize_map_value ::
  "sp_val des \<Rightarrow> (memory_reader \<Rightarrow> errc \<times> memory_reader) \<Rightarrow> sp_val \<Rightarrow> (sp_val \<times> sp_val) list \<Rightarrow>
     (sp_val \<times> sp_val) list des" where
  "deserialize_map_value dv skip key item r =
     (if key \<in> fst ` set item
      then let (ec, r') = skip r in (ec, item, r')
      else let (ec, x, r') = dv r in (ec, item @ [(key, x)], r'))"

primrec des_map ::
  "sp_val des \<Rightarrow> sp_val des \<Rightarrow> (memory_reader \<Rightarrow> errc \<times> memory_reader) \<Rightarrow> nat \<Rightarrow>
     (sp_val \<times> sp_val) list \<Rightarrow> (sp_val \<times> sp_val) list des" where
  "des_map dk dv skip 0 item r = (Ok, item, r)"
| "des_map dk dv skip (Suc n) item r =
     (let (ec, key, r') = dk r
      in if is_err ec then (ec, item, r')
         else
           let (ec', item', r'') = deserialize_map_value dv skip key item r'
           in if is_err ec' then (ec', item', r'') else des_map dk dv skip n item' r'')"

primrec skip_times :: "(memory_reader \<Rightarrow> errc \<times> memory_reader) \<Rightarrow> nat \<Rightarrow> memory_reader \<Rightarrow>
    errc \<times> memory_reader" where
  "skip_times d 0 r = (Ok, r)"
| "skip_times d (Suc n) r =
     (let (ec, r') = d r in if is_err ec then (ec, r') else skip_times d n r')"

text \<open>\<open>reader_.ignore(n) ? errc{} : errc::no_buffer_space\<close>, also for a padding.\<close>

definition ignore_bytes :: "nat \<Rightarrow> memory_reader \<Rightarrow> errc \<times> memory_reader" where
  "ignore_bytes n r = (case rd_ignore n r of None \<Rightarrow> (NoBufferSpace, r) | Some r' \<Rightarrow> (Ok, r'))"

definition ignore_padding :: "nat \<Rightarrow> memory_reader \<Rightarrow> errc \<times> memory_reader" where
  "ignore_padding sz r = (if sz > 0 then ignore_bytes sz r else (Ok, r))"

definition read_size :: "nat \<Rightarrow> memory_reader \<Rightarrow> (nat \<times> memory_reader) option" where
  "read_size sw r = map_option (\<lambda>(bs, r'). (le_nat bs, r')) (rd_read sw r)"

definition SIZE_MAX :: nat where "SIZE_MAX = 2 ^ 64 - 1"

text \<open>\<open>size > SIZE_MAX / sizeof(value_type)\<close>, checked when an element has several bytes.\<close>

definition size_overflow :: "nat \<Rightarrow> nat \<Rightarrow> bool" where
  "size_overflow n elem \<longleftrightarrow> elem > 1 \<and> n > SIZE_MAX div elem"

text \<open>\<open>get_varint_value(item) = ...\<close> for the members read from a fast-varint block.\<close>

primrec put_fast :: "u64 \<Rightarrow> sp_ty list \<Rightarrow> sp_val list \<Rightarrow> int list \<Rightarrow> sp_val list" where
  "put_fast tag [] vs is = []"
| "put_fast tag (t # ts) vs is =
     (case varint_kind t tag of
        Some k \<Rightarrow> VInt (hd is) # put_fast tag ts (tl vs) (tl is)
      | None \<Rightarrow> hd vs # put_fast tag ts (tl vs) is)"

section \<open>Skipping\<close>

fun skip_one :: "nat \<Rightarrow> u64 \<Rightarrow> sp_ty \<Rightarrow> memory_reader \<Rightarrow> errc \<times> memory_reader"
  and skip_many :: "nat \<Rightarrow> u64 \<Rightarrow> sp_ty list \<Rightarrow> memory_reader \<Rightarrow> errc \<times> memory_reader"
  and skip_padded :: "nat \<Rightarrow> sp_ty list \<Rightarrow> nat list \<Rightarrow> memory_reader \<Rightarrow> errc \<times> memory_reader"
  and skip_alt :: "nat \<Rightarrow> sp_ty list \<Rightarrow> nat \<Rightarrow> memory_reader \<Rightarrow> memory_reader" where
  "skip_one sw tag (TFund f) r =
     (case varint_kind (TFund f) tag of
        Some k \<Rightarrow> if is_enable_fast_varint_coding tag then (Ok, r)
          else (case deserialize_varint False k 0 r of (ec, _, r') \<Rightarrow> (ec, r'))
      | None \<Rightarrow> ignore_bytes (fund_size f) r)"
| "skip_one sw tag (TVarint k) r =
     (if is_enable_fast_varint_coding tag then (Ok, r)
      else case deserialize_varint False k 0 r of (ec, _, r') \<Rightarrow> (ec, r'))"
| "skip_one sw tag TMono r = (Ok, r)"
| "skip_one sw tag (TCompat t n) r = (Ok, r)"
| "skip_one sw tag (TUnique t) r =
     (case rd_read 1 r of None \<Rightarrow> (NoBufferSpace, r)
      | Some (bs, r') \<Rightarrow> if hd bs = 0 then (Ok, r') else (Ok, snd (skip_one sw 0 t r')))"
| "skip_one sw tag (TArray t n) r =
     (if is_trivial_serializable t False 0 then ignore_bytes (n * ty_size t) r
      else skip_times (\<lambda>r. skip_one sw 0 t r) n r)"
| "skip_one sw tag (TString f) r =
     (case read_size sw r of None \<Rightarrow> (NoBufferSpace, r)
      | Some (n, r') \<Rightarrow>
          if n = 0 then (Ok, r')
          else if size_overflow n (fund_size f) then (NoBufferSpace, r')
          else ignore_bytes (n * fund_size f) r')"
| "skip_one sw tag (TSeq c t) r =
     (case read_size sw r of None \<Rightarrow> (NoBufferSpace, r)
      | Some (n, r') \<Rightarrow>
          if n = 0 then (Ok, r')
          else if c \<and> is_trivial_serializable t False 0 then
            (if size_overflow n (ty_size t) then (NoBufferSpace, r')
             else ignore_bytes (n * ty_size t) r')
          else skip_times (\<lambda>r. skip_one sw 0 t r) n r')"
| "skip_one sw tag (TSet t) r =
     (case read_size sw r of None \<Rightarrow> (NoBufferSpace, r)
      | Some (n, r') \<Rightarrow>
          if n = 0 then (Ok, r')
          else if is_trivial_serializable t False 0 then
            (if size_overflow n (ty_size t) then (NoBufferSpace, r')
             else ignore_bytes (n * ty_size t) r')
          else skip_times (\<lambda>r. skip_one sw 0 t r) n r')"
| "skip_one sw tag (TMap k t) r =
     (case read_size sw r of None \<Rightarrow> (NoBufferSpace, r)
      | Some (n, r') \<Rightarrow>
          if n = 0 then (Ok, r')
          else if is_trivial_serializable (pair_ty k t) False 0 then
            (if size_overflow n (ty_size (pair_ty k t)) then (NoBufferSpace, r')
             else ignore_bytes (n * ty_size (pair_ty k t)) r')
          else skip_times (\<lambda>r.
            let padded = is_trivial_serializable (pair_ty k t) True 0;
                (ec, r1) = skip_one sw 0 k r
            in if is_err ec then (ec, r1)
               else
                 let (ec, r2) = (if padded then ignore_padding (calculate_padding_size [k, t] ! 1) r1
                                 else (Ok, r1))
                 in if is_err ec then (ec, r2)
                    else
                      let (ec, r3) = skip_one sw 0 t r2
                      in if is_err ec then (ec, r3)
                         else if padded then ignore_padding (calculate_padding_size [k, t] ! 2) r3
                         else (Ok, r3)) n r')"
| "skip_one sw tag (TTuple ts) r = skip_many sw 0 ts r"
| "skip_one sw tag (TOptional t) r =
     (case rd_read 1 r of None \<Rightarrow> (NoBufferSpace, r)
      | Some (bs, r') \<Rightarrow> if hd bs = 0 then (Ok, r') else (Ok, snd (skip_one sw 0 t r')))"
| "skip_one sw tag (TExpected t e) r =
     (case rd_read 1 r of None \<Rightarrow> (NoBufferSpace, r)
      | Some (bs, r') \<Rightarrow>
          if hd bs = 0 then (Ok, snd (skip_one sw 0 e r')) else (Ok, snd (skip_one sw 0 t r')))"
| "skip_one sw tag (TVariant ts) r =
     (case rd_read 1 r of None \<Rightarrow> (NoBufferSpace, r)
      | Some (bs, r') \<Rightarrow>
          if unat (hd bs) \<ge> length ts then (InvalidBuffer, r')
          else (Ok, skip_alt sw ts (unat (hd bs)) r'))"
| "skip_one sw tag (TStruct cfg ts) r =
     (if is_trivial_serializable (TStruct cfg ts) False 0
      then ignore_bytes (ty_size (TStruct cfg ts)) r
      else if is_trivial_serializable (TStruct cfg ts) True 0
      then skip_padded sw ts (tl (calculate_padding_size ts)) r
      else if is_enable_fast_varint_coding cfg then
        (let (ec, _, r') = deserialize_fast_varint False (fast_members cfg ts (default_vals ts)) r
         in if is_err ec then (ec, r') else skip_many sw cfg ts r')
      else skip_many sw cfg ts r)"
| "skip_many sw tag [] r = (Ok, r)"
| "skip_many sw tag (t # ts) r =
     (let (ec, r') = skip_one sw tag t r
      in if is_err ec then (ec, r') else skip_many sw tag ts r')"
| "skip_padded sw [] pads r = (Ok, r)"
| "skip_padded sw (t # ts) pads r =
     (let (ec, r') = skip_one sw 0 t r
      in if is_err ec then (ec, r')
         else
           let (ec', r'') = ignore_padding (hd pads) r'
           in if is_err ec' then (ec', r'') else skip_padded sw ts (tl pads) r'')"
| "skip_alt sw [] i r = r"
| "skip_alt sw (t # ts) i r =
     (case i of 0 \<Rightarrow> snd (skip_one sw 0 t r) | Suc j \<Rightarrow> skip_alt sw ts j r)"

section \<open>Deserialization\<close>

text \<open>
  \<open>expected::value()\<close> on an object that holds an error throws; what a caller sees then is
  outside the model, so nothing is claimed about it.
\<close>

definition expected_value :: "sp_val \<Rightarrow> sp_val" where
  "expected_value item = (case item of VExp True x \<Rightarrow> x | _ \<Rightarrow> undefined)"

text \<open>
  The branches of \<open>deserialize_one\<close>, one definition each, over the deserializers of the parts.
  Those for unique pointers, optionals, \<open>expected\<close> and variants ignore the code that the nested
  call returns, as the source does.
\<close>

definition des_varint :: "u64 \<Rightarrow> vkind \<Rightarrow> sp_val \<Rightarrow> sp_val des" where
  "des_varint tag k item r =
     (if is_enable_fast_varint_coding tag then (Ok, item, r)
      else case deserialize_varint True k (val_int item) r of (ec, i, r') \<Rightarrow> (ec, VInt i, r'))"

text \<open>A trivially copyable object of type \<open>t\<close>, read as a block.\<close>

definition des_trivial :: "sp_ty \<Rightarrow> sp_val \<Rightarrow> sp_val des" where
  "des_trivial t item r =
     (case rd_read (ty_size t) r of None \<Rightarrow> (NoBufferSpace, item, r)
      | Some (bs, r') \<Rightarrow> (Ok, obj_of_bytes t bs, r'))"

definition des_fund :: "u64 \<Rightarrow> fund \<Rightarrow> sp_val \<Rightarrow> sp_val des" where
  "des_fund tag f item r =
     (case varint_kind (TFund f) tag of
        Some k \<Rightarrow> des_varint tag k item r
      | None \<Rightarrow> des_trivial (TFund f) item r)"

definition des_nullable :: "sp_val des \<Rightarrow> sp_val \<Rightarrow> sp_val des" where
  "des_nullable d item r =
     (case rd_read 1 r of None \<Rightarrow> (NoBufferSpace, item, r)
      | Some (bs, r') \<Rightarrow>
          if hd bs = 0 then (Ok, item, r')
          else (case d r' of (_, x, r'') \<Rightarrow> (Ok, VOpt (Some x), r'')))"

definition des_array :: "sp_ty \<Rightarrow> nat \<Rightarrow> (sp_val \<Rightarrow> sp_val des) \<Rightarrow> sp_val \<Rightarrow> sp_val des" where
  "des_array t n d item r =
     (if is_trivial_serializable t False 0 then des_trivial (TArray t n) item r
      else (case des_each d (val_list item) r of (ec, xs, r') \<Rightarrow> (ec, VList xs, r')))"

text \<open>\<open>check\<close>, \<open>resize\<close> and a block read of \<open>n\<close> elements.\<close>

definition des_block :: "sp_ty \<Rightarrow> nat \<Rightarrow> sp_val \<Rightarrow> sp_val des" where
  "des_block t n item r =
     (if size_overflow n (ty_size t) \<or> \<not> rd_check (n * ty_size t) r then (NoBufferSpace, item, r)
      else des_trivial (TArray t n) item r)"

definition des_container :: "nat \<Rightarrow> (nat \<Rightarrow> sp_val des) \<Rightarrow> sp_val \<Rightarrow> sp_val des" where
  "des_container sw d item r =
     (case read_size sw r of None \<Rightarrow> (NoBufferSpace, item, r)
      | Some (n, r') \<Rightarrow> if n = 0 then (Ok, item, r') else d n r')"

definition des_seq :: "bool \<Rightarrow> sp_ty \<Rightarrow> sp_val des \<Rightarrow> sp_val \<Rightarrow> nat \<Rightarrow> sp_val des" where
  "des_seq c t d item n r =
     (if c \<and> is_trivial_serializable t False 0 then des_block t n item r
      else (case des_emplace_back d n r of (ec, xs, r') \<Rightarrow> (ec, VList xs, r')))"

definition des_set_branch :: "sp_ty \<Rightarrow> (sp_val \<Rightarrow> sp_val des) \<Rightarrow> nat \<Rightarrow> sp_val des" where
  "des_set_branch t d n r =
     (case des_set d (moved_from t) n (default_val t) [] r of (ec, xs, r') \<Rightarrow> (ec, VList xs, r'))"

definition des_map_branch ::
  "sp_val des \<Rightarrow> sp_val des \<Rightarrow> (memory_reader \<Rightarrow> errc \<times> memory_reader) \<Rightarrow> sp_val \<Rightarrow> nat \<Rightarrow> sp_val des" where
  "des_map_branch dk dv skip item n r =
     (case des_map dk dv skip n (val_map item) r of (ec, kvs, r') \<Rightarrow> (ec, VMap kvs, r'))"

definition des_expected :: "(sp_val \<Rightarrow> sp_val des) \<Rightarrow> sp_val des \<Rightarrow> sp_val \<Rightarrow> sp_val des" where
  "des_expected dv de item r =
     (case rd_read 1 r of None \<Rightarrow> (NoBufferSpace, item, r)
      | Some (bs, r') \<Rightarrow>
          if hd bs = 0
          then (case de r' of (_, x, r'') \<Rightarrow> (Ok, VExp False x, r''))
          else (case dv (expected_value item) r' of (_, x, r'') \<Rightarrow> (Ok, VExp True x, r'')))"

definition des_variant ::
  "nat \<Rightarrow> (nat \<Rightarrow> memory_reader \<Rightarrow> sp_val \<times> memory_reader) \<Rightarrow> sp_val \<Rightarrow> sp_val des" where
  "des_variant cnt d item r =
     (case rd_read 1 r of None \<Rightarrow> (NoBufferSpace, item, r)
      | Some (bs, r') \<Rightarrow>
          if unat (hd bs) \<ge> cnt then (InvalidBuffer, item, r')
          else (case d (unat (hd bs)) r' of (x, r'') \<Rightarrow> (Ok, VVar (unat (hd bs)) x, r'')))"

definition des_list :: "(sp_val list \<Rightarrow> ('r, sp_val list) desr) \<Rightarrow> sp_val list \<Rightarrow> ('r, sp_val) desr" where
  "des_list d vs r = (case d vs r of (ec, xs, r') \<Rightarrow> (ec, VList xs, r'))"

definition des_class ::
  "u64 \<Rightarrow> sp_ty list \<Rightarrow> (sp_val list \<Rightarrow> sp_val list des) \<Rightarrow> (sp_val list \<Rightarrow> sp_val list des) \<Rightarrow>
     sp_val \<Rightarrow> sp_val des" where
  "des_class cfg ts padded many item r =
     (if is_trivial_serializable (TStruct cfg ts) False 0 then des_trivial (TStruct cfg ts) item r
      else if is_trivial_serializable (TStruct cfg ts) True 0 then des_list padded (val_list item) r
      else if is_enable_fast_varint_coding cfg then
        (case deserialize_fast_varint True (fast_members cfg ts (val_list item)) r of
           (ec, ns, r') \<Rightarrow>
             (let vs = put_fast cfg ts (val_list item) ns
              in if is_err ec then (ec, VList vs, r') else des_list many vs r'))
      else des_list many (val_list item) r)"

definition des_many_step ::
  "(sp_val \<Rightarrow> ('r, sp_val) desr) \<Rightarrow> (sp_val list \<Rightarrow> ('r, sp_val list) desr) \<Rightarrow>
     sp_val list \<Rightarrow> ('r, sp_val list) desr" where
  "des_many_step d others vs r =
     (case d (hd vs) r of
        (ec, x, r') \<Rightarrow>
          if is_err ec then (ec, x # tl vs, r')
          else (case others (tl vs) r' of (ec', xs, r'') \<Rightarrow> (ec', x # xs, r'')))"

definition des_padded_step ::
  "nat \<Rightarrow> (sp_val \<Rightarrow> sp_val des) \<Rightarrow> (sp_val list \<Rightarrow> sp_val list des) \<Rightarrow> sp_val list \<Rightarrow> sp_val list des" where
  "des_padded_step pad d others vs r =
     (case d (hd vs) r of
        (ec, x, r1) \<Rightarrow>
          if is_err ec then (ec, x # tl vs, r1)
          else (case ignore_padding pad r1 of
                  (ec', r2) \<Rightarrow>
                    if is_err ec' then (ec', x # tl vs, r2)
                    else (case others (tl vs) r2 of (ec'', xs, r3) \<Rightarrow> (ec'', x # xs, r3))))"

fun deserialize_one :: "nat \<Rightarrow> u64 \<Rightarrow> sp_ty \<Rightarrow> sp_val \<Rightarrow> sp_val des"
  and deserialize_many :: "nat \<Rightarrow> u64 \<Rightarrow> sp_ty list \<Rightarrow> sp_val list \<Rightarrow> sp_val list des"
  and deserialize_padded :: "nat \<Rightarrow> sp_ty list \<Rightarrow> nat list \<Rightarrow> sp_val list \<Rightarrow> sp_val list des"
  and deserialize_alt :: "nat \<Rightarrow> sp_ty list \<Rightarrow> nat \<Rightarrow> memory_reader \<Rightarrow> sp_val \<times> memory_reader" where
  "deserialize_one sw tag (TFund f) = des_fund tag f"
| "deserialize_one sw tag (TVarint k) = des_varint tag k"
| "deserialize_one sw tag TMono = (\<lambda>item r. (Ok, item, r))"
| "deserialize_one sw tag (TCompat t n) = (\<lambda>item r. (Ok, item, r))"
| "deserialize_one sw tag (TUnique t) = des_nullable (deserialize_one sw 0 t (default_val t))"
| "deserialize_one sw tag (TOptional t) = des_nullable (deserialize_one sw 0 t (default_val t))"
| "deserialize_one sw tag (TArray t n) = des_array t n (deserialize_one sw 0 t)"
| "deserialize_one sw tag (TString f) =
     (\<lambda>item. des_container sw (\<lambda>n. des_block (TFund f) n item) item)"
| "deserialize_one sw tag (TSeq c t) =
     (\<lambda>item. des_container sw (des_seq c t (deserialize_one sw 0 t (default_val t)) item) item)"
| "deserialize_one sw tag (TSet t) =
     (\<lambda>item. des_container sw (des_set_branch t (deserialize_one sw 0 t)) item)"
| "deserialize_one sw tag (TMap k t) =
     (\<lambda>item. des_container sw
       (des_map_branch (deserialize_one sw 0 k (default_val k))
          (deserialize_one sw 0 t (default_val t)) (skip_one sw 0 t) item) item)"
| "deserialize_one sw tag (TTuple ts) = (\<lambda>item. des_list (deserialize_many sw 0 ts) (val_list item))"
| "deserialize_one sw tag (TExpected t e) =
     des_expected (deserialize_one sw 0 t) (deserialize_one sw 0 e (default_val e))"
| "deserialize_one sw tag (TVariant ts) = des_variant (length ts) (deserialize_alt sw ts)"
| "deserialize_one sw tag (TStruct cfg ts) =
     des_class cfg ts (deserialize_padded sw ts (tl (calculate_padding_size ts)))
       (deserialize_many sw cfg ts)"
| "deserialize_many sw tag [] = (\<lambda>vs r. (Ok, [], r))"
| "deserialize_many sw tag (t # ts) =
     des_many_step (deserialize_one sw tag t) (deserialize_many sw tag ts)"
| "deserialize_padded sw [] pads = (\<lambda>vs r. (Ok, [], r))"
| "deserialize_padded sw (t # ts) pads =
     des_padded_step (hd pads) (deserialize_one sw 0 t) (deserialize_padded sw ts (tl pads))"
| "deserialize_alt sw [] i = (\<lambda>r. (VUnit, r))"
| "deserialize_alt sw (t # ts) i =
     (case i of 0 \<Rightarrow> (\<lambda>r. snd (deserialize_one sw 0 t (default_val t) r))
      | Suc j \<Rightarrow> deserialize_alt sw ts j)"

end
