(* ===== verification/SpRoundtrip.thy ===== *)
theory SpRoundtrip
  imports SpUnpack
begin

text \<open>
  What the serializer writes in its main pass the deserializer reads back: the types for
  which this holds (\<open>wf_ty\<close>), the objects it may be read into (\<open>target\<close>), and the proof,
  one lemma per branch of \<open>deserialize_one\<close>.
\<close>

section \<open>Readers of an encoding\<close>

text \<open>
  \<open>reads d bs x\<close>: started in front of \<open>bs\<close>, the deserializer \<open>d\<close> succeeds with \<open>x\<close> and stops
  right behind \<open>bs\<close>, whatever follows.
\<close>

definition reads :: "'a des \<Rightarrow> bytes \<Rightarrow> 'a \<Rightarrow> bool" where
  "reads d bs x \<longleftrightarrow> (\<forall>r sfx. rest r = bs @ sfx \<longrightarrow> d r = (Ok, x, advance (length bs) r))"

lemma readsD: "reads d bs x \<Longrightarrow> rest r = bs @ sfx \<Longrightarrow> d r = (Ok, x, advance (length bs) r)"
  by (simp add: reads_def)

lemma readsI: "(\<And>r sfx. rest r = bs @ sfx \<Longrightarrow> d r = (Ok, x, advance (length bs) r)) \<Longrightarrow> reads d bs x"
  by (simp add: reads_def)

lemma rest_advance_append: "rest r = bs @ sfx \<Longrightarrow> rest (advance (length bs) r) = sfx"
  by simp

lemma reads_each:
  assumes "length items = length vs"
    and "\<forall>i < length vs. reads (d (items ! i)) (enc (vs ! i)) (res (vs ! i))"
  shows "reads (des_each d items) (concat (map enc vs)) (map res vs)"
  using assms
proof (induction items vs rule: list_induct2)
  case Nil
  show ?case by (rule readsI) simp
next
  case (Cons it items v vs)
  have one: "reads (d it) (enc v) (res v)" using Cons.prems by (metis length_greater_0_conv list.distinct(1) nth_Cons_0)
  have "\<forall>i < length vs. reads (d (items ! i)) (enc (vs ! i)) (res (vs ! i))"
    using Cons.prems by (metis Suc_less_eq length_Cons nth_Cons_Suc)
  then have all: "reads (des_each d items) (concat (map enc vs)) (map res vs)" by (rule Cons.IH)
  show ?case
  proof (rule readsI)
    fix r :: memory_reader and sfx
    assume r: "rest r = concat (map enc (v # vs)) @ sfx"
    then have "d it r = (Ok, res v, advance (length (enc v)) r)"
      by (intro readsD [OF one, where sfx = "concat (map enc vs) @ sfx"]) simp
    moreover have "des_each d items (advance (length (enc v)) r) =
        (Ok, map res vs, advance (length (concat (map enc vs))) (advance (length (enc v)) r))"
      by (rule readsD [OF all, where sfx = sfx]) (use r in simp)
    ultimately show "des_each d (it # items) r =
        (Ok, map res (v # vs), advance (length (concat (map enc (v # vs)))) r)" by simp
  qed
qed

text \<open>The contract between an element type and the containers that hold it.\<close>

locale element_codec =
  fixes enc :: "sp_val \<Rightarrow> bytes"
    and dec :: "sp_val des"
    and valid :: "sp_val \<Rightarrow> bool"
    and res :: "sp_val \<Rightarrow> sp_val"
  assumes dec_enc: "valid v \<Longrightarrow> reads dec (enc v) (res v)"
begin

lemma reads_emplace_back:
  "\<forall>v \<in> set vs. valid v \<Longrightarrow>
   reads (des_emplace_back dec (length vs)) (concat (map enc vs)) (map res vs)"
proof (induction vs)
  case Nil
  show ?case by (rule readsI) simp
next
  case (Cons v vs)
  have one: "reads dec (enc v) (res v)" using Cons.prems by (intro dec_enc) simp
  have all: "reads (des_emplace_back dec (length vs)) (concat (map enc vs)) (map res vs)"
    using Cons by simp
  show ?case
  proof (rule readsI)
    fix r :: memory_reader and sfx
    assume r: "rest r = concat (map enc (v # vs)) @ sfx"
    then have "dec r = (Ok, res v, advance (length (enc v)) r)"
      by (intro readsD [OF one, where sfx = "concat (map enc vs) @ sfx"]) simp
    moreover have "des_emplace_back dec (length vs) (advance (length (enc v)) r) =
        (Ok, map res vs, advance (length (concat (map enc vs))) (advance (length (enc v)) r))"
      by (rule readsD [OF all, where sfx = sfx]) (use r in simp)
    ultimately show "des_emplace_back dec (length (v # vs)) r =
        (Ok, map res (v # vs), advance (length (concat (map enc (v # vs)))) r)" by simp
  qed
qed

lemma reads_nullable: "valid v \<Longrightarrow> reads (des_nullable dec item) (1 # enc v) (VOpt (Some (res v)))"
proof (rule readsI)
  fix r :: memory_reader and sfx
  assume v: "valid v" and r: "rest r = (1 # enc v) @ sfx"
  have "rd_read 1 r = Some ([1], advance 1 r)"
    by (rule rd_read_append [where sfx = "enc v @ sfx"]) (use r in simp_all)
  moreover have "dec (advance 1 r) = (Ok, res v, advance (length (enc v)) (advance 1 r))"
    by (rule readsD [OF dec_enc [OF v], where sfx = sfx]) (use r in simp)
  ultimately show "des_nullable dec item r =
      (Ok, VOpt (Some (res v)), advance (length (1 # enc v)) r)"
    by (simp add: des_nullable_def)
qed

end

lemma reads_null: "reads (des_nullable d item) [0] item"
proof (rule readsI)
  fix r :: memory_reader and sfx
  assume "rest r = [0] @ sfx"
  then have "rd_read 1 r = Some ([0], advance 1 r)" by (simp add: rd_read_append)
  then show "des_nullable d item r = (Ok, item, advance (length [0 :: byte]) r)"
    by (simp add: des_nullable_def)
qed

text \<open>A set: the elements are read one after the other into the same object.\<close>

lemma reads_set:
  assumes "\<forall>v \<in> set vs. \<forall>item. tgt item \<longrightarrow> reads (d item) (enc v) v"
    and "tgt item0" and "\<forall>v \<in> set vs. tgt (mv v)" and "distinct (acc @ vs)"
  shows "reads (des_set d mv (length vs) item0 acc) (concat (map enc vs)) (acc @ vs)"
  using assms
proof (induction vs arbitrary: item0 acc)
  case Nil
  show ?case by (rule readsI) simp
next
  case (Cons v vs)
  have one: "reads (d item0) (enc v) v" using Cons.prems by simp
  have all: "reads (des_set d mv (length vs) (mv v) (acc @ [v])) (concat (map enc vs))
      ((acc @ [v]) @ vs)"
    by (rule Cons.IH) (use Cons.prems in simp_all)
  show ?case
  proof (rule readsI)
    fix r :: memory_reader and sfx
    assume r: "rest r = concat (map enc (v # vs)) @ sfx"
    then have "d item0 r = (Ok, v, advance (length (enc v)) r)"
      by (intro readsD [OF one, where sfx = "concat (map enc vs) @ sfx"]) simp
    moreover have "des_set d mv (length vs) (mv v) (acc @ [v]) (advance (length (enc v)) r) =
        (Ok, (acc @ [v]) @ vs,
         advance (length (concat (map enc vs))) (advance (length (enc v)) r))"
      by (rule readsD [OF all, where sfx = sfx]) (use r in simp)
    ultimately show "des_set d mv (length (v # vs)) item0 acc r =
        (Ok, acc @ v # vs, advance (length (concat (map enc (v # vs)))) r)"
      using Cons.prems(4) by simp
  qed
qed

lemma reads_map:
  assumes "\<forall>x \<in> set kvs. reads dk (enck (fst x)) (fst x) \<and> reads dv (encv (snd x)) (res (snd x))"
    and "distinct (map fst acc @ map fst kvs)"
  shows "reads (des_map dk dv skip (length kvs) acc)
    (concat (map (\<lambda>x. enck (fst x) @ encv (snd x)) kvs))
    (acc @ map (\<lambda>x. (fst x, res (snd x))) kvs)"
  using assms
proof (induction kvs arbitrary: acc)
  case Nil
  show ?case by (rule readsI) simp
next
  case (Cons x kvs)
  obtain k v where x: "x = (k, v)" by (cases x)
  have k: "reads dk (enck k) k" and v: "reads dv (encv v) (res v)"
    using Cons.prems x by simp_all
  have all: "reads (des_map dk dv skip (length kvs) (acc @ [(k, res v)]))
      (concat (map (\<lambda>x. enck (fst x) @ encv (snd x)) kvs))
      ((acc @ [(k, res v)]) @ map (\<lambda>x. (fst x, res (snd x))) kvs)"
    by (rule Cons.IH) (use Cons.prems x in simp_all)
  show ?case
  proof (rule readsI)
    fix r :: memory_reader and sfx
    let ?bs = "concat (map (\<lambda>x. enck (fst x) @ encv (snd x)) kvs)"
    assume r: "rest r = concat (map (\<lambda>x. enck (fst x) @ encv (snd x)) (x # kvs)) @ sfx"
    let ?r1 = "advance (length (enck k)) r"
    let ?r2 = "advance (length (encv v)) ?r1"
    have "dk r = (Ok, k, ?r1)"
      by (rule readsD [OF k, where sfx = "encv v @ ?bs @ sfx"]) (use r x in simp)
    moreover have "dv ?r1 = (Ok, res v, ?r2)"
      by (rule readsD [OF v, where sfx = "?bs @ sfx"]) (use r x in simp)
    moreover have "des_map dk dv skip (length kvs) (acc @ [(k, res v)]) ?r2 =
        (Ok, (acc @ [(k, res v)]) @ map (\<lambda>x. (fst x, res (snd x))) kvs, advance (length ?bs) ?r2)"
      by (rule readsD [OF all, where sfx = sfx]) (use r x in simp)
    moreover have "k \<notin> fst ` set acc" using Cons.prems x by auto
    ultimately show "des_map dk dv skip (length (x # kvs)) acc r =
        (Ok, acc @ map (\<lambda>x. (fst x, res (snd x))) (x # kvs),
         advance (length (concat (map (\<lambda>x. enck (fst x) @ encv (snd x)) (x # kvs)))) r)"
      by (simp add: deserialize_map_value_def x add.assoc)
  qed
qed

lemma read_size_append:
  "n < 256 ^ sw \<Longrightarrow> rest r = write_size sw n @ sfx \<Longrightarrow> read_size sw r = Some (n, advance sw r)"
  using rd_read_append [of r "le_bytes sw n" sfx sw]
  by (simp add: read_size_def write_size_def le_nat_le_bytes_id)

lemma reads_container:
  assumes "n < 256 ^ sw" "0 < n" "reads (d n) bs x"
  shows "reads (des_container sw d item) (write_size sw n @ bs) x"
proof (rule readsI)
  fix r :: memory_reader and sfx
  assume r: "rest r = (write_size sw n @ bs) @ sfx"
  have "read_size sw r = Some (n, advance sw r)"
    by (rule read_size_append [where sfx = "bs @ sfx"]) (use assms r in simp_all)
  moreover have "d n (advance sw r) = (Ok, x, advance (length bs) (advance sw r))"
    by (rule readsD [OF assms(3), where sfx = sfx]) (use r in \<open>simp add: write_size_def\<close>)
  ultimately show "des_container sw d item r = (Ok, x, advance (length (write_size sw n @ bs)) r)"
    using assms(2) by (simp add: des_container_def write_size_def)
qed

lemma reads_container_empty: "reads (des_container sw d item) (write_size sw 0) item"
proof (rule readsI)
  fix r :: memory_reader and sfx
  assume r: "rest r = write_size sw 0 @ sfx"
  have "read_size sw r = Some (0, advance sw r)"
    by (rule read_size_append [where sfx = sfx]) (use r in simp_all)
  then show "des_container sw d item r = (Ok, item, advance (length (write_size sw 0)) r)"
    by (simp add: des_container_def write_size_def)
qed

lemma reads_list: "reads (d vs) bs xs \<Longrightarrow> reads (des_list d vs) bs (VList xs)"
  by (simp add: reads_def des_list_def)

lemma reads_many_step:
  assumes "reads (d (hd vs)) bs x" "reads (others (tl vs)) bs' xs"
  shows "reads (des_many_step d others vs) (bs @ bs') (x # xs)"
proof (rule readsI)
  fix r :: memory_reader and sfx
  assume r: "rest r = (bs @ bs') @ sfx"
  have "d (hd vs) r = (Ok, x, advance (length bs) r)"
    by (rule readsD [OF assms(1), where sfx = "bs' @ sfx"]) (use r in simp)
  moreover have "others (tl vs) (advance (length bs) r) =
      (Ok, xs, advance (length bs') (advance (length bs) r))"
    by (rule readsD [OF assms(2), where sfx = sfx]) (use r in simp)
  ultimately show "des_many_step d others vs r = (Ok, x # xs, advance (length (bs @ bs')) r)"
    by (simp add: des_many_step_def)
qed

lemma reads_padded_step:
  assumes "reads (d (hd vs)) bs x" "reads (others (tl vs)) bs' xs"
  shows "reads (des_padded_step pad d others vs) (bs @ replicate pad 0 @ bs') (x # xs)"
proof (rule readsI)
  fix r :: memory_reader and sfx
  assume r: "rest r = (bs @ replicate pad 0 @ bs') @ sfx"
  have "d (hd vs) r = (Ok, x, advance (length bs) r)"
    by (rule readsD [OF assms(1), where sfx = "replicate pad 0 @ bs' @ sfx"]) (use r in simp)
  moreover have "ignore_padding pad (advance (length bs) r) =
      (Ok, advance pad (advance (length bs) r))"
    using r by (simp add: ignore_padding_def ignore_bytes_def rd_ignore_def)
  moreover have "others (tl vs) (advance pad (advance (length bs) r)) =
      (Ok, xs, advance (length bs') (advance pad (advance (length bs) r)))"
    by (rule readsD [OF assms(2), where sfx = sfx]) (use r in simp)
  ultimately show "des_padded_step pad d others vs r =
      (Ok, x # xs, advance (length (bs @ replicate pad 0 @ bs')) r)"
    by (simp add: des_padded_step_def add.assoc)
qed

section \<open>Trivially copyable objects\<close>

lemma fund_roundtrip:
  "fund_range f i \<Longrightarrow> int_of_bytes (fund_signed f) (int_bytes (fund_size f) i) = i"
proof -
  assume "fund_range f i"
  then have "fits (fund_signed f) (fund_size f) i"
    by (auto simp: fund_range_def fits_def fund_signed_def fund_size_def split: if_splits)
  then show ?thesis by (rule int_of_int_bytes) simp
qed

lemma chunks_concat:
  assumes "\<forall>x \<in> set vs. length (f x) = m \<and> g (f x) = x"
  shows "map (\<lambda>i. g (take m (drop (i * m) (concat (map f vs))))) [0..<length vs] = vs"
proof (rule nth_equalityI)
  show "length (map (\<lambda>i. g (take m (drop (i * m) (concat (map f vs))))) [0..<length vs]) = length vs"
    by simp
next
  fix i
  assume "i < length (map (\<lambda>i. g (take m (drop (i * m) (concat (map f vs))))) [0..<length vs])"
  then have i: "i < length vs" by simp
  have "vs = take i vs @ vs ! i # drop (Suc i) vs" using i by (rule id_take_nth_drop)
  then have "concat (map f vs) =
      concat (map f (take i vs)) @ f (vs ! i) @ concat (map f (drop (Suc i) vs))"
    by (metis concat.simps(2) concat_append list.simps(9) map_append)
  moreover have "length (concat (map f (take i vs))) = i * m"
    using length_concat_const [of "take i vs" f m] assms i by (auto dest: in_set_takeD)
  ultimately have "take m (drop (i * m) (concat (map f vs))) = f (vs ! i)"
    using assms i by simp
  then show "map (\<lambda>i. g (take m (drop (i * m) (concat (map f vs))))) [0..<length vs] ! i = vs ! i"
    using assms i by simp
qed

lemma obj_of_obj_bytes:
  "is_trivial_serializable t False tag \<Longrightarrow> has_type t v \<Longrightarrow> obj_of_bytes t (obj_bytes t v) = v"
  "all_trivial_serializable ts False tag \<Longrightarrow> has_types ts vs \<Longrightarrow> length pre = offset \<Longrightarrow>
     members_of_bytes ts (pre @ members_bytes ts vs offset @ sfx) offset = vs"
proof (induction t v and ts vs offset arbitrary: tag and tag pre sfx
    rule: obj_bytes_members_bytes.induct)
  case (1 f v)
  then show ?case by (auto simp: fund_roundtrip split: sp_val.splits)
next
  case (3 t n v)
  then obtain vs where vs: "v = VList vs" "length vs = n" "\<forall>x \<in> set vs. has_type t x"
    by (auto split: sp_val.splits simp: list_all_iff)
  have "\<forall>x \<in> set vs. length (obj_bytes t x) = ty_size t \<and> obj_of_bytes t (obj_bytes t x) = x"
    using vs 3 length_obj_bytes(1) by auto
  from chunks_concat [OF this] vs show ?case by simp
next
  case (4 cfg ts v)
  then obtain vs where vs: "v = VList vs" "has_types ts vs" by (auto split: sp_val.splits)
  with 4 show ?case
    using 4(1) [of cfg "[]" "replicate (pad_to (max_align ts) (members_end ts 0)) 0"] by simp
next
  case (7 t ts vs offset)
  then obtain v vs' where vs: "vs = v # vs'" "has_type t v" "has_types ts vs'"
    by (auto split: list.splits)
  let ?p = "pad_to (ty_align t) offset"
  have len: "length (obj_bytes t v) = ty_size t"
    using 7(3) vs(2) by (intro length_obj_bytes(1) [where tag = tag]) simp_all
  have one: "obj_of_bytes t (obj_bytes t v) = v" using 7(1) [of tag] 7(3) vs by simp
  have "members_of_bytes ts
      ((pre @ replicate ?p 0 @ obj_bytes t v) @ members_bytes ts vs' (offset + ?p + ty_size t) @ sfx)
      (offset + ?p + ty_size t) = vs'"
    by (rule 7(2) [of tag, simplified vs(1) list.sel]) (use 7 vs len in simp_all)
  then show ?case using 7(5) len one by (simp add: vs(1) Let_def)
qed (auto split: sp_val.splits)

lemma reads_trivial:
  assumes "is_trivial_serializable t False tag" "has_type t v"
  shows "reads (des_trivial t item) (obj_bytes t v) v"
proof (rule readsI)
  fix r :: memory_reader and sfx
  assume "rest r = obj_bytes t v @ sfx"
  then have "rd_read (ty_size t) r = Some (obj_bytes t v, advance (ty_size t) r)"
    by (rule rd_read_append) (simp add: length_obj_bytes(1) [OF assms])
  then show "des_trivial t item r = (Ok, v, advance (length (obj_bytes t v)) r)"
    using obj_of_obj_bytes(1) [OF assms] length_obj_bytes(1) [OF assms]
    by (simp add: des_trivial_def)
qed

lemma reads_block:
  assumes "is_trivial_serializable t False 0" "\<forall>x \<in> set vs. has_type t x"
    and "length vs * ty_size t < 2 ^ 64"
  shows "reads (des_block t (length vs) item) (concat (map (obj_bytes t) vs)) (VList vs)"
proof -
  have arr: "reads (des_trivial (TArray t (length vs)) item)
      (obj_bytes (TArray t (length vs)) (VList vs)) (VList vs)"
    by (rule reads_trivial [where tag = 0]) (use assms in \<open>simp_all add: list_all_iff\<close>)
  have len: "length (concat (map (obj_bytes t) vs)) = length vs * ty_size t"
    by (rule length_concat_const) (use assms length_obj_bytes(1) in blast)
  have "\<not> size_overflow (length vs) (ty_size t)"
  proof -
    have "length vs * ty_size t \<le> SIZE_MAX" using assms(3) by (simp add: SIZE_MAX_def)
    then have "length vs \<le> SIZE_MAX div ty_size t" if "0 < ty_size t"
      using that by (simp add: less_eq_div_iff_mult_less_eq)
    then show ?thesis by (cases "ty_size t") (simp_all add: size_overflow_def not_less)
  qed
  with arr len show ?thesis by (auto simp: reads_def des_block_def rd_check_def)
qed

section \<open>Supported types, values and targets\<close>

text \<open>
  Elements of a set are read into an object that may have been moved from; \<open>set_elem\<close>
  are the types whose deserialization overwrites such an object.
\<close>

definition set_elem :: "sp_ty \<Rightarrow> bool" where
  "set_elem t \<longleftrightarrow> (case t of TVarint k \<Rightarrow> True | TString f \<Rightarrow> True | TMono \<Rightarrow> False | _ \<Rightarrow> is_trivial_serializable t False 0)"

text \<open>
  The map condition: a pair that is copied trivially as a whole must have no padding, since
  the deserializer reads its two parts one after the other.
\<close>

fun wf_ty :: "sp_ty \<Rightarrow> bool"
  and wf_tys :: "sp_ty list \<Rightarrow> bool" where
  "wf_ty (TArray t n) = wf_ty t"
| "wf_ty (TSeq c t) = wf_ty t"
| "wf_ty (TSet t) = (wf_ty t \<and> set_elem t)"
| "wf_ty (TMap k t) = (wf_ty k \<and> wf_ty t \<and> \<not> compatible_element_exist None k \<and>
     (is_trivial_serializable (pair_ty k t) True 0 \<longrightarrow>
        total_padding_size [k, t] = 0 \<and> k \<noteq> TMono \<and> t \<noteq> TMono))"
| "wf_ty (TOptional t) = wf_ty t"
| "wf_ty (TUnique t) = wf_ty t"
| "wf_ty (TVariant ts) = wf_tys ts"
| "wf_ty (TExpected t e) = (wf_ty t \<and> wf_ty e)"
| "wf_ty (TTuple ts) = wf_tys ts"
| "wf_ty (TStruct cfg ts) =
     (wf_tys ts \<and> (is_enable_fast_varint_coding cfg \<longrightarrow> list_ex (\<lambda>t. varint_t t cfg) ts \<or>
        all_trivial_serializable ts True cfg))"
| "wf_ty (TCompat t n) = wf_ty t"
| "wf_ty _ = True"
| "wf_tys [] = True"
| "wf_tys (t # ts) = (wf_ty t \<and> wf_tys ts)"

text \<open>What the main pass conveys of a value: everything but the compatible members.\<close>

fun main_val :: "sp_ty \<Rightarrow> sp_val \<Rightarrow> sp_val"
  and main_vals :: "sp_ty list \<Rightarrow> sp_val list \<Rightarrow> sp_val list"
  and main_alt :: "sp_ty list \<Rightarrow> nat \<Rightarrow> sp_val \<Rightarrow> sp_val" where
  "main_val (TCompat t n) v = VOpt None"
| "main_val (TArray t n) v = VList (map (main_val t) (val_list v))"
| "main_val (TSeq c t) v = VList (map (main_val t) (val_list v))"
| "main_val (TMap k t) v = VMap (map (\<lambda>x. (fst x, main_val t (snd x))) (val_map v))"
| "main_val (TOptional t) v = VOpt (map_option (main_val t) (val_opt v))"
| "main_val (TUnique t) v = VOpt (map_option (main_val t) (val_opt v))"
| "main_val (TVariant ts) v = (case v of VVar i x \<Rightarrow> VVar i (main_alt ts i x) | _ \<Rightarrow> v)"
| "main_val (TExpected t e) v =
     (case v of VExp b x \<Rightarrow> VExp b (if b then main_val t x else main_val e x) | _ \<Rightarrow> v)"
| "main_val (TTuple ts) v = VList (main_vals ts (val_list v))"
| "main_val (TStruct cfg ts) v = VList (main_vals ts (val_list v))"
| "main_val _ v = v"
| "main_vals [] vs = []"
| "main_vals (t # ts) vs = main_val t (hd vs) # main_vals ts (tl vs)"
| "main_alt [] i x = x"
| "main_alt (t # ts) i x = (case i of 0 \<Rightarrow> main_val t x | Suc j \<Rightarrow> main_alt ts j x)"

text \<open>
  \<open>target tag t item v\<close>: deserializing \<open>v\<close> into \<open>item\<close> leaves nothing of \<open>item\<close> behind. An empty
  optional or container is not assigned by the source, so the object must be empty already;
  a zero in a fast-varint block leaves the member as it is; a value of \<open>expected\<close> needs an
  object that holds a value.
\<close>

definition fast_kind :: "sp_ty \<Rightarrow> u64 \<Rightarrow> bool" where
  "fast_kind t tag \<longleftrightarrow> varint_t t tag \<and> is_enable_fast_varint_coding tag"

fun target :: "u64 \<Rightarrow> sp_ty \<Rightarrow> sp_val \<Rightarrow> sp_val \<Rightarrow> bool"
  and targets :: "u64 \<Rightarrow> sp_ty list \<Rightarrow> sp_val list \<Rightarrow> sp_val list \<Rightarrow> bool" where
  "target tag (TFund f) item v = (fast_kind (TFund f) tag \<longrightarrow> v = VInt 0 \<longrightarrow> item = VInt 0)"
| "target tag (TVarint k) item v = (fast_kind (TVarint k) tag \<longrightarrow> v = VInt 0 \<longrightarrow> item = VInt 0)"
| "target tag TMono item v = (item = VUnit)"
| "target tag (TArray t n) item v =
     (is_trivial_serializable t False 0 \<or>
      (\<exists>xs. item = VList xs \<and> list_all2 (target 0 t) xs (val_list v)))"
| "target tag (TString f) item v = (v = VList [] \<longrightarrow> item = VList [])"
| "target tag (TSeq c t) item v = (v = VList [] \<longrightarrow> item = VList [])"
| "target tag (TSet t) item v = (v = VList [] \<longrightarrow> item = VList [])"
| "target tag (TMap k t) item v = (item = VMap [])"
| "target tag (TOptional t) item v = (v = VOpt None \<longrightarrow> item = VOpt None)"
| "target tag (TUnique t) item v = (v = VOpt None \<longrightarrow> item = VOpt None)"
| "target tag (TCompat t n) item v = (item = VOpt None)"
| "target tag (TVariant ts) item v = True"
| "target tag (TExpected t e) item v =
     (case v of VExp True x \<Rightarrow> (\<exists>y. item = VExp True y \<and> target 0 t y x) | _ \<Rightarrow> True)"
| "target tag (TTuple ts) item v = (\<exists>xs. item = VList xs \<and> targets 0 ts xs (val_list v))"
| "target tag (TStruct cfg ts) item v =
     (all_trivial_serializable ts False cfg \<or>
      (\<exists>xs. item = VList xs \<and> targets cfg ts xs (val_list v)))"
| "targets tag [] items vs = (items = [])"
| "targets tag (t # ts) items vs =
     (items \<noteq> [] \<and> target tag t (hd items) (hd vs) \<and> targets tag ts (tl items) (tl vs))"

section \<open>Facts on the predicates\<close>

lemma fast_kind_0 [simp]: "\<not> fast_kind t 0"
  by (simp add: fast_kind_def is_enable_fast_varint_coding_def)

lemma not_fast_0 [simp]: "\<not> is_enable_fast_varint_coding 0"
  by (simp add: is_enable_fast_varint_coding_def)

lemma target_0: "target tag t item v \<Longrightarrow> target 0 t item v"
  by (cases t) auto

lemma targets_0: "targets tag ts items vs \<Longrightarrow> targets 0 ts items vs"
  by (induction ts arbitrary: items vs) (auto intro: target_0)

lemma target_default:
  "has_type t v \<Longrightarrow> target tag t (default_val t) v"
  "has_types ts vs \<Longrightarrow> targets tag ts (default_vals ts) vs"
  "has_alt ts i x \<Longrightarrow> True"
proof (induction t v and ts vs and ts i x arbitrary: tag and tag
    rule: has_type_has_types_has_alt.induct)
  case (4 t n v)
  then show ?case by (auto simp: list_all_iff list_all2_conv_all_nth split: sp_val.splits)
qed (auto split: sp_val.splits list.splits bool.splits)

text \<open>In a type without compatible members the main pass conveys everything.\<close>

lemma main_val_id:
  "\<not> compatible_element_exist None t \<Longrightarrow> has_type t v \<Longrightarrow> main_val t v = v"
  "\<not> compatible_element_exist_many None ts \<Longrightarrow> has_types ts vs \<Longrightarrow> main_vals ts vs = vs"
  "\<not> compatible_element_exist_many None ts \<Longrightarrow> has_alt ts i x \<Longrightarrow> main_alt ts i x = x"
  by (induction t v and ts vs and ts i x rule: main_val_main_vals_main_alt.induct)
    (auto simp: list_all_iff map_idI split: sp_val.splits option.splits list.splits nat.splits)

lemma trivial_main_val:
  "is_trivial_serializable t False tag \<Longrightarrow> has_type t v \<Longrightarrow> main_val t v = v"
  by (meson main_val_id(1) trivial_no_compat(1))

text \<open>A trivially copyable object is written as its image also by the general branches.\<close>

lemma serialize_trivial:
  "is_trivial_serializable t False 0 \<Longrightarrow> t \<noteq> TMono \<Longrightarrow> serialize_one sw 0 t v = obj_bytes t v"
  by (cases t) auto

section \<open>One lemma per branch\<close>

lemma max_size_each_less:
  "max_size (size_each f acc xs) < n \<longleftrightarrow> max_size acc < n \<and> (\<forall>x \<in> set xs. max_size (f x) < n)"
  by (induction xs arbitrary: acc) (auto simp: size_each_def)

lemma trivial_max_size:
  "is_trivial_serializable t False tag \<Longrightarrow> max_size (calculate_one_size tag t v) = 0"
  by (cases t) (auto split: option.splits)

lemma pow_256_pos [simp]: "0 < (256 :: nat) ^ sw"
  by simp

definition codec_ok :: "sp_ty \<Rightarrow> bool" where
  "codec_ok t \<longleftrightarrow> (\<forall>sw tag v item.
     wf_ty t \<longrightarrow> has_type t v \<longrightarrow> max_size (calculate_one_size tag t v) < 256 ^ sw \<longrightarrow>
     target tag t item v \<longrightarrow> (fast_kind t tag \<longrightarrow> item = v) \<longrightarrow>
     reads (deserialize_one sw tag t item) (serialize_one sw tag t v) (main_val t v))"

lemma codec_okD:
  "codec_ok t \<Longrightarrow> wf_ty t \<Longrightarrow> has_type t v \<Longrightarrow> max_size (calculate_one_size tag t v) < 256 ^ sw \<Longrightarrow>
   target tag t item v \<Longrightarrow> (fast_kind t tag \<Longrightarrow> item = v) \<Longrightarrow>
   reads (deserialize_one sw tag t item) (serialize_one sw tag t v) (main_val t v)"
  by (simp add: codec_ok_def)

lemma codec_okI:
  "(\<And>sw tag v item. wf_ty t \<Longrightarrow> has_type t v \<Longrightarrow> max_size (calculate_one_size tag t v) < 256 ^ sw \<Longrightarrow>
     target tag t item v \<Longrightarrow> (fast_kind t tag \<Longrightarrow> item = v) \<Longrightarrow>
     reads (deserialize_one sw tag t item) (serialize_one sw tag t v) (main_val t v)) \<Longrightarrow>
   codec_ok t"
  unfolding codec_ok_def by blast

text \<open>A supported type meets the contract of a container's element.\<close>

lemma codec_ok_element:
  "codec_ok t \<Longrightarrow> wf_ty t \<Longrightarrow>
   element_codec (serialize_one sw 0 t) (deserialize_one sw 0 t (default_val t))
     (\<lambda>v. has_type t v \<and> max_size (calculate_one_size 0 t v) < 256 ^ sw) (main_val t)"
  by (intro element_codec.intro codec_okD) (auto intro: target_default(1))

lemma reads_nothing: "reads (\<lambda>r. (Ok, x, r)) [] x"
  by (simp add: reads_def)

lemma reads_varint:
  "vrange k i \<Longrightarrow> \<not> is_enable_fast_varint_coding tag \<Longrightarrow>
   reads (des_varint tag k item) (serialize_varint k i) (VInt i)"
  by (rule readsI) (simp add: des_varint_def deserialize_serialize_varint)

lemma codec_fund: "codec_ok (TFund f)"
proof (rule codec_okI)
  fix sw :: nat and tag :: u64 and v item
  assume v: "has_type (TFund f) v" and fast: "fast_kind (TFund f) tag \<Longrightarrow> item = v"
  then obtain i where i: "v = VInt i" "fund_range f i" by (auto split: sp_val.splits)
  show "reads (deserialize_one sw tag (TFund f) item) (serialize_one sw tag (TFund f) v)
      (main_val (TFund f) v)"
  proof (cases "varint_kind (TFund f) tag")
    case None
    have "is_trivial_serializable (TFund f) False tag" using None by simp
    from reads_trivial [OF this v] None show ?thesis by (simp add: des_fund_def reads_def)
  next
    case (Some k)
    show ?thesis
    proof (cases "is_enable_fast_varint_coding tag")
      case True
      then have "item = v" using fast Some by (simp add: fast_kind_def varint_t_def)
      with True Some show ?thesis by (simp add: des_fund_def des_varint_def reads_def)
    next
      case False
      have "vrange k i" using i(2) Some by (rule fund_range_vrange)
      from reads_varint [OF this False] Some False i show ?thesis
        by (simp add: des_fund_def reads_def)
    qed
  qed
qed

lemma codec_varint: "codec_ok (TVarint k)"
proof (rule codec_okI)
  fix sw :: nat and tag :: u64 and v item
  assume v: "has_type (TVarint k) v" and fast: "fast_kind (TVarint k) tag \<Longrightarrow> item = v"
  then obtain i where i: "v = VInt i" "vrange k i" by (auto split: sp_val.splits)
  show "reads (deserialize_one sw tag (TVarint k) item) (serialize_one sw tag (TVarint k) v)
      (main_val (TVarint k) v)"
  proof (cases "is_enable_fast_varint_coding tag")
    case True
    then have "item = v" using fast by (simp add: fast_kind_def varint_t_def)
    with True show ?thesis by (simp add: des_varint_def reads_def)
  next
    case False
    with reads_varint [OF i(2) False] i show ?thesis by simp
  qed
qed

lemma codec_array: "codec_ok t \<Longrightarrow> codec_ok (TArray t n)"
proof (rule codec_okI)
  fix sw :: nat and tag :: u64 and v item
  assume t: "codec_ok t" and wf: "wf_ty (TArray t n)" and v: "has_type (TArray t n) v"
    and sz: "max_size (calculate_one_size tag (TArray t n) v) < 256 ^ sw"
    and tgt: "target tag (TArray t n) item v"
  obtain vs where vs: "v = VList vs" "length vs = n" "\<forall>x \<in> set vs. has_type t x"
    using v by (auto split: sp_val.splits simp: list_all_iff)
  show "reads (deserialize_one sw tag (TArray t n) item) (serialize_one sw tag (TArray t n) v)
      (main_val (TArray t n) v)"
  proof (cases "is_trivial_serializable t False 0")
    case True
    then have triv: "is_trivial_serializable (TArray t n) False 0" by simp
    show ?thesis
      using reads_trivial [OF triv v] trivial_main_val [OF triv v] True
      by (simp add: des_array_def reads_def)
  next
    case False
    with tgt vs obtain xs where xs: "item = VList xs" "list_all2 (target 0 t) xs vs" by auto
    have all: "\<forall>i < length vs. reads (deserialize_one sw 0 t (xs ! i)) (serialize_one sw 0 t (vs ! i))
        (main_val t (vs ! i))"
      using t wf vs sz False xs
      by (auto intro!: codec_okD simp: max_size_each_less list_all2_conv_all_nth)
    have "length xs = length vs" using xs(2) by (rule list_all2_lengthD)
    from reads_each [OF this all] False vs xs show ?thesis
      by (simp add: des_array_def reads_def)
  qed
qed

lemma codec_string: "codec_ok (TString f)"
proof (rule codec_okI)
  fix sw :: nat and tag :: u64 and v item
  assume v: "has_type (TString f) v"
    and sz: "max_size (calculate_one_size tag (TString f) v) < 256 ^ sw"
    and tgt: "target tag (TString f) item v"
  obtain vs where vs: "v = VList vs" "length vs * fund_size f < 2 ^ 64"
      "\<forall>x \<in> set vs. has_type (TFund f) x"
    using v by (auto split: sp_val.splits simp: list_all_iff)
  have len: "length vs < 256 ^ sw" using sz vs by simp
  have img: "concat (map (\<lambda>x. int_bytes (fund_size f) (val_int x)) vs) =
      concat (map (obj_bytes (TFund f)) vs)"
  proof -
    have "obj_bytes (TFund f) = (\<lambda>x. int_bytes (fund_size f) (val_int x))" by (rule ext) simp
    then show ?thesis by simp
  qed
  show "reads (deserialize_one sw tag (TString f) item) (serialize_one sw tag (TString f) v)
      (main_val (TString f) v)"
  proof (cases "vs = []")
    case True
    with tgt vs reads_container_empty show ?thesis by simp
  next
    case False
    have "reads (des_block (TFund f) (length vs) item) (concat (map (obj_bytes (TFund f)) vs)) (VList vs)"
      by (rule reads_block) (use vs in simp_all)
    from reads_container [where d = "\<lambda>n. des_block (TFund f) n item", OF len _ this] False vs
    show ?thesis by (simp add: img del: obj_bytes.simps)
  qed
qed

lemma codec_seq: "codec_ok t \<Longrightarrow> codec_ok (TSeq c t)"
proof (rule codec_okI)
  fix sw :: nat and tag :: u64 and v item
  assume t: "codec_ok t" and wf: "wf_ty (TSeq c t)" and v: "has_type (TSeq c t) v"
    and sz: "max_size (calculate_one_size tag (TSeq c t) v) < 256 ^ sw"
    and tgt: "target tag (TSeq c t) item v"
  obtain vs where vs: "v = VList vs" "length vs * ty_size t < 2 ^ 64" "\<forall>x \<in> set vs. has_type t x"
    using v by (auto split: sp_val.splits simp: list_all_iff)
  have len: "length vs < 256 ^ sw"
    using sz vs by (auto simp: max_size_each_less split: if_splits)
  let ?d = "des_seq c t (deserialize_one sw 0 t (default_val t)) item"
  show "reads (deserialize_one sw tag (TSeq c t) item) (serialize_one sw tag (TSeq c t) v)
      (main_val (TSeq c t) v)"
  proof (cases "vs = []")
    case True
    with tgt vs reads_container_empty show ?thesis by simp
  next
    case False
    show ?thesis
    proof (cases "c \<and> is_trivial_serializable t False 0")
      case True
      have "map (main_val t) vs = vs"
        using vs True by (auto intro!: map_idI trivial_main_val)
      moreover have "reads (?d (length vs)) (concat (map (obj_bytes t) vs)) (VList vs)"
        using reads_block [of t vs item] True vs by (simp add: des_seq_def reads_def)
      ultimately show ?thesis
        using reads_container [OF len, of ?d _ _ item] False vs True by simp
    next
      case nt: False
      have wt: "wf_ty t" using wf by simp
      have "reads (?d (length vs)) (concat (map (serialize_one sw 0 t) vs)) (VList (map (main_val t) vs))"
        using element_codec.reads_emplace_back [OF codec_ok_element [OF t wt], of vs sw] nt vs sz
        by (auto simp: des_seq_def reads_def max_size_each_less)
      then show ?thesis
        using reads_container [OF len, of ?d _ _ item] False vs nt by auto
    qed
  qed
qed

lemma set_elem_target: "set_elem t \<Longrightarrow> has_type t v \<Longrightarrow> target 0 t (moved_from t x) v"
  by (cases t) (auto simp: set_elem_def)

lemma set_elem_no_compat: "set_elem t \<Longrightarrow> \<not> compatible_element_exist ver t"
  using trivial_no_compat(1) [of t 0 ver] by (cases t) (simp_all add: set_elem_def)

lemma reads_set_elem:
  assumes t: "codec_ok t" "wf_ty t" "set_elem t"
    and vs: "\<forall>x \<in> set vs. has_type t x \<and> max_size (calculate_one_size 0 t x) < 256 ^ sw"
    and "distinct vs"
  shows "reads (des_set (deserialize_one sw 0 t) (moved_from t) (length vs) (default_val t) [])
    (concat (map (serialize_one sw 0 t) vs)) vs"
proof -
  let ?tgt = "\<lambda>item. \<forall>v. has_type t v \<longrightarrow> target 0 t item v"
  have el: "reads (deserialize_one sw 0 t item) (serialize_one sw 0 t v) v"
    if v: "v \<in> set vs" and item: "?tgt item" for item v
  proof -
    have "has_type t v" "max_size (calculate_one_size 0 t v) < 256 ^ sw" using vs v by auto
    then have "reads (deserialize_one sw 0 t item) (serialize_one sw 0 t v) (main_val t v)"
      using item by (intro codec_okD [OF t(1,2)]) simp_all
    then show ?thesis
      using main_val_id(1) [OF set_elem_no_compat [OF t(3)]] \<open>has_type t v\<close> by simp
  qed
  have "reads (des_set (deserialize_one sw 0 t) (moved_from t) (length vs) (default_val t) [])
    (concat (map (serialize_one sw 0 t) vs)) ([] @ vs)"
    by (rule reads_set [where tgt = ?tgt])
      (use el t(3) assms(5) in \<open>auto intro: target_default(1) set_elem_target\<close>)
  then show ?thesis by simp
qed

lemma codec_set: "codec_ok t \<Longrightarrow> codec_ok (TSet t)"
proof (rule codec_okI)
  fix sw :: nat and tag :: u64 and v item
  assume t: "codec_ok t" and wf: "wf_ty (TSet t)" and v: "has_type (TSet t) v"
    and sz: "max_size (calculate_one_size tag (TSet t) v) < 256 ^ sw"
    and tgt: "target tag (TSet t) item v"
  obtain vs where vs: "v = VList vs" "distinct vs" "\<forall>x \<in> set vs. has_type t x"
    using v by (auto split: sp_val.splits simp: list_all_iff)
  have len: "length vs < 256 ^ sw" using sz vs by (simp add: max_size_each_less)
  show "reads (deserialize_one sw tag (TSet t) item) (serialize_one sw tag (TSet t) v)
      (main_val (TSet t) v)"
  proof (cases "vs = []")
    case True
    with tgt vs reads_container_empty show ?thesis by simp
  next
    case False
    have "reads (des_set (deserialize_one sw 0 t) (moved_from t) (length vs) (default_val t) [])
        (concat (map (serialize_one sw 0 t) vs)) vs"
      by (rule reads_set_elem) (use t wf vs sz in \<open>simp_all add: max_size_each_less\<close>)
    then have "reads (des_set_branch t (deserialize_one sw 0 t) (length vs))
        (concat (map (serialize_one sw 0 t) vs)) (VList vs)"
      by (simp add: reads_def des_set_branch_def)
    from reads_container [where d = "des_set_branch t (deserialize_one sw 0 t)", OF len _ this]
    show ?thesis using False vs by simp
  qed
qed

lemma pair_trivial:
  "is_trivial_serializable (pair_ty k t) ign 0 \<longleftrightarrow>
   is_trivial_serializable k ign 0 \<and> is_trivial_serializable t ign 0"
  by simp

lemma trivial_weaken:
  "is_trivial_serializable t False tag \<Longrightarrow> is_trivial_serializable t True tag"
  "all_trivial_serializable ts False tag \<Longrightarrow> all_trivial_serializable ts True tag"
  by (induction t False tag and ts False tag
      rule: is_trivial_serializable_all_trivial_serializable.induct) auto

text \<open>The wire image of a map element, for the supported maps.\<close>

lemma wf_map_element:
  assumes wf: "wf_ty (TMap k t)"
  shows "(if is_trivial_serializable (pair_ty k t) False 0
       then obj_bytes (pair_ty k t) (VList [fst x, snd x])
       else if is_trivial_serializable (pair_ty k t) True 0
       then serialize_one sw 0 k (fst x) @ replicate (calculate_padding_size [k, t] ! 1) 0 @
            serialize_one sw 0 t (snd x) @ replicate (calculate_padding_size [k, t] ! 2) 0
       else serialize_one sw 0 k (fst x) @ serialize_one sw 0 t (snd x)) =
     serialize_one sw 0 k (fst x) @ serialize_one sw 0 t (snd x)"
proof (cases "is_trivial_serializable (pair_ty k t) True 0")
  case False
  then have "\<not> is_trivial_serializable (pair_ty k t) False 0" using trivial_weaken(1) by blast
  with False show ?thesis by (simp only: if_False)
next
  case True
  with wf have z: "total_padding_size [k, t] = 0" "k \<noteq> TMono" "t \<noteq> TMono" by auto
  then have p: "calculate_padding_size [k, t] ! 1 = 0" "calculate_padding_size [k, t] ! 2 = 0"
    using pair_paddings [of k t] by simp_all
  then have "pad_to (ty_align t) (ty_size k) = 0"
    "pad_to (max (ty_align k) (ty_align t)) (ty_size k + ty_size t) = 0"
    by (simp_all add: calculate_padding_size_def pad_to_def)
  then have img: "obj_bytes (pair_ty k t) (VList [a, b]) = obj_bytes k a @ obj_bytes t b" for a b
    by (simp add: pad_to_def)
  have ser: "serialize_one sw 0 k a = obj_bytes k a" "serialize_one sw 0 t b = obj_bytes t b"
    if "is_trivial_serializable (pair_ty k t) False 0" for a b
    using that z serialize_trivial by auto
  show ?thesis
  proof (cases "is_trivial_serializable (pair_ty k t) False 0")
    case True
    with ser [OF True] img show ?thesis by (simp only: if_True)
  next
    case nf: False
    with True p show ?thesis by (simp only: if_True if_False replicate_0 append_Nil append_Nil2)
  qed
qed

lemma serialize_map:
  assumes "wf_ty (TMap k t)"
  shows "serialize_one sw tag (TMap k t) (VMap kvs) = write_size sw (length kvs) @
    concat (map (\<lambda>x. serialize_one sw 0 k (fst x) @ serialize_one sw 0 t (snd x)) kvs)"
  unfolding serialize_one.simps wf_map_element [OF assms] by simp

lemma codec_map: "codec_ok k \<Longrightarrow> codec_ok t \<Longrightarrow> codec_ok (TMap k t)"
proof (rule codec_okI)
  fix sw :: nat and tag :: u64 and v item
  assume k: "codec_ok k" and t: "codec_ok t" and wf: "wf_ty (TMap k t)"
    and v: "has_type (TMap k t) v"
    and sz: "max_size (calculate_one_size tag (TMap k t) v) < 256 ^ sw"
    and tgt: "target tag (TMap k t) item v"
  obtain kvs where kvs: "v = VMap kvs" "distinct (map fst kvs)"
      "\<forall>x \<in> set kvs. has_type k (fst x) \<and> has_type t (snd x)"
    using v by (auto split: sp_val.splits simp: list_all_iff)
  have len: "length kvs < 256 ^ sw" using sz kvs by (simp add: max_size_each_less)
  have sizes: "max_size (calculate_one_size 0 k (fst x)) < 256 ^ sw \<and>
      max_size (calculate_one_size 0 t (snd x)) < 256 ^ sw" if x: "x \<in> set kvs" for x
  proof (cases "is_trivial_serializable (pair_ty k t) False 0")
    case True
    then show ?thesis using trivial_max_size [of k 0] trivial_max_size [of t 0] by simp
  next
    case False
    with sz kvs x show ?thesis by (auto simp: max_size_each_less)
  qed
  have item: "item = VMap []" using tgt by simp
  have key: "main_val k (fst x) = fst x" if "x \<in> set kvs" for x
    using main_val_id(1) wf kvs that by simp
  have el: "\<forall>x \<in> set kvs.
      reads (deserialize_one sw 0 k (default_val k)) (serialize_one sw 0 k (fst x)) (fst x) \<and>
      reads (deserialize_one sw 0 t (default_val t)) (serialize_one sw 0 t (snd x))
        (main_val t (snd x))"
  proof
    fix x
    assume x: "x \<in> set kvs"
    have "reads (deserialize_one sw 0 k (default_val k)) (serialize_one sw 0 k (fst x))
        (main_val k (fst x))"
      by (rule codec_okD [OF k]) (use wf kvs x sizes in \<open>auto intro: target_default(1)\<close>)
    moreover have "reads (deserialize_one sw 0 t (default_val t)) (serialize_one sw 0 t (snd x))
        (main_val t (snd x))"
      by (rule codec_okD [OF t]) (use wf kvs x sizes in \<open>auto intro: target_default(1)\<close>)
    ultimately show "reads (deserialize_one sw 0 k (default_val k)) (serialize_one sw 0 k (fst x))
          (fst x) \<and>
        reads (deserialize_one sw 0 t (default_val t)) (serialize_one sw 0 t (snd x))
          (main_val t (snd x))"
      using key x by simp
  qed
  show "reads (deserialize_one sw tag (TMap k t) item) (serialize_one sw tag (TMap k t) v)
      (main_val (TMap k t) v)"
  proof (cases "kvs = []")
    case True
    then show ?thesis
      using reads_container_empty item kvs serialize_map [OF wf, of sw tag "[]"]
      by (simp del: serialize_one.simps)
  next
    case False
    let ?d = "des_map_branch (deserialize_one sw 0 k (default_val k))
        (deserialize_one sw 0 t (default_val t)) (skip_one sw 0 t) item"
    have "reads (?d (length kvs))
        (concat (map (\<lambda>x. serialize_one sw 0 k (fst x) @ serialize_one sw 0 t (snd x)) kvs))
        (VMap (map (\<lambda>x. (fst x, main_val t (snd x))) kvs))"
      using reads_map [OF el, of "[]" "skip_one sw 0 t"] kvs(2)
      by (simp add: item reads_def des_map_branch_def)
    from reads_container [where d = ?d, OF len _ this] False kvs serialize_map [OF wf]
    show ?thesis by (simp del: serialize_one.simps)
  qed
qed

lemma codec_nullable:
  assumes t: "codec_ok t" "wf_ty t" and x: "has_type t x"
    "max_size (calculate_one_size 0 t x) < 256 ^ sw"
  shows "reads (des_nullable (deserialize_one sw 0 t (default_val t)) item)
    (1 # serialize_one sw 0 t x) (VOpt (Some (main_val t x)))"
  by (rule element_codec.reads_nullable [OF codec_ok_element [OF t, of sw]]) (use x in simp)

lemma codec_optional: "codec_ok t \<Longrightarrow> codec_ok (TOptional t)"
  by (rule codec_okI) (auto simp: reads_null intro!: codec_nullable
      split: sp_val.splits option.splits)

lemma codec_unique: "codec_ok t \<Longrightarrow> codec_ok (TUnique t)"
  by (rule codec_okI) (auto simp: reads_null intro!: codec_nullable
      split: sp_val.splits option.splits)

lemma codec_compat: "codec_ok (TCompat t n)"
  by (rule codec_okI) (simp add: reads_def)

lemma codec_mono: "codec_ok TMono"
  by (rule codec_okI) (simp add: reads_def)

lemma reads_flag:
  assumes "rest r = b # bs @ sfx"
  shows "rd_read 1 r = Some ([b], advance 1 r) \<and> rest (advance 1 r) = bs @ sfx"
  using rd_read_append [of r "[b]" "bs @ sfx" 1] assms by simp

lemma codec_expected: "codec_ok t \<Longrightarrow> codec_ok e \<Longrightarrow> codec_ok (TExpected t e)"
proof (rule codec_okI)
  fix sw :: nat and tag :: u64 and v item
  assume t: "codec_ok t" and e: "codec_ok e" and wf: "wf_ty (TExpected t e)"
    and v: "has_type (TExpected t e) v"
    and sz: "max_size (calculate_one_size tag (TExpected t e) v) < 256 ^ sw"
    and tgt: "target tag (TExpected t e) item v"
  obtain b x where x: "v = VExp b x" using v by (auto split: sp_val.splits)
  show "reads (deserialize_one sw tag (TExpected t e) item) (serialize_one sw tag (TExpected t e) v)
      (main_val (TExpected t e) v)"
  proof (cases b)
    case True
    with tgt x obtain y where y: "item = VExp True y" "target 0 t y x" by auto
    have rd: "reads (deserialize_one sw 0 t y) (serialize_one sw 0 t x) (main_val t x)"
      by (rule codec_okD [OF t]) (use wf v sz x y True in simp_all)
    show ?thesis
      using reads_flag readsD [OF rd] x y True
      by (auto simp: reads_def des_expected_def expected_value_def)
  next
    case False
    have rd: "reads (deserialize_one sw 0 e (default_val e)) (serialize_one sw 0 e x) (main_val e x)"
      by (rule codec_okD [OF e]) (use wf v sz x False in \<open>auto intro: target_default(1)\<close>)
    show ?thesis
      using reads_flag readsD [OF rd] x False
      by (auto simp: reads_def des_expected_def)
  qed
qed

section \<open>Members of a class\<close>

primrec fast_set :: "u64 \<Rightarrow> sp_ty list \<Rightarrow> sp_val list \<Rightarrow> sp_val list \<Rightarrow> bool" where
  "fast_set tag [] items vs = True"
| "fast_set tag (t # ts) items vs =
     ((fast_kind t tag \<longrightarrow> hd items = hd vs) \<and> fast_set tag ts (tl items) (tl vs))"

lemma fast_set_slow: "\<not> is_enable_fast_varint_coding tag \<Longrightarrow> fast_set tag ts items vs"
  by (induction ts arbitrary: items vs) (simp_all add: fast_kind_def)

lemma codec_many:
  assumes "\<forall>t \<in> set ts. codec_ok t"
  shows "wf_tys ts \<Longrightarrow> has_types ts vs \<Longrightarrow> max_size (calculate_payload_size tag ts vs) < 256 ^ sw \<Longrightarrow>
    targets tag ts items vs \<Longrightarrow> fast_set tag ts items vs \<Longrightarrow>
    reads (deserialize_many sw tag ts items) (serialize_many sw tag ts vs) (main_vals ts vs)"
  using assms
proof (induction ts arbitrary: items vs)
  case Nil
  then show ?case by (simp add: reads_def)
next
  case (Cons t ts)
  have one: "reads (deserialize_one sw tag t (hd items)) (serialize_one sw tag t (hd vs))
      (main_val t (hd vs))"
    by (rule codec_okD) (use Cons.prems in \<open>auto split: list.splits\<close>)
  have all: "reads (deserialize_many sw tag ts (tl items)) (serialize_many sw tag ts (tl vs))
      (main_vals ts (tl vs))"
    by (rule Cons.IH) (use Cons.prems in \<open>auto split: list.splits\<close>)
  from reads_many_step [where d = "deserialize_one sw tag t" and others = "deserialize_many sw tag ts",
      OF one all]
  show ?case by simp
qed

lemma codec_padded:
  assumes "\<forall>t \<in> set ts. codec_ok t"
  shows "wf_tys ts \<Longrightarrow> has_types ts vs \<Longrightarrow> max_size (calculate_payload_size 0 ts vs) < 256 ^ sw \<Longrightarrow>
    targets 0 ts items vs \<Longrightarrow>
    reads (deserialize_padded sw ts pads items) (serialize_padded sw ts vs pads) (main_vals ts vs)"
  using assms
proof (induction ts arbitrary: items vs pads)
  case Nil
  then show ?case by (simp add: reads_def)
next
  case (Cons t ts)
  have one: "reads (deserialize_one sw 0 t (hd items)) (serialize_one sw 0 t (hd vs))
      (main_val t (hd vs))"
    by (rule codec_okD) (use Cons.prems in \<open>auto split: list.splits\<close>)
  have all: "reads (deserialize_padded sw ts (tl pads) (tl items))
      (serialize_padded sw ts (tl vs) (tl pads)) (main_vals ts (tl vs))"
    by (rule Cons.IH) (use Cons.prems in \<open>auto split: list.splits\<close>)
  from reads_padded_step [where d = "deserialize_one sw 0 t"
      and others = "deserialize_padded sw ts (tl pads)" and pad = "hd pads", OF one all]
  show ?case by simp
qed

lemma codec_tuple: "\<forall>t \<in> set ts. codec_ok t \<Longrightarrow> codec_ok (TTuple ts)"
  by (rule codec_okI) (auto intro!: reads_list codec_many fast_set_slow split: sp_val.splits)

lemma fast_members_fst:
  "map fst (fast_members tag ts vs) = map fst (fast_members tag ts vs')"
  by (induction ts arbitrary: vs vs') (auto split: option.splits)

lemma fast_members_range:
  "has_types ts vs \<Longrightarrow> \<forall>(k, v) \<in> set (fast_members tag ts vs). vrange k v"
proof (induction ts arbitrary: vs)
  case (Cons t ts)
  then obtain v vs' where vs: "vs = v # vs'" "has_type t v" "has_types ts vs'"
    by (auto split: list.splits)
  have "vrange k (val_int v)" if "varint_kind t tag = Some k" for k
    using that vs(2) by (cases t) (auto dest: fund_range_vrange split: sp_val.splits)
  with Cons.IH [OF vs(3)] vs(1) show ?case by (auto split: option.splits)
qed simp

lemma fast_members_nonempty:
  "list_ex (\<lambda>t. varint_t t tag) ts \<Longrightarrow> fast_members tag ts vs \<noteq> []"
  by (induction ts arbitrary: vs) (auto simp: varint_t_def split: option.splits)

lemma put_fast_targets:
  assumes "is_enable_fast_varint_coding tag" "has_types ts vs" "targets tag ts items vs"
  defines "ns \<equiv> map2 (\<lambda>(k, v) (k', t). if v = 0 then t else v)
    (fast_members tag ts vs) (fast_members tag ts items)"
  shows "targets tag ts (put_fast tag ts items ns) vs \<and> fast_set tag ts (put_fast tag ts items ns) vs"
  using assms(2,3) unfolding ns_def
proof (induction ts arbitrary: items vs)
  case (Cons t ts)
  then obtain v vs' item items' where vs: "vs = v # vs'" "has_type t v" "has_types ts vs'"
    and items: "items = item # items'" "target tag t item v" "targets tag ts items' vs'"
    by (cases items) (auto split: list.splits)
  note ih = Cons.IH [OF vs(3) items(3)]
  show ?case
  proof (cases "varint_kind t tag")
    case None
    with ih vs(1) items show ?thesis by (simp add: fast_kind_def varint_t_def)
  next
    case (Some k)
    have fast: "fast_kind t tag" using Some assms(1) by (simp add: fast_kind_def varint_t_def)
    obtain i where i: "v = VInt i" using Some vs(2) by (cases t) (auto split: sp_val.splits)
    have z: "item = VInt 0" if "i = 0"
      using Some items(2) i fast that by (cases t) auto
    have new: "VInt (if i = 0 then val_int item else i) = v" using i z by auto
    have "target tag t v v" using Some i by (cases t) auto
    with ih new Some show ?thesis by (simp add: vs(1) items(1) i)
  qed
qed simp

lemma codec_class: "\<forall>t \<in> set ts. codec_ok t \<Longrightarrow> codec_ok (TStruct cfg ts)"
proof (rule codec_okI)
  fix sw :: nat and tag :: u64 and v item
  assume ts: "\<forall>t \<in> set ts. codec_ok t" and wf: "wf_ty (TStruct cfg ts)"
    and v: "has_type (TStruct cfg ts) v"
    and sz: "max_size (calculate_one_size tag (TStruct cfg ts) v) < 256 ^ sw"
    and tgt: "target tag (TStruct cfg ts) item v"
  obtain vs where vs: "v = VList vs" "has_types ts vs" using v by (auto split: sp_val.splits)
  let ?padded = "deserialize_padded sw ts (tl (calculate_padding_size ts))"
  let ?many = "deserialize_many sw cfg ts"
  show "reads (deserialize_one sw tag (TStruct cfg ts) item) (serialize_one sw tag (TStruct cfg ts) v)
      (main_val (TStruct cfg ts) v)"
  proof (cases "all_trivial_serializable ts False cfg")
    case True
    have triv: "is_trivial_serializable (TStruct cfg ts) False tag" using True by simp
    from reads_trivial [OF triv v] trivial_main_val [OF triv v] True
    show ?thesis by (simp add: reads_def des_class_def)
  next
    case nt: False
    with tgt vs obtain items where items: "item = VList items" "targets cfg ts items vs" by auto
    show ?thesis
    proof (cases "all_trivial_serializable ts True cfg")
      case True
      have "reads (?padded items) (serialize_padded sw ts vs (tl (calculate_padding_size ts)))
          (main_vals ts vs)"
        by (rule codec_padded [OF ts])
          (use wf vs sz nt True items(2) in \<open>auto intro: targets_0\<close>)
      from reads_list [where d = ?padded, OF this] nt True vs items
      show ?thesis by (simp add: reads_def des_class_def)
    next
      case nt2: False
      have sz': "max_size (calculate_payload_size cfg ts vs) < 256 ^ sw"
        using sz nt nt2 vs by simp
      show ?thesis
      proof (cases "is_enable_fast_varint_coding cfg")
        case False
        have "reads (?many items) (serialize_many sw cfg ts vs) (main_vals ts vs)"
          by (rule codec_many [OF ts]) (use wf vs sz' items False fast_set_slow in auto)
        from reads_list [where d = ?many, OF this] nt nt2 False vs items
        show ?thesis by (simp add: reads_def des_class_def)
      next
        case fast: True
        let ?ms = "fast_members cfg ts vs"
        let ?its = "fast_members cfg ts items"
        let ?ns = "map2 (\<lambda>(k, v) (k', t). if v = 0 then t else v) ?ms ?its"
        have ne: "?ms \<noteq> []" using wf fast nt2 by (intro fast_members_nonempty) auto
        have block: "reads (deserialize_fast_varint True ?its) (serialize_fast_varint ?ms) ?ns"
          by (intro readsI deserialize_fast_varint_block [OF ne fast_members_range [OF vs(2)]
              fast_members_fst])
        have pf: "targets cfg ts (put_fast cfg ts items ?ns) vs"
          "fast_set cfg ts (put_fast cfg ts items ?ns) vs"
          using put_fast_targets [OF fast vs(2) items(2)] by blast+
        have many: "reads (?many (put_fast cfg ts items ?ns)) (serialize_many sw cfg ts vs)
            (main_vals ts vs)"
          by (rule codec_many [OF ts]) (use wf vs sz' pf in auto)
        show ?thesis
        proof (rule readsI)
          fix r :: memory_reader and sfx
          assume r: "rest r = serialize_one sw tag (TStruct cfg ts) v @ sfx"
          let ?r1 = "advance (length (serialize_fast_varint ?ms)) r"
          have "deserialize_fast_varint True ?its r = (Ok, ?ns, ?r1)"
            by (rule readsD [OF block, where sfx = "serialize_many sw cfg ts vs @ sfx"])
              (use r nt nt2 fast vs in simp)
          moreover have "?many (put_fast cfg ts items ?ns) ?r1 =
              (Ok, main_vals ts vs, advance (length (serialize_many sw cfg ts vs)) ?r1)"
            by (rule readsD [OF many, where sfx = sfx]) (use r nt nt2 fast vs in simp)
          ultimately show "deserialize_one sw tag (TStruct cfg ts) item r =
              (Ok, main_val (TStruct cfg ts) v,
               advance (length (serialize_one sw tag (TStruct cfg ts) v)) r)"
            using nt nt2 fast vs items by (simp add: des_class_def des_list_def Let_def)
        qed
      qed
    qed
  qed
qed

lemma codec_alt:
  assumes "\<forall>t \<in> set ts. codec_ok t"
  shows "wf_tys ts \<Longrightarrow> has_alt ts i x \<Longrightarrow> max_size (calculate_alt_size ts i x) < 256 ^ sw \<Longrightarrow>
    rest r = serialize_alt sw ts i x @ sfx \<Longrightarrow>
    i < length ts \<and> deserialize_alt sw ts i r =
      (main_alt ts i x, advance (length (serialize_alt sw ts i x)) r)"
  using assms
proof (induction ts arbitrary: i)
  case (Cons t ts)
  show ?case
  proof (cases i)
    case 0
    have rd: "reads (deserialize_one sw 0 t (default_val t)) (serialize_one sw 0 t x) (main_val t x)"
      by (rule codec_okD) (use Cons.prems 0 in \<open>auto intro: target_default(1)\<close>)
    have "deserialize_one sw 0 t (default_val t) r =
        (Ok, main_val t x, advance (length (serialize_one sw 0 t x)) r)"
      by (rule readsD [OF rd, where sfx = sfx]) (use Cons.prems 0 in simp)
    with 0 show ?thesis by simp
  next
    case (Suc j)
    with Cons show ?thesis by simp
  qed
qed simp

lemma codec_variant: "\<forall>t \<in> set ts. codec_ok t \<Longrightarrow> codec_ok (TVariant ts)"
proof (rule codec_okI)
  fix sw :: nat and tag :: u64 and v item
  assume ts: "\<forall>t \<in> set ts. codec_ok t" and wf: "wf_ty (TVariant ts)"
    and v: "has_type (TVariant ts) v"
    and sz: "max_size (calculate_one_size tag (TVariant ts) v) < 256 ^ sw"
  obtain i x where x: "v = VVar i x" "has_alt ts i x" "length ts < 256"
    using v by (auto split: sp_val.splits)
  show "reads (deserialize_one sw tag (TVariant ts) item) (serialize_one sw tag (TVariant ts) v)
      (main_val (TVariant ts) v)"
  proof (rule readsI)
    fix r :: memory_reader and sfx
    assume r: "rest r = serialize_one sw tag (TVariant ts) v @ sfx"
    then have f: "rd_read 1 r = Some ([word_of_nat i], advance 1 r)"
      "rest (advance 1 r) = serialize_alt sw ts i x @ sfx"
      using reads_flag [of r "word_of_nat i" "serialize_alt sw ts i x" sfx] x by simp_all
    have "i < length ts \<and> deserialize_alt sw ts i (advance 1 r) =
        (main_alt ts i x, advance (length (serialize_alt sw ts i x)) (advance 1 r))"
      by (rule codec_alt [OF ts]) (use wf x sz f in auto)
    moreover have "unat (word_of_nat i :: byte) = i"
      using calculation x(3) by (simp only: unat_byte_of_nat) simp
    ultimately show "deserialize_one sw tag (TVariant ts) item r =
        (Ok, main_val (TVariant ts) v, advance (length (serialize_one sw tag (TVariant ts) v)) r)"
      using x f by (simp add: des_variant_def)
  qed
qed

lemma codec_ok_all: "codec_ok t"
proof (induction t)
  case (TVariant ts)
  then show ?case by (intro codec_variant) blast
next
  case (TTuple ts)
  then show ?case by (intro codec_tuple) blast
next
  case (TStruct cfg ts)
  then show ?case by (intro codec_class) blast
qed (simp_all add: codec_fund codec_varint codec_mono codec_array codec_string codec_seq codec_set
    codec_map codec_optional codec_unique codec_expected codec_compat)

text \<open>
  With every type supported, the contract of a container's element holds of the model's own
  encoder and decoder at every type and every width of the size fields.
\<close>

interpretation elem: element_codec "serialize_one sw 0 t" "deserialize_one sw 0 t (default_val t)"
  "\<lambda>v. wf_ty t \<and> has_type t v \<and> max_size (calculate_one_size 0 t v) < 256 ^ sw" "main_val t"
  for sw t
  by unfold_locales
    (use codec_ok_all in \<open>auto intro: element_codec.dec_enc [OF codec_ok_element]\<close>)

end
