(* ===== verification/SpSerialize.thy ===== *)
theory SpSerialize
  imports SpPackSize
begin

text \<open>
  The serializer as a whole: the buffer size and meta-info byte computed in advance
  (\<open>get_serialize_runtime_info\<close>), the header (\<open>serialize_metainfo\<close>) and the passes of
  \<open>packer::serialize\<close>, for one object of a root type. \<open>ndebug\<close> says whether \<open>NDEBUG\<close> is defined,
  \<open>conf\<close> is the configuration given by the caller.
\<close>

record serialize_buffer_size =
  buf_len :: nat
  buf_metainfo :: nat

text \<open>Width of a container's size field, from bits 3 and 4 of the meta-info byte.\<close>

definition size_type_of :: "nat \<Rightarrow> nat" where
  "size_type_of metainfo = metainfo div 8 mod 4"

definition size_width :: "nat \<Rightarrow> nat" where
  "size_width size_type = 2 ^ size_type"

definition runtime_body :: "bool \<Rightarrow> u64 \<Rightarrow> sp_ty \<Rightarrow> size_info \<Rightarrow> serialize_buffer_size" where
  "runtime_body ndebug conf t sz =
     (let has_meta = check_has_metainfo ndebug conf t;
          len0 = (if has_meta then 1 else 0);
          extra = (if has_meta then 0 else 1)
      in if \<not> check_if_has_container t then \<lparr>buf_len = len0 + total sz, buf_metainfo = 0\<rparr>
         else if max_size sz < 2 ^ 8
         then \<lparr>buf_len = len0 + total sz + size_cnt sz, buf_metainfo = 0\<rparr>
         else if max_size sz < 2 ^ 16
         then \<lparr>buf_len = len0 + total sz + size_cnt sz * 2 + extra, buf_metainfo = 8\<rparr>
         else if max_size sz < 2 ^ 32
         then \<lparr>buf_len = len0 + total sz + size_cnt sz * 4 + extra, buf_metainfo = 16\<rparr>
         else \<lparr>buf_len = len0 + total sz + size_cnt sz * 8 + extra, buf_metainfo = 24\<rparr>)"

definition get_serialize_runtime_info ::
  "bool \<Rightarrow> u64 \<Rightarrow> sp_ty \<Rightarrow> sp_val \<Rightarrow> serialize_buffer_size" where
  "get_serialize_runtime_info ndebug conf t v =
     (let ret = runtime_body ndebug conf t (calculate_one_size 0 t v)
      in if check_if_disable_hash_head conf t then ret
         else
           let lit = check_if_add_type_literal ndebug conf t;
               len = buf_len ret + 4 + (if lit then length (get_types_literal t) + 1 else 0);
               meta = buf_metainfo ret + (if lit then 4 else 0)
           in if \<not> exist_compatible_member t then \<lparr>buf_len = len, buf_metainfo = meta\<rparr>
              else if len + 2 < 2 ^ 16 then \<lparr>buf_len = len + 2, buf_metainfo = meta + 1\<rparr>
              else if len + 4 < 2 ^ 32 then \<lparr>buf_len = len + 4, buf_metainfo = meta + 2\<rparr>
              else \<lparr>buf_len = len + 8, buf_metainfo = meta + 3\<rparr>)"

text \<open>\<open>raw | (is_default_size_type ? 0 : 1)\<close>, where \<open>raw\<close> is odd when there is meta info.\<close>

definition calculate_hash_head :: "bool \<Rightarrow> u64 \<Rightarrow> sp_ty \<Rightarrow> u32" where
  "calculate_hash_head ndebug conf t =
     (if check_has_metainfo ndebug conf t then get_types_code t + 1 else get_types_code t)"

definition hash_head :: "bool \<Rightarrow> u64 \<Rightarrow> bool \<Rightarrow> sp_ty \<Rightarrow> u32" where
  "hash_head ndebug conf is_default_size_type t =
     calculate_hash_head ndebug conf t OR (if is_default_size_type then 0 else 1)"

definition serialize_metainfo ::
  "bool \<Rightarrow> u64 \<Rightarrow> bool \<Rightarrow> serialize_buffer_size \<Rightarrow> sp_ty \<Rightarrow> bytes" where
  "serialize_metainfo ndebug conf is_default_size_type info t =
     (let head = hash_head ndebug conf is_default_size_type t
      in (if check_if_disable_hash_head conf t then [] else le_bytes 4 (unat head)) @
         (if even (unat head) then [] else
            [word_of_nat (buf_metainfo info)] @
            (if exist_compatible_member t then
               (let code = buf_metainfo info mod 4
                in if code = 1 then le_bytes 2 (buf_len info)
                   else if code = 2 then le_bytes 4 (buf_len info)
                   else if code = 3 then le_bytes 8 (buf_len info) else [])
             else []) @
            (if check_if_add_type_literal ndebug conf t then get_types_literal t @ [0] else [])))"

text \<open>
  \<open>serialize_to(writer, info, t)\<close>: without \<open>STRUCT_PACK_OPTIMIZE\<close> the template argument
  \<open>size_type\<close> is 1 or 2, and 2 stands for the width chosen at run time.
\<close>

definition serialize :: "bool \<Rightarrow> u64 \<Rightarrow> nat \<Rightarrow> serialize_buffer_size \<Rightarrow> sp_ty \<Rightarrow> sp_val \<Rightarrow> bytes" where
  "serialize ndebug conf size_type info t v =
     (let sw = size_width size_type
      in serialize_metainfo ndebug conf (size_type = 0) info t @ serialize_one sw 0 t v @
         (if exist_compatible_member t
          then concat (map (\<lambda>ver. serialize_compat sw ver t v) (compatible_version_number t))
          else []))"

definition serialize_to :: "bool \<Rightarrow> u64 \<Rightarrow> serialize_buffer_size \<Rightarrow> sp_ty \<Rightarrow> sp_val \<Rightarrow> bytes" where
  "serialize_to ndebug conf info t v =
     (if \<not> check_if_has_container t then serialize ndebug conf 0 info t v
      else serialize ndebug conf (size_type_of (buf_metainfo info)) info t v)"

text \<open>
  \<open>serialize_to(buffer, t)\<close> on a growable buffer: it is resized to hold the announced size,
  and a raw memory writer fills it from \<open>data_offset\<close>; writing more than announced would
  leave the buffer, which is the value \<open>None\<close>.
\<close>

definition serialize_to_buffer :: "bool \<Rightarrow> u64 \<Rightarrow> bytes \<Rightarrow> nat \<Rightarrow> sp_ty \<Rightarrow> sp_val \<Rightarrow> bytes option" where
  "serialize_to_buffer ndebug conf buffer offset t v =
     (let info = get_serialize_runtime_info ndebug conf t v;
          resized = buffer @ replicate (offset + buf_len info) 0;
          at = length buffer + offset;
          out = serialize_to ndebug conf info t v
      in if at + length out \<le> length resized
         then Some (take at resized @ out @ drop (at + length out) resized)
         else None)"

section \<open>The header\<close>

lemma even_unat_u32: "even (c :: u32) \<longleftrightarrow> even (unat c)"
  by transfer (simp add: even_nat_iff)

lemma even_hash_head:
  "even (unat (hash_head ndebug conf d t)) \<longleftrightarrow> d \<and> \<not> check_has_metainfo ndebug conf t"
  unfolding even_unat_u32 [symmetric] using get_types_code_even [of t]
  by (auto simp: hash_head_def calculate_hash_head_def even_or_iff)

lemma no_container_sizes:
  "\<not> check_if_has_container t \<Longrightarrow> has_type t v \<Longrightarrow>
     size_cnt (calculate_one_size tag t v) = 0"
  "\<not> check_if_has_container_many ts \<Longrightarrow> has_types ts vs \<Longrightarrow>
     size_cnt (calculate_payload_size tag ts vs) = 0"
  "\<not> check_if_has_container_many ts \<Longrightarrow> has_alt ts i x \<Longrightarrow>
     size_cnt (calculate_alt_size ts i x) = 0"
proof (induction tag t v and tag ts vs and ts i x
    rule: calculate_one_size_calculate_payload_size_calculate_alt_size.induct)
  case (4 tag t n v)
  then show ?case
    by (auto simp: size_each_simps list_all_iff split: sp_val.splits)
qed (auto split: sp_val.splits option.splits list.splits nat.splits)


section \<open>The announced size is the written size\<close>

text \<open>
  The static assertion of \<open>check_if_disable_hash_head\<close>: no compatible members without the
  hash head.
\<close>

definition well_configured :: "u64 \<Rightarrow> sp_ty \<Rightarrow> bool" where
  "well_configured conf t \<longleftrightarrow> (check_if_disable_hash_head conf t \<longrightarrow> \<not> exist_compatible_member t)"

definition size_code :: "sp_ty \<Rightarrow> size_info \<Rightarrow> nat" where
  "size_code t sz = (if \<not> check_if_has_container t then 0 else if max_size sz < 2 ^ 8 then 0
     else if max_size sz < 2 ^ 16 then 1 else if max_size sz < 2 ^ 32 then 2 else 3)"

lemma size_code_lt: "size_code t sz < 4"
  by (simp add: size_code_def)

lemma runtime_body_eq:
  assumes "check_if_has_container t \<or> size_cnt sz = 0"
  shows "runtime_body ndebug conf t sz =
    \<lparr>buf_len = total sz + 2 ^ size_code t sz * size_cnt sz +
       (if check_has_metainfo ndebug conf t \<or> size_code t sz \<noteq> 0 then 1 else 0),
     buf_metainfo = 8 * size_code t sz\<rparr>"
  using assms by (auto simp: runtime_body_def size_code_def Let_def)

lemma disable_no_literal:
  "check_if_disable_hash_head conf t \<Longrightarrow> \<not> check_if_add_type_literal ndebug conf t"
  by (auto simp: check_if_disable_hash_head_def check_if_add_type_literal_def Let_def
      DISABLE_ALL_META_INFO_def ENABLE_TYPE_INFO_def split: if_splits)

text \<open>Length code of the compatible size field, and the whole header's length.\<close>

definition compat_code :: "bool \<Rightarrow> nat \<Rightarrow> nat" where
  "compat_code c len = (if \<not> c then 0 else if len + 2 < 2 ^ 16 then 1
     else if len + 4 < 2 ^ 32 then 2 else 3)"

definition compat_field :: "nat \<Rightarrow> nat" where
  "compat_field code = (if code = 0 then 0 else 2 ^ code)"

lemma compat_code_lt: "compat_code c len < 4"
  by (simp add: compat_code_def)

lemma runtime_info_eq:
  assumes "check_if_has_container t \<or> size_cnt (calculate_one_size 0 t v) = 0"
  shows "\<exists>code < 4. (exist_compatible_member t \<and> \<not> check_if_disable_hash_head conf t \<longleftrightarrow> code \<noteq> 0) \<and>
    (code = 1 \<or> code = 2 \<longrightarrow>
       buf_len (get_serialize_runtime_info ndebug conf t v) < 256 ^ 2 ^ code) \<and>
    (let sz = calculate_one_size 0 t v; st = size_code t sz;
         lit = check_if_add_type_literal ndebug conf t
     in get_serialize_runtime_info ndebug conf t v =
        \<lparr>buf_len = wire_len (2 ^ st) sz +
           (if check_has_metainfo ndebug conf t \<or> st \<noteq> 0 then 1 else 0) +
           (if check_if_disable_hash_head conf t then 0 else 4) +
           (if lit then length (get_types_literal t) + 1 else 0) + compat_field code,
         buf_metainfo = 8 * st + (if lit then 4 else 0) + code\<rparr>)"
proof (cases "check_if_disable_hash_head conf t")
  case True
  then show ?thesis
    using runtime_body_eq [OF assms, of ndebug conf] disable_no_literal [OF True, of ndebug]
    by (intro exI [of _ 0]) (simp add: get_serialize_runtime_info_def wire_len_def
        compat_field_def Let_def)
next
  case False
  define rb where "rb = runtime_body ndebug conf t (calculate_one_size 0 t v)"
  define sz where "sz = calculate_one_size 0 t v"
  define lit where "lit = check_if_add_type_literal ndebug conf t"
  define len where "len = buf_len rb + 4 + (if lit then length (get_types_literal t) + 1 else 0)"
  define code where "code = compat_code (exist_compatible_member t) len"
  have "get_serialize_runtime_info ndebug conf t v =
      \<lparr>buf_len = len + compat_field code,
       buf_metainfo = buf_metainfo rb + (if lit then 4 else 0) + code\<rparr>"
    using False
    by (simp add: get_serialize_runtime_info_def rb_def [symmetric] lit_def [symmetric]
        len_def [symmetric] code_def compat_code_def compat_field_def Let_def)
  moreover have "rb = \<lparr>buf_len = wire_len (2 ^ size_code t sz) sz +
      (if check_has_metainfo ndebug conf t \<or> size_code t sz \<noteq> 0 then 1 else 0),
      buf_metainfo = 8 * size_code t sz\<rparr>"
    using runtime_body_eq [OF assms, of ndebug conf] by (simp only: rb_def sz_def wire_len_def)
  moreover have "code < 4" "exist_compatible_member t \<longleftrightarrow> code \<noteq> 0"
    "code = 1 \<or> code = 2 \<Longrightarrow> len + compat_field code < 256 ^ 2 ^ code"
    by (auto simp: code_def compat_code_def compat_field_def split: if_splits)
  ultimately show ?thesis
    using False unfolding Let_def sz_def [symmetric] lit_def [symmetric]
    by (intro exI [of _ code]) (auto simp: len_def)
qed

lemma length_header:
  assumes wc: "well_configured conf t" and code: "code < 4"
    and c: "exist_compatible_member t \<and> \<not> check_if_disable_hash_head conf t \<longleftrightarrow> code \<noteq> 0"
    and meta: "buf_metainfo info mod 4 = code"
  shows "length (serialize_metainfo ndebug conf (st = 0) info t) =
    (if check_if_disable_hash_head conf t then 0 else 4) +
    (if check_has_metainfo ndebug conf t \<or> st \<noteq> 0 then 1 else 0) +
    (if check_if_add_type_literal ndebug conf t then length (get_types_literal t) + 1 else 0) +
    compat_field code"
proof -
  have ex: "exist_compatible_member t \<longleftrightarrow> code \<noteq> 0"
    using wc c by (auto simp: well_configured_def)
  have no: "code = 0 \<and> \<not> check_if_add_type_literal ndebug conf t"
    if "\<not> check_has_metainfo ndebug conf t"
    using that ex disable_no_literal [of conf t ndebug] by (auto simp: check_has_metainfo_def)
  have codes: "code = 0 \<or> code = 1 \<or> code = 2 \<or> code = 3" using code by linarith
  show ?thesis
    using no codes ex meta
    by (auto simp: serialize_metainfo_def even_hash_head compat_field_def Let_def
        split: nat.splits)
qed

lemma size_type_of_meta: "st < 4 \<Longrightarrow> code < 4 \<Longrightarrow>
    size_type_of (8 * st + (if lit then 4 else 0) + code) = st \<and>
    (8 * st + (if lit then 4 else 0) + code) mod 4 = code"
proof -
  assume st: "st < 4" and code: "code < 4"
  have "(4 * k + code) mod 4 = code" for k
    using code by simp
  moreover have "8 * st + (if lit then 4 else 0) + code = 4 * (2 * st + (if lit then 1 else 0)) + code"
    by simp
  ultimately have "(8 * st + (if lit then 4 else 0) + code) mod 4 = code" by (simp only:)
  moreover have "size_type_of (8 * st + (if lit then 4 else 0) + code) = st"
    using st code by (auto simp: size_type_of_def)
  ultimately show ?thesis by blast
qed

lemma length_serialize_to:
  assumes ty: "has_type t v" and flat: "flat_compat t" and wc: "well_configured conf t"
  shows "length (serialize_to ndebug conf (get_serialize_runtime_info ndebug conf t v) t v) =
    buf_len (get_serialize_runtime_info ndebug conf t v)"
proof -
  let ?sz = "calculate_one_size 0 t v"
  let ?st = "size_code t ?sz"
  let ?info = "get_serialize_runtime_info ndebug conf t v"
  let ?V = "set (compatible_version_number t)"
  have nc: "check_if_has_container t \<or> size_cnt ?sz = 0"
    using no_container_sizes(1) [of t v 0] ty by (cases "check_if_has_container t") simp_all
  from runtime_info_eq [OF nc, of conf ndebug] obtain code where
    code: "code < 4" "exist_compatible_member t \<and> \<not> check_if_disable_hash_head conf t \<longleftrightarrow> code \<noteq> 0"
    and info: "?info = \<lparr>buf_len = wire_len (2 ^ ?st) ?sz +
           (if check_has_metainfo ndebug conf t \<or> ?st \<noteq> 0 then 1 else 0) +
           (if check_if_disable_hash_head conf t then 0 else 4) +
           (if check_if_add_type_literal ndebug conf t
            then length (get_types_literal t) + 1 else 0) + compat_field code,
         buf_metainfo = 8 * ?st + (if check_if_add_type_literal ndebug conf t then 4 else 0) + code\<rparr>"
    by (auto simp: Let_def)
  have meta: "size_type_of (buf_metainfo ?info) = ?st" "buf_metainfo ?info mod 4 = code"
    using size_type_of_meta [OF size_code_lt code(1)] by (simp_all add: info)
  have head: "length (serialize_metainfo ndebug conf (?st = 0) ?info t) =
    (if check_if_disable_hash_head conf t then 0 else 4) +
    (if check_has_metainfo ndebug conf t \<or> ?st \<noteq> 0 then 1 else 0) +
    (if check_if_add_type_literal ndebug conf t then length (get_types_literal t) + 1 else 0) +
    compat_field code"
    by (rule length_header [OF wc code meta(2)])
  have "distinct (compatible_version_number t)"
    using compatible_version_number_facts(1) strict_sorted_iff by blast
  then have sum: "length (concat (map (\<lambda>ver. serialize_compat sw ver t v)
      (compatible_version_number t))) = compat_len ?V sw t v" for sw
    by (simp add: length_concat_sum compat_len_def sum_list_distinct_conv_sum_set)
  have none: "compat_len ?V sw t v = 0" if "\<not> exist_compatible_member t" for sw
    using that by (simp add: exist_compatible_member_def compat_len_absent)
  have "versions_in ?V t"
    by (simp add: versions_in_def compatible_version_number_facts(2))
  from announced_size(1) [OF _ ty flat this, of "2 ^ ?st" 0]
  have body: "length (serialize_one (2 ^ ?st) 0 t v) + compat_len ?V (2 ^ ?st) t v =
      wire_len (2 ^ ?st) ?sz" by simp
  have "serialize_to ndebug conf ?info t v = serialize ndebug conf ?st ?info t v"
    using meta(1) by (auto simp: serialize_to_def size_code_def)
  then show ?thesis
    using body sum [of "2 ^ ?st"] none [of "2 ^ ?st"] head
    by (auto simp: serialize_def size_width_def info Let_def)
qed

text \<open>The announced length and the meta-info byte, for the deserializer.\<close>

lemma runtime_info_meta:
  assumes "has_type t v" "well_configured conf t"
    and info_def: "info = get_serialize_runtime_info ndebug conf t v"
  obtains code where "code < 4" "exist_compatible_member t \<longleftrightarrow> code \<noteq> 0"
    "code = 1 \<or> code = 2 \<Longrightarrow> buf_len info < 256 ^ 2 ^ code"
    "buf_metainfo info = 8 * size_code t (calculate_one_size 0 t v) +
       (if check_if_add_type_literal ndebug conf t then 4 else 0) + code"
proof -
  have nc: "check_if_has_container t \<or> size_cnt (calculate_one_size 0 t v) = 0"
    using no_container_sizes(1) [of t v 0] assms(1)
    by (cases "check_if_has_container t") simp_all
  from runtime_info_eq [OF nc, of conf ndebug, unfolded Let_def] obtain code where
    code: "code < 4" "exist_compatible_member t \<and> \<not> check_if_disable_hash_head conf t \<longleftrightarrow> code \<noteq> 0"
    "code = 1 \<or> code = 2 \<longrightarrow> buf_len (get_serialize_runtime_info ndebug conf t v) < 256 ^ 2 ^ code"
    and "\<exists>l. get_serialize_runtime_info ndebug conf t v = \<lparr>buf_len = l,
      buf_metainfo = 8 * size_code t (calculate_one_size 0 t v) +
       (if check_if_add_type_literal ndebug conf t then 4 else 0) + code\<rparr>"
    by blast
  then have meta: "buf_metainfo info = 8 * size_code t (calculate_one_size 0 t v) +
       (if check_if_add_type_literal ndebug conf t then 4 else 0) + code"
    by (auto simp: info_def)
  show ?thesis
  proof (rule that [OF code(1) _ _ meta])
    show "exist_compatible_member t \<longleftrightarrow> code \<noteq> 0"
      using code(2) assms(2) by (auto simp: well_configured_def)
    show "code = 1 \<or> code = 2 \<Longrightarrow> buf_len info < 256 ^ 2 ^ code"
      using code(3) by (simp add: info_def)
  qed
qed

text \<open>
  C11 (safety). Serializing into a buffer never writes outside it: the size computed in
  advance is exactly the number of bytes written, for every type in which no compatible
  member contains another one and every value of it, whatever the configuration; the
  contents in front of the object and the requested gap are kept, and the buffer ends
  with the serialized object.
\<close>
theorem serialize_fits_buffer:
  assumes "has_type t v" and "flat_compat t" and "well_configured conf t"
  shows "serialize_to_buffer ndebug conf buffer offset t v =
    Some (buffer @ replicate offset 0 @
      serialize_to ndebug conf (get_serialize_runtime_info ndebug conf t v) t v)"
  using length_serialize_to [OF assms, of ndebug]
  by (simp add: serialize_to_buffer_def Let_def replicate_add)

theorem serialize_fits_buffer_witness:
  "\<exists>out. serialize_to_buffer True 0 [7] 2
     (TStruct 0 [TFund Int32, TString Char8, TCompat (TFund Int8) 3])
     (VList [VInt (-2), VList [VInt 104, VInt 105], VOpt (Some (VInt 1))]) = Some ([7, 0, 0] @ out)"
  using serialize_fits_buffer [of "TStruct 0 [TFund Int32, TString Char8, TCompat (TFund Int8) 3]"
      "VList [VInt (-2), VList [VInt 104, VInt 105], VOpt (Some (VInt 1))]" 0 True "[7]" 2]
  by (simp add: fund_range_def fits_def fund_signed_def fund_size_def well_configured_def
      check_if_disable_hash_head_def get_type_config_def DISABLE_ALL_META_INFO_def
      del: serialize_to_buffer_def) (simp add: numeral_2_eq_2)

end
