(* ===== verification/SpDeserialize.thy ===== *)
theory SpDeserialize
  imports SpRoundtrip SpSerialize
begin

text \<open>
  The deserializer as a whole: the header (\<open>deserialize_metainfo\<close>), the main pass, and the
  passes over the compatible members, one per version (\<open>deserialize_compatibles\<close>). The state
  of a compatible pass is the reader and the flag that the source keeps by setting
  \<open>size_type_\<close> to \<open>UCHAR_MAX\<close>: the data ended in front of a compatible member, which is
  legal because an older writer did not know it.
\<close>

type_synonym cstate = "bool \<times> memory_reader"

section \<open>The compatible passes\<close>

text \<open>
  \<open>deserialize_one<size_type, version, true>\<close> for a version number: the branches. A compatible
  member of this version is missing when the reader has come to \<open>data_len_\<close>; the results of
  nested calls are dropped where the source drops them. The order in which the entries of
  a map are visited is that of insertion; entries with a repeated key are not represented.
\<close>

definition compat_member ::
  "nat \<Rightarrow> sp_ty \<Rightarrow> nat \<Rightarrow> sp_val \<Rightarrow> (cstate, sp_val) desr" where
  "compat_member sw t data_len item = (\<lambda>(missing, r).
     if rd_tellg r \<ge> data_len then (NoBufferSpace, item, (True, r))
     else
       (case rd_read 1 r of None \<Rightarrow> (NoBufferSpace, item, (missing, r))
        | Some (bs, r') \<Rightarrow>
            if hd bs = 0 then (Ok, item, (missing, r'))
            else (case deserialize_one sw 0 t (default_val t) r' of
                    (_, x, r'') \<Rightarrow> (Ok, VOpt (Some x), (missing, r'')))))"

definition compat_nullable :: "(sp_val \<Rightarrow> (cstate, sp_val) desr) \<Rightarrow> sp_val \<Rightarrow> (cstate, sp_val) desr" where
  "compat_nullable d item st =
     (case val_opt item of None \<Rightarrow> (Ok, item, st)
      | Some x \<Rightarrow> (case d x st of (_, x', st') \<Rightarrow> (Ok, VOpt (Some x'), st')))"

definition compat_expected ::
  "(sp_val \<Rightarrow> (cstate, sp_val) desr) \<Rightarrow> (sp_val \<Rightarrow> (cstate, sp_val) desr) \<Rightarrow> sp_val \<Rightarrow>
     (cstate, sp_val) desr" where
  "compat_expected dv de item st =
     (case item of
        VExp b x \<Rightarrow> (case (if b then dv x st else de x st) of (_, x', st') \<Rightarrow> (Ok, VExp b x', st'))
      | _ \<Rightarrow> (Ok, item, st))"

definition compat_variant ::
  "(nat \<Rightarrow> sp_val \<Rightarrow> cstate \<Rightarrow> sp_val \<times> cstate) \<Rightarrow> sp_val \<Rightarrow> (cstate, sp_val) desr" where
  "compat_variant d item st =
     (case item of VVar i x \<Rightarrow> (case d i x st of (x', st') \<Rightarrow> (Ok, VVar i x', st')) | _ \<Rightarrow> (Ok, item, st))"

definition compat_map :: "(sp_val \<Rightarrow> (cstate, sp_val) desr) \<Rightarrow> sp_val \<Rightarrow> (cstate, sp_val) desr" where
  "compat_map d item st =
     (case des_each d (map snd (val_map item)) st of
        (ec, xs, st') \<Rightarrow> (ec, VMap (zip (map fst (val_map item)) xs), st'))"

text \<open>A type without a compatible member of this version is left alone.\<close>

definition if_compat ::
  "nat \<Rightarrow> sp_ty \<Rightarrow> (sp_val \<Rightarrow> (cstate, sp_val) desr) \<Rightarrow> sp_val \<Rightarrow> (cstate, sp_val) desr" where
  "if_compat ver t d item st =
     (if compatible_element_exist (Some ver) t then d item st else (Ok, item, st))"

fun deserialize_compat :: "nat \<Rightarrow> nat \<Rightarrow> nat \<Rightarrow> sp_ty \<Rightarrow> sp_val \<Rightarrow> (cstate, sp_val) desr"
  and deserialize_compat_many ::
    "nat \<Rightarrow> nat \<Rightarrow> nat \<Rightarrow> sp_ty list \<Rightarrow> sp_val list \<Rightarrow> (cstate, sp_val list) desr"
  and deserialize_compat_alt ::
    "nat \<Rightarrow> nat \<Rightarrow> nat \<Rightarrow> sp_ty list \<Rightarrow> nat \<Rightarrow> sp_val \<Rightarrow> cstate \<Rightarrow> sp_val \<times> cstate" where
  "deserialize_compat sw dl ver (TCompat t n) = if_compat ver (TCompat t n) (compat_member sw t dl)"
| "deserialize_compat sw dl ver (TUnique t) =
     if_compat ver t (compat_nullable (deserialize_compat sw dl ver t))"
| "deserialize_compat sw dl ver (TOptional t) =
     if_compat ver t (compat_nullable (deserialize_compat sw dl ver t))"
| "deserialize_compat sw dl ver (TArray t n) =
     if_compat ver t (\<lambda>item. des_list (des_each (deserialize_compat sw dl ver t)) (val_list item))"
| "deserialize_compat sw dl ver (TSeq c t) =
     if_compat ver t (\<lambda>item. des_list (des_each (deserialize_compat sw dl ver t)) (val_list item))"
| "deserialize_compat sw dl ver (TMap k t) =
     if_compat ver t (compat_map (deserialize_compat sw dl ver t))"
| "deserialize_compat sw dl ver (TTuple ts) =
     if_compat ver (TTuple ts)
       (\<lambda>item. des_list (deserialize_compat_many sw dl ver ts) (val_list item))"
| "deserialize_compat sw dl ver (TStruct cfg ts) =
     if_compat ver (TStruct cfg ts)
       (\<lambda>item. des_list (deserialize_compat_many sw dl ver ts) (val_list item))"
| "deserialize_compat sw dl ver (TExpected t e) =
     if_compat ver (TExpected t e)
       (compat_expected (deserialize_compat sw dl ver t) (deserialize_compat sw dl ver e))"
| "deserialize_compat sw dl ver (TVariant ts) =
     if_compat ver (TVariant ts) (compat_variant (deserialize_compat_alt sw dl ver ts))"
| "deserialize_compat sw dl ver _ = (\<lambda>item st. (Ok, item, st))"
| "deserialize_compat_many sw dl ver [] = (\<lambda>vs st. (Ok, [], st))"
| "deserialize_compat_many sw dl ver (t # ts) =
     des_many_step (deserialize_compat sw dl ver t) (deserialize_compat_many sw dl ver ts)"
| "deserialize_compat_alt sw dl ver [] i = (\<lambda>x st. (x, st))"
| "deserialize_compat_alt sw dl ver (t # ts) i =
     (case i of 0 \<Rightarrow> (\<lambda>x st. snd (deserialize_compat sw dl ver t x st))
      | Suc j \<Rightarrow> deserialize_compat_alt sw dl ver ts j)"

text \<open>
  \<open>deserialize_compatibles\<close>: one pass per version while there is no error; if the data ended
  in front of a compatible member, the error is cleared.
\<close>

primrec compat_passes ::
  "nat \<Rightarrow> nat \<Rightarrow> sp_ty \<Rightarrow> nat list \<Rightarrow> sp_val \<Rightarrow> (cstate, sp_val) desr" where
  "compat_passes sw dl t [] item st = (Ok, item, st)"
| "compat_passes sw dl t (ver # vers) item st =
     (case deserialize_compat sw dl ver t item st of
        (ec, item', st') \<Rightarrow>
          if is_err ec then (ec, item', st') else compat_passes sw dl t vers item' st')"

definition deserialize_compatibles :: "nat \<Rightarrow> nat \<Rightarrow> sp_ty \<Rightarrow> sp_val \<Rightarrow> sp_val des" where
  "deserialize_compatibles sw dl t item r =
     (case compat_passes sw dl t (compatible_version_number t) item (False, r) of
        (ec, item', (missing, r')) \<Rightarrow> (if missing then Ok else ec, item', r'))"

section \<open>The header\<close>

text \<open>\<open>deserialize_compatible\<close>: the length field behind the meta-info byte.\<close>

definition deserialize_compatible :: "nat \<Rightarrow> nat des" where
  "deserialize_compatible code r =
     (case rd_read (2 ^ code) r of None \<Rightarrow> (NoBufferSpace, 0, r)
      | Some (bs, r') \<Rightarrow> (Ok, le_nat bs, r'))"

definition deserialize_type_literal :: "sp_ty \<Rightarrow> memory_reader \<Rightarrow> errc \<times> memory_reader" where
  "deserialize_type_literal t r =
     (let literal = get_types_literal t @ [0]
      in case rd_view (length literal) r of None \<Rightarrow> (NoBufferSpace, r)
         | Some (bs, r') \<Rightarrow> (if bs \<noteq> literal then HashConflict else Ok, r'))"

text \<open>
  The result is the error code, the length announced by the writer (0 when there is none),
  the \<open>size_type_\<close> for the containers, and the reader.
\<close>

definition deserialize_metainfo ::
  "u64 \<Rightarrow> sp_ty \<Rightarrow> memory_reader \<Rightarrow> errc \<times> nat \<times> nat \<times> memory_reader" where
  "deserialize_metainfo conf t r =
     (if check_if_disable_hash_head conf t then
        (if check_if_has_container t then
           (case rd_read 1 r of None \<Rightarrow> (NoBufferSpace, 0, 0, r)
            | Some (bs, r') \<Rightarrow> (Ok, 0, size_type_of (unat (hd bs)), r'))
         else (Ok, 0, 0, r))
      else
        (case rd_read 4 r of None \<Rightarrow> (NoBufferSpace, 0, 0, r)
         | Some (bs, r1) \<Rightarrow>
             let code = le_nat bs in
             if code div 2 \<noteq> unat (get_types_code t) div 2 then (InvalidBuffer, 0, 0, r1)
             else if even code then (Ok, 0, 0, r1)
             else
               (case rd_read 1 r1 of None \<Rightarrow> (NoBufferSpace, 0, 0, r1)
                | Some (ms, r2) \<Rightarrow>
                    let metainfo = unat (hd ms) in
                    (case (if metainfo mod 4 \<noteq> 0 then deserialize_compatible (metainfo mod 4) r2
                           else (Ok, 0, r2)) of
                       (ec, len, r3) \<Rightarrow>
                         if is_err ec then (ec, 0, 0, r3)
                         else
                           (case (if odd (metainfo div 4) then deserialize_type_literal t r3
                                  else (Ok, r3)) of
                              (ec', r4) \<Rightarrow>
                                if is_err ec' then (ec', 0, 0, r4)
                                else (Ok, len, size_type_of metainfo, r4))))))"

section \<open>Deserializing an object\<close>

definition deserialize_with_len ::
  "u64 \<Rightarrow> sp_ty \<Rightarrow> sp_val \<Rightarrow> memory_reader \<Rightarrow> errc \<times> nat \<times> sp_val \<times> memory_reader" where
  "deserialize_with_len conf t item r =
     (case deserialize_metainfo conf t r of
        (ec, buffer_len, size_type, r1) \<Rightarrow>
          if is_err ec then (ec, buffer_len, item, r1)
          else
            let sw = size_width size_type; data_len = rd_tellg r + buffer_len in
            (case deserialize_one sw 0 t item r1 of
               (ec, item', r2) \<Rightarrow>
                 if is_err ec \<or> \<not> exist_compatible_member t then (ec, buffer_len, item', r2)
                 else (case deserialize_compatibles sw data_len t item' r2 of
                         (ec, item'', r3) \<Rightarrow> (ec, buffer_len, item'', r3))))"

definition deserialize :: "u64 \<Rightarrow> sp_ty \<Rightarrow> sp_val \<Rightarrow> sp_val des" where
  "deserialize conf t item r =
     (case deserialize_with_len conf t item r of (ec, _, item', r') \<Rightarrow> (ec, item', r'))"

text \<open>\<open>deserialize_to(t, view)\<close> and \<open>deserialize_to(t, reader)\<close>.\<close>

definition deserialize_to :: "u64 \<Rightarrow> sp_ty \<Rightarrow> sp_val \<Rightarrow> bytes \<Rightarrow> errc \<times> sp_val" where
  "deserialize_to conf t item bs =
     (case deserialize conf t item (mk_reader bs) of (ec, item', _) \<Rightarrow> (ec, item'))"

definition deserialize_to_reader :: "u64 \<Rightarrow> sp_ty \<Rightarrow> sp_val \<Rightarrow> sp_val des" where
  "deserialize_to_reader conf t item r =
     (case deserialize_with_len conf t item r of
        (ec, consume_len, item', r') \<Rightarrow>
          let delta = rd_tellg r' - rd_tellg r in
          if consume_len > 0 then
            if delta > consume_len then (InvalidBuffer, item', r')
            else (ec, item', case rd_ignore (consume_len - delta) r' of None \<Rightarrow> r' | Some r'' \<Rightarrow> r'')
          else (ec, item', r'))"

end
