(* ===== verification/SpCompatRoundtrip.thy ===== *)
theory SpCompatRoundtrip
  imports SpDeserialize
begin

text \<open>
  The compatible passes read back what \<open>serialize_compat\<close> wrote, and the whole buffer
  round trip follows.
\<close>

section \<open>Restoring the compatible members version by version\<close>

text \<open>\<open>upto D t v\<close>: the value with the compatible members of the versions in \<open>D\<close> restored.\<close>

fun upto :: "nat set \<Rightarrow> sp_ty \<Rightarrow> sp_val \<Rightarrow> sp_val"
  and upto_many :: "nat set \<Rightarrow> sp_ty list \<Rightarrow> sp_val list \<Rightarrow> sp_val list"
  and upto_alt :: "nat set \<Rightarrow> sp_ty list \<Rightarrow> nat \<Rightarrow> sp_val \<Rightarrow> sp_val" where
  "upto D (TCompat t n) v = (if n \<in> D then v else VOpt None)"
| "upto D (TArray t n) v = VList (map (upto D t) (val_list v))"
| "upto D (TSeq c t) v = VList (map (upto D t) (val_list v))"
| "upto D (TMap k t) v = VMap (map (\<lambda>x. (fst x, upto D t (snd x))) (val_map v))"
| "upto D (TOptional t) v = VOpt (map_option (upto D t) (val_opt v))"
| "upto D (TUnique t) v = VOpt (map_option (upto D t) (val_opt v))"
| "upto D (TVariant ts) v = (case v of VVar i x \<Rightarrow> VVar i (upto_alt D ts i x) | _ \<Rightarrow> v)"
| "upto D (TExpected t e) v =
     (case v of VExp b x \<Rightarrow> VExp b (if b then upto D t x else upto D e x) | _ \<Rightarrow> v)"
| "upto D (TTuple ts) v = VList (upto_many D ts (val_list v))"
| "upto D (TStruct cfg ts) v = VList (upto_many D ts (val_list v))"
| "upto D _ v = v"
| "upto_many D [] vs = []"
| "upto_many D (t # ts) vs = upto D t (hd vs) # upto_many D ts (tl vs)"
| "upto_alt D [] i x = x"
| "upto_alt D (t # ts) i x = (case i of 0 \<Rightarrow> upto D t x | Suc j \<Rightarrow> upto_alt D ts j x)"

lemma upto_empty:
  "upto {} t v = main_val t v" "upto_many {} ts vs = main_vals ts vs"
  "upto_alt {} ts i x = main_alt ts i x"
  by (induction t v and ts vs and ts i x rule: main_val_main_vals_main_alt.induct)
    (auto split: sp_val.splits nat.splits intro: option.map_cong0)

lemma upto_all:
  "has_type t v \<Longrightarrow> versions_in D t \<Longrightarrow> upto D t v = v"
  "has_types ts vs \<Longrightarrow> versions_in_many D ts \<Longrightarrow> upto_many D ts vs = vs"
  "has_alt ts i x \<Longrightarrow> versions_in_many D ts \<Longrightarrow> upto_alt D ts i x = x"
  by (induction t v and ts vs and ts i x rule: has_type_has_types_has_alt.induct)
    (auto simp: list_all_iff map_idI split: sp_val.splits option.splits list.splits nat.splits)

lemma upto_absent:
  "\<not> compatible_element_exist (Some ver) t \<Longrightarrow> upto (insert ver D) t v = upto D t v"
  "\<not> compatible_element_exist_many (Some ver) ts \<Longrightarrow> upto_many (insert ver D) ts vs = upto_many D ts vs"
  "\<not> compatible_element_exist_many (Some ver) ts \<Longrightarrow> upto_alt (insert ver D) ts i x = upto_alt D ts i x"
  by (induction t v and ts vs and ts i x rule: main_val_main_vals_main_alt.induct)
    (auto split: sp_val.splits nat.splits intro: option.map_cong0)

text \<open>No compatible members inside maps (those in sets and map keys do not compile).\<close>

fun compat_outside_maps :: "sp_ty \<Rightarrow> bool"
  and compat_outside_maps_many :: "sp_ty list \<Rightarrow> bool" where
  "compat_outside_maps (TMap k t) = (\<not> compatible_element_exist None t)"
| "compat_outside_maps (TArray t n) = compat_outside_maps t"
| "compat_outside_maps (TSeq c t) = compat_outside_maps t"
| "compat_outside_maps (TOptional t) = compat_outside_maps t"
| "compat_outside_maps (TUnique t) = compat_outside_maps t"
| "compat_outside_maps (TVariant ts) = compat_outside_maps_many ts"
| "compat_outside_maps (TExpected t e) = (compat_outside_maps t \<and> compat_outside_maps e)"
| "compat_outside_maps (TTuple ts) = compat_outside_maps_many ts"
| "compat_outside_maps (TStruct cfg ts) = compat_outside_maps_many ts"
| "compat_outside_maps _ = True"
| "compat_outside_maps_many [] = True"
| "compat_outside_maps_many (t # ts) = (compat_outside_maps t \<and> compat_outside_maps_many ts)"

section \<open>Readers of a compatible pass\<close>

definition creads :: "nat \<Rightarrow> (cstate, 'a) desr \<Rightarrow> bytes \<Rightarrow> 'a \<Rightarrow> bool" where
  "creads dl d bs x \<longleftrightarrow> (\<forall>m r sfx. rest r = bs @ sfx \<longrightarrow> now r + length bs \<le> dl \<longrightarrow>
     d (m, r) = (Ok, x, (m, advance (length bs) r)))"

lemma creadsI:
  "(\<And>m r sfx. rest r = bs @ sfx \<Longrightarrow> now r + length bs \<le> dl \<Longrightarrow>
      d (m, r :: memory_reader) = (Ok, x, (m, advance (length bs) r))) \<Longrightarrow> creads dl d bs x"
  by (simp add: creads_def)

lemma creadsD:
  "creads dl d bs x \<Longrightarrow> rest r = bs @ sfx \<Longrightarrow> now r + length bs \<le> dl \<Longrightarrow>
   d (m, r) = (Ok, x, (m, advance (length bs) r))"
  by (simp add: creads_def)

lemma creads_nothing: "(\<And>st. d st = (Ok, x, st)) \<Longrightarrow> creads dl d [] x"
  by (simp add: creads_def)

lemma creads_list: "creads dl (d vs) bs xs \<Longrightarrow> creads dl (des_list d vs) bs (VList xs)"
  by (simp add: creads_def des_list_def)

lemma creads_many_step:
  assumes "creads dl (d (hd vs)) bs x" "creads dl (others (tl vs)) bs' xs"
  shows "creads dl (des_many_step d others vs) (bs @ bs') (x # xs)"
proof (rule creadsI)
  fix m and r :: memory_reader and sfx
  assume r: "rest r = (bs @ bs') @ sfx" and dl: "now r + length (bs @ bs') \<le> dl"
  have "d (hd vs) (m, r) = (Ok, x, (m, advance (length bs) r))"
    by (rule creadsD [OF assms(1), where sfx = "bs' @ sfx"]) (use r dl in simp_all)
  moreover have "others (tl vs) (m, advance (length bs) r) =
      (Ok, xs, (m, advance (length bs') (advance (length bs) r)))"
    by (rule creadsD [OF assms(2), where sfx = sfx]) (use r dl in simp_all)
  ultimately show "des_many_step d others vs (m, r) =
      (Ok, x # xs, (m, advance (length (bs @ bs')) r))"
    by (simp add: des_many_step_def)
qed

lemma creads_each:
  assumes "\<forall>v \<in> set vs. creads dl (d (old v)) (enc v) (res v)"
  shows "creads dl (des_each d (map old vs)) (concat (map enc vs)) (map res vs)"
  using assms
proof (induction vs)
  case Nil
  show ?case by (simp add: creads_def)
next
  case (Cons v vs)
  have one: "creads dl (d (old v)) (enc v) (res v)" using Cons.prems by simp
  have all: "creads dl (des_each d (map old vs)) (concat (map enc vs)) (map res vs)"
    using Cons by simp
  show ?case
  proof (rule creadsI)
    fix m and r :: memory_reader and sfx
    assume r: "rest r = concat (map enc (v # vs)) @ sfx"
      and dl: "now r + length (concat (map enc (v # vs))) \<le> dl"
    have "d (old v) (m, r) = (Ok, res v, (m, advance (length (enc v)) r))"
      by (rule creadsD [OF one, where sfx = "concat (map enc vs) @ sfx"]) (use r dl in simp_all)
    moreover have "des_each d (map old vs) (m, advance (length (enc v)) r) =
        (Ok, map res vs, (m, advance (length (concat (map enc vs))) (advance (length (enc v)) r)))"
      by (rule creadsD [OF all, where sfx = sfx]) (use r dl in simp_all)
    ultimately show "des_each d (map old (v # vs)) (m, r) =
        (Ok, map res (v # vs), (m, advance (length (concat (map enc (v # vs)))) r))" by simp
  qed
qed

section \<open>One lemma per branch\<close>

definition compat_ok :: "sp_ty \<Rightarrow> bool" where
  "compat_ok t \<longleftrightarrow> (\<forall>sw dl ver D tag v.
     wf_ty t \<longrightarrow> flat_compat t \<longrightarrow> compat_outside_maps t \<longrightarrow> has_type t v \<longrightarrow>
     max_size (calculate_one_size tag t v) < 256 ^ sw \<longrightarrow> ver \<notin> D \<longrightarrow>
     creads dl (deserialize_compat sw dl ver t (upto D t v)) (serialize_compat sw ver t v)
       (upto (insert ver D) t v))"

lemma compat_okD:
  "compat_ok t \<Longrightarrow> wf_ty t \<Longrightarrow> flat_compat t \<Longrightarrow> compat_outside_maps t \<Longrightarrow> has_type t v \<Longrightarrow>
   max_size (calculate_one_size tag t v) < 256 ^ sw \<Longrightarrow> ver \<notin> D \<Longrightarrow>
   creads dl (deserialize_compat sw dl ver t (upto D t v)) (serialize_compat sw ver t v)
     (upto (insert ver D) t v)"
  unfolding compat_ok_def by blast

lemma deserialize_compat_absent:
  "\<not> compatible_element_exist (Some ver) t \<Longrightarrow>
   deserialize_compat sw dl ver t item st = (Ok, item, st)"
  by (cases t) (auto simp: if_compat_def)

text \<open>It suffices to look at types that do contain a member of the version.\<close>

lemma compat_okI:
  assumes "\<And>sw dl ver D tag v. wf_ty t \<Longrightarrow> flat_compat t \<Longrightarrow> compat_outside_maps t \<Longrightarrow>
     has_type t v \<Longrightarrow> max_size (calculate_one_size tag t v) < 256 ^ sw \<Longrightarrow> ver \<notin> D \<Longrightarrow>
     compatible_element_exist (Some ver) t \<Longrightarrow>
     creads dl (deserialize_compat sw dl ver t (upto D t v)) (serialize_compat sw ver t v)
       (upto (insert ver D) t v)"
  shows "compat_ok t"
proof -
  have "creads dl (deserialize_compat sw dl ver t (upto D t v)) (serialize_compat sw ver t v)
       (upto (insert ver D) t v)" if "\<not> compatible_element_exist (Some ver) t" for sw dl ver D v
    using that by (simp add: serialize_compat_absent upto_absent creads_def
        deserialize_compat_absent)
  note absent = this
  show ?thesis
    unfolding compat_ok_def
  proof (intro allI impI)
    fix sw dl ver :: nat and D :: "nat set" and tag :: u64 and v
    assume *: "wf_ty t" "flat_compat t" "compat_outside_maps t" "has_type t v"
      "max_size (calculate_one_size tag t v) < 256 ^ sw" "ver \<notin> D"
    show "creads dl (deserialize_compat sw dl ver t (upto D t v)) (serialize_compat sw ver t v)
       (upto (insert ver D) t v)"
      by (cases "compatible_element_exist (Some ver) t") (rule assms [OF *] absent, assumption)+
  qed
qed

lemma compat_nothing_inside:
  "(\<And>ver. \<not> compatible_element_exist (Some ver) t) \<Longrightarrow> compat_ok t"
  by (rule compat_okI) blast

lemma compat_compat: "compat_ok (TCompat t n)"
proof (rule compat_okI)
  fix sw dl ver :: nat and D :: "nat set" and tag :: u64 and v
  assume wf: "wf_ty (TCompat t n)" and flat: "flat_compat (TCompat t n)"
    and ty: "has_type (TCompat t n) v"
    and sz: "max_size (calculate_one_size tag (TCompat t n) v) < 256 ^ sw"
    and ver: "ver \<notin> D" and ex: "compatible_element_exist (Some ver) (TCompat t n)"
  have n: "n = ver" using ex by simp
  show "creads dl (deserialize_compat sw dl ver (TCompat t n) (upto D (TCompat t n) v))
      (serialize_compat sw ver (TCompat t n) v) (upto (insert ver D) (TCompat t n) v)"
  proof (cases "val_opt v")
    case None
    then have v: "v = VOpt None" using ty by (auto split: sp_val.splits option.splits)
    show ?thesis
    proof (rule creadsI)
      fix m and r :: memory_reader and sfx
      assume r: "rest r = serialize_compat sw ver (TCompat t n) v @ sfx"
        and dl: "now r + length (serialize_compat sw ver (TCompat t n) v) \<le> dl"
      have "rd_read 1 r = Some ([0], advance 1 r)"
        by (rule rd_read_append [where sfx = sfx]) (use r n v in simp_all)
      then show "deserialize_compat sw dl ver (TCompat t n) (upto D (TCompat t n) v) (m, r) =
          (Ok, upto (insert ver D) (TCompat t n) v,
           (m, advance (length (serialize_compat sw ver (TCompat t n) v)) r))"
        using n v ver dl by (simp add: if_compat_def compat_member_def rd_tellg_def)
    qed
  next
    case (Some x)
    then have v: "v = VOpt (Some x)" "has_type t x" using ty by (auto split: sp_val.splits)
    have rd: "reads (deserialize_one sw 0 t (default_val t)) (serialize_one sw 0 t x) (main_val t x)"
      by (rule codec_okD [OF codec_ok_all])
        (use wf v sz in \<open>auto intro: target_default(1)\<close>)
    have main: "main_val t x = x" using main_val_id(1) flat v(2) by simp
    show ?thesis
    proof (rule creadsI)
      fix m and r :: memory_reader and sfx
      assume r: "rest r = serialize_compat sw ver (TCompat t n) v @ sfx"
        and dl: "now r + length (serialize_compat sw ver (TCompat t n) v) \<le> dl"
      have f: "rd_read 1 r = Some ([1], advance 1 r)"
        by (rule rd_read_append [where sfx = "serialize_one sw 0 t x @ sfx"]) (use r n v in simp_all)
      have "deserialize_one sw 0 t (default_val t) (advance 1 r) =
          (Ok, main_val t x, advance (length (serialize_one sw 0 t x)) (advance 1 r))"
        by (rule readsD [OF rd, where sfx = sfx]) (use r n v in simp)
      then show "deserialize_compat sw dl ver (TCompat t n) (upto D (TCompat t n) v) (m, r) =
          (Ok, upto (insert ver D) (TCompat t n) v,
           (m, advance (length (serialize_compat sw ver (TCompat t n) v)) r))"
        using n v ver dl f main by (simp add: if_compat_def compat_member_def rd_tellg_def)
    qed
  qed
qed

lemma creads_nullable:
  assumes "\<And>x. val_opt v = Some x \<Longrightarrow> creads dl (d (old x)) (enc x) (res x)"
  shows "creads dl (compat_nullable d (VOpt (map_option old (val_opt v))))
    (case val_opt v of None \<Rightarrow> [] | Some x \<Rightarrow> enc x) (VOpt (map_option res (val_opt v)))"
proof (cases "val_opt v")
  case None
  then show ?thesis by (simp add: creads_def compat_nullable_def)
next
  case (Some x)
  with assms show ?thesis by (auto simp: creads_def compat_nullable_def)
qed

lemma nullable_element:
  assumes "has_type (TOptional t) v \<or> has_type (TUnique t) v" "val_opt v = Some x"
    and "max_size (calculate_one_size tag (TOptional t) v) < 256 ^ sw"
  shows "has_type t x \<and> max_size (calculate_one_size 0 t x) < 256 ^ sw"
  using assms by (auto split: sp_val.splits)

lemma compat_optional: "compat_ok t \<Longrightarrow> compat_ok (TOptional t)"
proof (rule compat_okI)
  fix sw dl ver :: nat and D :: "nat set" and tag :: u64 and v
  assume t: "compat_ok t" and wf: "wf_ty (TOptional t)" "flat_compat (TOptional t)"
      "compat_outside_maps (TOptional t)" and ty: "has_type (TOptional t) v"
    and sz: "max_size (calculate_one_size tag (TOptional t) v) < 256 ^ sw"
    and ver: "ver \<notin> D" and ex: "compatible_element_exist (Some ver) (TOptional t)"
  have "creads dl (compat_nullable (deserialize_compat sw dl ver t)
        (VOpt (map_option (upto D t) (val_opt v))))
      (case val_opt v of None \<Rightarrow> [] | Some x \<Rightarrow> serialize_compat sw ver t x)
      (VOpt (map_option (upto (insert ver D) t) (val_opt v)))"
    by (rule creads_nullable, rule compat_okD [OF t, where tag = 0])
      (use wf ver nullable_element ty sz in auto)
  with ex show "creads dl (deserialize_compat sw dl ver (TOptional t) (upto D (TOptional t) v))
      (serialize_compat sw ver (TOptional t) v) (upto (insert ver D) (TOptional t) v)"
    by (simp add: if_compat_def creads_def)
qed

lemma compat_unique: "compat_ok t \<Longrightarrow> compat_ok (TUnique t)"
proof (rule compat_okI)
  fix sw dl ver :: nat and D :: "nat set" and tag :: u64 and v
  assume t: "compat_ok t" and wf: "wf_ty (TUnique t)" "flat_compat (TUnique t)"
      "compat_outside_maps (TUnique t)" and ty: "has_type (TUnique t) v"
    and sz: "max_size (calculate_one_size tag (TUnique t) v) < 256 ^ sw"
    and ver: "ver \<notin> D" and ex: "compatible_element_exist (Some ver) (TUnique t)"
  have sz': "max_size (calculate_one_size tag (TOptional t) v) < 256 ^ sw" using sz by simp
  have "creads dl (compat_nullable (deserialize_compat sw dl ver t)
        (VOpt (map_option (upto D t) (val_opt v))))
      (case val_opt v of None \<Rightarrow> [] | Some x \<Rightarrow> serialize_compat sw ver t x)
      (VOpt (map_option (upto (insert ver D) t) (val_opt v)))"
    by (rule creads_nullable, rule compat_okD [OF t, where tag = 0])
      (use wf ver nullable_element ty sz' in auto)
  with ex show "creads dl (deserialize_compat sw dl ver (TUnique t) (upto D (TUnique t) v))
      (serialize_compat sw ver (TUnique t) v) (upto (insert ver D) (TUnique t) v)"
    by (simp add: if_compat_def creads_def)
qed

lemma creads_elements:
  assumes t: "compat_ok t" "wf_ty t" "flat_compat t" "compat_outside_maps t" and ver: "ver \<notin> D"
    and vs: "\<forall>x \<in> set vs. has_type t x \<and> max_size (calculate_one_size 0 t x) < 256 ^ sw"
  shows "creads dl (des_list (des_each (deserialize_compat sw dl ver t)) (map (upto D t) vs))
    (concat (map (serialize_compat sw ver t) vs)) (VList (map (upto (insert ver D) t) vs))"
  by (rule creads_list, rule creads_each) (use compat_okD [OF t(1-4), where tag = 0] ver vs in auto)

lemma compat_array: "compat_ok t \<Longrightarrow> compat_ok (TArray t n)"
proof (rule compat_okI)
  fix sw dl ver :: nat and D :: "nat set" and tag :: u64 and v
  assume t: "compat_ok t" and wf: "wf_ty (TArray t n)" "flat_compat (TArray t n)"
      "compat_outside_maps (TArray t n)" and ty: "has_type (TArray t n) v"
    and sz: "max_size (calculate_one_size tag (TArray t n) v) < 256 ^ sw"
    and ver: "ver \<notin> D" and ex: "compatible_element_exist (Some ver) (TArray t n)"
  obtain vs where vs: "v = VList vs" "\<forall>x \<in> set vs. has_type t x"
    using ty by (auto split: sp_val.splits simp: list_all_iff)
  have "\<not> is_trivial_serializable t False 0" using trivial_no_compat(1) ex by auto
  then have "creads dl (des_list (des_each (deserialize_compat sw dl ver t)) (map (upto D t) vs))
      (concat (map (serialize_compat sw ver t) vs)) (VList (map (upto (insert ver D) t) vs))"
    using t wf ver vs sz by (intro creads_elements) (auto simp: max_size_each_less)
  with ex vs show "creads dl (deserialize_compat sw dl ver (TArray t n) (upto D (TArray t n) v))
      (serialize_compat sw ver (TArray t n) v) (upto (insert ver D) (TArray t n) v)"
    by (simp add: if_compat_def creads_def)
qed

lemma compat_seq: "compat_ok t \<Longrightarrow> compat_ok (TSeq c t)"
proof (rule compat_okI)
  fix sw dl ver :: nat and D :: "nat set" and tag :: u64 and v
  assume t: "compat_ok t" and wf: "wf_ty (TSeq c t)" "flat_compat (TSeq c t)"
      "compat_outside_maps (TSeq c t)" and ty: "has_type (TSeq c t) v"
    and sz: "max_size (calculate_one_size tag (TSeq c t) v) < 256 ^ sw"
    and ver: "ver \<notin> D" and ex: "compatible_element_exist (Some ver) (TSeq c t)"
  obtain vs where vs: "v = VList vs" "\<forall>x \<in> set vs. has_type t x"
    using ty by (auto split: sp_val.splits simp: list_all_iff)
  have "\<not> is_trivial_serializable t False 0" using trivial_no_compat(1) ex by auto
  then have "creads dl (des_list (des_each (deserialize_compat sw dl ver t)) (map (upto D t) vs))
      (concat (map (serialize_compat sw ver t) vs)) (VList (map (upto (insert ver D) t) vs))"
    using t wf ver vs sz by (intro creads_elements) (auto simp: max_size_each_less)
  with ex vs show "creads dl (deserialize_compat sw dl ver (TSeq c t) (upto D (TSeq c t) v))
      (serialize_compat sw ver (TSeq c t) v) (upto (insert ver D) (TSeq c t) v)"
    by (simp add: if_compat_def creads_def)
qed

lemma creads_members:
  assumes "\<forall>t \<in> set ts. compat_ok t" and ver: "ver \<notin> D"
  shows "wf_tys ts \<Longrightarrow> flat_compat_many ts \<Longrightarrow> compat_outside_maps_many ts \<Longrightarrow> has_types ts vs \<Longrightarrow>
    max_size (calculate_payload_size tag ts vs) < 256 ^ sw \<Longrightarrow>
    creads dl (deserialize_compat_many sw dl ver ts (upto_many D ts vs))
      (serialize_compat_many sw ver ts vs) (upto_many (insert ver D) ts vs)"
  using assms(1)
proof (induction ts arbitrary: vs)
  case Nil
  then show ?case by (simp add: creads_def)
next
  case (Cons t ts)
  let ?old = "upto_many D (t # ts) vs"
  have one: "creads dl (deserialize_compat sw dl ver t (hd ?old)) (serialize_compat sw ver t (hd vs))
      (upto (insert ver D) t (hd vs))"
    by (simp, rule compat_okD [where tag = tag]) (use Cons.prems ver in \<open>auto split: list.splits\<close>)
  have all: "creads dl (deserialize_compat_many sw dl ver ts (tl ?old))
      (serialize_compat_many sw ver ts (tl vs)) (upto_many (insert ver D) ts (tl vs))"
    by (simp, rule Cons.IH) (use Cons.prems in \<open>auto split: list.splits\<close>)
  from creads_many_step [where d = "deserialize_compat sw dl ver t"
      and others = "deserialize_compat_many sw dl ver ts", OF one all]
  show ?case by simp
qed

lemma compat_tuple: "\<forall>t \<in> set ts. compat_ok t \<Longrightarrow> compat_ok (TTuple ts)"
proof (rule compat_okI)
  fix sw dl ver :: nat and D :: "nat set" and tag :: u64 and v
  assume ts: "\<forall>t \<in> set ts. compat_ok t" and wf: "wf_ty (TTuple ts)"
      "flat_compat (TTuple ts)" "compat_outside_maps (TTuple ts)"
    and ty: "has_type (TTuple ts) v"
    and sz: "max_size (calculate_one_size tag (TTuple ts) v) < 256 ^ sw"
    and ver: "ver \<notin> D" and ex: "compatible_element_exist (Some ver) (TTuple ts)"
  obtain vs where vs: "v = VList vs" "has_types ts vs" using ty by (auto split: sp_val.splits)
  have "creads dl (des_list (deserialize_compat_many sw dl ver ts) (upto_many D ts vs))
      (serialize_compat_many sw ver ts vs) (VList (upto_many (insert ver D) ts vs))"
    by (rule creads_list, rule creads_members [OF ts ver, where tag = 0]) (use wf vs sz in auto)
  with ex vs show "creads dl (deserialize_compat sw dl ver (TTuple ts) (upto D (TTuple ts) v))
      (serialize_compat sw ver (TTuple ts) v) (upto (insert ver D) (TTuple ts) v)"
    by (simp add: if_compat_def creads_def)
qed

lemma compat_struct: "\<forall>t \<in> set ts. compat_ok t \<Longrightarrow> compat_ok (TStruct cfg ts)"
proof (rule compat_okI)
  fix sw dl ver :: nat and D :: "nat set" and tag :: u64 and v
  assume ts: "\<forall>t \<in> set ts. compat_ok t" and wf: "wf_ty (TStruct cfg ts)"
      "flat_compat (TStruct cfg ts)" "compat_outside_maps (TStruct cfg ts)"
    and ty: "has_type (TStruct cfg ts) v"
    and sz: "max_size (calculate_one_size tag (TStruct cfg ts) v) < 256 ^ sw"
    and ver: "ver \<notin> D" and ex: "compatible_element_exist (Some ver) (TStruct cfg ts)"
  obtain vs where vs: "v = VList vs" "has_types ts vs" using ty by (auto split: sp_val.splits)
  have nt: "\<not> all_trivial_serializable ts False cfg" using trivial_no_compat(2) ex by auto
  obtain c where c: "max_size (calculate_payload_size c ts vs) < 256 ^ sw"
    using sz nt vs by (auto split: if_splits)
  have "creads dl (des_list (deserialize_compat_many sw dl ver ts) (upto_many D ts vs))
      (serialize_compat_many sw ver ts vs) (VList (upto_many (insert ver D) ts vs))"
    by (rule creads_list, rule creads_members [OF ts ver, where tag = c]) (use wf vs c in auto)
  with ex vs show "creads dl (deserialize_compat sw dl ver (TStruct cfg ts) (upto D (TStruct cfg ts) v))
      (serialize_compat sw ver (TStruct cfg ts) v) (upto (insert ver D) (TStruct cfg ts) v)"
    by (simp add: if_compat_def creads_def)
qed

lemma compat_expected_ok: "compat_ok t \<Longrightarrow> compat_ok e \<Longrightarrow> compat_ok (TExpected t e)"
proof (rule compat_okI)
  fix sw dl ver :: nat and D :: "nat set" and tag :: u64 and v
  assume t: "compat_ok t" and e: "compat_ok e" and wf: "wf_ty (TExpected t e)"
      "flat_compat (TExpected t e)" "compat_outside_maps (TExpected t e)"
    and ty: "has_type (TExpected t e) v"
    and sz: "max_size (calculate_one_size tag (TExpected t e) v) < 256 ^ sw"
    and ver: "ver \<notin> D" and ex: "compatible_element_exist (Some ver) (TExpected t e)"
  obtain b x where x: "v = VExp b x" using ty by (auto split: sp_val.splits)
  have "creads dl (deserialize_compat sw dl ver (if b then t else e) (upto D (if b then t else e) x))
      (serialize_compat sw ver (if b then t else e) x) (upto (insert ver D) (if b then t else e) x)"
    by (rule compat_okD [where tag = 0]) (use t e wf ty sz x ver in auto)
  with ex x show "creads dl (deserialize_compat sw dl ver (TExpected t e) (upto D (TExpected t e) v))
      (serialize_compat sw ver (TExpected t e) v) (upto (insert ver D) (TExpected t e) v)"
    by (cases b) (auto simp: if_compat_def creads_def compat_expected_def)
qed

lemma creads_alt:
  assumes "\<forall>t \<in> set ts. compat_ok t" and ver: "ver \<notin> D"
  shows "wf_tys ts \<Longrightarrow> flat_compat_many ts \<Longrightarrow> compat_outside_maps_many ts \<Longrightarrow> has_alt ts i x \<Longrightarrow>
    max_size (calculate_alt_size ts i x) < 256 ^ sw \<Longrightarrow>
    rest r = serialize_compat_alt sw ver ts i x @ sfx \<Longrightarrow>
    now r + length (serialize_compat_alt sw ver ts i x) \<le> dl \<Longrightarrow>
    deserialize_compat_alt sw dl ver ts i (upto_alt D ts i x) (m, r) =
      (upto_alt (insert ver D) ts i x, (m, advance (length (serialize_compat_alt sw ver ts i x)) r))"
  using assms(1)
proof (induction ts arbitrary: i)
  case (Cons t ts)
  show ?case
  proof (cases i)
    case 0
    have rd: "creads dl (deserialize_compat sw dl ver t (upto D t x)) (serialize_compat sw ver t x)
        (upto (insert ver D) t x)"
      by (rule compat_okD [where tag = 0]) (use Cons.prems ver 0 in auto)
    have "deserialize_compat sw dl ver t (upto D t x) (m, r) =
        (Ok, upto (insert ver D) t x, (m, advance (length (serialize_compat sw ver t x)) r))"
      by (rule creadsD [OF rd, where sfx = sfx]) (use Cons.prems 0 in simp_all)
    with 0 show ?thesis by simp
  next
    case (Suc j)
    with Cons show ?thesis by simp
  qed
qed simp

lemma compat_variant_ok: "\<forall>t \<in> set ts. compat_ok t \<Longrightarrow> compat_ok (TVariant ts)"
proof (rule compat_okI)
  fix sw dl ver :: nat and D :: "nat set" and tag :: u64 and v
  assume ts: "\<forall>t \<in> set ts. compat_ok t" and wf: "wf_ty (TVariant ts)"
      "flat_compat (TVariant ts)" "compat_outside_maps (TVariant ts)"
    and ty: "has_type (TVariant ts) v"
    and sz: "max_size (calculate_one_size tag (TVariant ts) v) < 256 ^ sw"
    and ver: "ver \<notin> D" and ex: "compatible_element_exist (Some ver) (TVariant ts)"
  obtain i x where x: "v = VVar i x" "has_alt ts i x" using ty by (auto split: sp_val.splits)
  show "creads dl (deserialize_compat sw dl ver (TVariant ts) (upto D (TVariant ts) v))
      (serialize_compat sw ver (TVariant ts) v) (upto (insert ver D) (TVariant ts) v)"
  proof (rule creadsI)
    fix m and r :: memory_reader and sfx
    assume r: "rest r = serialize_compat sw ver (TVariant ts) v @ sfx"
      and dl: "now r + length (serialize_compat sw ver (TVariant ts) v) \<le> dl"
    have "deserialize_compat_alt sw dl ver ts i (upto_alt D ts i x) (m, r) =
      (upto_alt (insert ver D) ts i x, (m, advance (length (serialize_compat_alt sw ver ts i x)) r))"
      by (rule creads_alt [OF ts ver]) (use wf x sz r dl in auto)
    with ex x show "deserialize_compat sw dl ver (TVariant ts) (upto D (TVariant ts) v) (m, r) =
      (Ok, upto (insert ver D) (TVariant ts) v,
       (m, advance (length (serialize_compat sw ver (TVariant ts) v)) r))"
      by (simp add: if_compat_def compat_variant_def)
  qed
qed

lemma compat_map_ok: "compat_ok (TMap k t)"
  by (rule compat_okI) (auto simp: no_compat_versions)

lemma compat_set_ok: "compat_ok (TSet t)"
  by (rule compat_okI) (auto simp: set_elem_no_compat)

lemma compat_string_ok: "compat_ok (TString f)"
  by (rule compat_okI) simp

lemma compat_ok_all: "compat_ok t"
proof (induction t)
  case (TVariant ts)
  then show ?case by (intro compat_variant_ok) blast
next
  case (TTuple ts)
  then show ?case by (intro compat_tuple) blast
next
  case (TStruct cfg ts)
  then show ?case by (intro compat_struct) blast
qed (simp_all add: compat_compat compat_array compat_seq compat_map_ok compat_set_ok compat_string_ok compat_optional
    compat_unique compat_expected_ok compat_nothing_inside)

section \<open>Reading the header back\<close>

lemma hash_head_eq:
  "unat (hash_head ndebug conf d t) =
     unat (get_types_code t) + (if d \<and> \<not> check_has_metainfo ndebug conf t then 0 else 1)"
proof -
  let ?c = "get_types_code t"
  have ev: "even (unat ?c)" using get_types_code_even even_unat_u32 by blast
  have "unat ?c + 1 < 2 ^ 32"
  proof -
    have "unat ?c < 2 ^ 32" using unat_u32_lt [of ?c] by simp
    moreover have "unat ?c \<noteq> 2 ^ 32 - 1"
    proof
      assume "unat ?c = 2 ^ 32 - 1"
      with ev show False by simp
    qed
    ultimately show ?thesis by linarith
  qed
  then have suc: "unat (?c + 1) = unat ?c + 1" by (simp add: unat_word_ariths)
  have odd: "odd (?c + 1)" using get_types_code_even [of t] by simp
  have "hash_head ndebug conf d t =
      (if d \<and> \<not> check_has_metainfo ndebug conf t then ?c else ?c + 1)"
    using get_types_code_even [of t] odd
    by (auto simp: hash_head_def calculate_hash_head_def or_one_eq)
  with suc show ?thesis by simp
qed

lemma hash_head_lt: "unat (hash_head ndebug conf d t) < 256 ^ 4"
  by simp

definition header_len_field :: "nat \<Rightarrow> nat \<Rightarrow> bytes" where
  "header_len_field code len = (if code = 0 then [] else le_bytes (2 ^ code) len)"

lemma serialize_metainfo_eq:
  assumes "exist_compatible_member t \<longleftrightarrow> code \<noteq> 0" "code < 4" "buf_metainfo info mod 4 = code"
  shows "serialize_metainfo ndebug conf d info t =
    (if check_if_disable_hash_head conf t then []
     else le_bytes 4 (unat (hash_head ndebug conf d t))) @
    (if d \<and> \<not> check_has_metainfo ndebug conf t then []
     else [word_of_nat (buf_metainfo info)] @ header_len_field code (buf_len info) @
       (if check_if_add_type_literal ndebug conf t then get_types_literal t @ [0] else []))"
proof -
  have codes: "code = 0 \<or> code = 1 \<or> code = 2 \<or> code = 3" using assms(2) by linarith
  have "(if exist_compatible_member t then
      (if buf_metainfo info mod 4 = 1 then le_bytes 2 (buf_len info)
       else if buf_metainfo info mod 4 = 2 then le_bytes 4 (buf_len info)
       else if buf_metainfo info mod 4 = 3 then le_bytes 8 (buf_len info) else []) else []) =
      header_len_field code (buf_len info)"
    using codes assms(1,3) by (auto simp: header_len_field_def simp del: le_bytes.simps)
  then show ?thesis
    unfolding serialize_metainfo_def Let_def even_hash_head by (simp only:)
qed

lemma read_len_field:
  assumes "code \<noteq> 0" "len < 256 ^ 2 ^ code" "rest r = header_len_field code len @ sfx"
  shows "deserialize_compatible code r = (Ok, len, advance (2 ^ code) r)"
  using assms rd_read_append [of r "le_bytes (2 ^ code) len" sfx "2 ^ code"]
  by (simp add: deserialize_compatible_def header_len_field_def le_nat_le_bytes_id)

lemma read_literal:
  "rest r = get_types_literal t @ [0] @ sfx \<Longrightarrow>
   deserialize_type_literal t r = (Ok, advance (length (get_types_literal t) + 1) r)"
  by (simp add: deserialize_type_literal_def rd_view_def)

lemma deserialize_metainfo_steps:
  assumes "\<not> check_if_disable_hash_head conf t" and "rd_read 4 r = Some (bs, r1)"
    and "le_nat bs div 2 = unat (get_types_code t) div 2" and "odd (le_nat bs)"
    and "rd_read 1 r1 = Some ([b], r2)" and "unat b = m"
    and "(if m mod 4 \<noteq> 0 then deserialize_compatible (m mod 4) r2 else (Ok, 0, r2)) = (Ok, len, r3)"
    and "(if odd (m div 4) then deserialize_type_literal t r3 else (Ok, r3)) = (Ok, r4)"
  shows "deserialize_metainfo conf t r = (Ok, len, size_type_of m, r4)"
proof -
  have "is_err Ok = False" by simp
  with assms(1,4) show ?thesis
    by (simp only: deserialize_metainfo_def Let_def if_False if_True option.case prod.case list.sel
        assms(2,3,5-8) simp_thms)
qed

lemma deserialize_header:
  assumes "exist_compatible_member t \<longleftrightarrow> code \<noteq> 0" "code < 4" "st < 4"
    and wc: "well_configured conf t"
    and cont: "st \<noteq> 0 \<Longrightarrow> check_if_has_container t"
    and len: "code \<noteq> 0 \<Longrightarrow> buf_len info < 256 ^ 2 ^ code"
    and meta: "buf_metainfo info =
      8 * st + (if check_if_add_type_literal ndebug conf t then 4 else 0) + code"
    and r: "rest r = serialize_metainfo ndebug conf (st = 0) info t @ sfx"
  shows "deserialize_metainfo conf t r =
    (Ok, if code = 0 then 0 else buf_len info, st,
     advance (length (serialize_metainfo ndebug conf (st = 0) info t)) r)"
proof -
  let ?lit = "check_if_add_type_literal ndebug conf t"
  let ?head = "hash_head ndebug conf (st = 0) t"
  let ?none = "st = 0 \<and> \<not> check_has_metainfo ndebug conf t"
  let ?lits = "if ?lit then get_types_literal t @ [0] else []"
  let ?len = "header_len_field code (buf_len info)"
  have st: "size_type_of (buf_metainfo info) = st" and m4: "buf_metainfo info mod 4 = code"
    using size_type_of_meta [OF assms(3,2), of ?lit] meta by simp_all
  have byte: "unat (word_of_nat (buf_metainfo info) :: byte) = buf_metainfo info"
    using meta assms(2,3) by (simp only: unat_byte_of_nat) simp
  have oddlit: "odd (buf_metainfo info div 4) \<longleftrightarrow> ?lit"
  proof -
    have "(4 * k + code) div 4 = k" for k using assms(2) by simp
    moreover have "buf_metainfo info = 4 * (2 * st + (if ?lit then 1 else 0)) + code"
      by (simp add: meta)
    ultimately have "buf_metainfo info div 4 = 2 * st + (if ?lit then 1 else 0)" by (simp only:)
    then show ?thesis by simp
  qed
  note eq = serialize_metainfo_eq [OF assms(1,2) m4, of ndebug conf "st = 0"]
  show ?thesis
  proof (cases "check_if_disable_hash_head conf t")
    case True
    have c0: "code = 0" using True wc assms(1) by (auto simp: well_configured_def)
    have nolit: "\<not> ?lit" using True by (rule disable_no_literal)
    have none: "?none \<longleftrightarrow> \<not> check_if_has_container t"
      using True c0 assms(1) nolit cont by (auto simp: check_has_metainfo_def)
    show ?thesis
    proof (cases "check_if_has_container t")
      case False
      with none True have "serialize_metainfo ndebug conf (st = 0) info t = []" unfolding eq by simp
      with False none True c0 show ?thesis by (simp add: deserialize_metainfo_def)
    next
      case has: True
      then have img: "serialize_metainfo ndebug conf (st = 0) info t = [word_of_nat (buf_metainfo info)]"
        using True none c0 nolit by (auto simp: eq header_len_field_def)
      have "rd_read 1 r = Some ([word_of_nat (buf_metainfo info)], advance 1 r)"
        by (rule rd_read_append [where sfx = sfx]) (use r img in simp_all)
      with has True img c0 st byte show ?thesis
        by (simp add: deserialize_metainfo_def)
    qed
  next
    case False
    have rd4: "rd_read 4 r = Some (le_bytes 4 (unat ?head), advance 4 r)"
      by (rule rd_read_append [where sfx = "drop 4 (serialize_metainfo ndebug conf (st = 0) info t) @ sfx"])
        (use r False in \<open>simp_all only: eq if_False, simp_all del: le_bytes.simps\<close>)
    have head: "le_nat (le_bytes 4 (unat ?head)) = unat ?head"
      by (rule le_nat_le_bytes_id [OF hash_head_lt])
    have ev: "even (unat (get_types_code t))" using get_types_code_even even_unat_u32 by blast
    then have half: "unat ?head div 2 = unat (get_types_code t) div 2"
      by (auto simp: hash_head_eq elim!: evenE)
    have par: "even (unat ?head) \<longleftrightarrow> ?none" using ev by (simp add: hash_head_eq)
    show ?thesis
    proof (cases ?none)
      case True
      have c0: "code = 0" using True assms(1) by (auto simp: check_has_metainfo_def)
      have "serialize_metainfo ndebug conf (st = 0) info t = le_bytes 4 (unat ?head)"
        unfolding eq using True False by (simp del: le_bytes.simps)
      then show ?thesis
        using False rd4 head half par True c0
        by (simp add: deserialize_metainfo_def Let_def del: le_bytes.simps)
    next
      case some: False
      then have img: "serialize_metainfo ndebug conf (st = 0) info t =
          le_bytes 4 (unat ?head) @ [word_of_nat (buf_metainfo info)] @ ?len @ ?lits"
        unfolding eq using False by (simp del: le_bytes.simps)
      let ?r1 = "advance 4 r" let ?r2 = "advance 1 ?r1"
      let ?r3 = "advance (length ?len) ?r2"
      have r1: "rest ?r1 = [word_of_nat (buf_metainfo info)] @ ?len @ ?lits @ sfx"
        using r by (simp add: img del: le_bytes.simps)
      then have rd1: "rd_read 1 ?r1 = Some ([word_of_nat (buf_metainfo info)], ?r2)"
        by (rule rd_read_append) simp
      have r2: "rest ?r2 = ?len @ ?lits @ sfx" by (subst rest_advance, simp only: r1) simp
      have r3: "rest ?r3 = ?lits @ sfx" by (subst rest_advance, simp only: r2) simp
      have lenr: "(if buf_metainfo info mod 4 \<noteq> 0
          then deserialize_compatible (buf_metainfo info mod 4) ?r2 else (Ok, 0, ?r2)) =
        (Ok, if code = 0 then 0 else buf_len info, ?r3)"
        using read_len_field [of code "buf_len info" ?r2 "?lits @ sfx"] r2 len m4
        by (auto simp: header_len_field_def simp del: le_bytes.simps)
      have litr: "(if odd (buf_metainfo info div 4) then deserialize_type_literal t ?r3 else (Ok, ?r3)) =
        (Ok, advance (length ?lits) ?r3)"
        using read_literal [of ?r3 t sfx] r3 oddlit by auto
      have "deserialize_metainfo conf t r =
          (Ok, if code = 0 then 0 else buf_len info, size_type_of (buf_metainfo info),
           advance (length ?lits) ?r3)"
        by (rule deserialize_metainfo_steps [OF False rd4 _ _ rd1 byte lenr litr])
          (use head half par some in \<open>simp_all del: le_bytes.simps\<close>)
      moreover have "advance (length ?lits) ?r3 =
          advance (length (serialize_metainfo ndebug conf (st = 0) info t)) r"
        unfolding img by (simp add: add.assoc)
      ultimately show ?thesis by (simp only: st)
    qed
  qed
qed

section \<open>The whole buffer\<close>

lemma max_size_each_0:
  "max_size (size_each f acc xs) = 0 \<longleftrightarrow> max_size acc = 0 \<and> (\<forall>x \<in> set xs. max_size (f x) = 0)"
  using max_size_each_less [of f acc xs 1] by simp

lemma no_container_max_size:
  "\<not> check_if_has_container t \<Longrightarrow> max_size (calculate_one_size tag t v) = 0"
  "\<not> check_if_has_container_many ts \<Longrightarrow> max_size (calculate_payload_size tag ts vs) = 0"
  "\<not> check_if_has_container_many ts \<Longrightarrow> max_size (calculate_alt_size ts i x) = 0"
proof (induction tag t v and tag ts vs and ts i x
    rule: calculate_one_size_calculate_payload_size_calculate_alt_size.induct)
  case (4 tag t n v)
  then show ?case by (auto simp: max_size_each_0)
qed (auto split: sp_val.splits option.splits list.splits nat.splits)

lemma chosen_width_suffices:
  "max_size (calculate_one_size 0 t v) < 2 ^ 64 \<Longrightarrow>
   max_size (calculate_one_size 0 t v) < 256 ^ size_width (size_code t (calculate_one_size 0 t v))"
  using no_container_max_size(1) [of t 0 v] by (simp add: size_code_def size_width_def)

lemma compat_passes_ok:
  assumes "wf_ty t" "flat_compat t" "compat_outside_maps t" "has_type t v"
    and "max_size (calculate_one_size tag t v) < 256 ^ sw"
    and "distinct vers" "set vers \<inter> D = {}"
    and "rest r = concat (map (\<lambda>ver. serialize_compat sw ver t v) vers) @ sfx"
    and "now r + length (concat (map (\<lambda>ver. serialize_compat sw ver t v) vers)) \<le> dl"
  shows "compat_passes sw dl t vers (upto D t v) (m, r) =
    (Ok, upto (D \<union> set vers) t v,
     (m, advance (length (concat (map (\<lambda>ver. serialize_compat sw ver t v) vers))) r))"
  using assms(6-)
proof (induction vers arbitrary: D r)
  case Nil
  then show ?case by simp
next
  case (Cons ver vers)
  let ?bs = "serialize_compat sw ver t v"
  let ?rest = "concat (map (\<lambda>ver. serialize_compat sw ver t v) vers)"
  have rd: "creads dl (deserialize_compat sw dl ver t (upto D t v)) ?bs (upto (insert ver D) t v)"
    by (rule compat_okD [OF compat_ok_all assms(1-5)]) (use Cons.prems in auto)
  have one: "deserialize_compat sw dl ver t (upto D t v) (m, r) =
      (Ok, upto (insert ver D) t v, (m, advance (length ?bs) r))"
    by (rule creadsD [OF rd, where sfx = "?rest @ sfx"]) (use Cons.prems in simp_all)
  have "compat_passes sw dl t vers (upto (insert ver D) t v) (m, advance (length ?bs) r) =
      (Ok, upto (insert ver D \<union> set vers) t v,
       (m, advance (length ?rest) (advance (length ?bs) r)))"
    by (rule Cons.IH) (use Cons.prems in auto)
  with one show ?case by (simp add: Un_commute insert_commute)
qed

text \<open>The types whose objects can be sent and received without restriction.\<close>

definition portable_ty :: "u64 \<Rightarrow> sp_ty \<Rightarrow> bool" where
  "portable_ty conf t \<longleftrightarrow>
     wf_ty t \<and> flat_compat t \<and> compat_outside_maps t \<and> well_configured conf t"

lemma serialize_to_parts:
  assumes t: "portable_ty conf t" and ty: "has_type t v"
    and info: "info = get_serialize_runtime_info ndebug conf t v" and len: "buf_len info < 2 ^ 64"
    and st: "st = size_code t (calculate_one_size 0 t v)" and sw: "sw = size_width st"
  obtains head where
    "serialize_to ndebug conf info t v = head @ serialize_one sw 0 t v @
       (if exist_compatible_member t then
          concat (map (\<lambda>ver. serialize_compat sw ver t v) (compatible_version_number t)) else [])"
    "\<And>r sfx. rest r = head @ sfx \<Longrightarrow> deserialize_metainfo conf t r =
       (Ok, if exist_compatible_member t then buf_len info else 0, st, advance (length head) r)"
proof -
  let ?head = "serialize_metainfo ndebug conf (st = 0) info t"
  from t have wc: "well_configured conf t" by (simp add: portable_ty_def)
  obtain code where code: "code < 4" "exist_compatible_member t \<longleftrightarrow> code \<noteq> 0"
      "code = 1 \<or> code = 2 \<Longrightarrow> buf_len info < 256 ^ 2 ^ code"
    and meta: "buf_metainfo info = 8 * st +
       (if check_if_add_type_literal ndebug conf t then 4 else 0) + code"
    by (rule runtime_info_meta [OF ty wc info, folded st]) (rule that)
  have st4: "st < 4" unfolding st by (rule size_code_lt)
  have sto: "size_type_of (buf_metainfo info) = st"
    using size_type_of_meta [OF st4 code(1)] meta by simp
  have len': "buf_len info < 256 ^ 2 ^ code" if "code \<noteq> 0"
  proof (cases "code = 3")
    case True
    with len show ?thesis by simp
  next
    case False
    with code(1,3) that show ?thesis by linarith
  qed
  have cont: "check_if_has_container t" if "st \<noteq> 0"
    using that by (auto simp: st size_code_def split: if_splits)
  have "st = 0" if "\<not> check_if_has_container t" using that by (simp add: st size_code_def)
  then have "serialize_to ndebug conf info t v = serialize ndebug conf st info t v"
    by (simp add: serialize_to_def sto)
  then have out: "serialize_to ndebug conf info t v = ?head @ serialize_one sw 0 t v @
       (if exist_compatible_member t then
          concat (map (\<lambda>ver. serialize_compat sw ver t v) (compatible_version_number t)) else [])"
    by (simp add: serialize_def Let_def sw)
  show ?thesis
  proof (rule that [OF out])
    fix r :: memory_reader and sfx
    assume "rest r = ?head @ sfx"
    from deserialize_header [OF code(2,1) st4 wc cont len' meta this] code(2)
    show "deserialize_metainfo conf t r =
       (Ok, if exist_compatible_member t then buf_len info else 0, st, advance (length ?head) r)"
      by simp
  qed
qed

lemma deserialize_with_len_serialize:
  assumes t: "portable_ty conf t" and ty: "has_type t v" and tgt: "target 0 t item v"
    and sz: "max_size (calculate_one_size 0 t v) < 2 ^ 64"
    and info: "info = get_serialize_runtime_info ndebug conf t v" and len: "buf_len info < 2 ^ 64"
    and r: "rest r = serialize_to ndebug conf info t v @ sfx"
  shows "deserialize_with_len conf t item r =
    (Ok, if exist_compatible_member t then buf_len info else 0, v, advance (buf_len info) r)"
proof -
  let ?st = "size_code t (calculate_one_size 0 t v)"
  let ?sw = "size_width ?st"
  let ?main = "serialize_one ?sw 0 t v"
  let ?vers = "compatible_version_number t"
  let ?compat = "concat (map (\<lambda>ver. serialize_compat ?sw ver t v) ?vers)"
  let ?ex = "exist_compatible_member t"
  from t have wf: "wf_ty t" "flat_compat t" "compat_outside_maps t" "well_configured conf t"
    by (simp_all add: portable_ty_def)
  obtain head where
    out: "serialize_to ndebug conf info t v = head @ ?main @ (if ?ex then ?compat else [])"
    and hd: "\<And>r sfx. rest r = head @ sfx \<Longrightarrow> deserialize_metainfo conf t r =
       (Ok, if ?ex then buf_len info else 0, ?st, advance (length head) r)"
    by (rule serialize_to_parts [OF t ty info len refl refl]) (rule that)
  have total: "length head + length ?main + (if ?ex then length ?compat else 0) = buf_len info"
    using length_serialize_to [OF ty wf(2,4), of ndebug] out info by (simp split: if_splits)
  let ?r1 = "advance (length head) r" and ?r2 = "advance (length head + length ?main) r"
  have hdr: "deserialize_metainfo conf t r = (Ok, if ?ex then buf_len info else 0, ?st, ?r1)"
    by (rule hd [where sfx = "?main @ (if ?ex then ?compat else []) @ sfx"]) (use r out in simp)
  have sw: "max_size (calculate_one_size 0 t v) < 256 ^ ?sw" by (rule chosen_width_suffices [OF sz])
  have rd: "reads (deserialize_one ?sw 0 t item) ?main (main_val t v)"
    by (rule codec_okD [OF codec_ok_all wf(1) ty sw tgt]) simp
  have main: "deserialize_one ?sw 0 t item ?r1 = (Ok, main_val t v, ?r2)"
    using readsD [OF rd, where r = ?r1 and sfx = "(if ?ex then ?compat else []) @ sfx"] r out
    by simp
  show ?thesis
  proof (cases ?ex)
    case False
    then have "main_val t v = v"
      using main_val_id(1) ty by (simp add: exist_compatible_member_def)
    with False hdr main total show ?thesis by (simp add: deserialize_with_len_def Let_def)
  next
    case True
    have dist: "distinct ?vers"
      using compatible_version_number_facts(1) strict_sorted_iff by blast
    have all: "upto ({} \<union> set ?vers) t v = v"
      by (rule upto_all(1) [OF ty]) (simp add: versions_in_def compatible_version_number_facts(2))
    have "compat_passes ?sw (now r + buf_len info) t ?vers (upto {} t v) (False, ?r2) =
        (Ok, upto ({} \<union> set ?vers) t v, (False, advance (length ?compat) ?r2))"
      by (rule compat_passes_ok [OF wf(1-3) ty sw dist, where sfx = sfx])
        (use True r out total in simp_all)
    then have "deserialize_compatibles ?sw (now r + buf_len info) t (main_val t v) ?r2 =
        (Ok, v, advance (length ?compat) ?r2)"
      using all by (simp add: deserialize_compatibles_def upto_empty)
    with True hdr main total show ?thesis
      by (simp add: deserialize_with_len_def Let_def rd_tellg_def add.assoc)
  qed
qed



section \<open>A sample\<close>

definition sample_ty :: sp_ty where
  "sample_ty = TStruct 0 [TString Char8, TCompat (TFund Int8) 3, TFund Int32]"

definition sample_val :: sp_val where
  "sample_val = VList [VList [VInt 104, VInt 105], VOpt (Some (VInt 1)), VInt (-2)]"

lemmas sample_defs = portable_ty_def well_configured_def check_if_disable_hash_head_def
  get_type_config_def DISABLE_ALL_META_INFO_def fund_range_def fits_def fund_signed_def fund_size_def
  get_serialize_runtime_info_def runtime_body_def check_if_add_type_literal_def varint_kind_def
  exist_compatible_member_def is_enable_fast_varint_coding_def

lemma sample_portable: "portable_ty 0 sample_ty"
  by (simp add: sample_ty_def sample_defs)

lemma sample_typed: "has_type sample_ty sample_val"
  by (simp add: sample_ty_def sample_val_def sample_defs)

lemma sample_size: "max_size (calculate_one_size 0 sample_ty sample_val) < 2 ^ 64"
  by (simp add: sample_ty_def sample_val_def sample_defs)

lemma sample_len: "buf_len (get_serialize_runtime_info True 0 sample_ty sample_val) < 2 ^ 64"
  by (simp add: sample_ty_def sample_val_def sample_defs Let_def)



end
