(* ===== verification/SpMultiArgs.thy ===== *)
theory SpMultiArgs
  imports SpCompatRoundtrip
begin

text \<open>
  Serializing several objects at once, as the remote procedure calls do with the arguments
  of a function: \<open>serialize_to(buffer, a, b, ..)\<close> stands for the tuple of its arguments
  (\<open>get_args_type\<close>), except that \<open>calculate_hash_head\<close> asks the first argument only whether
  there is meta info. The receiver reads the tuple with the ordinary deserializer.
\<close>

definition get_args_type :: "sp_ty list \<Rightarrow> sp_ty" where
  "get_args_type ts = (case ts of [t] \<Rightarrow> t | _ \<Rightarrow> TTuple ts)"

definition get_args_val :: "sp_val list \<Rightarrow> sp_val" where
  "get_args_val vs = (case vs of [v] \<Rightarrow> v | _ \<Rightarrow> VList vs)"

definition calculate_raw_hash :: "sp_ty list \<Rightarrow> u32" where
  "calculate_raw_hash ts = get_types_code (get_args_type ts)"

definition calculate_hash_head_args :: "bool \<Rightarrow> u64 \<Rightarrow> sp_ty list \<Rightarrow> u32" where
  "calculate_hash_head_args ndebug conf ts =
     (if check_has_metainfo ndebug conf (hd ts) then calculate_raw_hash ts + 1
      else calculate_raw_hash ts)"

definition serialize_metainfo_args ::
  "bool \<Rightarrow> u64 \<Rightarrow> bool \<Rightarrow> serialize_buffer_size \<Rightarrow> sp_ty list \<Rightarrow> bytes" where
  "serialize_metainfo_args ndebug conf is_default_size_type info ts =
     (let t = get_args_type ts;
          head = calculate_hash_head_args ndebug conf ts OR (if is_default_size_type then 0 else 1)
      in (if check_if_disable_hash_head conf t then [] else le_bytes 4 (unat head)) @
         (if even (unat head) then [] else
            [word_of_nat (buf_metainfo info)] @
            (if exist_compatible_member t then
               (let code = buf_metainfo info mod 4
                in if code = 1 then le_bytes 2 (buf_len info)
                   else if code = 2 then le_bytes 4 (buf_len info)
                   else if code = 3 then le_bytes 8 (buf_len info) else [])
             else []) @
            (if check_if_add_type_literal ndebug conf t then get_types_literal t @ [0] else [])))"

definition serialize_args ::
  "bool \<Rightarrow> u64 \<Rightarrow> nat \<Rightarrow> serialize_buffer_size \<Rightarrow> sp_ty list \<Rightarrow> sp_val list \<Rightarrow> bytes" where
  "serialize_args ndebug conf size_type info ts vs =
     (let sw = size_width size_type; t = get_args_type ts
      in serialize_metainfo_args ndebug conf (size_type = 0) info ts @ serialize_many sw 0 ts vs @
         (if exist_compatible_member t
          then concat (map (\<lambda>ver. serialize_compat_many sw ver ts vs) (compatible_version_number t))
          else []))"

definition serialize_args_to ::
  "bool \<Rightarrow> u64 \<Rightarrow> serialize_buffer_size \<Rightarrow> sp_ty list \<Rightarrow> sp_val list \<Rightarrow> bytes" where
  "serialize_args_to ndebug conf info ts vs =
     (if \<not> check_if_has_container (get_args_type ts) then serialize_args ndebug conf 0 info ts vs
      else serialize_args ndebug conf (size_type_of (buf_metainfo info)) info ts vs)"

text \<open>
  \<open>serialize_to_with_offset(buffer, offset, args...)\<close>: the buffer grows by the offset and the
  announced size, and a raw memory writer fills it behind the offset; writing more than
  announced leaves the buffer, which is the value \<open>None\<close>.
\<close>

definition serialize_to_with_offset ::
  "bool \<Rightarrow> u64 \<Rightarrow> bytes \<Rightarrow> nat \<Rightarrow> sp_ty list \<Rightarrow> sp_val list \<Rightarrow> bytes option" where
  "serialize_to_with_offset ndebug conf buffer offset ts vs =
     (let info = get_serialize_runtime_info ndebug conf (get_args_type ts) (get_args_val vs);
          old_size = length buffer;
          resized = buffer @ replicate (offset + buf_len info) 0;
          out = serialize_args_to ndebug conf info ts vs
      in if length out \<le> buf_len info
         then Some (take (old_size + offset) resized @ out @
                    drop (old_size + offset + length out) resized)
         else None)"

section \<open>Arguments whose first one answers for all\<close>

lemma many_single [simp]:
  "serialize_many sw 0 [t] [v] = serialize_one sw 0 t v"
  "serialize_compat_many sw ver [t] [v] = serialize_compat sw ver t v"
  by simp_all

lemma serialize_args_type:
  assumes "length ts = length vs"
  shows "serialize_many sw 0 ts vs = serialize_one sw 0 (get_args_type ts) (get_args_val vs)"
    and "serialize_compat_many sw ver ts vs =
      serialize_compat sw ver (get_args_type ts) (get_args_val vs)"
  using assms
  by (cases ts; cases vs; cases "tl ts"; cases "tl vs";
      simp add: get_args_type_def get_args_val_def)+

definition first_answers :: "bool \<Rightarrow> u64 \<Rightarrow> sp_ty list \<Rightarrow> bool" where
  "first_answers ndebug conf ts \<longleftrightarrow>
     check_has_metainfo ndebug conf (hd ts) = check_has_metainfo ndebug conf (get_args_type ts)"

lemma first_answers_single [simp]: "first_answers ndebug conf [t]"
  by (simp add: first_answers_def get_args_type_def)

lemma serialize_args_to_object:
  assumes "first_answers ndebug conf ts" and "length ts = length vs"
  shows "serialize_args_to ndebug conf info ts vs =
    serialize_to ndebug conf info (get_args_type ts) (get_args_val vs)"
proof -
  have "serialize_metainfo_args ndebug conf d info ts =
      serialize_metainfo ndebug conf d info (get_args_type ts)" for d
    using assms(1)
    by (simp add: serialize_metainfo_args_def serialize_metainfo_def first_answers_def Let_def
        hash_head_def calculate_hash_head_def calculate_hash_head_args_def calculate_raw_hash_def)
  then show ?thesis
    by (simp add: serialize_args_to_def serialize_to_def serialize_args_def serialize_def Let_def
        serialize_args_type [OF assms(2)])
qed

lemma serialize_with_offset_object:
  assumes "first_answers ndebug conf ts" and "length ts = length vs"
    and "portable_ty conf (get_args_type ts)" and "has_type (get_args_type ts) (get_args_val vs)"
    and "info = get_serialize_runtime_info ndebug conf (get_args_type ts) (get_args_val vs)"
  shows "serialize_to_with_offset ndebug conf buffer offset ts vs =
    Some (buffer @ replicate offset 0 @
      serialize_to ndebug conf info (get_args_type ts) (get_args_val vs))"
proof -
  let ?t = "get_args_type ts" and ?v = "get_args_val vs"
  have len: "length (serialize_to ndebug conf info ?t ?v) = buf_len info"
    unfolding assms(5) by (rule length_serialize_to) (use assms(3,4) in \<open>simp_all add: portable_ty_def\<close>)
  show ?thesis
    using len
    by (simp add: serialize_to_with_offset_def Let_def serialize_args_to_object [OF assms(1,2)]
        assms(5) [symmetric])
qed

lemma deserialize_to_serialized:
  assumes "portable_ty conf t" and "has_type t v"
    and "max_size (calculate_one_size 0 t v) < 2 ^ 64"
    and "info = get_serialize_runtime_info ndebug conf t v" and "buf_len info < 2 ^ 64"
  shows "deserialize_to conf t (default_val t) (serialize_to ndebug conf info t v @ sfx) = (Ok, v)"
proof -
  have "rest (mk_reader (serialize_to ndebug conf info t v @ sfx)) =
      serialize_to ndebug conf info t v @ sfx" by (simp add: mk_reader_def)
  from deserialize_with_len_serialize [OF assms(1,2) target_default(1) [OF assms(2)] assms(3-5) this]
  show ?thesis by (simp add: deserialize_to_def deserialize_def)
qed

section \<open>Arguments whose first one does not\<close>

text \<open>
  A release build (\<open>ndebug\<close>), an argument without meta info in front of a compatible one: the
  header carries neither the meta-info byte nor the length, both of which are announced.
\<close>

lemma plain_first_meta:
  "\<not> check_has_metainfo True 0 (TFund f)"
  by (simp add: check_has_metainfo_def check_if_disable_hash_head_def check_if_add_type_literal_def
      get_type_config_def exist_compatible_member_def DISABLE_ALL_META_INFO_def Let_def)

lemma even_types_code: "even (unat (get_types_code t))"
  using get_types_code_even even_unat_u32 by blast

lemma compat_second_bytes:
  assumes "ts = [TFund Int32, TCompat (TFund Int32) n]"
  shows "serialize_args_to True 0 info ts [VInt i, VOpt (Some (VInt j))] =
    le_bytes 4 (unat (get_types_code (TTuple ts))) @ serialize_one 1 0 (TFund Int32) (VInt i) @
    [1] @ serialize_one 1 0 (TFund Int32) (VInt j)"
proof -
  have "\<not> check_if_has_container (TTuple ts)" "exist_compatible_member (TTuple ts)"
    "compatible_version_number (TTuple ts) = [n]" "\<not> check_if_disable_hash_head 0 (TTuple ts)"
    by (simp_all add: assms exist_compatible_member_def compatible_version_number_def
        compile_time_sort_def check_if_disable_hash_head_def get_type_config_def
        DISABLE_ALL_META_INFO_def swap_if_greater_def Let_def)
  then show ?thesis
    using plain_first_meta [of Int32] even_types_code [of "TTuple ts"]
    by (simp add: serialize_args_to_def serialize_args_def serialize_metainfo_args_def
        calculate_hash_head_args_def calculate_raw_hash_def get_args_type_def assms size_width_def
        Let_def serialize_one.simps(15) del: serialize_one.simps(1))
qed

lemma compat_second_len:
  "buf_len (get_serialize_runtime_info True 0 (TTuple [TFund Int32, TCompat (TFund Int32) n])
     (VList [VInt i, VOpt (Some (VInt j))])) = 16"
  by (simp add: sample_defs check_has_metainfo_def fund_size_def Let_def)

lemma compat_second_read:
  assumes "fund_range Int32 i" and "T = TTuple [TFund Int32, TCompat (TFund Int32) n]"
    and "rest r = le_bytes 4 (unat (get_types_code T)) @ serialize_one 1 0 (TFund Int32) (VInt i) @ sfx"
    and "now r = 0"
  shows "\<exists>r'. deserialize 0 T (default_val T) r = (Ok, VList [VInt i, VOpt None], r')"
proof -
  let ?v = "VList [VInt i, VOpt None]"
  let ?r1 = "advance 4 r"
  have wf: "wf_ty T" and ty: "has_type T ?v" using assms(1) by (simp_all add: assms(2))
  have "max_size (calculate_one_size 0 T ?v) < 256 ^ 1" by (simp add: assms(2) varint_kind_def)
  from codec_okD [OF codec_ok_all wf ty this target_default(1) [OF ty]]
  have rd: "reads (deserialize_one 1 0 T (default_val T)) (serialize_one 1 0 T ?v) (main_val T ?v)"
    by simp
  have parts: "serialize_one 1 0 T ?v = serialize_one 1 0 (TFund Int32) (VInt i)" "main_val T ?v = ?v"
    by (simp_all add: assms(2) main_val_id)
  have "\<not> check_if_disable_hash_head 0 T"
    by (simp add: assms(2) check_if_disable_hash_head_def get_type_config_def DISABLE_ALL_META_INFO_def)
  then have hdr: "deserialize_metainfo 0 T r = (Ok, 0, 0, ?r1)"
    using rd_read_append [of r "le_bytes 4 (unat (get_types_code T))" _ 4] assms(3)
      even_types_code [of T]
    by (simp add: deserialize_metainfo_def Let_def le_nat_le_bytes_id del: le_bytes.simps)
  have "rest ?r1 = serialize_one 1 0 T ?v @ sfx"
    unfolding parts by (rule rest_advance_append [of r "le_bytes 4 (unat (get_types_code T))",
          simplified length_le_bytes]) (use assms(3) in simp)
  then have main: "deserialize_one 1 0 T (default_val T) ?r1 =
      (Ok, ?v, advance (length (serialize_one 1 0 T ?v)) ?r1)"
    using readsD [OF rd] parts by simp
  have "compatible_version_number T = [n]"
    by (simp add: assms(2) compatible_version_number_def compile_time_sort_def swap_if_greater_def Let_def)
  then have "deserialize_compatibles 1 0 T ?v r' = (Ok, ?v, r')" for r'
    by (simp add: deserialize_compatibles_def assms(2) if_compat_def compat_member_def rd_tellg_def
        des_list_def des_many_step_def)
  with hdr main show ?thesis
    by (simp add: deserialize_def deserialize_with_len_def Let_def size_width_def rd_tellg_def assms(4)
        del: deserialize_one.simps)
qed



text \<open>
  The opposite case: the first argument is a class that switches all meta info off and holds
  a string. For it alone there would be a meta-info byte, which the announced size of the
  tuple does not contain.
\<close>

definition quiet_ts :: "sp_ty list" where
  "quiet_ts = [TStruct DISABLE_ALL_META_INFO [TString Char8], TFund Int8]"

lemma quiet_first_meta:
  "check_has_metainfo True 0 (hd quiet_ts)" "\<not> check_has_metainfo True 0 (get_args_type quiet_ts)"
  "exist_compatible_member (get_args_type quiet_ts) = False"
  "check_if_disable_hash_head 0 (get_args_type quiet_ts) = False"
  "check_if_add_type_literal True 0 (get_args_type quiet_ts) = False"
  by (simp_all add: quiet_ts_def get_args_type_def check_has_metainfo_def sample_defs)

text \<open>
  A class with \<open>DISABLE_ALL_META_INFO\<close> that holds a string, passed as the first of
  two arguments in a release build, makes the serializer write one byte behind the end of the
  buffer it has just resized.
\<close>
theorem quiet_first_argument_overflows:
  assumes "length cs < 256"
  shows "serialize_to_with_offset True 0 buffer offset quiet_ts
    [VList [VList (map VInt cs)], VInt i] = None"
proof -
  let ?vs = "[VList [VList (map VInt cs)], VInt i]"
  let ?t = "get_args_type quiet_ts"
  let ?info = "get_serialize_runtime_info True 0 ?t (get_args_val ?vs)"
  have cont: "check_if_has_container ?t" by (simp add: quiet_ts_def get_args_type_def)
  have info: "?info = \<lparr>buf_len = 6 + length cs, buf_metainfo = 0\<rparr>"
    using assms cont quiet_first_meta
    by (simp add: get_serialize_runtime_info_def runtime_body_def Let_def)
      (simp add: quiet_ts_def get_args_type_def get_args_val_def fund_size_def varint_kind_def
        is_enable_fast_varint_coding_def DISABLE_ALL_META_INFO_def)
  have head: "odd (calculate_raw_hash quiet_ts + 1)"
    using get_types_code_even [of ?t] by (simp add: calculate_raw_hash_def)
  have "length (serialize_many 1 0 quiet_ts ?vs) = 2 + length cs"
    by (simp add: quiet_ts_def fund_size_def varint_kind_def
        is_enable_fast_varint_coding_def DISABLE_ALL_META_INFO_def length_concat_sum write_size_def
        sum_list_triv)
  then have "length (serialize_args_to True 0 ?info quiet_ts ?vs) = 7 + length cs"
    using cont quiet_first_meta head
    by (simp add: serialize_args_to_def serialize_args_def serialize_metainfo_args_def
        calculate_hash_head_args_def info size_type_of_def size_width_def Let_def even_unat_u32 [symmetric])
  then show ?thesis by (simp add: serialize_to_with_offset_def info Let_def)
qed

theorem quiet_first_argument_overflows_witness:
  "serialize_to_with_offset True 0 [] 20 quiet_ts [VList [VList (map VInt [104, 105])], VInt 1] = None"
  by (rule quiet_first_argument_overflows) simp

end
