(* ===== verification/RpcProtocol.thy ===== *)
theory RpcProtocol
  imports SpMultiArgs
begin

text \<open>
  The wire protocol of coro_rpc (\<open>coro_rpc_protocol.hpp\<close>, \<open>errno.h\<close>, \<open>struct_pack_protocol.hpp\<close>):
  request and response headers, which are struct_pack objects without meta info, the reading
  of heads and payloads from a socket, and the preparation of a response.

  A socket is the sequence of bytes that is still to come; \<open>async_read\<close> fails with the end of
  file when there are fewer than wanted. Attachments on CUDA devices and the URMA transport
  are not represented.
\<close>

section \<open>Error codes\<close>

datatype rpc_errc =
    Rpc_ok | Io_error | Not_connected | Timed_out | Invalid_rpc_arguments | Address_in_used
  | Bad_address | Open_error | Listen_error | Operation_canceled | Rpc_throw_exception
  | Function_not_registered | Protocol_error | Unknown_protocol_version | Message_too_large
  | Server_has_ran | Invalid_rpc_result | Serial_number_conflict

text \<open>The enumeration has the underlying type \<open>uint16_t\<close>; users have codes of their own.\<close>

type_synonym err_code = u16

definition errc_code :: "rpc_errc \<Rightarrow> err_code" where
  "errc_code e = (case e of
     Rpc_ok \<Rightarrow> 0 | Io_error \<Rightarrow> 1 | Not_connected \<Rightarrow> 2 | Timed_out \<Rightarrow> 3
   | Invalid_rpc_arguments \<Rightarrow> 4 | Address_in_used \<Rightarrow> 5 | Bad_address \<Rightarrow> 6 | Open_error \<Rightarrow> 7
   | Listen_error \<Rightarrow> 8 | Operation_canceled \<Rightarrow> 9 | Rpc_throw_exception \<Rightarrow> 10
   | Function_not_registered \<Rightarrow> 11 | Protocol_error \<Rightarrow> 12 | Unknown_protocol_version \<Rightarrow> 13
   | Message_too_large \<Rightarrow> 14 | Server_has_ran \<Rightarrow> 15 | Invalid_rpc_result \<Rightarrow> 16
   | Serial_number_conflict \<Rightarrow> 17)"

definition rpc_error_message :: "err_code \<Rightarrow> string" where
  "rpc_error_message ec =
     (if ec = errc_code Rpc_ok then ''ok''
      else if ec = errc_code Io_error then ''io error''
      else if ec = errc_code Not_connected then ''not connected''
      else if ec = errc_code Timed_out then ''time out''
      else if ec = errc_code Invalid_rpc_arguments then ''invalid rpc arg''
      else if ec = errc_code Address_in_used then ''address in used''
      else if ec = errc_code Bad_address then ''bad_address''
      else if ec = errc_code Open_error then ''open_error''
      else if ec = errc_code Listen_error then ''listen_error''
      else if ec = errc_code Operation_canceled then ''operation canceled''
      else if ec = errc_code Rpc_throw_exception then ''rpc throw exception''
      else if ec = errc_code Function_not_registered then ''function not registered''
      else if ec = errc_code Protocol_error then ''protocol error''
      else if ec = errc_code Message_too_large then ''message too large''
      else if ec = errc_code Server_has_ran then ''server has ran''
      else if ec = errc_code Invalid_rpc_result then ''invalid rpc result''
      else if ec = errc_code Serial_number_conflict then ''serial number conflict''
      else ''unknown user-defined error'')"

record rpc_error =
  err_val :: err_code
  err_text :: bytes

text \<open>\<open>rpc_error{code}\<close> carries the message of the code.\<close>

definition mk_rpc_error :: "err_code \<Rightarrow> rpc_error" where
  "mk_rpc_error c = \<lparr>err_val = c, err_text = text_bytes (rpc_error_message c)\<rparr>"

section \<open>Objects on the wire\<close>

definition string_ty :: sp_ty where
  "string_ty = TString Char8"

definition string_val :: "bytes \<Rightarrow> sp_val" where
  "string_val bs = VList (map (\<lambda>b. VInt (uint b)) bs)"

definition val_string :: "sp_val \<Rightarrow> bytes" where
  "val_string v = map (\<lambda>x. word_of_int (val_int x)) (val_list v)"

definition rpc_error_ty :: sp_ty where
  "rpc_error_ty = TStruct 0 [TFund Uint16, string_ty]"

definition rpc_error_sp :: "rpc_error \<Rightarrow> sp_val" where
  "rpc_error_sp e = VList [VInt (uint (err_val e)), string_val (err_text e)]"

definition sp_rpc_error :: "sp_val \<Rightarrow> rpc_error" where
  "sp_rpc_error v =
     \<lparr>err_val = word_of_int (val_int (val_list v ! 0)), err_text = val_string (val_list v ! 1)\<rparr>"

definition pack :: "bool \<Rightarrow> u64 \<Rightarrow> sp_ty \<Rightarrow> sp_val \<Rightarrow> bytes" where
  "pack ndebug conf t v = serialize_to ndebug conf (get_serialize_runtime_info ndebug conf t v) t v"

record req_header =
  rq_magic :: byte
  rq_version :: byte
  rq_serialize_type :: byte
  rq_msg_type :: byte
  rq_seq_num :: u32
  rq_function_id :: u32
  rq_length :: u32
  rq_attach_length :: u32

record resp_header =
  rs_magic :: byte
  rs_version :: byte
  rs_err_code :: byte
  rs_msg_type :: byte
  rs_seq_num :: u32
  rs_length :: u32
  rs_attach_length :: u32

definition req_header_ty :: sp_ty where
  "req_header_ty = TStruct 0
     [TFund Uint8, TFund Uint8, TFund Uint8, TFund Uint8,
      TFund Uint32, TFund Uint32, TFund Uint32, TFund Uint32]"

definition resp_header_ty :: sp_ty where
  "resp_header_ty = TStruct 0
     [TFund Uint8, TFund Uint8, TFund Uint8, TFund Uint8, TFund Uint32, TFund Uint32, TFund Uint32]"

definition req_header_val :: "req_header \<Rightarrow> sp_val" where
  "req_header_val h = VList
     [VInt (uint (rq_magic h)), VInt (uint (rq_version h)), VInt (uint (rq_serialize_type h)),
      VInt (uint (rq_msg_type h)), VInt (uint (rq_seq_num h)), VInt (uint (rq_function_id h)),
      VInt (uint (rq_length h)), VInt (uint (rq_attach_length h))]"

definition resp_header_val :: "resp_header \<Rightarrow> sp_val" where
  "resp_header_val h = VList
     [VInt (uint (rs_magic h)), VInt (uint (rs_version h)), VInt (uint (rs_err_code h)),
      VInt (uint (rs_msg_type h)), VInt (uint (rs_seq_num h)), VInt (uint (rs_length h)),
      VInt (uint (rs_attach_length h))]"

definition val_req_header :: "sp_val \<Rightarrow> req_header" where
  "val_req_header v = (let x = (\<lambda>i. val_int (val_list v ! i)) in
     \<lparr>rq_magic = word_of_int (x 0), rq_version = word_of_int (x 1),
      rq_serialize_type = word_of_int (x 2), rq_msg_type = word_of_int (x 3),
      rq_seq_num = word_of_int (x 4), rq_function_id = word_of_int (x 5),
      rq_length = word_of_int (x 6), rq_attach_length = word_of_int (x 7)\<rparr>)"

definition val_resp_header :: "sp_val \<Rightarrow> resp_header" where
  "val_resp_header v = (let x = (\<lambda>i. val_int (val_list v ! i)) in
     \<lparr>rs_magic = word_of_int (x 0), rs_version = word_of_int (x 1),
      rs_err_code = word_of_int (x 2), rs_msg_type = word_of_int (x 3),
      rs_seq_num = word_of_int (x 4), rs_length = word_of_int (x 5),
      rs_attach_length = word_of_int (x 6)\<rparr>)"

definition magic_number :: byte where "magic_number = 21"
definition VERSION_NUMBER :: byte where "VERSION_NUMBER = 0"
definition REQ_HEAD_LEN :: nat where "REQ_HEAD_LEN = 20"
definition RESP_HEAD_LEN :: nat where "RESP_HEAD_LEN = 16"

section \<open>Reading requests\<close>

text \<open>What \<open>std::error_code\<close> can be here: the end of the stream, or \<open>protocol_error\<close>.\<close>

datatype io_error = Eof | Bad_protocol

definition async_read :: "nat \<Rightarrow> bytes \<Rightarrow> io_error + (bytes \<times> bytes)" where
  "async_read n s = (if length s < n then Inl Eof else Inr (take n s, drop n s))"

definition get_serialize_protocol :: "req_header \<Rightarrow> bool" where
  "get_serialize_protocol h \<longleftrightarrow> rq_serialize_type h = 0"

definition get_route_key :: "req_header \<Rightarrow> u32" where
  "get_route_key h = rq_function_id h"

text \<open>The check of \<open>read_head\<close> and \<open>read_first_head\<close> on a complete head.\<close>

definition parse_head :: "bytes \<Rightarrow> io_error + req_header" where
  "parse_head head_buffer =
     (case deserialize_to DISABLE_ALL_META_INFO req_header_ty (default_val req_header_ty) head_buffer of
        (ec2, v) \<Rightarrow>
          let req_head = val_req_header v in
          if is_err ec2 \<or> rq_magic req_head \<noteq> magic_number \<or> VERSION_NUMBER < rq_version req_head
          then Inl Bad_protocol else Inr req_head)"

definition read_head :: "bytes \<Rightarrow> io_error + (req_header \<times> bytes)" where
  "read_head s =
     (case async_read REQ_HEAD_LEN s of Inl ec \<Rightarrow> Inl ec
      | Inr (head_buffer, s') \<Rightarrow>
          (case parse_head head_buffer of Inl ec \<Rightarrow> Inl ec | Inr h \<Rightarrow> Inr (h, s')))"

definition read_magic :: "bytes \<Rightarrow> (io_error + unit) \<times> bytes \<times> bytes" where
  "read_magic s =
     (case async_read 1 s of Inl ec \<Rightarrow> (Inl ec, [], s)
      | Inr (head_buffer, s') \<Rightarrow>
          (if hd head_buffer \<noteq> magic_number then Inl Bad_protocol else Inr (), head_buffer, s'))"

definition read_first_head :: "bytes \<Rightarrow> bytes \<Rightarrow> io_error + (req_header \<times> bytes)" where
  "read_first_head magic s =
     (case async_read (REQ_HEAD_LEN - length magic) s of Inl ec \<Rightarrow> Inl ec
      | Inr (bs, s') \<Rightarrow>
          (case parse_head (magic @ bs) of Inl ec \<Rightarrow> Inl ec | Inr h \<Rightarrow> Inr (h, s')))"

definition read_payload :: "req_header \<Rightarrow> bytes \<Rightarrow> io_error + (bytes \<times> bytes \<times> bytes)" where
  "read_payload req_head s =
     (let body_len = unat (rq_length req_head); attach_len = unat (rq_attach_length req_head) in
      if attach_len > 0 then
        (case async_read (body_len + attach_len) s of Inl ec \<Rightarrow> Inl ec
         | Inr (bs, s') \<Rightarrow> Inr (take body_len bs, drop body_len bs, s'))
      else
        (case async_read body_len s of Inl ec \<Rightarrow> Inl ec
         | Inr (bs, s') \<Rightarrow> Inr (bs, [], s')))"

section \<open>Preparing a response\<close>

fun to_string :: "nat \<Rightarrow> string" where
  "to_string n =
     (if n < 10 then [char_of (48 + n)] else to_string (n div 10) @ [char_of (48 + n mod 10)])"

declare to_string.simps [simp del]

text \<open>
  The parameters are the result of the function, the request's header, the length of the
  attachment that will be sent, and the error; the header and the body come back.
\<close>

definition prepare_response ::
  "bool \<Rightarrow> bytes \<Rightarrow> req_header \<Rightarrow> nat \<Rightarrow> err_code \<Rightarrow> bytes \<Rightarrow> bytes \<times> bytes" where
  "prepare_response ndebug rpc_result req_header attachment_len rpc_err_code err_msg =
     (let too_large = errc_code Message_too_large;
          (rpc_err_code, err_msg) =
            (if attachment_len > 2 ^ 32 - 1 then
               (too_large, text_bytes (''attachment larger than 4G:'' @ to_string attachment_len @ ''B''))
             else if length rpc_result > 2 ^ 32 - 1 then
               (too_large, text_bytes (''body larger than 4G:'' @ to_string attachment_len @ ''B''))
             else (rpc_err_code, err_msg));
          (rpc_result, resp_err) =
            (if rpc_err_code \<noteq> errc_code Rpc_ok then
               if unat rpc_err_code > 255 then
                 (pack ndebug 0 rpc_error_ty
                    (VList [VInt (uint rpc_err_code), string_val err_msg]), 255)
               else (pack ndebug 0 string_ty (string_val err_msg), ucast rpc_err_code)
             else (rpc_result, 0));
          resp_head =
            \<lparr>rs_magic = magic_number, rs_version = VERSION_NUMBER, rs_err_code = resp_err,
             rs_msg_type = 0, rs_seq_num = rq_seq_num req_header,
             rs_length = word_of_nat (length rpc_result),
             rs_attach_length = word_of_nat attachment_len\<rparr>
      in (pack ndebug DISABLE_ALL_META_INFO resp_header_ty (resp_header_val resp_head), rpc_result))"

section \<open>Round trips of the wire objects\<close>

lemma word_of_int_uint_val [simp]:
  "word_of_int (val_int (VInt (uint w))) = w"
  by simp

lemma val_string_inverse [simp]: "val_string (string_val bs) = bs"
  by (simp add: val_string_def string_val_def comp_def)

lemma sp_rpc_error_inverse [simp]: "sp_rpc_error (rpc_error_sp e) = e"
  by (simp add: sp_rpc_error_def rpc_error_sp_def)

lemma val_req_header_inverse [simp]: "val_req_header (req_header_val h) = h"
  by (simp add: val_req_header_def req_header_val_def Let_def numeral_nat)

lemma val_resp_header_inverse [simp]: "val_resp_header (resp_header_val h) = h"
  by (simp add: val_resp_header_def resp_header_val_def Let_def numeral_nat)

lemma uint_fits:
  "fund_range Uint8 (uint (b :: byte))" "fund_range Char8 (uint b)"
  "fund_range Uint16 (uint (c :: u16))" "fund_range Uint32 (uint (d :: u32))"
proof -
  show "fund_range Uint8 (uint b)" "fund_range Char8 (uint b)"
    using uint_lt2p [of b] by (simp_all add: fund_range_def fits_def fund_signed_def fund_size_def)
  show "fund_range Uint16 (uint c)"
    using uint_lt2p [of c] by (simp add: fund_range_def fits_def fund_signed_def fund_size_def)
  show "fund_range Uint32 (uint d)"
    using uint_lt2p [of d] by (simp add: fund_range_def fits_def fund_signed_def fund_size_def)
qed

lemma deserialize_to_packed:
  assumes "portable_ty conf t" and "has_type t v"
    and "max_size (calculate_one_size 0 t v) < 2 ^ 64"
    and "buf_len (get_serialize_runtime_info ndebug conf t v) < 2 ^ 64"
  shows "deserialize_to conf t (default_val t) (pack ndebug conf t v @ sfx) = (Ok, v)"
  unfolding pack_def by (rule deserialize_to_serialized [OF assms(1-3) refl assms(4)])

text \<open>Objects that can be sent: the types and sizes the round trip of struct_pack is about.\<close>

definition sendable :: "bool \<Rightarrow> sp_ty \<Rightarrow> sp_val \<Rightarrow> bool" where
  "sendable ndebug t v \<longleftrightarrow> portable_ty 0 t \<and> has_type t v \<and>
     max_size (calculate_one_size 0 t v) < 2 ^ 64 \<and>
     buf_len (get_serialize_runtime_info ndebug 0 t v) < 2 ^ 64"

lemma deserialize_to_sendable:
  "sendable ndebug t v \<Longrightarrow> deserialize_to 0 t (default_val t) (pack ndebug 0 t v @ sfx) = (Ok, v)"
  by (rule deserialize_to_packed) (simp_all add: sendable_def)

lemma deserialize_to_sendable_exact:
  "sendable ndebug t v \<Longrightarrow> deserialize_to 0 t (default_val t) (pack ndebug 0 t v) = (Ok, v)"
  using deserialize_to_sendable [of ndebug t v "[]"] by simp

lemma length_pack:
  "has_type t v \<Longrightarrow> flat_compat t \<Longrightarrow> well_configured conf t \<Longrightarrow>
   length (pack ndebug conf t v) = buf_len (get_serialize_runtime_info ndebug conf t v)"
  by (simp add: pack_def length_serialize_to)

lemma req_header_size: "ty_size req_header_ty = 20"
  by (simp add: req_header_ty_def pad_to_def fund_size_def)

lemma resp_header_size: "ty_size resp_header_ty = 16"
  by (simp add: resp_header_ty_def pad_to_def fund_size_def)

lemma header_trivial:
  "is_trivial_serializable req_header_ty False 0" "is_trivial_serializable resp_header_ty False 0"
  by (simp_all add: req_header_ty_def resp_header_ty_def varint_kind_def)

lemma header_sizes:
  "max_size (calculate_one_size 0 req_header_ty v) < 2 ^ 64"
  "max_size (calculate_one_size 0 resp_header_ty v) < 2 ^ 64"
  "total (calculate_one_size 0 req_header_ty v) = 20"
  "total (calculate_one_size 0 resp_header_ty v) = 16"
  using header_trivial req_header_size resp_header_size trivial_max_size
  by (simp_all add: trivial_max_size req_header_ty_def resp_header_ty_def of_total_def)

lemma header_plain:
  "\<not> exist_compatible_member req_header_ty" "\<not> exist_compatible_member resp_header_ty"
  "\<not> check_if_has_container req_header_ty" "\<not> check_if_has_container resp_header_ty"
  by (simp_all add: exist_compatible_member_def req_header_ty_def resp_header_ty_def)

lemma disable_all:
  "check_if_disable_hash_head DISABLE_ALL_META_INFO t"
  "\<not> check_if_add_type_literal ndebug DISABLE_ALL_META_INFO t"
  by (simp_all add: check_if_disable_hash_head_def check_if_add_type_literal_def
      DISABLE_ALL_META_INFO_def ENABLE_TYPE_INFO_def Let_def)

lemma header_info:
  "buf_len (get_serialize_runtime_info ndebug DISABLE_ALL_META_INFO req_header_ty v) = 20"
  "buf_len (get_serialize_runtime_info ndebug DISABLE_ALL_META_INFO resp_header_ty v) = 16"
  by (simp_all add: get_serialize_runtime_info_def runtime_body_def disable_all header_plain
      header_sizes check_has_metainfo_def Let_def)

lemma header_portable:
  "portable_ty DISABLE_ALL_META_INFO req_header_ty"
  "portable_ty DISABLE_ALL_META_INFO resp_header_ty"
  using header_plain disable_all
  by (simp_all add: portable_ty_def well_configured_def)
    (simp_all add: req_header_ty_def resp_header_ty_def varint_kind_def
      is_enable_fast_varint_coding_def)

lemma header_typed:
  "has_type req_header_ty (req_header_val h)" "has_type resp_header_ty (resp_header_val h')"
  by (simp_all add: req_header_ty_def req_header_val_def resp_header_ty_def resp_header_val_def
      uint_fits)

lemma length_header_pack [simp]:
  "length (pack ndebug DISABLE_ALL_META_INFO req_header_ty (req_header_val h)) = REQ_HEAD_LEN"
  "length (pack ndebug DISABLE_ALL_META_INFO resp_header_ty (resp_header_val h')) = RESP_HEAD_LEN"
  using header_portable
  by (simp_all add: length_pack header_typed header_info portable_ty_def REQ_HEAD_LEN_def
      RESP_HEAD_LEN_def)

lemma read_packed_header:
  "deserialize_to DISABLE_ALL_META_INFO req_header_ty (default_val req_header_ty)
     (pack ndebug DISABLE_ALL_META_INFO req_header_ty (req_header_val h)) = (Ok, req_header_val h)"
  "deserialize_to DISABLE_ALL_META_INFO resp_header_ty (default_val resp_header_ty)
     (pack ndebug DISABLE_ALL_META_INFO resp_header_ty (resp_header_val h')) = (Ok, resp_header_val h')"
  using deserialize_to_packed [OF header_portable(1) header_typed(1) header_sizes(1), of ndebug _ "[]"]
    deserialize_to_packed [OF header_portable(2) header_typed(2) header_sizes(2), of ndebug _ "[]"]
  by (simp_all add: header_info)

lemma pack_trivial:
  assumes "is_trivial_serializable t False 0" "t \<noteq> TMono" "\<not> exist_compatible_member t"
    "\<not> check_if_has_container t"
  shows "pack ndebug DISABLE_ALL_META_INFO t v = obj_bytes t v"
  using assms
  by (simp add: pack_def serialize_to_def serialize_def disable_all serialize_metainfo_def
      hash_head_def calculate_hash_head_def check_has_metainfo_def Let_def even_types_code
      serialize_trivial)

lemma int_bytes_word:
  "int_bytes (Suc 0) (uint (b :: byte)) = [b]" "int_bytes 4 (uint (w :: u32)) = le_bytes 4 (unat w)"
proof -
  have "uint b mod 2 ^ 8 = uint b" "uint w mod 2 ^ 32 = uint w"
    using uint_lt2p [of b] uint_lt2p [of w] by (simp_all add: mod_pos_pos_trivial)
  then show "int_bytes (Suc 0) (uint b) = [b]" "int_bytes 4 (uint w) = le_bytes 4 (unat w)"
    by (simp_all add: int_bytes_def unat_eq_nat_uint [symmetric] del: le_bytes.simps(2))
      (simp add: unat_eq_nat_uint [symmetric])
qed

text \<open>
  The layout of a request's head: the members one after the other, the integers in little-endian
  order, no padding.
\<close>

lemma req_header_layout:
  "pack ndebug DISABLE_ALL_META_INFO req_header_ty (req_header_val h) =
     [rq_magic h, rq_version h, rq_serialize_type h, rq_msg_type h] @
     le_bytes 4 (unat (rq_seq_num h)) @ le_bytes 4 (unat (rq_function_id h)) @
     le_bytes 4 (unat (rq_length h)) @ le_bytes 4 (unat (rq_attach_length h))"
  using pack_trivial [OF header_trivial(1) _ header_plain(1,3), of ndebug "req_header_val h"]
  by (simp add: req_header_ty_def req_header_val_def fund_size_def pad_to_def int_bytes_word
      del: le_bytes.simps)

lemma resp_header_layout:
  "pack ndebug DISABLE_ALL_META_INFO resp_header_ty (resp_header_val h) =
     [rs_magic h, rs_version h, rs_err_code h, rs_msg_type h] @
     le_bytes 4 (unat (rs_seq_num h)) @ le_bytes 4 (unat (rs_length h)) @
     le_bytes 4 (unat (rs_attach_length h))"
  using pack_trivial [OF header_trivial(2) _ header_plain(2,4), of ndebug "resp_header_val h"]
  by (simp add: resp_header_ty_def resp_header_val_def fund_size_def pad_to_def int_bytes_word
      del: le_bytes.simps)

section \<open>Reading what was written\<close>

definition good_head :: "req_header \<Rightarrow> bool" where
  "good_head h \<longleftrightarrow> rq_magic h = magic_number \<and> \<not> VERSION_NUMBER < rq_version h"

lemma parse_packed_head:
  "good_head h \<Longrightarrow> parse_head (pack ndebug DISABLE_ALL_META_INFO req_header_ty (req_header_val h)) = Inr h"
  by (simp add: parse_head_def read_packed_header good_head_def)

lemma async_read_append: "n = length bs \<Longrightarrow> async_read n (bs @ s) = Inr (bs, s)"
  by (simp add: async_read_def)

lemma read_head_packed:
  "good_head h \<Longrightarrow> bs = pack ndebug DISABLE_ALL_META_INFO req_header_ty (req_header_val h) \<Longrightarrow>
   read_head (bs @ s) = Inr (h, s)"
  by (simp add: read_head_def async_read_append parse_packed_head)

text \<open>The first head is read in two pieces: the byte the acceptor took to tell the protocols apart.\<close>

lemma read_first_head_packed:
  assumes "good_head h" "bs = pack ndebug DISABLE_ALL_META_INFO req_header_ty (req_header_val h)"
  shows "\<exists>s'. read_magic (bs @ s) = (Inr (), take 1 bs, s') \<and> read_first_head (take 1 bs) s' = Inr (h, s)"
proof -
  have len: "length bs = 20" by (simp add: assms(2) REQ_HEAD_LEN_def)
  have hd: "take 1 bs = [magic_number]" "hd bs = magic_number"
    using assms(1) by (simp_all add: assms(2) req_header_layout good_head_def)
  have "read_magic (bs @ s) = (Inr (), take 1 bs, drop 1 bs @ s)"
    using len hd by (simp add: read_magic_def async_read_def)
  moreover have "read_first_head (take 1 bs) (drop 1 bs @ s) = Inr (h, s)"
  proof -
    have "async_read (REQ_HEAD_LEN - length (take 1 bs)) (drop 1 bs @ s) = Inr (drop 1 bs, s)"
      by (rule async_read_append) (simp add: len REQ_HEAD_LEN_def)
    moreover have "parse_head (take 1 bs @ drop 1 bs) = Inr h"
      using assms by (simp only: append_take_drop_id parse_packed_head)
    ultimately show ?thesis by (simp only: read_first_head_def sum.case prod.case)
  qed
  ultimately show ?thesis by blast
qed

lemma read_payload_append:
  assumes "length body = unat (rq_length h)" "length attachment = unat (rq_attach_length h)"
  shows "read_payload h (body @ attachment @ s) = Inr (body, attachment, s)"
  using assms by (auto simp: read_payload_def Let_def async_read_def)

text \<open>Every 20 bytes are the image of a head.\<close>

definition head_of_bytes :: "bytes \<Rightarrow> req_header" where
  "head_of_bytes bs =
     \<lparr>rq_magic = bs ! 0, rq_version = bs ! 1, rq_serialize_type = bs ! 2, rq_msg_type = bs ! 3,
      rq_seq_num = word_of_nat (le_nat (take 4 (drop 4 bs))),
      rq_function_id = word_of_nat (le_nat (take 4 (drop 8 bs))),
      rq_length = word_of_nat (le_nat (take 4 (drop 12 bs))),
      rq_attach_length = word_of_nat (le_nat (take 4 (drop 16 bs)))\<rparr>"

lemma le_word_image:
  assumes "length bs = 4"
  shows "le_bytes 4 (unat (word_of_nat (le_nat bs) :: u32)) = bs"
proof -
  have "le_nat bs < 2 ^ 32" using le_nat_lt [of bs] assms by simp
  then have "unat (word_of_nat (le_nat bs) :: u32) = le_nat bs"
    by (simp add: unat_of_nat del: le_nat.simps)
  then show ?thesis using le_bytes_le_nat [of bs] assms by simp
qed

lemma pack_head_of_bytes:
  assumes "length bs = REQ_HEAD_LEN"
  shows "pack ndebug DISABLE_ALL_META_INFO req_header_ty (req_header_val (head_of_bytes bs)) = bs"
proof -
  have len: "length bs = 20" using assms by (simp add: REQ_HEAD_LEN_def)
  have four: "[bs ! 0, bs ! 1, bs ! 2, bs ! 3] = take 4 bs"
    using len by (intro nth_equalityI) (auto simp: less_Suc_eq numeral_nat)
  have split: "bs = take 4 bs @ take 4 (drop 4 bs) @ take 4 (drop 8 bs) @ take 4 (drop 12 bs) @
      take 4 (drop 16 bs)"
    using len append_take_drop_id [of 4 bs] append_take_drop_id [of 4 "drop 4 bs"]
      append_take_drop_id [of 4 "drop 8 bs"] append_take_drop_id [of 4 "drop 12 bs"]
    by simp
  have len4: "length (take 4 (drop k bs)) = 4" if "k \<le> 16" for k
    using that len by simp
  have words: "le_bytes 4 (unat (word_of_nat (le_nat (take 4 (drop k bs))) :: u32)) = take 4 (drop k bs)"
    if "k \<le> 16" for k using le_word_image [OF len4 [OF that]] .
  show ?thesis
    unfolding req_header_layout head_of_bytes_def req_header.simps four
    using split words [of 4] words [of 8] words [of 12] words [of 16]
    by (simp only: ac_simps)
qed

text \<open>
  C26 (error). A head is accepted with the magic number and version 0 only, whatever the peer
  sends: a stream that ends early and any other first two bytes are an error, and every
  other 20 bytes are the request head whose fields stand there in little-endian order.
\<close>
theorem read_head_spec:
  "read_head s =
     (if length s < REQ_HEAD_LEN then Inl Eof
      else if s ! 0 \<noteq> magic_number \<or> s ! 1 \<noteq> VERSION_NUMBER then Inl Bad_protocol
      else Inr (head_of_bytes (take REQ_HEAD_LEN s), drop REQ_HEAD_LEN s))"
proof (cases "length s < REQ_HEAD_LEN")
  case True
  then show ?thesis by (simp add: read_head_def async_read_def)
next
  case False
  let ?bs = "take REQ_HEAD_LEN s"
  have len: "length ?bs = REQ_HEAD_LEN" using False by simp
  have "deserialize_to DISABLE_ALL_META_INFO req_header_ty (default_val req_header_ty) ?bs =
      (Ok, req_header_val (head_of_bytes ?bs))"
    using read_packed_header(1) [of True "head_of_bytes ?bs"] by (simp only: pack_head_of_bytes [OF len])
  then have "parse_head ?bs =
      (if s ! 0 \<noteq> magic_number \<or> s ! 1 \<noteq> VERSION_NUMBER then Inl Bad_protocol
       else Inr (head_of_bytes ?bs))"
    by (simp add: parse_head_def head_of_bytes_def REQ_HEAD_LEN_def VERSION_NUMBER_def word_neq_0_conv)
  with False show ?thesis by (simp add: read_head_def async_read_def)
qed

theorem read_head_spec_witness:
  "read_head ([21, 0, 0, 0] @ replicate 16 1 @ [9]) =
     Inr (head_of_bytes ([21, 0, 0, 0] @ replicate 16 1), [9])"
  by (subst read_head_spec)
    (simp add: REQ_HEAD_LEN_def magic_number_def VERSION_NUMBER_def numeral_nat)

section \<open>What a response consists of\<close>

lemma response_header_fields:
  assumes "attachment_len < 2 ^ 32" "length rpc_result < 2 ^ 32"
  shows "prepare_response ndebug rpc_result h attachment_len (errc_code Rpc_ok) msg =
    (pack ndebug DISABLE_ALL_META_INFO resp_header_ty (resp_header_val
       \<lparr>rs_magic = magic_number, rs_version = VERSION_NUMBER, rs_err_code = 0, rs_msg_type = 0,
        rs_seq_num = rq_seq_num h, rs_length = word_of_nat (length rpc_result),
        rs_attach_length = word_of_nat attachment_len\<rparr>), rpc_result)"
  using assms by (simp add: prepare_response_def Let_def)

text \<open>The body of an error response.\<close>

definition error_body :: "bool \<Rightarrow> err_code \<Rightarrow> bytes \<Rightarrow> bytes" where
  "error_body ndebug c msg =
     (if unat c > 255 then pack ndebug 0 rpc_error_ty (rpc_error_sp \<lparr>err_val = c, err_text = msg\<rparr>)
      else pack ndebug 0 string_ty (string_val msg))"

definition error_byte :: "err_code \<Rightarrow> byte" where
  "error_byte c = (if unat c > 255 then 255 else ucast c)"

lemma prepare_response_error:
  assumes "attachment_len < 2 ^ 32" "length rpc_result < 2 ^ 32" "c \<noteq> errc_code Rpc_ok"
  shows "prepare_response ndebug rpc_result h attachment_len c msg =
    (pack ndebug DISABLE_ALL_META_INFO resp_header_ty (resp_header_val
       \<lparr>rs_magic = magic_number, rs_version = VERSION_NUMBER, rs_err_code = error_byte c, rs_msg_type = 0,
        rs_seq_num = rq_seq_num h, rs_length = word_of_nat (length (error_body ndebug c msg)),
        rs_attach_length = word_of_nat attachment_len\<rparr>), error_body ndebug c msg)"
  using assms
  by (simp add: prepare_response_def Let_def error_body_def error_byte_def rpc_error_sp_def)

lemma unat_error_byte: "unat (error_byte c) = min 255 (unat c)"
  by (auto simp: error_byte_def unsigned_ucast_eq unsigned_take_bit_eq take_bit_eq_mod min_def)

lemma error_byte_0: "error_byte c = 0 \<longleftrightarrow> c = errc_code Rpc_ok"
  using unat_error_byte [of c] by (auto simp: errc_code_def unat_eq_zero min_def split: if_splits)

text \<open>Every response has a head of 16 bytes that names the request and the length of the body.\<close>

lemma prepare_response_shape:
  assumes "prepare_response ndebug rpc_result h attachment_len c msg = (header_buf, body)"
  shows "\<exists>rh. header_buf = pack ndebug DISABLE_ALL_META_INFO resp_header_ty (resp_header_val rh) \<and>
    rs_seq_num rh = rq_seq_num h \<and> rs_length rh = word_of_nat (length body) \<and>
    rs_attach_length rh = word_of_nat attachment_len \<and> rs_magic rh = magic_number \<and>
    (rs_err_code rh = 0 \<longrightarrow> body = rpc_result)"
proof -
  have nz: "(ucast c' :: byte) \<noteq> 0" if "c' \<noteq> 0" "\<not> 255 < unat c'" for c' :: u16
    using error_byte_0 [of c'] that by (simp add: error_byte_def errc_code_def)
  show ?thesis
    using assms unfolding prepare_response_def Let_def
    by (intro exI [of _ "val_resp_header (snd (deserialize_to DISABLE_ALL_META_INFO resp_header_ty
           (default_val resp_header_ty) header_buf))"])
      (auto simp: errc_code_def nz read_packed_header split: if_splits prod.splits)
qed

end
