(* ===== verification/RpcRouter.thy ===== *)
theory RpcRouter
  imports RpcProtocol
begin

text \<open>
  The router of a coro_rpc server (\<open>router.hpp\<close>) and the execution of a function on the bytes of
  a request (\<open>rpc_execute.hpp\<close>). The registered functions are user code: a record with what the
  templates read off the function's type, and its behaviour as a function. A process that
  ends with \<open>exit(EXIT_FAILURE)\<close>, as logging at level \<open>CRITICAL\<close> does, is the value \<open>None\<close>.
\<close>

section \<open>Tables with insertion by \<open>emplace\<close>\<close>

text \<open>
  \<open>std::unordered_map::emplace\<close> and \<open>try_emplace\<close>: an existing entry stays and the flag is false.
\<close>

definition emplace :: "'k \<Rightarrow> 'v \<Rightarrow> ('k \<rightharpoonup> 'v) \<Rightarrow> ('k \<rightharpoonup> 'v) \<times> bool" where
  "emplace k v m = (case m k of Some _ \<Rightarrow> (m, False) | None \<Rightarrow> (m(k \<mapsto> v), True))"

text \<open>
  What the users of such a table rely on: a new key is found with its value from then on, a
  second insertion fails and changes nothing that is found.
\<close>

locale emplace_table =
  fixes key :: "'v \<Rightarrow> 'k" and insert :: "'v \<Rightarrow> 't \<Rightarrow> 't option" and find :: "'t \<Rightarrow> 'k \<Rightarrow> 'v option"
  assumes insert_None: "insert v t = None \<longleftrightarrow> find t (key v) \<noteq> None"
    and find_insert: "insert v t = Some t' \<Longrightarrow> find t' = (find t)(key v \<mapsto> v)"
begin

primrec insert_all :: "'v list \<Rightarrow> 't \<Rightarrow> 't option" where
  "insert_all [] t = Some t"
| "insert_all (v # vs) t =
     (case insert v t of None \<Rightarrow> None | Some t' \<Rightarrow> insert_all vs t')"

lemma insert_all_find:
  "insert_all vs t = Some t' \<Longrightarrow> find t' = find t ++ map_of (rev (map (\<lambda>v. (key v, v)) vs))"
proof (induction vs arbitrary: t)
  case Nil
  then show ?case by simp
next
  case (Cons v vs)
  then obtain t1 where t1: "insert v t = Some t1" "insert_all vs t1 = Some t'"
    by (auto split: option.splits)
  have "find t' = find t1 ++ map_of (rev (map (\<lambda>v. (key v, v)) vs))"
    by (rule Cons.IH) (rule t1(2))
  then show ?case by (simp add: find_insert [OF t1(1)] map_add_def fun_eq_iff split: option.splits)
qed

lemma insert_all_succeeds:
  "insert_all vs t \<noteq> None \<longleftrightarrow> distinct (map key vs) \<and> key ` set vs \<inter> dom (find t) = {}"
proof (induction vs arbitrary: t)
  case Nil
  then show ?case by simp
next
  case (Cons v vs)
  show ?case
  proof (cases "insert v t")
    case None
    then have "key v \<in> dom (find t)" by (auto simp: insert_None)
    with None show ?thesis by auto
  next
    case (Some t1)
    then have "key v \<notin> dom (find t)" using insert_None [of v t] by auto
    moreover have "dom (find t1) = Set.insert (key v) (dom (find t))"
      by (simp add: find_insert [OF Some])
    ultimately show ?thesis using Some Cons.IH [of t1] by auto
  qed
qed

lemma inserted_found:
  assumes "insert_all vs t = Some t'" and "v \<in> set vs"
  shows "find t' (key v) = Some v"
proof -
  have dist: "distinct (map fst (rev (map (\<lambda>v. (key v, v)) vs)))"
    using insert_all_succeeds [of vs t] assms(1) by (simp add: rev_map [symmetric] comp_def)
  have "(key v, v) \<in> set (rev (map (\<lambda>v. (key v, v)) vs))" using assms(2) by simp
  with dist have "map_of (rev (map (\<lambda>v. (key v, v)) vs)) (key v) = Some v" by simp
  then show ?thesis by (simp add: insert_all_find [OF assms(1)])
qed

end

section \<open>Functions\<close>

text \<open>How a call ends.\<close>

datatype 'a outcome = Returns 'a | Throws_rpc_error rpc_error | Throws_std bytes | Throws_other

text \<open>What a function with a \<open>context\<close> parameter does with it.\<close>

datatype ctx_action = Response_msg sp_val | Response_error err_code bytes

text \<open>
  A call: the uses of the context made during the call, the attachment set for the response,
  and the end. \<open>fn_return\<close> is \<open>None\<close> for \<open>void\<close>; for a function with a context it is the type of
  the message. \<open>fn_call\<close> has the arguments and the attachment of the request.
\<close>

record call_result =
  cr_actions :: "ctx_action list"
  cr_attachment :: bytes
  cr_outcome :: "sp_val outcome"

record rpc_function =
  fn_name :: string
  fn_coro :: bool
  fn_context :: bool
  fn_params :: "sp_ty list"
  fn_return :: "sp_ty option"
  fn_call :: "sp_val list \<Rightarrow> bytes \<Rightarrow> call_result"

section \<open>Executing a function\<close>

text \<open>
  \<open>struct_pack_protocol\<close>: arguments are a tuple, a single one stands for itself; the flag says
  whether all went well.
\<close>

definition proto_deserialize_to :: "sp_ty list \<Rightarrow> sp_val list \<Rightarrow> bytes \<Rightarrow> bool \<times> sp_val list" where
  "proto_deserialize_to ts args buffer =
     (if length ts = 1 then
        (case deserialize_to 0 (hd ts) (hd args) buffer of (ec, v) \<Rightarrow> (\<not> is_err ec, [v]))
      else
        (case deserialize_to 0 (TTuple ts) (VList args) buffer of (ec, v) \<Rightarrow> (\<not> is_err ec, val_list v)))"

definition proto_serialize :: "bool \<Rightarrow> sp_ty option \<Rightarrow> sp_val \<Rightarrow> bytes" where
  "proto_serialize ndebug t v = (case t of None \<Rightarrow> pack ndebug 0 TMono VUnit | Some t \<Rightarrow> pack ndebug 0 t v)"

text \<open>
  The arguments in \<open>execute\<close>: if they cannot be read, a single parameter is tried as a tuple of
  one (the caller may have added compatible arguments), and several parameters of which all but
  the first are compatible are tried as the first one alone (the caller may not know the others).
\<close>

definition execute_args :: "sp_ty list \<Rightarrow> bytes \<Rightarrow> sp_val list option" where
  "execute_args ts data =
     (if ts = [] then Some []
      else case proto_deserialize_to ts (default_vals ts) data of
        (is_ok, args) \<Rightarrow>
          if is_ok then Some args
          else if length ts = 1 then
            (case deserialize_to 0 (TTuple ts) (VList args) data of
               (ec, v) \<Rightarrow> if is_err ec then None else Some (val_list v))
          else if get_types_code (TTuple [hd ts]) = get_types_code (TTuple ts) then
            (case proto_deserialize_to [hd ts] [hd args] data of
               (is_ok, first) \<Rightarrow> if is_ok then Some (hd first # tl args) else None)
          else None)"

definition execute_coro_args :: "sp_ty list \<Rightarrow> bytes \<Rightarrow> sp_val list option" where
  "execute_coro_args ts data =
     (if ts = [] then Some []
      else case proto_deserialize_to ts (default_vals ts) data of
        (is_ok, args) \<Rightarrow> if is_ok then Some args else None)"

text \<open>
  The result of \<open>execute\<close> and \<open>execute_coro\<close>: the uses of the context, whether there is a context,
  the attachment, and the error code with the body or message.
\<close>

record exec_result =
  ex_actions :: "ctx_action list"
  ex_context :: bool
  ex_attachment :: bytes
  ex_outcome :: "(err_code \<times> bytes) outcome"

definition run_function :: "bool \<Rightarrow> rpc_function \<Rightarrow> sp_val list \<Rightarrow> bytes \<Rightarrow> exec_result" where
  "run_function ndebug fn args req_attachment =
     (let res = fn_call fn args req_attachment in
      \<lparr>ex_actions = (if fn_context fn then cr_actions res else []), ex_context = fn_context fn,
       ex_attachment = cr_attachment res,
       ex_outcome = (case cr_outcome res of
           Returns v \<Rightarrow> Returns (errc_code Rpc_ok,
             proto_serialize ndebug (if fn_context fn then None else fn_return fn) v)
         | Throws_rpc_error e \<Rightarrow> Throws_rpc_error e
         | Throws_std what \<Rightarrow> Throws_std what
         | Throws_other \<Rightarrow> Throws_other)\<rparr>)"

definition execute :: "bool \<Rightarrow> rpc_function \<Rightarrow> bytes \<Rightarrow> bytes \<Rightarrow> exec_result" where
  "execute ndebug fn data req_attachment =
     (case execute_args (fn_params fn) data of
        None \<Rightarrow> \<lparr>ex_actions = [], ex_context = False, ex_attachment = [],
           ex_outcome = Returns (errc_code Invalid_rpc_arguments, text_bytes ''invalid rpc arg'')\<rparr>
      | Some args \<Rightarrow> run_function ndebug fn args req_attachment)"

definition execute_coro :: "bool \<Rightarrow> rpc_function \<Rightarrow> bytes \<Rightarrow> bytes \<Rightarrow> exec_result" where
  "execute_coro ndebug fn data req_attachment =
     (case execute_coro_args (fn_params fn) data of
        None \<Rightarrow> \<lparr>ex_actions = [], ex_context = False, ex_attachment = [],
           ex_outcome = Returns (errc_code Invalid_rpc_arguments,
             text_bytes ''invalid rpc function arguments'')\<rparr>
      | Some args \<Rightarrow> run_function ndebug fn args req_attachment)"

section \<open>The router\<close>

record router =
  handlers :: "u32 \<rightharpoonup> rpc_function"
  coro_handlers :: "u32 \<rightharpoonup> rpc_function"
  id2name :: "u32 \<rightharpoonup> string"

definition empty_router :: router where
  "empty_router = \<lparr>handlers = Map.empty, coro_handlers = Map.empty, id2name = Map.empty\<rparr>"

definition get_name :: "u32 \<Rightarrow> router \<Rightarrow> string" where
  "get_name key r = (case id2name r key of Some name \<Rightarrow> name | None \<Rightarrow> '''')"

definition auto_gen_register_key :: "rpc_function \<Rightarrow> u32" where
  "auto_gen_register_key fn = MD5Hash32Constexpr (text_bytes (fn_name fn))"

definition regist_one_handler_impl :: "u32 \<Rightarrow> rpc_function \<Rightarrow> router \<Rightarrow> router option" where
  "regist_one_handler_impl key fn r =
     (let names = fst (emplace key (fn_name fn) (id2name r)) in
      if fn_coro fn then
        (case emplace key fn (coro_handlers r) of
           (m, inserted) \<Rightarrow>
             if \<not> inserted then None else Some (r\<lparr>coro_handlers := m, id2name := names\<rparr>))
      else
        (case emplace key fn (handlers r) of
           (m, inserted) \<Rightarrow>
             if \<not> inserted then None else Some (r\<lparr>handlers := m, id2name := names\<rparr>)))"

definition regist_one_handler :: "rpc_function \<Rightarrow> router \<Rightarrow> router option" where
  "regist_one_handler fn r = regist_one_handler_impl (auto_gen_register_key fn) fn r"

primrec register_handler :: "rpc_function list \<Rightarrow> router \<Rightarrow> router option" where
  "register_handler [] r = Some r"
| "register_handler (fn # fns) r =
     (case regist_one_handler fn r of None \<Rightarrow> None | Some r' \<Rightarrow> register_handler fns r')"

definition get_handler :: "u32 \<Rightarrow> router \<Rightarrow> rpc_function option" where
  "get_handler key r = handlers r key"

definition get_coro_handler :: "u32 \<Rightarrow> router \<Rightarrow> rpc_function option" where
  "get_coro_handler key r = coro_handlers r key"

text \<open>The exceptions of a function become error codes.\<close>

definition catch_errors :: "(err_code \<times> bytes) outcome \<Rightarrow> err_code \<times> bytes" where
  "catch_errors oc = (case oc of
       Returns p \<Rightarrow> p
     | Throws_rpc_error e \<Rightarrow> (err_val e, err_text e)
     | Throws_std what \<Rightarrow> (errc_code Rpc_throw_exception, what)
     | Throws_other \<Rightarrow> (errc_code Rpc_throw_exception, text_bytes ''unknown rpc function exception''))"

record route_result =
  ro_actions :: "ctx_action list"
  ro_context :: bool
  ro_attachment :: bytes
  ro_error :: err_code
  ro_body :: bytes

definition routed :: "exec_result \<Rightarrow> route_result" where
  "routed ex = (case catch_errors (ex_outcome ex) of (c, body) \<Rightarrow>
     \<lparr>ro_actions = ex_actions ex, ro_context = ex_context ex, ro_attachment = ex_attachment ex,
      ro_error = c, ro_body = body\<rparr>)"

definition route :: "bool \<Rightarrow> rpc_function option \<Rightarrow> bytes \<Rightarrow> bytes \<Rightarrow> route_result" where
  "route ndebug handler data req_attachment =
     (case handler of
        Some fn \<Rightarrow> routed (execute ndebug fn data req_attachment)
      | None \<Rightarrow> \<lparr>ro_actions = [], ro_context = False, ro_attachment = [],
          ro_error = errc_code Function_not_registered,
          ro_body = text_bytes ''the rpc function not registered''\<rparr>)"

definition route_coro :: "bool \<Rightarrow> rpc_function option \<Rightarrow> bytes \<Rightarrow> bytes \<Rightarrow> route_result" where
  "route_coro ndebug handler data req_attachment =
     (case handler of
        Some fn \<Rightarrow> routed (execute_coro ndebug fn data req_attachment)
      | None \<Rightarrow> \<lparr>ro_actions = [], ro_context = False, ro_attachment = [],
          ro_error = errc_code Function_not_registered,
          ro_body = text_bytes ''the rpc function not registered''\<rparr>)"

section \<open>Registered functions are found\<close>

text \<open>A function is found by its kind, coroutine or not, and the hash of its name.\<close>

definition function_key :: "rpc_function \<Rightarrow> bool \<times> u32" where
  "function_key fn = (fn_coro fn, auto_gen_register_key fn)"

definition find_function :: "router \<Rightarrow> bool \<times> u32 \<Rightarrow> rpc_function option" where
  "find_function r k = (if fst k then get_coro_handler (snd k) r else get_handler (snd k) r)"

lemmas find_defs = find_function_def get_handler_def get_coro_handler_def

interpretation routes: emplace_table function_key regist_one_handler find_function
proof
  fix fn r
  show "regist_one_handler fn r = None \<longleftrightarrow> find_function r (function_key fn) \<noteq> None"
    by (auto simp: regist_one_handler_def regist_one_handler_impl_def function_key_def find_defs
        emplace_def Let_def split: option.splits)
next
  fix fn r r'
  assume "regist_one_handler fn r = Some r'"
  then show "find_function r' = (find_function r)(function_key fn \<mapsto> fn)"
    by (auto simp: regist_one_handler_def regist_one_handler_impl_def function_key_def find_defs
        emplace_def fun_eq_iff Let_def split: option.splits if_splits)
qed

lemma register_handler_insert_all: "register_handler fns r = routes.insert_all fns r"
  by (induction fns arbitrary: r) (simp_all split: option.split)

lemma find_empty: "find_function empty_router = Map.empty"
  by (simp add: fun_eq_iff find_defs empty_router_def)

text \<open>
  C25 (functional). Registering functions terminates the process exactly when two functions of
  the same kind have the same route key, that is when one is registered twice or the 32-bit
  hashes of two names collide; otherwise every registered function is found under its key,
  and nothing else is.
\<close>
theorem register_handler_spec:
  "(register_handler fns empty_router = None \<longleftrightarrow> \<not> distinct (map function_key fns)) \<and>
   (\<forall>r. register_handler fns empty_router = Some r \<longrightarrow>
      (\<forall>coro key. (if coro then get_coro_handler key r else get_handler key r) =
         find (\<lambda>fn. function_key fn = (coro, key)) fns))"
proof (intro conjI allI impI)
  show "register_handler fns empty_router = None \<longleftrightarrow> \<not> distinct (map function_key fns)"
    using routes.insert_all_succeeds [of fns empty_router]
    by (auto simp: register_handler_insert_all find_empty)
next
  fix r coro key
  assume "register_handler fns empty_router = Some r"
  then have ins: "routes.insert_all fns empty_router = Some r"
    by (simp add: register_handler_insert_all)
  have "find_function r (coro, key) = find (\<lambda>fn. function_key fn = (coro, key)) fns"
  proof (cases "find (\<lambda>fn. function_key fn = (coro, key)) fns")
    case None
    then have "map_of (rev (map (\<lambda>fn. (function_key fn, fn)) fns)) (coro, key) = None"
      by (auto simp: find_None_iff map_of_eq_None_iff)
    with None show ?thesis by (simp add: routes.insert_all_find [OF ins] find_empty)
  next
    case (Some fn)
    then have "fn \<in> set fns" "function_key fn = (coro, key)" by (auto simp: find_Some_iff)
    with Some routes.inserted_found [OF ins] show ?thesis by metis
  qed
  then show "(if coro then get_coro_handler key r else get_handler key r) =
      find (\<lambda>fn. function_key fn = (coro, key)) fns"
    by (cases coro) (simp_all add: find_function_def)
qed

definition sample_fn :: rpc_function where
  "sample_fn = \<lparr>fn_name = ''echo'', fn_coro = False, fn_context = False,
     fn_params = [TFund Int32], fn_return = Some (TFund Int32),
     fn_call = (\<lambda>args att. \<lparr>cr_actions = [], cr_attachment = att, cr_outcome = Returns (hd args)\<rparr>)\<rparr>"

theorem register_handler_spec_witness:
  "\<exists>r. register_handler [sample_fn] empty_router = Some r \<and>
     get_handler (auto_gen_register_key sample_fn) r = Some sample_fn"
proof -
  obtain r where r: "register_handler [sample_fn] empty_router = Some r"
    using register_handler_spec [of "[sample_fn]"] by auto
  moreover have "(if False then get_coro_handler (auto_gen_register_key sample_fn) r
      else get_handler (auto_gen_register_key sample_fn) r) =
      find (\<lambda>fn. function_key fn = (False, auto_gen_register_key sample_fn)) [sample_fn]"
    using register_handler_spec [of "[sample_fn]"] r by blast
  ultimately show ?thesis by (simp add: function_key_def sample_fn_def)
qed

section \<open>Reading the arguments\<close>

lemma args_val_cases:
  assumes "ts \<noteq> []" "length ts = length vs"
  shows "length ts = 1 \<Longrightarrow> get_args_type ts = hd ts \<and> get_args_val vs = hd vs \<and> vs = [hd vs] \<and>
      hd (default_vals ts) = default_val (hd ts)"
    and "length ts \<noteq> 1 \<Longrightarrow> get_args_type ts = TTuple ts \<and> get_args_val vs = VList vs \<and>
      VList (default_vals ts) = default_val (TTuple ts)"
  using assms
  by (cases ts; cases vs; cases "tl ts"; cases "tl vs";
      simp add: get_args_type_def get_args_val_def)+

lemma proto_deserialize_packed:
  assumes "ts \<noteq> []" "length ts = length vs"
    and "sendable ndebug (get_args_type ts) (get_args_val vs)"
  shows "proto_deserialize_to ts (default_vals ts)
    (pack ndebug 0 (get_args_type ts) (get_args_val vs) @ sfx) = (True, vs)"
proof (cases "length ts = 1")
  case True
  from args_val_cases(1) [OF assms(1,2) True] deserialize_to_sendable [OF assms(3), of sfx] True
  show ?thesis by (auto simp: proto_deserialize_to_def)
next
  case False
  from args_val_cases(2) [OF assms(1,2) False] deserialize_to_sendable [OF assms(3), of sfx] False
  show ?thesis by (auto simp: proto_deserialize_to_def)
qed

lemma execute_args_packed:
  assumes "ts \<noteq> []" "length ts = length vs"
    and "sendable ndebug (get_args_type ts) (get_args_val vs)"
  shows "execute_args ts (pack ndebug 0 (get_args_type ts) (get_args_val vs) @ sfx) = Some vs"
    and "execute_coro_args ts (pack ndebug 0 (get_args_type ts) (get_args_val vs) @ sfx) = Some vs"
  using proto_deserialize_packed [OF assms] assms(1)
  by (simp_all add: execute_args_def execute_coro_args_def)

text \<open>An object with a type hash does not pass for one of another hash.\<close>

lemma deserialize_other_type:
  assumes "sendable ndebug t v" "\<not> check_if_disable_hash_head 0 t" "\<not> check_if_disable_hash_head 0 t'"
    and "get_types_code t \<noteq> get_types_code t'"
  shows "deserialize_to 0 t' item (pack ndebug 0 t v @ sfx) = (InvalidBuffer, item)"
proof -
  obtain d tail where out: "pack ndebug 0 t v = le_bytes 4 (unat (hash_head ndebug 0 d t)) @ tail"
  proof -
    have "\<exists>tail. serialize ndebug 0 st info t v =
        le_bytes 4 (unat (hash_head ndebug 0 (st = 0) t)) @ tail" for st info
      using assms(2) by (simp add: serialize_def serialize_metainfo_def Let_def del: le_bytes.simps)
    then show thesis
      using that by (metis pack_def serialize_to_def)
  qed
  obtain b where b: "unat (hash_head ndebug 0 d t) = unat (get_types_code t) + b" "b \<le> 1"
    unfolding hash_head_eq by (cases "d \<and> \<not> check_has_metainfo ndebug 0 t") auto
  have "unat (get_types_code t) \<noteq> unat (get_types_code t')" using assms(4) by (metis word_unat_eq_iff)
  then have "unat (hash_head ndebug 0 d t) div 2 \<noteq> unat (get_types_code t') div 2"
  proof -
    obtain m m' where m: "unat (get_types_code t) = 2 * m" "unat (get_types_code t') = 2 * m'"
      using even_types_code [of t] even_types_code [of t'] by (blast elim: evenE)
    moreover have "(2 * m + b) div 2 = m" using b(2) by linarith
    ultimately show ?thesis
      using \<open>unat (get_types_code t) \<noteq> unat (get_types_code t')\<close> by (simp add: b(1))
  qed
  then have "deserialize_metainfo 0 t' (mk_reader (pack ndebug 0 t v @ sfx)) =
      (InvalidBuffer, 0, 0, advance 4 (mk_reader (pack ndebug 0 t v @ sfx)))"
    using assms(3) rd_read_append [of "mk_reader (pack ndebug 0 t v @ sfx)"
        "le_bytes 4 (unat (hash_head ndebug 0 d t))" "tail @ sfx" 4]
    by (simp add: deserialize_metainfo_def out mk_reader_def Let_def le_nat_le_bytes_id
        del: le_bytes.simps)
  then show ?thesis by (simp add: deserialize_to_def deserialize_def deserialize_with_len_def)
qed

lemma compat_tail_literal:
  "\<forall>c \<in> set cs. \<exists>t' n. c = TCompat t' n \<Longrightarrow> get_types_code (TTuple (t # cs)) = get_types_code (TTuple [t])"
proof (induction cs)
  case Nil
  show ?case by simp
next
  case (Cons c cs)
  then obtain t' n where "c = TCompat t' n" by auto
  with Cons insert_compat_literal [of "[t]" t' n cs 0 0] show ?case
    by (simp add: get_types_code_def get_types_literal_def)
qed

lemma compat_defaults:
  "\<forall>c \<in> set cs. \<exists>t' n. c = TCompat t' n \<Longrightarrow> default_vals cs = map (\<lambda>_. VOpt None) cs"
  by (induction cs) auto

text \<open>
  A function may get new \<open>compatible\<close> parameters behind its only parameter: what
  an old client sends, the single argument, is read as that argument with all the new ones absent,
  unless the two types happen to have the same 31-bit hash.
\<close>
theorem old_client_single_argument:
  assumes "sendable ndebug t v" and "cs \<noteq> []" and "\<forall>c \<in> set cs. \<exists>t' n. c = TCompat t' n"
    and "\<not> check_if_disable_hash_head 0 t"
  shows "get_types_code t = get_types_code (TTuple (t # cs)) \<or>
    execute_args (t # cs) (pack ndebug 0 t v) = Some (v # map (\<lambda>_. VOpt None) cs)"
proof (cases "get_types_code t = get_types_code (TTuple (t # cs))")
  case False
  have plain: "\<not> check_if_disable_hash_head 0 (TTuple (t # cs))"
    by (simp add: check_if_disable_hash_head_def get_type_config_def DISABLE_ALL_META_INFO_def)
  have "deserialize_to 0 (TTuple (t # cs)) (VList (default_vals (t # cs))) (pack ndebug 0 t v) =
      (InvalidBuffer, VList (default_vals (t # cs)))"
    using deserialize_other_type [OF assms(1,4) plain False, of _ "[]"] by simp
  then have "proto_deserialize_to (t # cs) (default_vals (t # cs)) (pack ndebug 0 t v) =
      (False, default_vals (t # cs))"
    using assms(2) by (simp add: proto_deserialize_to_def)
  moreover have "proto_deserialize_to [t] [default_val t] (pack ndebug 0 t v) = (True, [v])"
    using deserialize_to_sendable_exact [OF assms(1)] by (simp add: proto_deserialize_to_def)
  ultimately show ?thesis
    using assms(2) compat_tail_literal [OF assms(3), of t] compat_defaults [OF assms(3)]
    by (simp add: execute_args_def)
qed simp

lemma sample_sendable: "sendable True (TFund Int32) (VInt 7)"
  by (simp add: sendable_def sample_defs check_has_metainfo_def Let_def)

theorem old_client_single_argument_witness:
  "get_types_code (TFund Int32) = get_types_code (TTuple [TFund Int32, TCompat (TFund Int8) 3]) \<or>
   execute_args [TFund Int32, TCompat (TFund Int8) 3] (pack True 0 (TFund Int32) (VInt 7)) =
     Some [VInt 7, VOpt None]"
  using old_client_single_argument [OF sample_sendable, of "[TCompat (TFund Int8) 3]"]
  by (simp add: check_if_disable_hash_head_def get_type_config_def DISABLE_ALL_META_INFO_def)

end
