(* ===== verification/RpcServer.thy ===== *)
theory RpcServer
  imports RpcRouter "HOL-Library.Multiset"
begin

text \<open>
  A connection of a coro_rpc server (\<open>coro_connection.hpp\<close>, \<open>context.hpp\<close>): the loop that reads
  requests and runs their functions, the contexts through which a function can answer later,
  the queue of responses and the coroutine that writes it to the socket.

  A connection is a state machine. An event is what the scheduler lets happen next: data or the
  end of the stream arrive, the loop handles the next request, a coroutine function ends, a
  kept context is used, the socket takes some bytes or fails, a timer or the user closes the
  connection. All of them run on the executor of the connection, one after the other.

  Not represented: the SSL, RDMA and URMA handshakes, the timers themselves, the injected
  faults of the unit tests, and the handlers called when a response has been written.
\<close>

section \<open>The state\<close>

datatype context_status = Ctx_init | Ctx_start_response | Ctx_finish_response

record context_info =
  cx_head :: req_header
  cx_attachment :: bytes
  cx_status :: context_status

text \<open>A coroutine function that has been started: its context, the function and its input.\<close>

record rpc_task =
  tk_context :: nat
  tk_handler :: "rpc_function option"
  tk_payload :: bytes
  tk_attachment :: bytes

text \<open>
  \<open>sc_contexts\<close> are the contexts created so far, \<open>sc_context\<close> the index of the one the loop
  holds, \<open>sc_given\<close> those that were passed to a function. \<open>sc_sent\<close> is how much of the first
  response is written, \<open>sc_writing\<close> whether \<open>send_data\<close> runs. \<open>sc_got\<close> and \<open>sc_answers\<close> are
  history variables: the accepted requests and all responses ever queued, with the number of
  the request.
\<close>

type_synonym response_frame = "bytes \<times> bytes \<times> bytes"

record server_conn =
  sc_in :: bytes
  sc_eof :: bool
  sc_running :: bool
  sc_magic :: bytes
  sc_req_id :: u64
  sc_closed :: bool
  sc_contexts :: "context_info list"
  sc_context :: nat
  sc_given :: "nat list"
  sc_by_callback :: bool
  sc_tasks :: "rpc_task list"
  sc_processing :: u64
  sc_queue :: "response_frame list"
  sc_writing :: bool
  sc_sent :: nat
  sc_out :: bytes
  sc_got :: "u32 list"
  sc_answers :: "(u32 \<times> response_frame) list"

definition null_head :: req_header where
  "null_head = \<lparr>rq_magic = 0, rq_version = 0, rq_serialize_type = 0, rq_msg_type = 0,
     rq_seq_num = 0, rq_function_id = 0, rq_length = 0, rq_attach_length = 0\<rparr>"

definition new_context :: context_info where
  "new_context = \<lparr>cx_head = null_head, cx_attachment = [], cx_status = Ctx_init\<rparr>"

definition start_conn :: "bytes \<Rightarrow> server_conn" where
  "start_conn magic =
     \<lparr>sc_in = [], sc_eof = False, sc_running = True, sc_magic = magic, sc_req_id = 0,
      sc_closed = False, sc_contexts = [new_context], sc_context = 0, sc_given = [],
      sc_by_callback = False, sc_tasks = [], sc_processing = 0, sc_queue = [],
      sc_writing = False, sc_sent = 0, sc_out = [], sc_got = [], sc_answers = []\<rparr>"

definition close_conn :: "server_conn \<Rightarrow> server_conn" where
  "close_conn s = (if sc_closed s then s else s\<lparr>sc_closed := True, sc_writing := False\<rparr>)"

section \<open>Responses\<close>

text \<open>\<open>response\<close>: a closed connection drops it; the first one in the queue starts the writer.\<close>

definition response :: "u32 \<Rightarrow> response_frame \<Rightarrow> server_conn \<Rightarrow> server_conn" where
  "response seq fr s =
     (if sc_closed s then s
      else
        let queue = sc_queue s @ [fr]
        in s\<lparr>sc_queue := queue, sc_processing := sc_processing s - 1,
             sc_writing := (if length queue = 1 then True else sc_writing s),
             sc_answers := sc_answers s @ [(seq, fr)]\<rparr>)"

definition direct_response_msg ::
  "bool \<Rightarrow> err_code \<Rightarrow> bytes \<Rightarrow> req_header \<Rightarrow> bytes \<Rightarrow> server_conn \<Rightarrow> server_conn" where
  "direct_response_msg ndebug resp_err resp_buf head attachment s =
     (let (resp_buf, resp_error_msg) =
        (if resp_err \<noteq> errc_code Rpc_ok then ([], resp_buf) else (resp_buf, []));
          (header_buf, body) =
            prepare_response ndebug resp_buf head (length attachment) resp_err resp_error_msg
      in response (rq_seq_num head) (header_buf, body, attachment) s)"

text \<open>
  The two answers of a context. \<open>check_status\<close> lets the first one through and marks the context
  even when the connection is closed; \<open>response_msg\<close> takes the attachment with it.
\<close>

definition set_context :: "nat \<Rightarrow> (context_info \<Rightarrow> context_info) \<Rightarrow> server_conn \<Rightarrow> server_conn" where
  "set_context i f s = s\<lparr>sc_contexts := (sc_contexts s)[i := f (sc_contexts s ! i)]\<rparr>"

definition check_status :: "nat \<Rightarrow> server_conn \<Rightarrow> bool \<times> server_conn" where
  "check_status i s =
     (if cx_status (sc_contexts s ! i) \<noteq> Ctx_init then (False, s)
      else (\<not> sc_closed s, set_context i (cx_status_update (\<lambda>_. Ctx_start_response)) s))"

definition context_action ::
  "bool \<Rightarrow> sp_ty option \<Rightarrow> nat \<Rightarrow> ctx_action \<Rightarrow> server_conn \<Rightarrow> server_conn" where
  "context_action ndebug ret i act s =
     (case check_status i s of
        (ok, s1) \<Rightarrow>
          if \<not> ok then s1
          else
            let cx = sc_contexts s1 ! i; head = cx_head cx in
            (case act of
               Response_msg v \<Rightarrow>
                 (case prepare_response ndebug (proto_serialize ndebug ret v) head
                         (length (cx_attachment cx)) (errc_code Rpc_ok) [] of
                    (header_buf, body) \<Rightarrow>
                      set_context i
                        (\<lambda>c. c\<lparr>cx_status := Ctx_finish_response, cx_attachment := []\<rparr>)
                        (response (rq_seq_num head) (header_buf, body, cx_attachment cx) s1))
             | Response_error c msg \<Rightarrow>
                 (case prepare_response ndebug [] head 0 c msg of
                    (header_buf, body) \<Rightarrow>
                      response (rq_seq_num head) (header_buf, body, []) s1)))"

section \<open>The loop\<close>

text \<open>
  Dispatching a complete request, after \<open>read_payload\<close>; the loop's context holds its head. A
  function without a handler is a coroutine, or not registered at all; either is answered
  later. The uses of the context made by the function itself happen before it returns.
\<close>

definition dispatch ::
  "bool \<Rightarrow> router \<Rightarrow> req_header \<Rightarrow> bytes \<Rightarrow> bytes \<Rightarrow> server_conn \<Rightarrow> server_conn" where
  "dispatch ndebug r head payload attachment s0 =
     (let key = get_route_key head;
          i = sc_context s0;
          s = s0\<lparr>sc_processing := sc_processing s0 + 1, sc_got := sc_got s0 @ [rq_seq_num head]\<rparr>
      in case get_handler key r of
           None \<Rightarrow>
             s\<lparr>sc_by_callback := True,
               sc_tasks := sc_tasks s @
                 [\<lparr>tk_context = i, tk_handler = get_coro_handler key r, tk_payload = payload,
                   tk_attachment = attachment\<rparr>]\<rparr>
         | Some fn \<Rightarrow>
             let ro = route ndebug (Some fn) payload attachment;
                 s1 = set_context i (cx_attachment_update (\<lambda>_. ro_attachment ro)) s;
                 s2 = (if ro_context ro then s1\<lparr>sc_by_callback := True, sc_given := sc_given s1 @ [i]\<rparr> else s1);
                 s3 = fold (context_action ndebug (fn_return fn) i) (ro_actions ro) s2
             in if sc_by_callback s3 \<and> ro_error ro = errc_code Rpc_ok then s3
                else
                  let s4 = s3\<lparr>sc_by_callback := False\<rparr>
                  in set_context i (cx_attachment_update (\<lambda>_. []))
                       (direct_response_msg ndebug (ro_error ro) (ro_body ro) head
                          (cx_attachment (sc_contexts s4 ! i)) s4))"

text \<open>
  One turn of the loop. Waiting for more data leaves the state alone, the end of the stream, a
  closed socket and a bad request end the loop. Between the head and the payload the loop takes
  a fresh context when the old one may still be in use.
\<close>

definition stop_loop :: "server_conn \<Rightarrow> server_conn" where
  "stop_loop s = (close_conn s)\<lparr>sc_running := False\<rparr>"

definition fresh_context :: "server_conn \<Rightarrow> server_conn" where
  "fresh_context s =
     (if sc_by_callback s then
        s\<lparr>sc_by_callback := False, sc_contexts := sc_contexts s @ [new_context],
          sc_context := length (sc_contexts s)\<rparr>
      else s)"

definition receive :: "bool \<Rightarrow> router \<Rightarrow> server_conn \<Rightarrow> server_conn" where
  "receive ndebug r s =
     (if \<not> sc_running s then s
      else if sc_closed s then stop_loop s
      else
        case (if sc_req_id s = 0 then read_first_head (sc_magic s) (sc_in s) else read_head (sc_in s)) of
          Inl Eof \<Rightarrow> if sc_eof s then stop_loop s else s
        | Inl Bad_protocol \<Rightarrow> stop_loop s
        | Inr (head, input) \<Rightarrow>
            if \<not> get_serialize_protocol head then stop_loop s
            else
              (case read_payload head input of
                 Inl _ \<Rightarrow> if sc_eof s then stop_loop s else s
               | Inr (payload, attachment, input') \<Rightarrow>
                   let s1 = fresh_context s;
                       s2 = set_context (sc_context s1) (cx_head_update (\<lambda>_. head)) s1
                   in dispatch ndebug r head payload attachment
                        (s2\<lparr>sc_in := input', sc_req_id := sc_req_id s + 1\<rparr>)))"

text \<open>A coroutine function ends: its result is sent with the head its context holds.\<close>

definition finish_task :: "bool \<Rightarrow> nat \<Rightarrow> server_conn \<Rightarrow> server_conn" where
  "finish_task ndebug k s =
     (if k < length (sc_tasks s) then
        let t = sc_tasks s ! k;
            ro = route_coro ndebug (tk_handler t) (tk_payload t) (tk_attachment t);
            s1 = s\<lparr>sc_tasks := take k (sc_tasks s) @ drop (Suc k) (sc_tasks s)\<rparr>
        in direct_response_msg ndebug (ro_error ro) (ro_body ro) (cx_head (sc_contexts s ! tk_context t))
             (ro_attachment ro) s1
      else s)"

section \<open>The writer\<close>

definition frame_bytes :: "response_frame \<Rightarrow> bytes" where
  "frame_bytes fr = (case fr of (header_buf, body, attachment) \<Rightarrow> header_buf @ body @ attachment)"

text \<open>
  \<open>send_data\<close>: the response in front is written, in pieces of any size, and popped when all of it
  is out; then comes the next one, until the queue is empty.
\<close>

definition write_some :: "nat \<Rightarrow> server_conn \<Rightarrow> server_conn" where
  "write_some n s =
     (if sc_writing s \<and> sc_queue s \<noteq> [] then
        let msg = frame_bytes (hd (sc_queue s));
            s1 = s\<lparr>sc_out := sc_out s @ take n (drop (sc_sent s) msg), sc_sent := sc_sent s + n\<rparr>
        in if length msg \<le> sc_sent s1 then
             s1\<lparr>sc_queue := tl (sc_queue s1), sc_sent := 0, sc_writing := (tl (sc_queue s1) \<noteq> [])\<rparr>
           else s1
      else s)"

section \<open>Runs\<close>

datatype conn_event =
    Arrive bytes | Peer_eof | Receive | Finish nat | Use_context nat "sp_ty option" ctx_action
  | Write nat | Write_error | Async_close

definition conn_step :: "bool \<Rightarrow> router \<Rightarrow> conn_event \<Rightarrow> server_conn \<Rightarrow> server_conn" where
  "conn_step ndebug r e s = (case e of
       Arrive bs \<Rightarrow> if sc_eof s then s else s\<lparr>sc_in := sc_in s @ bs\<rparr>
     | Peer_eof \<Rightarrow> s\<lparr>sc_eof := True\<rparr>
     | Receive \<Rightarrow> receive ndebug r s
     | Finish k \<Rightarrow> finish_task ndebug k s
     | Use_context i ret act \<Rightarrow> if i \<in> set (sc_given s) then context_action ndebug ret i act s else s
     | Write n \<Rightarrow> write_some n s
     | Write_error \<Rightarrow> if sc_writing s then close_conn s else s
     | Async_close \<Rightarrow> close_conn s)"

definition run_conn :: "bool \<Rightarrow> router \<Rightarrow> bytes \<Rightarrow> conn_event list \<Rightarrow> server_conn" where
  "run_conn ndebug r magic es = fold (conn_step ndebug r) es (start_conn magic)"

section \<open>Every request is answered at most once\<close>

text \<open>
  The requests that are still open: coroutine functions that run, and contexts that were
  given away and not yet used.
\<close>

definition ctx_seq :: "server_conn \<Rightarrow> nat \<Rightarrow> u32" where
  "ctx_seq s i = rq_seq_num (cx_head (sc_contexts s ! i))"

definition unused :: "server_conn \<Rightarrow> nat \<Rightarrow> bool" where
  "unused s i \<longleftrightarrow> cx_status (sc_contexts s ! i) = Ctx_init"

definition open_requests :: "server_conn \<Rightarrow> u32 list" where
  "open_requests s = map (\<lambda>t. ctx_seq s (tk_context t)) (sc_tasks s) @
     map (ctx_seq s) (filter (unused s) (sc_given s))"

definition busy :: "server_conn \<Rightarrow> nat list" where
  "busy s = map tk_context (sc_tasks s) @ sc_given s"

definition contexts_ok :: "server_conn \<Rightarrow> bool" where
  "contexts_ok s \<longleftrightarrow> sc_context s < length (sc_contexts s) \<and>
     (\<forall>i \<in> set (busy s). i < length (sc_contexts s)) \<and> distinct (busy s) \<and>
     (\<not> sc_by_callback s \<longrightarrow> sc_context s \<notin> set (busy s) \<and> unused s (sc_context s))"

definition accounted :: "server_conn \<Rightarrow> bool" where
  "accounted s \<longleftrightarrow> mset (map fst (sc_answers s)) \<subseteq># mset (sc_got s) \<and>
     (\<not> sc_closed s \<longrightarrow>
        mset (map fst (sc_answers s)) + mset (open_requests s) = mset (sc_got s) \<and>
        sc_processing s = word_of_nat (length (open_requests s)))"

lemma context_view_update [simp]:
  "ctx_seq (sc_processing_update f1 s) = ctx_seq s" "unused (sc_processing_update f1 s) = unused s"
  "ctx_seq (sc_got_update f2 s) = ctx_seq s" "unused (sc_got_update f2 s) = unused s"
  "ctx_seq (sc_by_callback_update f3 s) = ctx_seq s" "unused (sc_by_callback_update f3 s) = unused s"
  "ctx_seq (sc_given_update f4 s) = ctx_seq s" "unused (sc_given_update f4 s) = unused s"
  "ctx_seq (sc_tasks_update f5 s) = ctx_seq s" "unused (sc_tasks_update f5 s) = unused s"
  "ctx_seq (sc_in_update f6 s) = ctx_seq s" "unused (sc_in_update f6 s) = unused s"
  "ctx_seq (sc_req_id_update f7 s) = ctx_seq s" "unused (sc_req_id_update f7 s) = unused s"
  "ctx_seq (sc_eof_update f8 s) = ctx_seq s" "unused (sc_eof_update f8 s) = unused s"
  "ctx_seq (sc_running_update f9 s) = ctx_seq s" "unused (sc_running_update f9 s) = unused s"
  "ctx_seq (sc_closed_update f10 s) = ctx_seq s" "unused (sc_closed_update f10 s) = unused s"
  "ctx_seq (sc_writing_update f11 s) = ctx_seq s" "unused (sc_writing_update f11 s) = unused s"
  "ctx_seq (sc_queue_update f12 s) = ctx_seq s" "unused (sc_queue_update f12 s) = unused s"
  "ctx_seq (sc_sent_update f13 s) = ctx_seq s" "unused (sc_sent_update f13 s) = unused s"
  "ctx_seq (sc_out_update f14 s) = ctx_seq s" "unused (sc_out_update f14 s) = unused s"
  "ctx_seq (sc_context_update f15 s) = ctx_seq s" "unused (sc_context_update f15 s) = unused s"
  by (simp_all add: ctx_seq_def unused_def fun_eq_iff)

lemma set_context_sel [simp]:
  "sc_answers (set_context i f s) = sc_answers s" "sc_got (set_context i f s) = sc_got s"
  "sc_closed (set_context i f s) = sc_closed s" "sc_processing (set_context i f s) = sc_processing s"
  "sc_tasks (set_context i f s) = sc_tasks s" "sc_given (set_context i f s) = sc_given s"
  "sc_by_callback (set_context i f s) = sc_by_callback s" "sc_context (set_context i f s) = sc_context s"
  "length (sc_contexts (set_context i f s)) = length (sc_contexts s)"
  "busy (set_context i f s) = busy s"
  by (simp_all add: set_context_def busy_def)

lemma set_context_nth:
  "i < length (sc_contexts s) \<Longrightarrow>
   sc_contexts (set_context i f s) ! j = (if j = i then f (sc_contexts s ! i) else sc_contexts s ! j)"
  by (cases "j = i") (simp_all add: set_context_def)

lemma set_context_any:
  "sc_contexts (set_context i f s) ! j =
     (if j = i \<and> i < length (sc_contexts s) then f (sc_contexts s ! i) else sc_contexts s ! j)"
proof (cases "i < length (sc_contexts s)")
  case True
  then show ?thesis by (simp add: set_context_nth)
next
  case False
  then show ?thesis by (simp add: set_context_def list_update_beyond)
qed

lemma response_sel [simp]:
  "sc_contexts (response seq fr s) = sc_contexts s" "sc_got (response seq fr s) = sc_got s"
  "sc_closed (response seq fr s) = sc_closed s" "sc_tasks (response seq fr s) = sc_tasks s"
  "sc_given (response seq fr s) = sc_given s" "sc_by_callback (response seq fr s) = sc_by_callback s"
  "sc_context (response seq fr s) = sc_context s"
  "\<not> sc_closed s \<Longrightarrow> sc_answers (response seq fr s) = sc_answers s @ [(seq, fr)]"
  "sc_closed s \<Longrightarrow> response seq fr s = s"
  "\<not> sc_closed s \<Longrightarrow> sc_processing (response seq fr s) = sc_processing s - 1"
  by (simp_all add: response_def Let_def)

lemma open_response [simp]:
  "open_requests (response seq fr s) = open_requests s" "busy (response seq fr s) = busy s"
  "ctx_seq (response seq fr s) = ctx_seq s" "unused (response seq fr s) = unused s"
  by (simp_all add: open_requests_def busy_def ctx_seq_def [abs_def] unused_def [abs_def])

lemma contexts_ok_response [simp]: "contexts_ok (response seq fr s) = contexts_ok s"
  by (simp add: contexts_ok_def)

lemma filter_remove1_distinct:
  "distinct xs \<Longrightarrow> x \<in> set xs \<Longrightarrow> P x \<Longrightarrow>
   mset (filter P xs) = add_mset x (mset (filter (\<lambda>y. P y \<and> y \<noteq> x) xs))"
  by (induction xs) (auto intro!: filter_mset_cong)

text \<open>Using a context that was given away closes one open request.\<close>

lemma open_use_context:
  assumes ok: "contexts_ok s" and i: "i \<in> set (sc_given s)" "unused s i"
    and f: "\<And>c. cx_head (f c) = cx_head c" "\<And>c. cx_status (f c) \<noteq> Ctx_init"
  shows "mset (open_requests s) = add_mset (ctx_seq s i) (mset (open_requests (set_context i f s)))"
proof -
  have len: "i < length (sc_contexts s)" and dist: "distinct (sc_given s)"
    using ok i(1) by (auto simp: contexts_ok_def busy_def)
  have seq: "ctx_seq (set_context i f s) = ctx_seq s"
    by (rule ext) (simp add: ctx_seq_def set_context_nth len f)
  have un: "unused (set_context i f s) j \<longleftrightarrow> unused s j \<and> j \<noteq> i" for j
    by (simp add: unused_def set_context_nth len f)
  show ?thesis
    unfolding open_requests_def seq un mset_append mset_map
    using filter_remove1_distinct [of "sc_given s" i "unused s", OF dist i] un seq
    by (simp add: ctx_seq_def)
qed

lemma check_status_cases:
  "check_status i s = (if unused s i
     then (\<not> sc_closed s, set_context i (cx_status_update (\<lambda>_. Ctx_start_response)) s) else (False, s))"
  by (simp add: check_status_def unused_def)

lemma contexts_ok_use:
  assumes "contexts_ok s" "i \<in> set (sc_given s)"
  shows "contexts_ok (set_context i f s)"
proof -
  have "i < length (sc_contexts s)" using assms by (auto simp: contexts_ok_def busy_def)
  moreover have "sc_context s \<noteq> i" if "\<not> sc_by_callback s"
    using assms that by (auto simp: contexts_ok_def busy_def)
  ultimately show ?thesis
    using assms(1) by (auto simp: contexts_ok_def unused_def set_context_nth)
qed

lemma set_context_twice:
  "i < length (sc_contexts s) \<Longrightarrow> set_context i g (set_context i f s) = set_context i (g \<circ> f) s"
  by (simp add: set_context_def)

lemma set_context_response:
  "set_context i f (response seq fr s) = response seq fr (set_context i f s)"
  by (simp add: set_context_def response_def Let_def)

text \<open>
  What an action on a context does: nothing, or the context is used up, and then one response
  is queued unless the connection is closed.
\<close>

lemma context_action_cases:
  assumes "i < length (sc_contexts s)"
  obtains "\<not> unused s i" "context_action ndebug ret i act s = s"
  | f where "unused s i" "sc_closed s" "context_action ndebug ret i act s = set_context i f s"
      "\<And>c. cx_head (f c) = cx_head c" "\<And>c. cx_status (f c) \<noteq> Ctx_init"
  | f fr where "unused s i" "\<not> sc_closed s"
      "context_action ndebug ret i act s = response (ctx_seq s i) fr (set_context i f s)"
      "\<And>c. cx_head (f c) = cx_head c" "\<And>c. cx_status (f c) \<noteq> Ctx_init"
proof (cases "unused s i")
  case False
  then show ?thesis
    by (intro that(1)) (simp_all add: context_action_def check_status_cases)
next
  case unused: True
  let ?f = "cx_status_update (\<lambda>_. Ctx_start_response)"
  show ?thesis
  proof (cases "sc_closed s")
    case True
    with unused show ?thesis
      by (intro that(2) [where f = ?f]) (simp_all add: context_action_def check_status_cases)
  next
    case False
    let ?s = "set_context i ?f s"
    have head: "rq_seq_num (cx_head (sc_contexts ?s ! i)) = ctx_seq s i"
      using assms by (simp add: ctx_seq_def set_context_nth)
    show ?thesis
    proof (cases act)
      case (Response_msg v)
      let ?g = "\<lambda>c. c\<lparr>cx_status := Ctx_finish_response, cx_attachment := []\<rparr>"
      obtain h b where "prepare_response ndebug (proto_serialize ndebug ret v) (cx_head (sc_contexts ?s ! i))
          (length (cx_attachment (sc_contexts ?s ! i))) (errc_code Rpc_ok) [] = (h, b)"
        by (meson surj_pair)
      with unused False Response_msg assms head show ?thesis
        by (intro that(3) [where f = "?g \<circ> ?f" and fr = "(h, b, cx_attachment (sc_contexts ?s ! i))"])
          (simp_all add: context_action_def check_status_cases Let_def set_context_response
            set_context_twice)
    next
      case (Response_error c msg)
      obtain h b where "prepare_response ndebug [] (cx_head (sc_contexts ?s ! i)) 0 c msg = (h, b)"
        by (meson surj_pair)
      with unused False Response_error assms head show ?thesis
        by (intro that(3) [where f = ?f and fr = "(h, b, [])"])
          (simp_all add: context_action_def check_status_cases Let_def)
    qed
  qed
qed

lemma accountedI:
  assumes "mset (map fst (sc_answers s)) + mset (open_requests s) = mset (sc_got s)"
    and "sc_processing s = word_of_nat (length (open_requests s))"
  shows "accounted s"
  using assms mset_subset_eq_add_left [of "mset (map fst (sc_answers s))" "mset (open_requests s)"]
  by (simp add: accounted_def)

lemma accounted_response_new:
  assumes "add_mset seq (mset (map fst (sc_answers s)) + mset (open_requests s)) = mset (sc_got s)"
    and "sc_processing s = word_of_nat (length (open_requests s)) + 1" and "\<not> sc_closed s"
  shows "accounted (response seq fr s)"
  using assms by (intro accountedI) simp_all

lemma context_action_inv:
  assumes ok: "contexts_ok s" "accounted s" and i: "i \<in> set (sc_given s)"
  shows "contexts_ok (context_action ndebug ret i act s) \<and> accounted (context_action ndebug ret i act s)
    \<and> sc_given (context_action ndebug ret i act s) = sc_given s"
proof -
  have len: "i < length (sc_contexts s)" using ok(1) i by (auto simp: contexts_ok_def busy_def)
  show ?thesis
  proof (cases rule: context_action_cases [OF len, of ndebug ret act])
    case 1
    then show ?thesis using ok by simp
  next
    case (2 f)
    then show ?thesis using ok contexts_ok_use [OF ok(1) i] by (simp add: accounted_def)
  next
    case (3 f fr)
    let ?s = "set_context i f s"
    have "mset (open_requests s) = add_mset (ctx_seq s i) (mset (open_requests ?s))"
      by (rule open_use_context [OF ok(1) i 3(1,4,5)])
    moreover from this have "length (open_requests s) = Suc (length (open_requests ?s))"
      by (metis size_add_mset size_mset)
    ultimately have "accounted (response (ctx_seq s i) fr ?s)"
      using ok(2) 3(2) by (intro accountedI) (simp_all add: accounted_def)
    then show ?thesis using 3(3) contexts_ok_use [OF ok(1) i] by simp
  qed
qed

text \<open>Functions that have a context do not also throw.\<close>

definition returns_normally :: "rpc_function \<Rightarrow> bool" where
  "returns_normally fn \<longleftrightarrow>
     (fn_context fn \<longrightarrow> (\<forall>args att. \<exists>v. cr_outcome (fn_call fn args att) = Returns v))"

lemma run_function_context:
  "returns_normally fn \<Longrightarrow> fn_context fn \<Longrightarrow>
     \<exists>body. ex_outcome (run_function ndebug fn args att) = Returns (errc_code Rpc_ok, body)"
  by (auto simp: run_function_def returns_normally_def Let_def dest!: spec [where x = args] spec [where x = att])

lemma route_context:
  assumes "ro = route ndebug (Some fn) data att"
  shows "returns_normally fn \<Longrightarrow> ro_context ro \<Longrightarrow> ro_error ro = errc_code Rpc_ok"
    and "\<not> ro_context ro \<Longrightarrow> ro_actions ro = []"
proof -
  have con: "ro_context ro = ex_context (execute ndebug fn data att)"
    "ro_actions ro = ex_actions (execute ndebug fn data att)"
    "ro_error ro = fst (catch_errors (ex_outcome (execute ndebug fn data att)))"
    by (simp_all add: assms route_def routed_def split_beta)
  show "\<not> ro_context ro \<Longrightarrow> ro_actions ro = []"
    by (auto simp: con execute_def run_function_def Let_def split: option.splits)
  show "ro_error ro = errc_code Rpc_ok" if normal: "returns_normally fn" and ctx: "ro_context ro"
  proof (cases "execute_args (fn_params fn) data")
    case None
    with ctx show ?thesis by (simp add: con execute_def)
  next
    case (Some args)
    with ctx have "fn_context fn" by (simp add: con execute_def run_function_def Let_def)
    from run_function_context [OF normal this, of ndebug args att] Some show ?thesis
      by (auto simp: con execute_def catch_errors_def)
  qed
qed

lemma context_actions_inv:
  "contexts_ok s \<Longrightarrow> accounted s \<Longrightarrow> i \<in> set (sc_given s) \<Longrightarrow>
   contexts_ok (fold (context_action ndebug ret i) acts s) \<and>
   accounted (fold (context_action ndebug ret i) acts s)"
proof (induction acts arbitrary: s)
  case Nil
  then show ?case by simp
next
  case (Cons act acts)
  from context_action_inv [OF Cons.prems, of ndebug ret act] Cons.prems(3) show ?case
    by (simp add: Cons.IH)
qed

lemma context_action_callback [simp]:
  "sc_by_callback (context_action ndebug ret i act s) = sc_by_callback s"
  by (simp add: context_action_def check_status_def Let_def split: ctx_action.splits prod.splits)

lemma context_actions_callback [simp]:
  "sc_by_callback (fold (context_action ndebug ret i) acts s) = sc_by_callback s"
  by (induction acts arbitrary: s) simp_all

lemma direct_response_eq:
  "\<exists>fr. direct_response_msg ndebug c buf head att s = response (rq_seq_num head) fr s"
  by (auto simp: direct_response_msg_def Let_def split: prod.splits if_splits)

lemma set_attachment_inv [simp]:
  "open_requests (set_context i (cx_attachment_update f) s) = open_requests s"
  "contexts_ok (set_context i (cx_attachment_update f) s) = contexts_ok s"
  "accounted (set_context i (cx_attachment_update f) s) = accounted s"
proof -
  let ?s = "set_context i (cx_attachment_update f) s"
  have "cx_head (sc_contexts ?s ! j) = cx_head (sc_contexts s ! j)"
    "cx_status (sc_contexts ?s ! j) = cx_status (sc_contexts s ! j)" for j
    by (simp_all add: set_context_any)
  then have seq: "ctx_seq ?s = ctx_seq s" and un: "unused ?s = unused s"
    by (simp_all add: ctx_seq_def [abs_def] unused_def [abs_def])
  then show "open_requests ?s = open_requests s" "contexts_ok ?s = contexts_ok s"
    by (simp_all add: open_requests_def contexts_ok_def)
  then show "accounted ?s = accounted s" by (simp add: accounted_def)
qed

lemma dispatch_inv:
  assumes ok: "contexts_ok s" "accounted s" and live: "\<not> sc_closed s" "\<not> sc_by_callback s"
    and head: "ctx_seq s (sc_context s) = rq_seq_num head"
    and normal: "\<And>fn. get_handler (get_route_key head) r = Some fn \<Longrightarrow> returns_normally fn"
  shows "contexts_ok (dispatch ndebug r head payload att s) \<and> accounted (dispatch ndebug r head payload att s)"
proof -
  let ?key = "get_route_key head" and ?i = "sc_context s"
  let ?s = "s\<lparr>sc_processing := sc_processing s + 1, sc_got := sc_got s @ [rq_seq_num head]\<rparr>"
  have cur: "?i < length (sc_contexts s)" "?i \<notin> set (busy s)" "unused s ?i"
    using ok(1) live(2) by (simp_all add: contexts_ok_def)
  have eq: "mset (map fst (sc_answers s)) + mset (open_requests s) = mset (sc_got s)"
    "sc_processing s = word_of_nat (length (open_requests s))"
    using ok(2) live(1) by (simp_all add: accounted_def)
  show ?thesis
  proof (cases "get_handler ?key r")
    case None
    let ?t = "\<lparr>tk_context = ?i, tk_handler = get_coro_handler ?key r, tk_payload = payload,
      tk_attachment = att\<rparr>"
    let ?s' = "?s\<lparr>sc_by_callback := True, sc_tasks := sc_tasks s @ [?t]\<rparr>"
    have s': "dispatch ndebug r head payload att s = ?s'"
      by (simp add: dispatch_def None Let_def)
    have "open_requests ?s' = map (\<lambda>t. ctx_seq s (tk_context t)) (sc_tasks s) @ rq_seq_num head #
        map (ctx_seq s) (filter (unused s) (sc_given s))"
      by (simp add: open_requests_def head [symmetric])
    then have "accounted ?s'"
      using eq by (intro accountedI) (simp_all add: open_requests_def)
    moreover have "contexts_ok ?s'"
      using ok(1) cur by (auto simp: contexts_ok_def busy_def)
    ultimately show ?thesis by (simp add: s')
  next
    case (Some fn)
    let ?ro = "route ndebug (Some fn) payload att"
    let ?s1 = "set_context ?i (cx_attachment_update (\<lambda>_. ro_attachment ?ro)) ?s"
    show ?thesis
    proof (cases "ro_context ?ro")
      case True
      let ?s2 = "?s1\<lparr>sc_by_callback := True, sc_given := sc_given s @ [?i]\<rparr>"
      have err: "ro_error ?ro = errc_code Rpc_ok" by (rule route_context(1) [OF refl normal [OF Some] True])
      have s': "dispatch ndebug r head payload att s =
          fold (context_action ndebug (fn_return fn) ?i) (ro_actions ?ro) ?s2"
        using True err by (simp add: dispatch_def Some Let_def)
      let ?s0 = "?s\<lparr>sc_by_callback := True, sc_given := sc_given s @ [?i]\<rparr>"
      have s2: "?s2 = set_context ?i (cx_attachment_update (\<lambda>_. ro_attachment ?ro)) ?s0"
        by (simp add: set_context_def)
      have "open_requests ?s0 = open_requests s @ [rq_seq_num head]"
        using cur(3) by (simp add: open_requests_def head [symmetric])
      then have "accounted ?s0" using eq by (intro accountedI) simp_all
      moreover have "contexts_ok ?s0" using ok(1) cur by (auto simp: contexts_ok_def busy_def)
      ultimately have "contexts_ok ?s2" "accounted ?s2" by (simp_all only: s2 set_attachment_inv)
      then show ?thesis unfolding s' by (rule context_actions_inv) simp
    next
      case False
      let ?s4 = "?s1\<lparr>sc_by_callback := False\<rparr>"
      obtain fr where fr: "direct_response_msg ndebug (ro_error ?ro) (ro_body ?ro) head
          (cx_attachment (sc_contexts ?s4 ! ?i)) ?s4 = response (rq_seq_num head) fr ?s4"
        using direct_response_eq by blast
      have s': "dispatch ndebug r head payload att s =
          set_context ?i (cx_attachment_update (\<lambda>_. [])) (response (rq_seq_num head) fr ?s4)"
        using False route_context(2) [OF refl False] live(2) fr by (simp add: dispatch_def Some Let_def)
      have s4: "?s4 = set_context ?i (cx_attachment_update (\<lambda>_. ro_attachment ?ro)) ?s"
        using live(2) by (simp add: set_context_def)
      have same: "open_requests ?s = open_requests s" "contexts_ok ?s = contexts_ok s"
        by (simp_all add: open_requests_def contexts_ok_def busy_def)
      have "open_requests ?s4 = open_requests s" "contexts_ok ?s4"
        unfolding s4 set_attachment_inv using same ok(1) by simp_all
      moreover have "accounted (response (rq_seq_num head) fr ?s4)"
        by (rule accounted_response_new) (use eq live(1) calculation(1) in simp_all)
      ultimately show ?thesis by (simp add: s')
    qed
  qed
qed

definition conn_inv :: "server_conn \<Rightarrow> bool" where
  "conn_inv s \<longleftrightarrow> contexts_ok s \<and> accounted s"

lemma inv_same_view:
  assumes "conn_inv s" "sc_contexts t = sc_contexts s" "sc_context t = sc_context s"
    "sc_tasks t = sc_tasks s" "sc_given t = sc_given s" "sc_by_callback t = sc_by_callback s"
    "sc_answers t = sc_answers s" "sc_got t = sc_got s" "sc_processing t = sc_processing s"
    "sc_closed s \<longrightarrow> sc_closed t"
  shows "conn_inv t"
proof -
  have view: "ctx_seq t = ctx_seq s" "unused t = unused s" "busy t = busy s"
    using assms by (simp_all add: ctx_seq_def unused_def busy_def fun_eq_iff)
  then have "open_requests t = open_requests s" using assms by (simp add: open_requests_def)
  then show ?thesis using assms view by (auto simp: conn_inv_def contexts_ok_def accounted_def)
qed

lemma close_conn_inv: "conn_inv s \<Longrightarrow> conn_inv (close_conn s)"
  by (rule inv_same_view [of s]) (simp_all add: close_conn_def)

lemma stop_loop_inv: "conn_inv s \<Longrightarrow> conn_inv (stop_loop s)"
  by (rule inv_same_view [of s]) (simp_all add: stop_loop_def close_conn_def)

lemma open_requests_cong:
  assumes "sc_tasks t = sc_tasks s" "sc_given t = sc_given s"
    and "\<And>i. i \<in> set (busy s) \<Longrightarrow> ctx_seq t i = ctx_seq s i \<and> unused t i = unused s i"
  shows "open_requests t = open_requests s"
proof -
  have "map (\<lambda>u. ctx_seq t (tk_context u)) (sc_tasks s) = map (\<lambda>u. ctx_seq s (tk_context u)) (sc_tasks s)"
    using assms(3) by (auto simp: busy_def)
  moreover have "filter (unused t) (sc_given s) = filter (unused s) (sc_given s)"
    using assms(3) by (intro filter_cong) (auto simp: busy_def)
  moreover have "map (ctx_seq t) (filter (unused s) (sc_given s)) =
      map (ctx_seq s) (filter (unused s) (sc_given s))"
    using assms(3) by (auto simp: busy_def)
  ultimately show ?thesis using assms(1,2) by (simp add: open_requests_def)
qed

lemma fresh_context_inv:
  assumes "conn_inv s"
  shows "conn_inv (fresh_context s)" "\<not> sc_by_callback (fresh_context s)"
    "sc_closed (fresh_context s) = sc_closed s"
proof -
  show "\<not> sc_by_callback (fresh_context s)" "sc_closed (fresh_context s) = sc_closed s"
    by (simp_all add: fresh_context_def)
  let ?s = "s\<lparr>sc_by_callback := False, sc_contexts := sc_contexts s @ [new_context],
      sc_context := length (sc_contexts s)\<rparr>"
  have below: "\<forall>i \<in> set (busy s). i < length (sc_contexts s)"
    using assms by (simp add: conn_inv_def contexts_ok_def)
  have busy: "busy ?s = busy s" by (simp add: busy_def)
  have "open_requests ?s = open_requests s"
    using below by (intro open_requests_cong) (simp_all add: ctx_seq_def unused_def nth_append)
  moreover have "contexts_ok ?s"
    using assms below unfolding contexts_ok_def conn_inv_def busy
    by (auto simp: unused_def new_context_def less_SucI)
  ultimately show "conn_inv (fresh_context s)"
    using assms by (auto simp: fresh_context_def conn_inv_def accounted_def)
qed

lemma set_head_inv:
  assumes "conn_inv s" "\<not> sc_by_callback s"
  shows "conn_inv (set_context (sc_context s) (cx_head_update (\<lambda>_. head)) s)"
    "ctx_seq (set_context (sc_context s) (cx_head_update (\<lambda>_. head)) s) (sc_context s) = rq_seq_num head"
proof -
  let ?s = "set_context (sc_context s) (cx_head_update (\<lambda>_. head)) s"
  have cur: "sc_context s < length (sc_contexts s)" "sc_context s \<notin> set (busy s)"
    using assms by (simp_all add: conn_inv_def contexts_ok_def)
  then show "ctx_seq ?s (sc_context s) = rq_seq_num head" by (simp add: ctx_seq_def set_context_nth)
  have un: "unused ?s = unused s" by (simp add: fun_eq_iff unused_def set_context_any)
  have "open_requests ?s = open_requests s"
    using cur(2) by (intro open_requests_cong) (auto simp: un ctx_seq_def set_context_any)
  then show "conn_inv ?s"
    using assms by (simp add: conn_inv_def contexts_ok_def un accounted_def)
qed

lemma receive_inv:
  assumes inv: "conn_inv s" and normal: "\<And>key fn. get_handler key r = Some fn \<Longrightarrow> returns_normally fn"
  shows "conn_inv (receive ndebug r s)"
proof -
  let ?read = "if sc_req_id s = 0 then read_first_head (sc_magic s) (sc_in s) else read_head (sc_in s)"
  have stop: "conn_inv (stop_loop s)" by (rule stop_loop_inv [OF inv])
  show ?thesis
  proof (cases "sc_running s \<and> \<not> sc_closed s")
    case False
    then show ?thesis using inv stop by (auto simp: receive_def)
  next
    case live: True
    show ?thesis
    proof (cases ?read)
      case (Inl ec)
      then show ?thesis using inv stop live by (cases ec) (auto simp: receive_def)
    next
      case (Inr p)
      obtain head input where p: "p = (head, input)" by (rule prod.exhaust)
      show ?thesis
      proof (cases "get_serialize_protocol head \<and> (\<exists>q. read_payload head input = Inr q)")
        case False
        then show ?thesis
          using inv stop live Inr p by (cases "read_payload head input") (auto simp: receive_def)
      next
        case True
        then obtain payload att input' where q: "read_payload head input = Inr (payload, att, input')"
          by (metis prod_cases3)
        let ?s1 = "fresh_context s"
        let ?s2 = "set_context (sc_context ?s1) (cx_head_update (\<lambda>_. head)) ?s1"
        let ?s3 = "?s2\<lparr>sc_in := input', sc_req_id := sc_req_id s + 1\<rparr>"
        have "receive ndebug r s = dispatch ndebug r head payload att ?s3"
          using live True Inr p q by (simp add: receive_def Let_def split: if_splits)
        moreover have "conn_inv ?s3"
          by (rule inv_same_view [OF set_head_inv(1) [OF fresh_context_inv(1,2) [OF inv]]]) simp_all
        moreover have "ctx_seq ?s3 (sc_context ?s3) = rq_seq_num head"
          using set_head_inv(2) [OF fresh_context_inv(1,2) [OF inv]] by simp
        ultimately show ?thesis
          using dispatch_inv [of ?s3] normal fresh_context_inv(2,3) [OF inv] live
          by (simp add: conn_inv_def)
      qed
    qed
  qed
qed

lemma finish_task_inv:
  assumes inv: "conn_inv s"
  shows "conn_inv (finish_task ndebug k s)"
proof (cases "k < length (sc_tasks s)")
  case False
  with inv show ?thesis by (simp add: finish_task_def)
next
  case True
  let ?t = "sc_tasks s ! k"
  let ?s1 = "s\<lparr>sc_tasks := take k (sc_tasks s) @ drop (Suc k) (sc_tasks s)\<rparr>"
  obtain fr where fin: "finish_task ndebug k s =
      response (ctx_seq s (tk_context ?t)) fr ?s1"
  proof -
    let ?ro = "route_coro ndebug (tk_handler ?t) (tk_payload ?t) (tk_attachment ?t)"
    obtain fr where "direct_response_msg ndebug (ro_error ?ro) (ro_body ?ro)
        (cx_head (sc_contexts s ! tk_context ?t)) (ro_attachment ?ro) ?s1 =
        response (rq_seq_num (cx_head (sc_contexts s ! tk_context ?t))) fr ?s1"
      using direct_response_eq by blast
    then show thesis using True that by (simp add: finish_task_def Let_def ctx_seq_def)
  qed
  have tasks: "sc_tasks s = take k (sc_tasks s) @ ?t # drop (Suc k) (sc_tasks s)"
    by (rule id_take_nth_drop [OF True])
  have "mset (busy s) = add_mset (tk_context ?t) (mset (busy ?s1))"
    using arg_cong [OF tasks, of "\<lambda>ts. mset (map tk_context ts @ sc_given s)"]
    by (simp add: busy_def)
  then have busy: "set (busy ?s1) \<subseteq> set (busy s)" "distinct (busy s) \<longrightarrow> distinct (busy ?s1)"
    by (metis set_mset_mset set_mset_add_mset_insert subset_insertI)
      (metis \<open>mset (busy s) = add_mset (tk_context ?t) (mset (busy ?s1))\<close> distinct.simps(2) mset.simps(2) mset_eq_imp_distinct_iff)
  then have ok: "contexts_ok ?s1" using inv by (auto simp: conn_inv_def contexts_ok_def)
  have op: "mset (open_requests s) = add_mset (ctx_seq s (tk_context ?t)) (mset (open_requests ?s1))"
    using arg_cong [OF tasks, of "\<lambda>ts. mset (map (\<lambda>t. ctx_seq s (tk_context t)) ts @
        map (ctx_seq s) (filter (unused s) (sc_given s)))"]
    by (simp add: open_requests_def)
  then have len: "length (open_requests s) = Suc (length (open_requests ?s1))"
    by (metis size_add_mset size_mset)
  show ?thesis
  proof (cases "sc_closed s")
    case True
    then show ?thesis using inv ok by (simp add: fin conn_inv_def accounted_def)
  next
    case False
    have "accounted (response (ctx_seq s (tk_context ?t)) fr ?s1)"
      by (rule accounted_response_new) (use inv False op len in \<open>simp_all add: conn_inv_def accounted_def\<close>)
    then show ?thesis using ok by (simp add: fin conn_inv_def)
  qed
qed

lemma write_some_inv: "conn_inv s \<Longrightarrow> conn_inv (write_some n s)"
  by (rule inv_same_view [of s]) (simp_all add: write_some_def Let_def)

lemma conn_step_inv:
  assumes inv: "conn_inv s" and normal: "\<And>key fn. get_handler key r = Some fn \<Longrightarrow> returns_normally fn"
  shows "conn_inv (conn_step ndebug r e s)"
proof (cases e)
  case (Arrive bs)
  then show ?thesis by (intro inv_same_view [OF inv]) (simp_all add: conn_step_def)
next
  case Peer_eof
  then show ?thesis by (intro inv_same_view [OF inv]) (simp_all add: conn_step_def)
next
  case Receive
  then show ?thesis using receive_inv [OF inv normal] by (simp add: conn_step_def)
next
  case (Use_context i ret act)
  then show ?thesis
    using inv context_action_inv [of s i ndebug ret act] by (simp add: conn_step_def conn_inv_def)
qed (use inv in \<open>simp_all add: conn_step_def finish_task_inv write_some_inv close_conn_inv\<close>)

lemma start_conn_inv: "conn_inv (start_conn magic)"
  by (simp add: conn_inv_def contexts_ok_def accounted_def start_conn_def busy_def unused_def
      new_context_def open_requests_def)

lemma run_conn_inv:
  assumes "\<And>key fn. get_handler key r = Some fn \<Longrightarrow> returns_normally fn"
  shows "conn_inv (run_conn ndebug r magic es)"
proof -
  have "conn_inv s \<Longrightarrow> conn_inv (fold (conn_step ndebug r) es s)" for s
    by (induction es arbitrary: s) (simp_all add: conn_step_inv [OF _ assms])
  then show ?thesis by (simp add: run_conn_def start_conn_inv)
qed


section \<open>Responses are written whole and in order\<close>

text \<open>What the head of a response says about it.\<close>

definition headed :: "u32 \<Rightarrow> response_frame \<Rightarrow> bool" where
  "headed seq fr = (case fr of (header_buf, body, attachment) \<Rightarrow>
     \<exists>nd rh. header_buf = pack nd DISABLE_ALL_META_INFO resp_header_ty (resp_header_val rh) \<and>
       rs_seq_num rh = seq \<and> rs_length rh = word_of_nat (length body) \<and>
       rs_attach_length rh = word_of_nat (length attachment) \<and> rs_magic rh = magic_number)"

lemma headed_nonempty: "headed seq fr \<Longrightarrow> frame_bytes fr \<noteq> []"
proof -
  assume "headed seq fr"
  then have "16 \<le> length (frame_bytes fr)"
    by (auto simp: headed_def frame_bytes_def RESP_HEAD_LEN_def split: prod.splits)
  then show "frame_bytes fr \<noteq> []" by auto
qed

lemma prepare_headed:
  "prepare_response ndebug buf head (length att) c msg = (h, body) \<Longrightarrow>
   headed (rq_seq_num head) (h, body, att)"
  using prepare_response_shape [of ndebug buf head "length att" c msg h body]
  by (auto simp: headed_def)

lemma direct_response_headed:
  obtains fr where "direct_response_msg ndebug c buf head att s = response (rq_seq_num head) fr s"
    "headed (rq_seq_num head) fr"
proof -
  let ?b = "if c \<noteq> errc_code Rpc_ok then [] else buf" and ?m = "if c \<noteq> errc_code Rpc_ok then buf else []"
  obtain h b where p: "prepare_response ndebug ?b head (length att) c ?m = (h, b)" by (meson surj_pair)
  then have "direct_response_msg ndebug c buf head att s = response (rq_seq_num head) (h, b, att) s"
    by (auto simp: direct_response_msg_def)
  with prepare_headed [OF p] that show ?thesis by blast
qed

definition writer_inv :: "server_conn \<Rightarrow> bool" where
  "writer_inv s \<longleftrightarrow> (\<forall>p \<in> set (sc_answers s). headed (fst p) (snd p)) \<and>
     (\<exists>fin. map snd (sc_answers s) = fin @ sc_queue s \<and>
        sc_out s = concat (map frame_bytes fin) @
          (if sc_queue s = [] then [] else take (sc_sent s) (frame_bytes (hd (sc_queue s))))) \<and>
     (if sc_queue s = [] then sc_sent s = 0 else sc_sent s < length (frame_bytes (hd (sc_queue s)))) \<and>
     (sc_writing s \<longleftrightarrow> \<not> sc_closed s \<and> sc_queue s \<noteq> [])"

lemma writer_same_view:
  "writer_inv s \<Longrightarrow> sc_answers t = sc_answers s \<Longrightarrow> sc_queue t = sc_queue s \<Longrightarrow> sc_out t = sc_out s \<Longrightarrow>
   sc_sent t = sc_sent s \<Longrightarrow> sc_writing t = sc_writing s \<Longrightarrow> sc_closed t = sc_closed s \<Longrightarrow> writer_inv t"
  by (simp only: writer_inv_def simp_thms) (elim conjE, intro conjI, assumption+)

lemma writer_close: "writer_inv s \<Longrightarrow> writer_inv (close_conn s)"
  by (auto simp: writer_inv_def close_conn_def)

lemma writer_response:
  assumes inv: "writer_inv s" and fr: "headed seq fr"
  shows "writer_inv (response seq fr s)"
proof (cases "sc_closed s")
  case True
  with inv show ?thesis by simp
next
  case False
  obtain fin where fin: "map snd (sc_answers s) = fin @ sc_queue s"
    "sc_out s = concat (map frame_bytes fin) @
       (if sc_queue s = [] then [] else take (sc_sent s) (frame_bytes (hd (sc_queue s))))"
    using inv by (auto simp: writer_inv_def)
  show ?thesis
    using inv fr headed_nonempty [OF fr] False fin
    by (cases "sc_queue s = []") (auto simp: writer_inv_def response_def Let_def)
qed

lemma writer_set_context [simp]: "writer_inv (set_context i f s) = writer_inv s"
  by (simp add: writer_inv_def set_context_def)

lemma writer_context_action:
  assumes "writer_inv s"
  shows "writer_inv (context_action ndebug ret i act s)"
proof (cases "unused s i \<and> \<not> sc_closed s")
  case False
  with assms show ?thesis by (auto simp: context_action_def check_status_cases)
next
  case True
  let ?s = "set_context i (cx_status_update (\<lambda>_. Ctx_start_response)) s"
  let ?cx = "sc_contexts ?s ! i"
  have inv: "writer_inv ?s" using assms by simp
  show ?thesis
  proof (cases act)
    case (Response_msg v)
    obtain h b where p: "prepare_response ndebug (proto_serialize ndebug ret v) (cx_head ?cx)
        (length (cx_attachment ?cx)) (errc_code Rpc_ok) [] = (h, b)" by (meson surj_pair)
    with True Response_msg writer_response [OF inv prepare_headed [OF p]] show ?thesis
      by (simp add: context_action_def check_status_cases Let_def)
  next
    case (Response_error c msg)
    obtain h b where p: "prepare_response ndebug [] (cx_head ?cx) (length ([] :: bytes)) c msg = (h, b)"
      by (meson surj_pair)
    with True Response_error writer_response [OF inv prepare_headed [OF p]] show ?thesis
      by (simp add: context_action_def check_status_cases Let_def)
  qed
qed

lemma writer_direct: "writer_inv s \<Longrightarrow> writer_inv (direct_response_msg ndebug c buf head att s)"
  by (rule direct_response_headed [of ndebug c buf head att s]) (simp add: writer_response)

lemma writer_dispatch:
  assumes "writer_inv s"
  shows "writer_inv (dispatch ndebug r head payload att s)"
proof -
  have "writer_inv s \<Longrightarrow> writer_inv (fold (context_action ndebug ret i) acts s)" for ret i acts s
    by (induction acts arbitrary: s) (simp_all add: writer_context_action)
  moreover have "writer_inv (s\<lparr>sc_by_callback := b\<rparr>) = writer_inv s"
    "writer_inv (s\<lparr>sc_by_callback := b, sc_given := g\<rparr>) = writer_inv s"
    "writer_inv (s\<lparr>sc_processing := n, sc_got := l\<rparr>) = writer_inv s"
    "writer_inv (s\<lparr>sc_processing := n, sc_got := l, sc_by_callback := b, sc_tasks := ts\<rparr>) = writer_inv s"
    for b g n l ts s
    by (simp_all add: writer_inv_def)
  ultimately show ?thesis
    using assms by (simp add: dispatch_def Let_def writer_direct split: option.splits)
qed

lemma writer_fresh: "writer_inv (fresh_context s) = writer_inv s"
  by (simp add: writer_inv_def fresh_context_def)

lemma writer_receive: "writer_inv s \<Longrightarrow> writer_inv (receive ndebug r s)"
proof -
  assume inv: "writer_inv s"
  have stop: "writer_inv (stop_loop s)"
    using writer_close [OF inv] unfolding stop_loop_def by (rule writer_same_view) simp_all
  have turn: "writer_inv (dispatch ndebug r head payload att
      (set_context i f (fresh_context s)\<lparr>sc_in := input, sc_req_id := n\<rparr>))" for head payload att i f input n
    by (rule writer_dispatch) (rule writer_same_view [of "set_context i f (fresh_context s)"],
        simp_all add: writer_fresh inv)
  show ?thesis
    unfolding receive_def Let_def using inv stop turn by (auto split: sum.splits io_error.splits prod.splits)
qed

lemma writer_write:
  assumes inv: "writer_inv s"
  shows "writer_inv (write_some n s)"
proof (cases "sc_writing s \<and> sc_queue s \<noteq> []")
  case False
  then show ?thesis using inv by (auto simp: write_some_def)
next
  case True
  then obtain fr q where q: "sc_queue s = fr # q" by (cases "sc_queue s") auto
  let ?msg = "frame_bytes fr"
  obtain fin where fin: "map snd (sc_answers s) = fin @ fr # q"
    "sc_out s = concat (map frame_bytes fin) @ take (sc_sent s) ?msg"
    using inv q by (auto simp: writer_inv_def)
  have more: "take (sc_sent s) ?msg @ take n (drop (sc_sent s) ?msg) = take (sc_sent s + n) ?msg"
    by (rule take_add [symmetric])
  have live: "\<not> sc_closed s" and headed: "\<forall>p \<in> set (sc_answers s). headed (fst p) (snd p)"
    using inv True by (simp_all add: writer_inv_def)
  show ?thesis
  proof (cases "length ?msg \<le> sc_sent s + n")
    case False
    then show ?thesis
      using True q fin more live headed
      by (auto simp: write_some_def writer_inv_def Let_def)
  next
    case whole: True
    have "0 < length (frame_bytes (hd q))" if "q \<noteq> []"
    proof -
      have "hd q \<in> set (map snd (sc_answers s))" using that fin(1) by simp
      then show ?thesis using headed headed_nonempty by fastforce
    qed
    moreover have "sc_out s @ take n (drop (sc_sent s) ?msg) = concat (map frame_bytes (fin @ [fr]))"
      using fin(2) more whole by simp
    moreover have "map snd (sc_answers s) = (fin @ [fr]) @ q" using fin(1) by simp
    ultimately show ?thesis
      using True q whole live headed
      by (auto simp: write_some_def writer_inv_def Let_def)
  qed
qed

lemma writer_step: "writer_inv s \<Longrightarrow> writer_inv (conn_step ndebug r e s)"
proof (cases e)
  case (Finish k)
  assume "writer_inv s"
  then have "writer_inv (s\<lparr>sc_tasks := ts\<rparr>)" for ts by (rule writer_same_view) simp_all
  with Finish \<open>writer_inv s\<close> show ?thesis by (simp add: conn_step_def finish_task_def Let_def writer_direct)
next
  case (Arrive bs)
  assume inv: "writer_inv s"
  have "writer_inv (s\<lparr>sc_in := bs\<rparr>)" for bs by (rule writer_same_view [OF inv]) simp_all
  with Arrive inv show ?thesis by (simp add: conn_step_def)
next
  case Peer_eof
  assume inv: "writer_inv s"
  have "writer_inv (s\<lparr>sc_eof := True\<rparr>)" by (rule writer_same_view [OF inv]) simp_all
  with Peer_eof show ?thesis by (simp add: conn_step_def)
next
  case Receive
  then show "writer_inv s \<Longrightarrow> ?thesis" by (simp only: conn_step_def conn_event.case writer_receive)
next
  case (Use_context i ret act)
  then show "writer_inv s \<Longrightarrow> ?thesis"
    by (simp only: conn_step_def conn_event.case writer_context_action split: if_split) simp
next
  case (Write n)
  then show "writer_inv s \<Longrightarrow> ?thesis" by (simp only: conn_step_def conn_event.case writer_write)
next
  case Write_error
  then show "writer_inv s \<Longrightarrow> ?thesis"
    by (simp only: conn_step_def conn_event.case writer_close split: if_split) simp
next
  case Async_close
  then show "writer_inv s \<Longrightarrow> ?thesis" by (simp only: conn_step_def conn_event.case writer_close)
qed

lemma run_writer_inv: "writer_inv (run_conn ndebug r magic es)"
proof -
  have "writer_inv s \<Longrightarrow> writer_inv (fold (conn_step ndebug r) es s)" for s
  proof (induction es arbitrary: s)
    case Nil
    then show ?case by simp
  next
    case (Cons e es)
    show ?case unfolding fold.simps comp_apply by (rule Cons.IH) (rule writer_step [OF Cons.prems])
  qed
  moreover have "writer_inv (start_conn magic)" by (simp add: writer_inv_def start_conn_def)
  ultimately show ?thesis unfolding run_conn_def by blast
qed

text \<open>
  C16 (invariant). On the socket the responses stand one after the other, each one whole and in
  the order in which they were queued, with a head that gives the number of its request and
  its lengths: what has been written is always the responses taken off the queue followed by
  a part of the first one in the queue. The writer never stalls: on an open connection it
  runs exactly when there is something to write.
\<close>
theorem responses_written_in_order:
  assumes "s = run_conn ndebug r magic es"
  shows "(\<exists>fin. map snd (sc_answers s) = fin @ sc_queue s \<and>
       sc_out s = concat (map frame_bytes fin) @
         (if sc_queue s = [] then [] else take (sc_sent s) (frame_bytes (hd (sc_queue s))))) \<and>
    (\<forall>p \<in> set (sc_answers s). headed (fst p) (snd p)) \<and>
    (sc_writing s \<longleftrightarrow> \<not> sc_closed s \<and> sc_queue s \<noteq> [])"
  using run_writer_inv [of ndebug r magic es] unfolding assms writer_inv_def by blast

section \<open>A function that answers and then throws\<close>

text \<open>The state when a function with a context is left.\<close>

definition handed_over :: "req_header \<Rightarrow> bytes \<Rightarrow> server_conn \<Rightarrow> server_conn" where
  "handed_over head a s =
     (set_context (sc_context s) (cx_attachment_update (\<lambda>_. a))
        (s\<lparr>sc_processing := sc_processing s + 1, sc_got := sc_got s @ [rq_seq_num head]\<rparr>))
     \<lparr>sc_by_callback := True, sc_given := sc_given s @ [sc_context s]\<rparr>"

lemma dispatch_context:
  assumes h: "get_handler (get_route_key head) r = Some fn" "fn_context fn"
    and "execute_args (fn_params fn) payload = Some args" and res: "res = fn_call fn args att"
    and s3: "s3 = fold (context_action ndebug (fn_return fn) (sc_context s)) (cr_actions res)
      (handed_over head (cr_attachment res) s)"
  shows "cr_outcome res = Returns v \<Longrightarrow> dispatch ndebug r head payload att s = s3"
    and "cr_outcome res = Throws_std what \<Longrightarrow>
      \<exists>fr. dispatch ndebug r head payload att s =
        set_context (sc_context s) (cx_attachment_update (\<lambda>_. []))
          (response (rq_seq_num head) fr (s3\<lparr>sc_by_callback := False\<rparr>))"
proof -
  let ?ro = "route ndebug (Some fn) payload att"
  have ro: "ro_context ?ro" "ro_actions ?ro = cr_actions res" "ro_attachment ?ro = cr_attachment res"
    "cr_outcome res = Returns v \<Longrightarrow> ro_error ?ro = errc_code Rpc_ok"
    "cr_outcome res = Throws_std what \<Longrightarrow> ro_error ?ro = errc_code Rpc_throw_exception"
    using assms(2,3)
    by (simp_all add: route_def routed_def execute_def run_function_def res [symmetric]
        catch_errors_def Let_def split_beta)
  have cb: "sc_by_callback s3" by (simp add: s3 handed_over_def)
  have nz: "errc_code Rpc_throw_exception \<noteq> errc_code Rpc_ok" by (simp add: errc_code_def)
  have same: "s3 = fold (context_action ndebug (fn_return fn) (sc_context s)) (ro_actions ?ro)
      (set_context (sc_context s) (cx_attachment_update (\<lambda>_. ro_attachment ?ro))
        (s\<lparr>sc_processing := sc_processing s + 1, sc_got := sc_got s @ [rq_seq_num head]\<rparr>)
        \<lparr>sc_by_callback := True, sc_given := sc_given s @ [sc_context s]\<rparr>)"
    by (simp add: s3 ro(2,3) handed_over_def)
  show "dispatch ndebug r head payload att s = s3" if "cr_outcome res = Returns v"
    using ro(1) ro(4) [OF that] cb same by (simp add: dispatch_def h(1) Let_def)
  show "\<exists>fr. dispatch ndebug r head payload att s =
      set_context (sc_context s) (cx_attachment_update (\<lambda>_. []))
        (response (rq_seq_num head) fr (s3\<lparr>sc_by_callback := False\<rparr>))"
    if "cr_outcome res = Throws_std what"
  proof -
    let ?s4 = "s3\<lparr>sc_by_callback := False\<rparr>"
    obtain fr where fr: "direct_response_msg ndebug (ro_error ?ro) (ro_body ?ro) head
        (cx_attachment (sc_contexts s3 ! sc_context s)) ?s4 = response (rq_seq_num head) fr ?s4"
      using direct_response_eq by blast
    have "dispatch ndebug r head payload att s = set_context (sc_context s) (cx_attachment_update (\<lambda>_. []))
        (direct_response_msg ndebug (ro_error ?ro) (ro_body ?ro) head
          (cx_attachment (sc_contexts s3 ! sc_context s)) ?s4)"
      using ro(1) ro(5) [OF that] nz cb same by (simp add: dispatch_def h(1) Let_def)
    then show ?thesis unfolding fr by blast
  qed
qed

lemma handed_over_sel [simp]:
  "sc_answers (handed_over head a s) = sc_answers s" "sc_closed (handed_over head a s) = sc_closed s"
  "sc_processing (handed_over head a s) = sc_processing s + 1"
  "sc_context (handed_over head a s) = sc_context s"
  "length (sc_contexts (handed_over head a s)) = length (sc_contexts s)"
  "ctx_seq (handed_over head a s) = ctx_seq s" "unused (handed_over head a s) = unused s"
  by (simp_all add: handed_over_def fun_eq_iff ctx_seq_def unused_def set_context_any)

text \<open>
  The first function answers through its context and then throws; the second one, called next
  on the same connection, answers through its context and returns.
\<close>

definition answer_and_throw :: "rpc_function \<Rightarrow> bool" where
  "answer_and_throw fn \<longleftrightarrow> fn_context fn \<and> fn_params fn = [] \<and>
     (\<forall>att. \<exists>act a what. fn_call fn [] att =
        \<lparr>cr_actions = [act], cr_attachment = a, cr_outcome = Throws_std what\<rparr>)"

definition answers_by_context :: "rpc_function \<Rightarrow> bool" where
  "answers_by_context fn \<longleftrightarrow> fn_context fn \<and> fn_params fn = [] \<and>
     (\<forall>att. \<exists>acts a v. fn_call fn [] att =
        \<lparr>cr_actions = acts, cr_attachment = a, cr_outcome = Returns v\<rparr>)"

lemma execute_no_args [simp]: "execute_args [] payload = Some []"
  by (simp add: execute_args_def)

lemma dispatch_throw:
  assumes h: "get_handler (get_route_key head) r = Some fn" "answer_and_throw fn"
    and s: "sc_context s < length (sc_contexts s)" "unused s (sc_context s)" "\<not> sc_closed s"
    and seq: "ctx_seq s (sc_context s) = rq_seq_num head"
  shows "\<exists>f1 f2 t. dispatch ndebug r head payload att s = t \<and>
      sc_answers t = sc_answers s @ [(rq_seq_num head, f1), (rq_seq_num head, f2)] \<and>
      sc_processing t = sc_processing s - 1 \<and> \<not> unused t (sc_context t) \<and>
      sc_context t = sc_context s \<and> \<not> sc_by_callback t \<and> \<not> sc_closed t"
proof -
  obtain act a what where call: "fn_call fn [] att =
      \<lparr>cr_actions = [act], cr_attachment = a, cr_outcome = Throws_std what\<rparr>"
    using h(2) unfolding answer_and_throw_def by blast
  let ?i = "sc_context s" and ?s2 = "handed_over head a s"
  have len: "?i < length (sc_contexts ?s2)" using s(1) by simp
  obtain f fr where f: "context_action ndebug (fn_return fn) ?i act ?s2 =
      response (ctx_seq ?s2 ?i) fr (set_context ?i f ?s2)" "\<And>c. cx_status (f c) \<noteq> Ctx_init"
    using context_action_cases [OF len, of ndebug "fn_return fn" act] s by (metis handed_over_sel(2,7))
  obtain fr' where "dispatch ndebug r head payload att s =
      set_context ?i (cx_attachment_update (\<lambda>_. []))
        (response (rq_seq_num head) fr'
          ((response (ctx_seq ?s2 ?i) fr (set_context ?i f ?s2))\<lparr>sc_by_callback := False\<rparr>))"
    using dispatch_context(2) [OF h(1) _ _ refl refl, of payload "[]" att what ndebug s] h(2) f(1) call
    by (auto simp: answer_and_throw_def)
  then show ?thesis
    using s seq f(2) len by (intro exI [of _ fr] exI [of _ fr']) (simp add: unused_def set_context_any)
qed

text \<open>A context that has been used up ignores everything.\<close>

lemma spent_context:
  "\<not> unused s i \<Longrightarrow> fold (context_action ndebug ret i) acts s = s"
  by (induction acts) (simp_all add: context_action_def check_status_cases)

lemma dispatch_spent:
  assumes "get_handler (get_route_key head) r = Some fn" "answers_by_context fn"
    and "\<not> unused s (sc_context s)"
  shows "sc_answers (dispatch ndebug r head payload att s) = sc_answers s"
proof -
  obtain acts a v where call: "fn_call fn [] att =
      \<lparr>cr_actions = acts, cr_attachment = a, cr_outcome = Returns v\<rparr>"
    using assms(2) unfolding answers_by_context_def by blast
  have "dispatch ndebug r head payload att s =
      fold (context_action ndebug (fn_return fn) (sc_context s)) acts (handed_over head a s)"
    using dispatch_context(1) [OF assms(1) _ _ refl refl, of payload "[]" att v ndebug s] assms(2) call
    by (auto simp: answers_by_context_def)
  also have "\<dots> = handed_over head a s" by (rule spent_context) (use assms(3) in simp)
  finally show ?thesis by simp
qed

text \<open>
  C34 (error). A function that answers through its context and then throws breaks the connection
  for others: its request is answered twice, \<open>rpc_processing_cnt_\<close> is one too low (for the only
  request it wraps around to \<open>2 ^ 64 - 1\<close>, so that the keep-alive timer is never set again), and the
  used-up context is kept for the next request, so that the next function that answers
  through its context is never answered at all.
\<close>
theorem reply_then_throw:
  assumes "get_handler (get_route_key head_a) r = Some fa" and "answer_and_throw fa"
    and "get_handler (get_route_key head_b) r = Some fb" and "answers_by_context fb"
    and "s = start_conn magic" and "rq_seq_num head_a = n1"
    and "t = dispatch ndebug r head_a payload_a att_a (set_context 0 (cx_head_update (\<lambda>_. head_a)) s)"
    and "t2 = dispatch ndebug r head_b payload_b att_b
      (set_context (sc_context t) (cx_head_update (\<lambda>_. head_b)) (fresh_context t))"
  shows "map fst (sc_answers t) = [n1, n1] \<and> sc_processing t = - 1 \<and>
    map fst (sc_answers t2) = [n1, n1]"
proof -
  let ?s = "set_context 0 (cx_head_update (\<lambda>_. head_a)) s"
  have s: "sc_context ?s = 0" "length (sc_contexts ?s) = 1" "unused ?s 0" "\<not> sc_closed ?s"
    "ctx_seq ?s 0 = rq_seq_num head_a" "sc_answers ?s = []" "sc_processing ?s = 0"
    by (simp_all add: assms(5) start_conn_def unused_def ctx_seq_def set_context_any new_context_def)
  then obtain fr1 fr2 where t: "sc_answers t = [(n1, fr1), (n1, fr2)]" "sc_processing t = - 1"
    "\<not> unused t (sc_context t)" "\<not> sc_by_callback t" "\<not> sc_closed t"
    using dispatch_throw [OF assms(1,2), where s = ?s and payload = payload_a and att = att_a and ndebug = ndebug] assms(6,7) by auto
  let ?t = "set_context (sc_context t) (cx_head_update (\<lambda>_. head_b)) (fresh_context t)"
  have "fresh_context t = t" using t(4) by (simp add: fresh_context_def)
  then have "\<not> unused ?t (sc_context ?t)" "sc_answers ?t = sc_answers t"
    using t(3) by (simp_all add: unused_def set_context_any)
  with dispatch_spent [OF assms(3,4)] t(1) have "sc_answers t2 = sc_answers t"
    by (simp add: assms(8))
  with t(1,2) show ?thesis by simp
qed

definition ctx_fn :: "string \<Rightarrow> bool \<Rightarrow> rpc_function" where
  "ctx_fn name throws = \<lparr>fn_name = name, fn_coro = False, fn_context = True, fn_params = [],
     fn_return = Some (TFund Int32),
     fn_call = (\<lambda>args att. \<lparr>cr_actions = [Response_msg (VInt 1)], cr_attachment = [],
       cr_outcome = (if throws then Throws_std [] else Returns VUnit)\<rparr>)\<rparr>"

definition two_functions :: router where
  "two_functions = \<lparr>handlers = [1 \<mapsto> ctx_fn ''f'' True, 2 \<mapsto> ctx_fn ''g'' False],
     coro_handlers = Map.empty, id2name = Map.empty\<rparr>"

theorem reply_then_throw_witness:
  "map fst (sc_answers (dispatch True two_functions (null_head\<lparr>rq_function_id := 1, rq_seq_num := 5\<rparr>)
      [] [] (set_context 0 (cx_head_update (\<lambda>_. null_head\<lparr>rq_function_id := 1, rq_seq_num := 5\<rparr>))
         (start_conn [21])))) = [5, 5]"
  using reply_then_throw [where r = two_functions and fa = "ctx_fn ''f'' True" and fb = "ctx_fn ''g'' False"
      and head_a = "null_head\<lparr>rq_function_id := 1, rq_seq_num := 5\<rparr>"
      and head_b = "null_head\<lparr>rq_function_id := 2, rq_seq_num := 6\<rparr>" and magic = "[21]" and ndebug = True
      and payload_a = "[]" and payload_b = "[]" and att_a = "[]" and att_b = "[]", OF _ _ _ _ refl refl refl refl]
  by (simp add: two_functions_def get_handler_def get_route_key_def answer_and_throw_def
      answers_by_context_def ctx_fn_def)


theorem responses_written_in_order_witness:
  "sc_writing (run_conn True empty_router [21] [Receive, Finish 0]) \<longleftrightarrow>
     \<not> sc_closed (run_conn True empty_router [21] [Receive, Finish 0]) \<and>
     sc_queue (run_conn True empty_router [21] [Receive, Finish 0]) \<noteq> []"
  using responses_written_in_order [OF refl, of True empty_router "[21]" "[Receive, Finish 0]"] by blast

end
