(* ===== verification/RpcClient.thy ===== *)
theory RpcClient
  imports RpcRouter
begin

text \<open>
  The client of coro_rpc (\<open>coro_rpc_client.hpp\<close>): preparing a request, reading the result out of a
  response, the table of requests that wait for a response, and the coroutine \<open>recv\<close> that
  hands the responses to them.

  The state is shared by the callers of \<open>send_request\<close> and by \<open>recv\<close>, which run interleaved: an
  event is a piece of one of them between two synchronisation points (the table's mutex, the
  exchange and the store of \<open>recv_running_\<close>). Connecting, SSL, the timers themselves,
  attachments on CUDA devices and the injected faults of the unit tests are not represented.
\<close>

section \<open>Requests\<close>

text \<open>
  \<open>prepare_buffer\<close>: room for the head, the arguments behind it, then the head. The empty buffer
  stands for a body of more than 4 GB; \<open>None\<close> is a write outside the buffer, which
  \<open>serialize_to_with_offset\<close> may commit.
\<close>

definition request_head :: "u32 \<Rightarrow> rpc_function \<Rightarrow> nat \<Rightarrow> nat \<Rightarrow> req_header" where
  "request_head rid fn attachment_length sz =
     \<lparr>rq_magic = magic_number, rq_version = 0, rq_serialize_type = 0, rq_msg_type = 0,
      rq_seq_num = rid, rq_function_id = auto_gen_register_key fn, rq_length = word_of_nat sz,
      rq_attach_length = word_of_nat attachment_length\<rparr>"

definition prepare_buffer ::
  "bool \<Rightarrow> rpc_function \<Rightarrow> u32 \<Rightarrow> nat \<Rightarrow> sp_val list \<Rightarrow> bytes option" where
  "prepare_buffer ndebug fn rid attachment_length args =
     (let offset = REQ_HEAD_LEN in
      case (if args \<noteq> [] then serialize_to_with_offset ndebug 0 [] offset (fn_params fn) args
            else Some (replicate offset 0)) of
        None \<Rightarrow> None
      | Some buffer \<Rightarrow>
          let sz = length buffer - REQ_HEAD_LEN in
          if sz > 2 ^ 32 - 1 then Some []
          else
            let head = pack ndebug DISABLE_ALL_META_INFO req_header_ty
                  (req_header_val (request_head rid fn attachment_length sz))
            in Some (head @ drop (length head) buffer))"

section \<open>Results\<close>

text \<open>
  \<open>handle_response_buffer<T>\<close>: the result, and whether the connection has to be closed. \<open>void\<close> is
  received as \<open>std::monostate\<close>. A value that cannot be read is tried as the first component of the
  expected tuple alone, when the others are compatible, and as a tuple of one.
\<close>

definition deserialize_result :: "sp_ty \<Rightarrow> bytes \<Rightarrow> sp_val option" where
  "deserialize_result t buffer =
     (case deserialize_to 0 t (default_val t) buffer of
        (ec, ret) \<Rightarrow>
          if \<not> is_err ec then Some ret
          else
            case (case t of
                 TTuple (t1 # t2 # ts) \<Rightarrow>
                   if get_types_code (TTuple [t1]) = get_types_code t then
                     (case deserialize_to 0 t1 (hd (val_list ret)) buffer of
                        (ec, v) \<Rightarrow> (ec, VList (v # tl (val_list ret))))
                   else (ec, ret)
               | _ \<Rightarrow> (ec, ret)) of
              (ec, ret) \<Rightarrow>
                if \<not> is_err ec then Some ret
                else
                  (case deserialize_to 0 (TTuple [t]) (VList [ret]) buffer of
                     (ec, w) \<Rightarrow> if is_err ec then None else Some (hd (val_list w))))"

definition result_type :: "sp_ty option \<Rightarrow> sp_ty" where
  "result_type t = (case t of None \<Rightarrow> TMono | Some t \<Rightarrow> t)"

definition handle_response_buffer ::
  "sp_ty option \<Rightarrow> bytes \<Rightarrow> byte \<Rightarrow> (rpc_error + sp_val) \<times> bool" where
  "handle_response_buffer t buffer rpc_errc =
     (let failed = (Inl \<lparr>err_val = errc_code Invalid_rpc_result,
             err_text = text_bytes ''failed to deserialize rpc return value''\<rparr>, True)
      in if rpc_errc = 0 then
           (case deserialize_result (result_type t) buffer of
              Some ret \<Rightarrow> (Inr ret, False)
            | None \<Rightarrow> failed)
         else if rpc_errc \<noteq> 255 then
           (case deserialize_to 0 string_ty (default_val string_ty) buffer of
              (ec, v) \<Rightarrow>
                if \<not> is_err ec then (Inl \<lparr>err_val = ucast rpc_errc, err_text = val_string v\<rparr>, True)
                else failed)
         else
           (case deserialize_to 0 rpc_error_ty (default_val rpc_error_ty) buffer of
              (ec, v) \<Rightarrow> if \<not> is_err ec then (Inl (sp_rpc_error v), False) else failed))"

text \<open>
  What a promise gets: a response with its body, attachment and error byte, or a local error,
  timed out or not; and what the caller makes of it in \<open>deserialize_rpc_result\<close>: the result with the
  attachment, and whether to close the connection. \<open>message\<close> is the text of the system error.
\<close>

datatype raw_result = Response bytes bytes byte | Local_error bool

definition deserialize_rpc_result ::
  "(bool \<Rightarrow> bytes) \<Rightarrow> sp_ty option \<Rightarrow> raw_result \<Rightarrow> (rpc_error + sp_val \<times> bytes) \<times> bool" where
  "deserialize_rpc_result message t raw = (case raw of
       Local_error timed_out \<Rightarrow>
         (Inl \<lparr>err_val = errc_code (if timed_out then Timed_out else Io_error),
            err_text = message timed_out\<rparr>, False)
     | Response body attachment rpc_errc \<Rightarrow>
         (case handle_response_buffer t body rpc_errc of
            (Inr v, has_error) \<Rightarrow> (Inr (v, attachment), has_error)
          | (Inl e, has_error) \<Rightarrow> (Inl e, has_error)))"

section \<open>The state of a connection\<close>

text \<open>
  An entry of \<open>response_handler_table_\<close>: the promise, and whether it has been completed; \<open>hd_sent\<close>
  is a history variable that says whether the request has been written to the socket.
\<close>

record handler =
  hd_promise :: nat
  hd_completed :: bool
  hd_sent :: bool

text \<open>
  The coroutines that execute \<open>recv\<close> at a time, by the place they are at: waiting for a response
  (\<open>cl_reading\<close>), in front of the store after an empty table (\<open>cl_storing\<close>), in front of the second
  look at the table (\<open>cl_recheck\<close>), in front of the compare and exchange (\<open>cl_cas\<close>), and behind a
  failed read, in front of \<open>send_err_response\<close> (\<open>cl_failed\<close>, with \<open>ret.first\<close>). \<open>cl_sending\<close> are the
  callers between the insertion into the table and the end of the write. \<open>cl_results\<close> is what
  the promises got, \<open>cl_promises\<close> counts them.
\<close>

record client =
  cl_request_id :: u32
  cl_table :: "u32 \<rightharpoonup> handler"
  cl_sending :: "(u32 \<times> nat) list"
  cl_closed :: bool
  cl_timeout :: bool
  cl_running :: bool
  cl_reading :: nat
  cl_storing :: nat
  cl_recheck :: nat
  cl_cas :: nat
  cl_failed :: nat
  cl_in :: bytes
  cl_promises :: nat
  cl_results :: "(nat \<times> raw_result) list"

definition start_client :: client where
  "start_client =
     \<lparr>cl_request_id = 0, cl_table = Map.empty, cl_sending = [], cl_closed = False, cl_timeout = False,
      cl_running = False, cl_reading = 0, cl_storing = 0, cl_recheck = 0, cl_cas = 0, cl_failed = 0,
      cl_in = [], cl_promises = 0, cl_results = []\<rparr>"

definition close_client :: "client \<Rightarrow> client" where
  "close_client c = c\<lparr>cl_closed := True\<rparr>"

text \<open>\<open>handler_t::operator()\<close> and \<open>local_error\<close>: only the first completion sets the promise.\<close>

definition complete :: "handler \<Rightarrow> raw_result \<Rightarrow> client \<Rightarrow> client" where
  "complete h x c =
     (if hd_completed h then c else c\<lparr>cl_results := cl_results c @ [(hd_promise h, x)]\<rparr>)"

section \<open>Sending\<close>

text \<open>\<open>send_request\<close> up to the insertion into the table; a conflict of numbers closes the connection.\<close>

definition begin_request :: "client \<Rightarrow> client" where
  "begin_request c =
     (let rid = cl_request_id c;
          handler = \<lparr>hd_promise = cl_promises c, hd_completed = False, hd_sent = False\<rparr>;
          c1 = c\<lparr>cl_request_id := rid + 1, cl_promises := cl_promises c + 1\<rparr>
      in case emplace rid handler (cl_table c) of
           (table, is_ok) \<Rightarrow>
             if \<not> is_ok then close_client c1
             else c1\<lparr>cl_table := table, cl_sending := (rid, cl_promises c) # cl_sending c\<rparr>)"

text \<open>
  The rest of \<open>send_request\<close>, when the write has ended. After an error the entry is erased and the
  error returned; otherwise \<open>recv\<close> is started unless it is running.
\<close>

definition mark_sent :: "u32 \<Rightarrow> nat \<Rightarrow> (u32 \<rightharpoonup> handler) \<Rightarrow> (u32 \<rightharpoonup> handler)" where
  "mark_sent rid p m = (case m rid of
       Some h \<Rightarrow> if hd_promise h = p then m(rid \<mapsto> h\<lparr>hd_sent := True\<rparr>) else m
     | None \<Rightarrow> m)"

definition end_request :: "u32 \<Rightarrow> nat \<Rightarrow> bool \<Rightarrow> client \<Rightarrow> client" where
  "end_request rid p write_ok c =
     (let c1 = c\<lparr>cl_sending := remove1 (rid, p) (cl_sending c)\<rparr> in
      if \<not> write_ok then (close_client c1)\<lparr>cl_table := (cl_table c)(rid := None)\<rparr>
      else
        let c2 = c1\<lparr>cl_table := mark_sent rid p (cl_table c), cl_running := True\<rparr>
        in if cl_running c then c2 else c2\<lparr>cl_reading := cl_reading c + 1\<rparr>)"

text \<open>A request that is not written because the client is closed or the body too large.\<close>

definition cancel_request :: "u32 \<Rightarrow> nat \<Rightarrow> client \<Rightarrow> client" where
  "cancel_request rid p c =
     c\<lparr>cl_sending := remove1 (rid, p) (cl_sending c), cl_table := (cl_table c)(rid := None)\<rparr>"

section \<open>Receiving\<close>

text \<open>
  A response in the input: its head, body and attachment, or nothing yet. The head is not
  checked for its magic number.
\<close>

definition resp_head_of :: "bytes \<Rightarrow> resp_header" where
  "resp_head_of bs =
     val_resp_header (snd (deserialize_to DISABLE_ALL_META_INFO resp_header_ty
       (default_val resp_header_ty) bs))"

definition read_resp_head :: "bytes \<Rightarrow> (resp_header \<times> bytes) option" where
  "read_resp_head s =
     (case async_read RESP_HEAD_LEN s of Inl _ \<Rightarrow> None | Inr (bs, s') \<Rightarrow> Some (resp_head_of bs, s'))"

definition read_resp_body :: "resp_header \<Rightarrow> bytes \<Rightarrow> (bytes \<times> bytes \<times> bytes) option" where
  "read_resp_body h s =
     (let body_len = unat (rs_length h); attach_len = unat (rs_attach_length h) in
      case async_read (body_len + attach_len) s of
        Inl _ \<Rightarrow> None
      | Inr (bs, s') \<Rightarrow> Some (take body_len bs, drop body_len bs, s'))"

text \<open>\<open>break\<close> out of the loop: the flag is cleared and the socket closed.\<close>

definition leave_recv :: "client \<Rightarrow> client" where
  "leave_recv c = (close_client c)\<lparr>cl_reading := cl_reading c - 1, cl_running := False,
     cl_failed := cl_failed c + 1\<rparr>"

text \<open>
  One turn of \<open>recv\<close>: a response for a number nobody waits for closes the connection; otherwise the
  handler is called and its entry erased, and if the table is empty the loop is about to end.
  An error of the socket (also when another side has closed it) ends the loop as well.
\<close>

definition recv_response :: "client \<Rightarrow> client" where
  "recv_response c =
     (if cl_reading c = 0 then c
      else case read_resp_head (cl_in c) of
        None \<Rightarrow> c
      | Some (header, input) \<Rightarrow>
          (case cl_table c (rs_seq_num header) of
             None \<Rightarrow> leave_recv c
           | Some handler \<Rightarrow>
               (case read_resp_body header input of
                  None \<Rightarrow> c
                | Some (body, attachment, input') \<Rightarrow>
                    let c1 = complete handler (Response body attachment (rs_err_code header)) c;
                        table = (cl_table c)(rs_seq_num header := None);
                        c2 = c1\<lparr>cl_table := table, cl_in := input'\<rparr>
                    in if table = Map.empty
                       then c2\<lparr>cl_reading := cl_reading c - 1, cl_storing := cl_storing c + 1\<rparr>
                       else c2)))"

definition recv_error :: "client \<Rightarrow> client" where
  "recv_error c = (if cl_reading c = 0 then c else leave_recv c)"

text \<open>The end of the loop, step by step.\<close>

definition recv_store :: "client \<Rightarrow> client" where
  "recv_store c = (if cl_storing c = 0 then c
     else c\<lparr>cl_storing := cl_storing c - 1, cl_running := False, cl_recheck := cl_recheck c + 1\<rparr>)"

definition recv_recheck :: "client \<Rightarrow> client" where
  "recv_recheck c = (if cl_recheck c = 0 then c
     else if cl_table c \<noteq> Map.empty
     then c\<lparr>cl_recheck := cl_recheck c - 1, cl_cas := cl_cas c + 1\<rparr>
     else c\<lparr>cl_recheck := cl_recheck c - 1\<rparr>)"

definition recv_cas :: "client \<Rightarrow> client" where
  "recv_cas c = (if cl_cas c = 0 then c
     else if cl_running c then c\<lparr>cl_cas := cl_cas c - 1\<rparr>
     else c\<lparr>cl_cas := cl_cas c - 1, cl_running := True, cl_reading := cl_reading c + 1\<rparr>)"

text \<open>
  \<open>send_err_response\<close>: all entries are taken out of the table and completed with an error, in the
  order the hash table has them (\<open>ids\<close>).
\<close>

definition send_err_response :: "u32 list \<Rightarrow> client \<Rightarrow> client" where
  "send_err_response ids c =
     fold (\<lambda>rid c'. case cl_table c rid of
         Some h \<Rightarrow> complete h (Local_error (cl_timeout c)) c' | None \<Rightarrow> c') ids
       (c\<lparr>cl_table := Map.empty\<rparr>)"

definition recv_cleanup :: "u32 list \<Rightarrow> client \<Rightarrow> client" where
  "recv_cleanup ids c = (if cl_failed c = 0 then c
     else send_err_response ids (c\<lparr>cl_failed := cl_failed c - 1\<rparr>))"

section \<open>Runs\<close>

text \<open>
  The pieces that may run next; the guards say what the scheduler cannot do: a request is only
  sent once, after it was begun, and \<open>ids\<close> lists the keys of the table once each.
\<close>

inductive client_step :: "client \<Rightarrow> client \<Rightarrow> bool" where
  Begin: "client_step c (begin_request c)"
| Sent: "(rid, p) \<in> set (cl_sending c) \<Longrightarrow> client_step c (end_request rid p write_ok c)"
| Cancel: "(rid, p) \<in> set (cl_sending c) \<Longrightarrow> client_step c (cancel_request rid p c)"
| Data: "client_step c (c\<lparr>cl_in := cl_in c @ bs\<rparr>)"
| Recv: "client_step c (recv_response c)"
| Recv_error: "client_step c (recv_error c)"
| Store: "client_step c (recv_store c)"
| Recheck: "client_step c (recv_recheck c)"
| Cas: "client_step c (recv_cas c)"
| Cleanup: "set ids = dom (cl_table c) \<Longrightarrow> distinct ids \<Longrightarrow> client_step c (recv_cleanup ids c)"
| Timeout: "client_step c (close_client (c\<lparr>cl_timeout := True\<rparr>))"
| Close: "client_step c (close_client c)"

inductive client_reachable :: "client \<Rightarrow> bool" where
  start: "client_reachable start_client"
| step: "client_reachable c \<Longrightarrow> client_step c c' \<Longrightarrow> client_reachable c'"

section \<open>One reader, one result, no request forgotten\<close>

definition readers_ok :: "client \<Rightarrow> bool" where
  "readers_ok c \<longleftrightarrow> cl_reading c + cl_storing c = (if cl_running c then 1 else 0)"

definition woken :: "client \<Rightarrow> bool" where
  "woken c \<longleftrightarrow> (\<forall>h \<in> ran (cl_table c). hd_sent h \<longrightarrow>
     cl_running c \<or> 0 < cl_recheck c \<or> 0 < cl_cas c \<or> 0 < cl_failed c)"

definition promises_ok :: "client \<Rightarrow> bool" where
  "promises_ok c \<longleftrightarrow>
     (\<forall>rid h. cl_table c rid = Some h \<longrightarrow> \<not> hd_completed h \<and> hd_promise h < cl_promises c \<and>
        hd_promise h \<notin> fst ` set (cl_results c) \<and> rid = word_of_nat (hd_promise h)) \<and>
     distinct (map fst (cl_results c)) \<and> (\<forall>p \<in> fst ` set (cl_results c). p < cl_promises c) \<and>
     cl_request_id c = word_of_nat (cl_promises c) \<and>
     (\<forall>(rid, p) \<in> set (cl_sending c). p < cl_promises c \<and> rid = word_of_nat p) \<and>
     distinct (cl_sending c) \<and>
     (\<forall>rid h. cl_table c rid = Some h \<longrightarrow> hd_sent h \<longrightarrow> (rid, hd_promise h) \<notin> set (cl_sending c))"

lemma complete_sel [simp]:
  "cl_table (complete h x c) = cl_table c" "cl_running (complete h x c) = cl_running c"
  "cl_reading (complete h x c) = cl_reading c" "cl_storing (complete h x c) = cl_storing c"
  "cl_recheck (complete h x c) = cl_recheck c" "cl_cas (complete h x c) = cl_cas c"
  "cl_failed (complete h x c) = cl_failed c" "cl_promises (complete h x c) = cl_promises c"
  "cl_sending (complete h x c) = cl_sending c" "cl_request_id (complete h x c) = cl_request_id c"
  "cl_timeout (complete h x c) = cl_timeout c"
  "\<not> hd_completed h \<Longrightarrow> cl_results (complete h x c) = cl_results c @ [(hd_promise h, x)]"
  by (simp_all add: complete_def)

lemma send_err_response_sel [simp]:
  "cl_table (send_err_response ids c) = Map.empty" "cl_running (send_err_response ids c) = cl_running c"
  "cl_reading (send_err_response ids c) = cl_reading c" "cl_storing (send_err_response ids c) = cl_storing c"
  "cl_promises (send_err_response ids c) = cl_promises c"
  "cl_sending (send_err_response ids c) = cl_sending c"
  "cl_request_id (send_err_response ids c) = cl_request_id c"
proof -
  let ?f = "\<lambda>rid c'. case cl_table c rid of
      Some h \<Rightarrow> complete h (Local_error (cl_timeout c)) c' | None \<Rightarrow> c'"
  have "cl_table (fold ?f ids c') = cl_table c' \<and> cl_running (fold ?f ids c') = cl_running c' \<and>
      cl_reading (fold ?f ids c') = cl_reading c' \<and> cl_storing (fold ?f ids c') = cl_storing c' \<and>
      cl_promises (fold ?f ids c') = cl_promises c' \<and> cl_sending (fold ?f ids c') = cl_sending c' \<and>
      cl_request_id (fold ?f ids c') = cl_request_id c'" for c'
    by (induction ids arbitrary: c') (simp_all split: option.split)
  then show "cl_table (send_err_response ids c) = Map.empty" "cl_running (send_err_response ids c) = cl_running c"
    "cl_reading (send_err_response ids c) = cl_reading c" "cl_storing (send_err_response ids c) = cl_storing c"
    "cl_promises (send_err_response ids c) = cl_promises c"
    "cl_sending (send_err_response ids c) = cl_sending c"
    "cl_request_id (send_err_response ids c) = cl_request_id c"
    by (simp_all add: send_err_response_def)
qed

lemma readers_step: "client_step c c' \<Longrightarrow> readers_ok c \<Longrightarrow> readers_ok c'"
  by (induction rule: client_step.induct)
    (auto simp: readers_ok_def begin_request_def end_request_def cancel_request_def close_client_def
      recv_response_def recv_error_def recv_store_def recv_recheck_def recv_cas_def recv_cleanup_def
      leave_recv_def Let_def split: option.splits prod.splits if_splits)

lemma woken_running: "cl_running c \<Longrightarrow> woken c"
  by (simp add: woken_def)

lemma woken_mono:
  assumes "woken c" and "ran (cl_table c') \<subseteq> ran (cl_table c) \<union> {h. \<not> hd_sent h}"
    and "cl_running c \<Longrightarrow> cl_running c'" "cl_recheck c \<le> cl_recheck c'" "cl_cas c \<le> cl_cas c'"
    "cl_failed c \<le> cl_failed c'"
  shows "woken c'"
  unfolding woken_def
proof (intro ballI impI)
  fix h
  assume "h \<in> ran (cl_table c')" "hd_sent h"
  with assms(2) have "h \<in> ran (cl_table c)" by blast
  from assms(1) [unfolded woken_def, rule_format, OF this \<open>hd_sent h\<close>]
  have "cl_running c \<or> 0 < cl_recheck c \<or> 0 < cl_cas c \<or> 0 < cl_failed c" .
  with assms(3-6) show "cl_running c' \<or> 0 < cl_recheck c' \<or> 0 < cl_cas c' \<or> 0 < cl_failed c'"
    by linarith
qed

lemma ran_erase: "ran (m(k := None)) \<subseteq> ran m"
  by (auto simp: ran_def split: if_splits)

lemma woken_step:
  assumes "client_step c c'" and "woken c" and "readers_ok c"
  shows "woken c'"
  using assms
proof (induction rule: client_step.induct)
  case (Begin c)
  let ?h = "\<lparr>hd_promise = cl_promises c, hd_completed = False, hd_sent = False\<rparr>"
  show ?case
  proof (cases "cl_table c (cl_request_id c)")
    case None
    then have "ran (cl_table (begin_request c)) = insert ?h (ran (cl_table c))"
      by (simp add: begin_request_def emplace_def Let_def)
    then show ?thesis
      using None by (intro woken_mono [OF Begin(1)]) (auto simp: begin_request_def emplace_def Let_def)
  next
    case (Some h)
    then show ?thesis
      by (intro woken_mono [OF Begin(1)]) (auto simp: begin_request_def emplace_def close_client_def Let_def)
  qed
next
  case (Sent rid p c write_ok)
  show ?case
  proof (cases write_ok)
    case True
    then show ?thesis by (intro woken_running) (simp add: end_request_def Let_def)
  next
    case False
    then show ?thesis
      using ran_erase [of "cl_table c" rid]
      by (intro woken_mono [OF Sent(2)]) (auto simp: end_request_def close_client_def Let_def)
  qed
next
  case (Cancel rid p c)
  then show ?case using ran_erase [of "cl_table c" rid]
    by (intro woken_mono [OF Cancel(2)]) (auto simp: cancel_request_def)
next
  case (Recv c)
  show ?case
  proof (cases "cl_reading c = 0")
    case True
    with Recv show ?thesis by (simp add: recv_response_def)
  next
    case False
    then have "cl_running c" using Recv(2) by (auto simp: readers_ok_def split: if_splits)
    then show ?thesis
      using Recv(1) by (auto simp: recv_response_def woken_def leave_recv_def close_client_def Let_def
          split: option.split)
  qed
next
  case (Cleanup ids c)
  then show ?case by (auto simp: recv_cleanup_def woken_def)
qed (auto simp: woken_def ran_def recv_error_def leave_recv_def recv_store_def recv_recheck_def
    recv_cas_def close_client_def)

lemma reachable_readers: "client_reachable c \<Longrightarrow> readers_ok c \<and> woken c"
proof (induction rule: client_reachable.induct)
  case start
  show ?case by (simp add: readers_ok_def woken_def start_client_def)
next
  case (step c c')
  then show ?case using readers_step woken_step by blast
qed

text \<open>
  C13 (safety). At most one coroutine reads from the socket at a time, exactly while \<open>recv_running_\<close> is
  set; and no wake-up is lost: whenever a request that has been sent waits in the table, the
  receiver runs, or a receiver that has cleared the flag is still about to look at the table
  again, to restart, or to complete all requests with an error.
\<close>
theorem single_receiver_no_lost_wakeup:
  assumes "client_reachable c"
  shows "cl_reading c + cl_storing c = (if cl_running c then 1 else 0) \<and>
    (\<forall>rid h. cl_table c rid = Some h \<and> hd_sent h \<longrightarrow>
       cl_running c \<or> 0 < cl_recheck c \<or> 0 < cl_cas c \<or> 0 < cl_failed c)"
  using reachable_readers [OF assms] by (auto simp: readers_ok_def woken_def ran_def)

text \<open>Promises and numbers, as long as there have been at most \<open>2 ^ 32\<close> requests.\<close>

definition ids_fit :: "client \<Rightarrow> bool" where
  "ids_fit c \<longleftrightarrow> cl_promises c \<le> 2 ^ 32"

lemma unat_of_nat_u32: "p < 2 ^ 32 \<Longrightarrow> unat (word_of_nat p :: u32) = p"
  by (simp add: unat_of_nat)

lemma u32_of_nat_eq_iff:
  "p < 2 ^ 32 \<Longrightarrow> q < 2 ^ 32 \<Longrightarrow> (word_of_nat p :: u32) = word_of_nat q \<longleftrightarrow> p = q"
  by (metis unat_of_nat_u32)

lemma promises_okD:
  assumes "promises_ok c"
  shows "cl_table c rid = Some h \<Longrightarrow> \<not> hd_completed h" "cl_table c rid = Some h \<Longrightarrow> hd_promise h < cl_promises c"
    "cl_table c rid = Some h \<Longrightarrow> hd_promise h \<notin> fst ` set (cl_results c)"
    "cl_table c rid = Some h \<Longrightarrow> rid = word_of_nat (hd_promise h)"
    "distinct (map fst (cl_results c))" "p \<in> fst ` set (cl_results c) \<Longrightarrow> p < cl_promises c"
    "cl_request_id c = word_of_nat (cl_promises c)"
    "(rid, p) \<in> set (cl_sending c) \<Longrightarrow> p < cl_promises c"
    "(rid, p) \<in> set (cl_sending c) \<Longrightarrow> rid = word_of_nat p" "distinct (cl_sending c)"
    "cl_table c rid = Some h \<Longrightarrow> hd_sent h \<Longrightarrow> (rid, hd_promise h) \<notin> set (cl_sending c)"
  using assms unfolding promises_ok_def by auto

lemma promises_okI:
  assumes "\<And>rid h. cl_table c rid = Some h \<Longrightarrow> \<not> hd_completed h \<and> hd_promise h < cl_promises c \<and>
        hd_promise h \<notin> fst ` set (cl_results c) \<and> rid = word_of_nat (hd_promise h)"
    and "distinct (map fst (cl_results c))" "\<And>p. p \<in> fst ` set (cl_results c) \<Longrightarrow> p < cl_promises c"
    and "cl_request_id c = word_of_nat (cl_promises c)"
    and "\<And>rid p. (rid, p) \<in> set (cl_sending c) \<Longrightarrow> p < cl_promises c \<and> rid = word_of_nat p"
    and "distinct (cl_sending c)"
    and "\<And>rid h. cl_table c rid = Some h \<Longrightarrow> hd_sent h \<Longrightarrow> (rid, hd_promise h) \<notin> set (cl_sending c)"
  shows "promises_ok c"
  using assms unfolding promises_ok_def by auto

text \<open>Entries may disappear and callers end.\<close>

lemma promises_shrink:
  assumes ok: "promises_ok c" and "cl_table c' \<subseteq>\<^sub>m cl_table c" "cl_results c' = cl_results c"
    "cl_promises c' = cl_promises c" "cl_request_id c' = cl_request_id c"
    "set (cl_sending c') \<subseteq> set (cl_sending c)" "distinct (cl_sending c')"
  shows "promises_ok c'"
proof (rule promises_okI)
  fix rid h
  assume "cl_table c' rid = Some h"
  with assms(2) have t: "cl_table c rid = Some h" by (metis domI map_le_def)
  show "\<not> hd_completed h \<and> hd_promise h < cl_promises c' \<and>
      hd_promise h \<notin> fst ` set (cl_results c') \<and> rid = word_of_nat (hd_promise h)"
    using promises_okD(1-4) [OF ok t] assms(3,4) by simp
  show "hd_sent h \<Longrightarrow> (rid, hd_promise h) \<notin> set (cl_sending c')"
    using promises_okD(11) [OF ok t] assms(6) by blast
qed (use promises_okD(5-10) [OF ok] assms(3-7) in auto)

lemma map_le_erase: "m(k := None) \<subseteq>\<^sub>m m"
  by (simp add: map_le_def)

lemma set_remove1_subset': "set (remove1 x xs) \<subseteq> set xs"
  by (rule set_remove1_subset)

text \<open>A handler that is in the table is completed and taken out.\<close>

lemma promises_complete:
  assumes ok: "promises_ok c" and fit: "ids_fit c" and h: "cl_table c rid = Some h"
    and c': "cl_table c' = (cl_table c)(rid := None)" "cl_results c' = cl_results c @ [(hd_promise h, x)]"
      "cl_promises c' = cl_promises c" "cl_request_id c' = cl_request_id c" "cl_sending c' = cl_sending c"
  shows "promises_ok c'"
proof (rule promises_okI)
  fix k g
  assume "cl_table c' k = Some g"
  then have g: "cl_table c k = Some g" "k \<noteq> rid" by (auto simp: c'(1) split: if_splits)
  have "hd_promise g \<noteq> hd_promise h"
    using g(2) promises_okD(4) [OF ok g(1)] promises_okD(4) [OF ok h] by auto
  then show "\<not> hd_completed g \<and> hd_promise g < cl_promises c' \<and>
      hd_promise g \<notin> fst ` set (cl_results c') \<and> k = word_of_nat (hd_promise g)"
    using promises_okD(1-4) [OF ok g(1)] c'(2,3) by auto
  show "hd_sent g \<Longrightarrow> (k, hd_promise g) \<notin> set (cl_sending c')"
    using promises_okD(11) [OF ok g(1)] c'(5) by simp
next
  fix p
  show "p \<in> fst ` set (cl_results c') \<Longrightarrow> p < cl_promises c'"
    using promises_okD(2) [OF ok h] promises_okD(6) [OF ok, of p] c'(2,3) by auto
qed (use promises_okD(3) [OF ok h] promises_okD(5,7-10) [OF ok] c' in auto)

text \<open>All handlers are completed, each once, when the table is emptied.\<close>

lemma promises_err_response:
  assumes ok: "promises_ok c" and ids: "set ids = dom (cl_table c)" "distinct ids"
  shows "promises_ok (send_err_response ids c)"
    and "cl_table c rid = Some h \<Longrightarrow> hd_promise h \<in> fst ` set (cl_results (send_err_response ids c))"
proof -
  let ?x = "Local_error (cl_timeout c)"
  let ?f = "\<lambda>rid c'. case cl_table c rid of Some h \<Rightarrow> complete h ?x c' | None \<Rightarrow> c'"
  define hs where "hs = map (\<lambda>rid. the (cl_table c rid)) ids"
  have fold_results: "set js \<subseteq> dom (cl_table c) \<Longrightarrow> cl_results (fold ?f js c') =
      cl_results c' @ map (\<lambda>rid. (hd_promise (the (cl_table c rid)), ?x)) js" for js c'
    by (induction js arbitrary: c') (auto simp: promises_okD(1) [OF ok])
  have res: "cl_results (send_err_response ids c) = cl_results c @
      map (\<lambda>rid. (hd_promise (the (cl_table c rid)), ?x)) ids"
    using fold_results [of ids] ids(1) by (simp add: send_err_response_def)
  have inj: "inj_on (\<lambda>rid. hd_promise (the (cl_table c rid))) (set ids)"
  proof (rule inj_onI)
    fix a b
    assume ab: "a \<in> set ids" "b \<in> set ids" and eq: "hd_promise (the (cl_table c a)) = hd_promise (the (cl_table c b))"
    then obtain ha hb where h: "cl_table c a = Some ha" "cl_table c b = Some hb" using ids(1) by blast
    have "hd_promise ha = hd_promise hb" using eq by (simp only: h option.sel)
    then show "a = b" using promises_okD(4) [OF ok h(1)] promises_okD(4) [OF ok h(2)] by (simp only:)
  qed
  show "cl_table c rid = Some h \<Longrightarrow> hd_promise h \<in> fst ` set (cl_results (send_err_response ids c))"
    using ids(1) by (force simp: res)
  show "promises_ok (send_err_response ids c)"
  proof (rule promises_okI)
    have "distinct (map (\<lambda>rid. hd_promise (the (cl_table c rid))) ids)"
      using inj ids(2) by (simp add: distinct_map)
    moreover have "hd_promise (the (cl_table c rid)) \<notin> fst ` set (cl_results c)" if "rid \<in> set ids" for rid
    proof -
      from that ids(1) obtain h where "cl_table c rid = Some h" by blast
      with promises_okD(3) [OF ok this] show ?thesis by simp
    qed
    then have "fst ` set (cl_results c) \<inter> (\<lambda>rid. hd_promise (the (cl_table c rid))) ` set ids = {}"
      by (metis (no_types, lifting) disjoint_iff imageE)
    ultimately show "distinct (map fst (cl_results (send_err_response ids c)))"
      using promises_okD(5) [OF ok] by (simp add: res comp_def)
  next
    fix p
    assume "p \<in> fst ` set (cl_results (send_err_response ids c))"
    then consider "p \<in> fst ` set (cl_results c)" | rid where "rid \<in> set ids" "p = hd_promise (the (cl_table c rid))"
      by (auto simp: res)
    then show "p < cl_promises (send_err_response ids c)"
    proof cases
      case 1
      then show ?thesis using promises_okD(6) [OF ok] by simp
    next
      case 2
      then obtain h where "cl_table c rid = Some h" using ids(1) by blast
      then show ?thesis using promises_okD(2) [OF ok] 2(2) by simp
    qed
  qed (use promises_okD(7-10) [OF ok] in auto)
qed

lemma promises_mono: "client_step c c' \<Longrightarrow> cl_promises c \<le> cl_promises c'"
  by (induction rule: client_step.induct)
    (auto simp: begin_request_def end_request_def cancel_request_def close_client_def
      recv_response_def recv_error_def recv_store_def recv_recheck_def recv_cas_def recv_cleanup_def
      leave_recv_def Let_def split: option.splits prod.splits if_splits)

lemma promises_begin:
  assumes ok: "promises_ok c" and fit: "ids_fit (begin_request c)"
  shows "promises_ok (begin_request c)"
proof -
  have promises: "cl_promises (begin_request c) = Suc (cl_promises c)"
    by (auto simp: begin_request_def close_client_def Let_def split: prod.split)
  with fit have lt: "cl_promises c < 2 ^ 32" by (simp add: ids_fit_def)
  have free: "cl_table c (cl_request_id c) = None"
  proof (rule ccontr)
    assume "cl_table c (cl_request_id c) \<noteq> None"
    then obtain h where h: "cl_table c (cl_request_id c) = Some h" by blast
    have "(word_of_nat (cl_promises c) :: u32) = word_of_nat (hd_promise h)"
      using promises_okD(4) [OF ok h] promises_okD(7) [OF ok] by simp
    then have "cl_promises c = hd_promise h"
      using u32_of_nat_eq_iff lt promises_okD(2) [OF ok h] by (metis less_trans)
    with promises_okD(2) [OF ok h] show False by simp
  qed
  let ?h = "\<lparr>hd_promise = cl_promises c, hd_completed = False, hd_sent = False\<rparr>"
  have c': "begin_request c = c\<lparr>cl_request_id := cl_request_id c + 1, cl_promises := cl_promises c + 1,
      cl_table := (cl_table c)(cl_request_id c \<mapsto> ?h),
      cl_sending := (cl_request_id c, cl_promises c) # cl_sending c\<rparr>"
    by (simp add: begin_request_def emplace_def free Let_def)
  have new: "(cl_request_id c, cl_promises c) \<notin> set (cl_sending c)"
    "cl_promises c \<notin> fst ` set (cl_results c)"
    using promises_okD(6,8) [OF ok] by (metis less_irrefl)+
  show ?thesis
  proof (rule promises_okI)
    fix rid h
    assume "cl_table (begin_request c) rid = Some h"
    then consider "rid = cl_request_id c" "h = ?h" | "cl_table c rid = Some h" "rid \<noteq> cl_request_id c"
    proof (cases "rid = cl_request_id c")
      case True
      then have "h = ?h" using \<open>cl_table (begin_request c) rid = Some h\<close> by (simp add: c')
      with True that(1) show thesis by blast
    next
      case False
      then have "cl_table c rid = Some h" using \<open>cl_table (begin_request c) rid = Some h\<close> by (simp add: c')
      with False that(2) show thesis by blast
    qed
    note h = this
    show "\<not> hd_completed h \<and> hd_promise h < cl_promises (begin_request c) \<and>
        hd_promise h \<notin> fst ` set (cl_results (begin_request c)) \<and> rid = word_of_nat (hd_promise h)"
    proof (cases rule: h)
      case 1
      then show ?thesis using new promises_okD(7) [OF ok] by (simp add: c')
    next
      case 2
      from promises_okD(1-4) [OF ok 2(1)] show ?thesis by (simp add: c')
    qed
    show "(rid, hd_promise h) \<notin> set (cl_sending (begin_request c))" if "hd_sent h"
    proof (cases rule: h)
      case 1
      then show ?thesis using that by simp
    next
      case 2
      from promises_okD(11) [OF ok 2(1) that] 2(2) show ?thesis by (simp add: c')
    qed
  qed (use promises_okD(5-10) [OF ok] new in \<open>auto simp: c' intro: less_SucI\<close>)
qed

lemma mark_sent_cases:
  "mark_sent rid p m k = Some h \<Longrightarrow>
     m k = Some h \<or> (k = rid \<and> (\<exists>g. m k = Some g \<and> hd_promise g = p \<and> h = g\<lparr>hd_sent := True\<rparr>))"
  by (auto simp: mark_sent_def split: option.splits if_splits)

lemma promises_end:
  assumes ok: "promises_ok c" and sending: "(rid, p) \<in> set (cl_sending c)"
  shows "promises_ok (end_request rid p write_ok c)"
proof (cases write_ok)
  case False
  then show ?thesis
    using map_le_erase [of "cl_table c" rid] set_remove1_subset [of "(rid, p)" "cl_sending c"]
      promises_okD(10) [OF ok]
    by (intro promises_shrink [OF ok]) (simp_all add: end_request_def close_client_def)
next
  case True
  let ?c = "end_request rid p write_ok c"
  have c': "cl_table ?c = mark_sent rid p (cl_table c)" "cl_results ?c = cl_results c"
    "cl_promises ?c = cl_promises c" "cl_request_id ?c = cl_request_id c"
    "cl_sending ?c = remove1 (rid, p) (cl_sending c)"
    using True by (simp_all add: end_request_def Let_def)
  have gone: "(rid, p) \<notin> set (cl_sending ?c)"
    using promises_okD(10) [OF ok] by (simp add: c'(5))
  show ?thesis
  proof (rule promises_okI)
    fix k h
    assume "cl_table ?c k = Some h"
    then have cs: "cl_table c k = Some h \<or>
        (k = rid \<and> (\<exists>g. cl_table c k = Some g \<and> hd_promise g = p \<and> h = g\<lparr>hd_sent := True\<rparr>))"
      unfolding c'(1) by (rule mark_sent_cases)
    then obtain g where g: "cl_table c k = Some g" "hd_promise h = hd_promise g"
        "hd_completed h = hd_completed g" "h = g \<or> (k = rid \<and> hd_promise g = p)"
      by auto
    from promises_okD(1-4) [OF ok g(1)] show "\<not> hd_completed h \<and> hd_promise h < cl_promises ?c \<and>
        hd_promise h \<notin> fst ` set (cl_results ?c) \<and> k = word_of_nat (hd_promise h)"
      by (simp add: c' g(2,3))
    show "(k, hd_promise h) \<notin> set (cl_sending ?c)" if "hd_sent h"
      using g(4)
    proof
      assume "h = g"
      with promises_okD(11) [OF ok g(1)] that have "(k, hd_promise h) \<notin> set (cl_sending c)" by simp
      then show ?thesis using set_remove1_subset [of "(rid, p)" "cl_sending c"] c'(5) by auto
    next
      assume "k = rid \<and> hd_promise g = p"
      then show ?thesis using gone g(2) by simp
    qed
  next
    fix k q
    assume "(k, q) \<in> set (cl_sending ?c)"
    then have "(k, q) \<in> set (cl_sending c)" using c'(5) by (metis notin_set_remove1)
    then show "q < cl_promises ?c \<and> k = word_of_nat q"
      using promises_okD(8,9) [OF ok] c'(3) by metis
  qed (use promises_okD(5-7,10) [OF ok] c' in auto)
qed

lemma promises_same:
  "promises_ok c \<Longrightarrow> cl_table c' = cl_table c \<Longrightarrow> cl_results c' = cl_results c \<Longrightarrow>
   cl_promises c' = cl_promises c \<Longrightarrow> cl_request_id c' = cl_request_id c \<Longrightarrow>
   cl_sending c' = cl_sending c \<Longrightarrow> promises_ok c'"
  unfolding promises_ok_def by (simp only:) (elim conjE, intro conjI TrueI refl, assumption+)

lemma promises_recv:
  assumes ok: "promises_ok c" and fit: "ids_fit c"
  shows "promises_ok (recv_response c)"
proof (cases "cl_reading c = 0")
  case True
  with ok show ?thesis by (simp add: recv_response_def)
next
  case reading: False
  show ?thesis
  proof (cases "read_resp_head (cl_in c)")
    case None
    with ok reading show ?thesis by (simp add: recv_response_def)
  next
    case (Some q)
    obtain header input where q: "q = (header, input)" by (rule prod.exhaust)
    show ?thesis
    proof (cases "cl_table c (rs_seq_num header)")
      case None
      with Some q reading have "recv_response c = leave_recv c" by (simp add: recv_response_def)
      then show ?thesis
        by (intro promises_same [OF ok]) (simp_all add: leave_recv_def close_client_def)
    next
      case h: (Some h)
      show ?thesis
      proof (cases "read_resp_body header input")
        case None
        with h Some q reading ok show ?thesis by (simp add: recv_response_def)
      next
        case (Some b)
        obtain body att input' where b: "b = (body, att, input')" by (rule prod_cases3)
        show ?thesis
          using promises_okD(1) [OF ok h] h Some \<open>read_resp_head (cl_in c) = Some q\<close> q b reading
          by (intro promises_complete [OF ok fit h]) (auto simp: recv_response_def Let_def)
      qed
    qed
  qed
qed

lemma promises_step:
  assumes "client_step c c'" and "promises_ok c" and "ids_fit c'"
  shows "promises_ok c'"
proof -
  have fit: "ids_fit c" using promises_mono [OF assms(1)] assms(3) by (simp add: ids_fit_def)
  note ok = assms(2)
  from assms(1) show ?thesis
  proof cases
    case Begin
    then show ?thesis using promises_begin [OF ok] assms(3) by simp
  next
    case (Sent rid p write_ok)
    then show ?thesis using promises_end [OF ok] by simp
  next
    case (Cancel rid p)
    then show ?thesis
      using map_le_erase [of "cl_table c" rid] set_remove1_subset [of "(rid, p)" "cl_sending c"]
        promises_okD(10) [OF ok]
      by (intro promises_shrink [OF ok]) (simp_all add: cancel_request_def)
  next
    case Recv
    then show ?thesis using promises_recv [OF ok fit] by simp
  next
    case (Cleanup ids)
    let ?c = "c\<lparr>cl_failed := cl_failed c - 1\<rparr>"
    have "promises_ok ?c" by (rule promises_same [OF ok]) simp_all
    from promises_err_response(1) [OF this, of ids] Cleanup ok show ?thesis
      by (simp add: recv_cleanup_def)
  qed (use ok in \<open>auto intro: promises_same simp: recv_error_def leave_recv_def recv_store_def
      recv_recheck_def recv_cas_def close_client_def\<close>)
qed

lemma reachable_promises: "client_reachable c \<Longrightarrow> ids_fit c \<Longrightarrow> promises_ok c"
proof (induction rule: client_reachable.induct)
  case start
  show ?case by (simp add: promises_ok_def start_client_def)
next
  case (step c c')
  moreover from this have "ids_fit c"
    using promises_mono [OF step(2)] by (simp add: ids_fit_def)
  ultimately show ?case using promises_step by blast
qed

text \<open>The number of a caller that is still sending belongs to another entry than a sent one.\<close>

lemma sending_other:
  assumes ok: "promises_ok c" and fit: "ids_fit c" and h: "cl_table c rid = Some h" "hd_sent h"
    and "(k, p) \<in> set (cl_sending c)"
  shows "k \<noteq> rid"
proof
  assume "k = rid"
  with promises_okD(8,9) [OF ok assms(5)] have p: "p < cl_promises c" "rid = word_of_nat p" by simp_all
  have "(word_of_nat p :: u32) = word_of_nat (hd_promise h)"
    using p(2) promises_okD(4) [OF ok h(1)] by (simp only:)
  then have "p = hd_promise h"
    using u32_of_nat_eq_iff [of p "hd_promise h"] p(1) promises_okD(2) [OF ok h(1)] fit
    by (simp add: ids_fit_def)
  then show False using promises_okD(11) [OF ok h] assms(5) \<open>k = rid\<close> by simp
qed

lemma recv_response_keeps:
  assumes ok: "promises_ok c" and h: "cl_table c rid = Some h"
  shows "cl_table (recv_response c) rid = Some h \<or>
    hd_promise h \<in> fst ` set (cl_results (recv_response c))"
  using h promises_okD(1) [OF ok h]
  by (auto simp: recv_response_def leave_recv_def close_client_def Let_def
      dest: fun_cong [where x = rid] split: option.split)


section \<open>Responses find their requests\<close>

lemma resp_head_packed:
  "resp_head_of (pack nd DISABLE_ALL_META_INFO resp_header_ty (resp_header_val h)) = h"
  by (simp add: resp_head_of_def read_packed_header)

lemma read_resp_head_packed:
  "read_resp_head (pack nd DISABLE_ALL_META_INFO resp_header_ty (resp_header_val h) @ s) = Some (h, s)"
  by (simp add: read_resp_head_def async_read_append resp_head_packed)

lemma read_resp_body_append:
  assumes "rs_length h = word_of_nat (length body)" "rs_attach_length h = word_of_nat (length att)"
    "length body < 2 ^ 32" "length att < 2 ^ 32"
  shows "read_resp_body h (body @ att @ s) = Some (body, att, s)"
  using assms by (simp add: read_resp_body_def async_read_def unat_of_nat_u32)

section \<open>Samples\<close>

definition one_sent :: client where
  "one_sent = end_request 0 0 True (begin_request start_client)"

lemma one_sent_reachable: "client_reachable one_sent"
proof -
  have "client_reachable (begin_request start_client)"
    by (rule client_reachable.step [OF client_reachable.start client_step.Begin])
  moreover have sending: "(0, 0) \<in> set (cl_sending (begin_request start_client))"
    by (simp add: begin_request_def start_client_def emplace_def)
  have "client_step (begin_request start_client) one_sent"
    unfolding one_sent_def by (rule client_step.Sent [OF sending])
  ultimately show ?thesis by (rule client_reachable.step)
qed

theorem single_receiver_no_lost_wakeup_witness:
  "cl_reading one_sent + cl_storing one_sent = (if cl_running one_sent then 1 else 0) \<and>
   (\<exists>h. cl_table one_sent 0 = Some h \<and> hd_sent h)"
  using single_receiver_no_lost_wakeup [OF one_sent_reachable]
  by (simp add: one_sent_def end_request_def begin_request_def start_client_def emplace_def mark_sent_def
      Let_def)


end
