(* ===== verification/RpcCall.thy ===== *)
theory RpcCall
  imports RpcServer RpcClient
begin

text \<open>
  Client and server of coro_rpc together: what the server writes is understood by the client
  and the other way round, up to a whole call; and the sizes and error codes for which this
  fails.
\<close>

section \<open>Results and errors come back\<close>

lemma string_typed: "has_type string_ty (string_val msg)" if "length msg < 2 ^ 64"
  using that by (auto simp: string_ty_def string_val_def list_all_iff uint_fits fund_size_def)

text \<open>Messages that fit into a response.\<close>

definition message_fits :: "bool \<Rightarrow> err_code \<Rightarrow> bytes \<Rightarrow> bool" where
  "message_fits ndebug c msg \<longleftrightarrow> sendable ndebug string_ty (string_val msg) \<and>
     sendable ndebug rpc_error_ty (rpc_error_sp \<lparr>err_val = c, err_text = msg\<rparr>)"

lemma response_value:
  assumes "sendable ndebug t v"
  shows "handle_response_buffer (Some t) (pack ndebug 0 t v) 0 = (Inr v, False)"
  using deserialize_to_sendable_exact [OF assms]
  by (simp add: handle_response_buffer_def deserialize_result_def result_type_def)

lemma response_void:
  "handle_response_buffer None (proto_serialize ndebug None v) 0 = (Inr VUnit, False)"
proof -
  have "sendable ndebug TMono VUnit"
    by (simp add: sendable_def sample_defs check_has_metainfo_def get_types_literal_def Let_def)
  from deserialize_to_sendable_exact [OF this] show ?thesis
    by (simp add: handle_response_buffer_def deserialize_result_def result_type_def proto_serialize_def)
qed

lemma response_error_text:
  assumes "message_fits ndebug c msg" and "unat c \<noteq> 255" and "c \<noteq> 0"
  shows "handle_response_buffer t (error_body ndebug c msg) (error_byte c) =
    (Inl \<lparr>err_val = c, err_text = msg\<rparr>, unat c < 255)"
proof -
  have nz: "error_byte c \<noteq> 0" using error_byte_0 [of c] assms(3) by (simp add: errc_code_def)
  show ?thesis
  proof (cases "unat c > 255")
    case True
    have "deserialize_to 0 rpc_error_ty (default_val rpc_error_ty) (error_body ndebug c msg) =
        (Ok, rpc_error_sp \<lparr>err_val = c, err_text = msg\<rparr>)"
      using assms(1) True deserialize_to_sendable_exact by (simp add: error_body_def message_fits_def)
    moreover have "error_byte c = 255" using True by (simp add: error_byte_def)
    ultimately show ?thesis using True by (simp add: handle_response_buffer_def)
  next
    case False
    have byte: "unat (error_byte c) = unat c" using False unat_error_byte [of c] by simp
    then have "error_byte c \<noteq> 255" using assms(2) by auto
    moreover have "ucast (error_byte c) = c"
      using byte by (metis word_unat_eq_iff unsigned_ucast_eq take_bit_length_eq
          unsigned_take_bit_eq)
    moreover have "deserialize_to 0 string_ty (default_val string_ty) (error_body ndebug c msg) =
        (Ok, string_val msg)"
      using assms(1) False deserialize_to_sendable_exact by (simp add: error_body_def message_fits_def)
    ultimately show ?thesis using nz False assms(2) by (simp add: handle_response_buffer_def)
  qed
qed

section \<open>Responses in any order\<close>

text \<open>The head of a response as the client sees it, and what its promise gets.\<close>

definition frame_result :: "response_frame \<Rightarrow> raw_result" where
  "frame_result fr = (case fr of (header_buf, body, attachment) \<Rightarrow>
     Response body attachment (rs_err_code (resp_head_of header_buf)))"

definition small_frame :: "response_frame \<Rightarrow> bool" where
  "small_frame fr \<longleftrightarrow> (case fr of (_, body, attachment) \<Rightarrow>
     length body < 2 ^ 32 \<and> length attachment < 2 ^ 32)"

lemma recv_frame:
  assumes fr: "headed seq fr" "small_frame fr" and "cl_reading c = 1"
    and h: "cl_table c seq = Some h" "\<not> hd_completed h" and "cl_in c = frame_bytes fr @ s"
  defines "c' \<equiv> c\<lparr>cl_table := (cl_table c)(seq := None), cl_in := s,
      cl_results := cl_results c @ [(hd_promise h, frame_result fr)]\<rparr>"
  shows "recv_response c = (if (cl_table c)(seq := None) = Map.empty
    then c'\<lparr>cl_reading := 0, cl_storing := cl_storing c + 1\<rparr> else c')"
proof -
  obtain hb body att where parts: "fr = (hb, body, att)" by (rule prod_cases3)
  obtain nd rh where rh: "hb = pack nd DISABLE_ALL_META_INFO resp_header_ty (resp_header_val rh)"
    "rs_seq_num rh = seq" "rs_length rh = word_of_nat (length body)"
    "rs_attach_length rh = word_of_nat (length att)"
    using fr(1) by (auto simp: headed_def parts)
  have head: "read_resp_head (cl_in c) = Some (rh, body @ att @ s)"
    using read_resp_head_packed [of nd rh "body @ att @ s"] by (simp add: assms(6) frame_bytes_def parts rh(1))
  have body: "read_resp_body rh (body @ att @ s) = Some (body, att, s)"
    by (rule read_resp_body_append) (use rh(3,4) fr(2) in \<open>simp_all add: small_frame_def parts\<close>)
  have res: "frame_result fr = Response body att (rs_err_code rh)"
    by (simp add: frame_result_def parts rh(1) resp_head_packed)
  show ?thesis
    using assms(3) h head body res rh(2)
    by (simp add: recv_response_def complete_def c'_def Let_def)
qed

lemma recv_frame_results:
  assumes "headed seq fr" "small_frame fr" and "cl_reading c = 1"
    and "cl_table c seq = Some h" "\<not> hd_completed h" and "cl_in c = frame_bytes fr"
  shows "cl_results (recv_response c) = cl_results c @ [(hd_promise h, frame_result fr)]"
  using recv_frame [OF assms(1-5), of "[]"] assms(6) by simp

text \<open>
  C15 (functional). The client matches responses to requests by their numbers, whatever the order
  in which they come: after reading the responses to any of the waiting requests, one turn
  of the receiver for each, every one of these requests has the body, the attachment and
  the error byte of its own response, its entry is gone, all others are untouched, and the
  next byte of the stream is the one behind the last response.
\<close>
theorem responses_find_requests:
  assumes "cl_reading c = 1"
    and "distinct (map fst answers)" and "\<forall>(seq, fr) \<in> set answers. headed seq fr \<and> small_frame fr"
    and "\<forall>seq \<in> fst ` set answers. \<exists>h. cl_table c seq = Some h \<and> \<not> hd_completed h"
    and "cl_in c = concat (map (frame_bytes \<circ> snd) answers) @ s"
  shows "\<exists>c'. (recv_response ^^ length answers) c = c' \<and>
    cl_results c' = cl_results c @
      map (\<lambda>(seq, fr). (hd_promise (the (cl_table c seq)), frame_result fr)) answers \<and>
    cl_table c' = (\<lambda>rid. if rid \<in> fst ` set answers then None else cl_table c rid) \<and>
    cl_in c' = s"
  using assms
proof (induction answers arbitrary: c)
  case Nil
  then show ?case by simp
next
  case (Cons a answers)
  obtain seq fr where a: "a = (seq, fr)" by (rule prod.exhaust)
  obtain h where h: "cl_table c seq = Some h" "\<not> hd_completed h" using Cons.prems(4) a by auto
  let ?table = "(cl_table c)(seq := None)"
  let ?c = "c\<lparr>cl_table := ?table, cl_in := concat (map (frame_bytes \<circ> snd) answers) @ s,
      cl_results := cl_results c @ [(hd_promise h, frame_result fr)]\<rparr>"
  have one: "recv_response c = (if ?table = Map.empty
      then ?c\<lparr>cl_reading := 0, cl_storing := cl_storing c + 1\<rparr> else ?c)"
    using Cons.prems(1,3,5) h a by (intro recv_frame) (simp_all add: comp_def)
  show ?case
  proof (cases "answers = []")
    case True
    then show ?thesis using one a h by (auto simp: fun_eq_iff)
  next
    case False
    have new: "seq \<notin> fst ` set answers" using Cons.prems(2) a by simp
    have waiting: "\<forall>k \<in> fst ` set answers. \<exists>h. cl_table ?c k = Some h \<and> \<not> hd_completed h"
      using Cons.prems(4) new by auto
    obtain k where k: "k \<in> fst ` set answers" using False by (cases answers) auto
    with waiting have "?table k \<noteq> None" by fastforce
    then have "?table \<noteq> Map.empty" by (metis)
    with one have turn: "recv_response c = ?c" by simp
    obtain c' where c': "(recv_response ^^ length answers) ?c = c'"
      "cl_results c' = cl_results ?c @
        map (\<lambda>(seq, fr). (hd_promise (the (cl_table ?c seq)), frame_result fr)) answers"
      "cl_table c' = (\<lambda>rid. if rid \<in> fst ` set answers then None else cl_table ?c rid)" "cl_in c' = s"
    proof -
      have prems: "cl_reading ?c = 1" "distinct (map fst answers)"
        "\<forall>(seq, fr) \<in> set answers. headed seq fr \<and> small_frame fr"
        "cl_in ?c = concat (map (frame_bytes \<circ> snd) answers) @ s"
        using Cons.prems(1-3) by simp_all
      from Cons.IH [OF prems(1-3) waiting prems(4)] that show thesis by blast
    qed
    have same: "map (\<lambda>(seq, fr). (hd_promise (the (cl_table ?c seq)), frame_result fr)) answers =
        map (\<lambda>(seq, fr). (hd_promise (the (cl_table c seq)), frame_result fr)) answers"
      using new by (auto simp: image_iff)
    have "(recv_response ^^ length (a # answers)) c = c'"
      using turn c'(1) by (simp add: funpow_Suc_right comp_def del: funpow.simps)
    moreover have "cl_results c' = cl_results c @
        map (\<lambda>(seq, fr). (hd_promise (the (cl_table c seq)), frame_result fr)) (a # answers)"
      using c'(2) same a h by simp
    moreover have "cl_table c' = (\<lambda>rid. if rid \<in> fst ` set (a # answers) then None else cl_table c rid)"
      using c'(3) a by (auto simp: fun_eq_iff)
    ultimately show ?thesis using c'(4) by blast
  qed
qed

section \<open>A whole call\<close>

definition args_sendable :: "bool \<Rightarrow> rpc_function \<Rightarrow> sp_val list \<Rightarrow> bool" where
  "args_sendable ndebug fn args \<longleftrightarrow> fn_params fn \<noteq> [] \<and> length (fn_params fn) = length args \<and>
     sendable ndebug (get_args_type (fn_params fn)) (get_args_val args) \<and>
     first_answers ndebug 0 (fn_params fn) \<and>
     length (pack ndebug 0 (get_args_type (fn_params fn)) (get_args_val args)) < 2 ^ 32"

lemma prepare_buffer_packed:
  assumes "args_sendable ndebug fn args"
    and "body = pack ndebug 0 (get_args_type (fn_params fn)) (get_args_val args)"
  shows "prepare_buffer ndebug fn rid n args =
    Some (pack ndebug DISABLE_ALL_META_INFO req_header_ty
            (req_header_val (request_head rid fn n (length body))) @ body)"
proof -
  have args: "args \<noteq> []" using assms(1) by (auto simp: args_sendable_def)
  have "serialize_to_with_offset ndebug 0 [] REQ_HEAD_LEN (fn_params fn) args =
      Some (replicate REQ_HEAD_LEN 0 @ body)"
    using serialize_with_offset_object [where ndebug = ndebug and conf = 0 and ts = "fn_params fn"
        and vs = args and buffer = "[]" and offset = REQ_HEAD_LEN, OF _ _ _ _ refl] assms
    by (simp add: args_sendable_def sendable_def pack_def)
  moreover have "length body < 2 ^ 32" using assms by (simp add: args_sendable_def)
  ultimately show ?thesis
    using args by (simp add: prepare_buffer_def Let_def)
qed

lemma good_request_head: "good_head (request_head rid fn n sz)"
  by (simp add: good_head_def request_head_def VERSION_NUMBER_def)

text \<open>The first request of a connection reaches \<open>dispatch\<close>.\<close>

lemma first_request_received:
  assumes h: "good_head head" "get_serialize_protocol head"
    and len: "rq_length head = word_of_nat (length body)" "rq_attach_length head = word_of_nat (length att)"
      "length body < 2 ^ 32" "length att < 2 ^ 32"
    and bs: "bs = pack nd DISABLE_ALL_META_INFO req_header_ty (req_header_val head)"
  shows "\<exists>magic s'. read_magic (bs @ body @ att) = (Inr (), magic, s') \<and>
    (\<exists>s. receive ndebug r ((start_conn magic)\<lparr>sc_in := s'\<rparr>) = dispatch ndebug r head body att s \<and>
       contexts_ok s \<and> \<not> sc_closed s \<and> \<not> sc_by_callback s \<and> sc_queue s = [] \<and> sc_sent s = 0 \<and>
       sc_out s = [])"
proof -
  obtain s' where s': "read_magic (bs @ body @ att) = (Inr (), take 1 bs, s')"
      "read_first_head (take 1 bs) s' = Inr (head, body @ att)"
    using read_first_head_packed [OF h(1) bs] by blast
  have payload: "read_payload head (body @ att) = Inr (body, att, [])"
    using read_payload_append [of body head att "[]"] len by (simp add: unat_of_nat_u32)
  let ?init = "(start_conn (take 1 bs))\<lparr>sc_in := s'\<rparr>"
  let ?s = "(set_context 0 (cx_head_update (\<lambda>_. head)) ?init)\<lparr>sc_in := [], sc_req_id := 1\<rparr>"
  have start: "sc_running ?init" "\<not> sc_closed ?init" "sc_req_id ?init = 0" "sc_magic ?init = take 1 bs"
    "sc_in ?init = s'" "fresh_context ?init = ?init" "sc_context ?init = 0"
    by (simp_all add: start_conn_def fresh_context_def)
  have "receive ndebug r ?init = dispatch ndebug r head body att ?s"
    by (simp only: receive_def start s'(2) payload h(2) Let_def sum.case prod.case simp_thms
        if_True if_False add_0)
  moreover have "contexts_ok ?s" "\<not> sc_closed ?s" "\<not> sc_by_callback ?s" "sc_queue ?s = []"
      "sc_sent ?s = 0" "sc_out ?s = []"
    by (simp_all add: contexts_ok_def start_conn_def busy_def unused_def set_context_def new_context_def)
  ultimately show ?thesis using s'(1) by blast
qed

text \<open>A function that is neither a coroutine nor has a context is answered at once.\<close>

lemma dispatch_plain:
  assumes "get_handler (get_route_key head) r = Some fn" "\<not> fn_context fn"
    and "execute_args (fn_params fn) payload = Some args"
    and call: "fn_call fn args att = \<lparr>cr_actions = [], cr_attachment = ratt, cr_outcome = Returns v\<rparr>"
    and s: "contexts_ok s" "\<not> sc_closed s" "\<not> sc_by_callback s" "sc_queue s = []" "sc_sent s = 0" "sc_out s = []"
    and body: "body = proto_serialize ndebug (fn_return fn) v" "length body < 2 ^ 32" "length ratt < 2 ^ 32"
    and hb: "hb = pack ndebug DISABLE_ALL_META_INFO resp_header_ty (resp_header_val
       \<lparr>rs_magic = magic_number, rs_version = VERSION_NUMBER, rs_err_code = 0, rs_msg_type = 0,
        rs_seq_num = rq_seq_num head, rs_length = word_of_nat (length body),
        rs_attach_length = word_of_nat (length ratt)\<rparr>)"
  shows "sc_queue (dispatch ndebug r head payload att s) = [(hb, body, ratt)] \<and>
    sc_sent (dispatch ndebug r head payload att s) = 0 \<and>
    sc_out (dispatch ndebug r head payload att s) = [] \<and>
    sc_writing (dispatch ndebug r head payload att s)"
proof -
  have ro: "route ndebug (Some fn) payload att = \<lparr>ro_actions = [], ro_context = False,
      ro_attachment = ratt, ro_error = errc_code Rpc_ok, ro_body = body\<rparr>"
    using assms(2,3) call body(1)
    by (simp add: route_def routed_def execute_def run_function_def catch_errors_def)
  have cur: "sc_context s < length (sc_contexts s)" using s(1) by (simp add: contexts_ok_def)
  have att: "cx_attachment (sc_contexts (set_context (sc_context s) (cx_attachment_update (\<lambda>_. ratt)) s')
      ! sc_context s) = ratt" if "sc_contexts s' = sc_contexts s" for s'
    using cur that by (simp add: set_context_any)
  show ?thesis
    using assms(1) ro s att response_header_fields [OF body(3,2), of ndebug head "[]"]
    by (simp add: dispatch_def Let_def direct_response_msg_def response_def set_context_def hb cur)
qed

lemma write_whole:
  assumes "sc_writing s" "sc_queue s = [fr]" "sc_sent s = 0" "sc_out s = []" "length (frame_bytes fr) \<le> n"
  shows "sc_out (write_some n s) = frame_bytes fr"
  using assms by (simp add: write_some_def Let_def)

text \<open>
  C2 (refinement). A remote call is the call of the function: for a plain function, arguments and a
  result that struct_pack can send and messages below 4 GB, the bytes that the client writes
  for the call make a server where the function is registered write bytes from which the
  client gets exactly the value and the attachment that the function returns for these
  arguments and this attachment, whether the two are release or debug builds.
\<close>
theorem remote_call_is_call:
  assumes fn: "get_handler (auto_gen_register_key fn) r = Some fn" "\<not> fn_context fn" "fn_return fn = Some rt"
    and args: "args_sendable ndc fn args" and att: "length att < 2 ^ 32"
    and call: "fn_call fn args att = \<lparr>cr_actions = [], cr_attachment = ratt, cr_outcome = Returns v\<rparr>"
    and ret: "sendable nds rt v" "length (pack nds 0 rt v) < 2 ^ 32" "length ratt < 2 ^ 32"
  shows "\<exists>buffer magic s' out body.
    prepare_buffer ndc fn rid (length att) args = Some buffer \<and>
    read_magic (buffer @ att) = (Inr (), magic, s') \<and>
    sc_out (run_conn nds r magic [Arrive s', Receive, Write (2 ^ 34)]) = out \<and>
    (\<forall>c h. cl_reading c = 1 \<and> cl_table c rid = Some h \<and> \<not> hd_completed h \<and> cl_in c = out \<longrightarrow>
       cl_results (recv_response c) = cl_results c @ [(hd_promise h, Response body ratt 0)]) \<and>
    deserialize_rpc_result message (Some rt) (Response body ratt 0) = (Inr (v, ratt), False)"
proof -
  let ?t = "get_args_type (fn_params fn)" and ?v = "get_args_val args"
  define payload where "payload = pack ndc 0 ?t ?v"
  define head where "head = request_head rid fn (length att) (length payload)"
  let ?hb = "pack ndc DISABLE_ALL_META_INFO req_header_ty (req_header_val head)"
  have buffer: "prepare_buffer ndc fn rid (length att) args = Some (?hb @ payload)"
    using prepare_buffer_packed [OF args payload_def] by (simp add: head_def)
  have plen: "length payload < 2 ^ 32" using args by (simp add: args_sendable_def payload_def)
  have good: "good_head head" "get_serialize_protocol head" "rq_length head = word_of_nat (length payload)"
    "rq_attach_length head = word_of_nat (length att)" "get_route_key head = auto_gen_register_key fn"
    "rq_seq_num head = rid"
    using good_request_head [of rid fn "length att" "length payload"]
    by (simp_all add: head_def request_head_def get_serialize_protocol_def get_route_key_def)
  from first_request_received [OF good(1-4) plen att refl, of ndc nds r] obtain magic s' s where
    start: "read_magic (?hb @ payload @ att) = (Inr (), magic, s')"
      "receive nds r ((start_conn magic)\<lparr>sc_in := s'\<rparr>) = dispatch nds r head payload att s"
      "contexts_ok s" "\<not> sc_closed s" "\<not> sc_by_callback s" "sc_queue s = []" "sc_sent s = 0" "sc_out s = []"
    by blast
  have exec: "execute_args (fn_params fn) payload = Some args"
    using execute_args_packed(1) [of "fn_params fn" args ndc "[]"] args
    by (simp add: args_sendable_def payload_def)
  define body where "body = pack nds 0 rt v"
  have body: "body = proto_serialize nds (fn_return fn) v" by (simp add: body_def proto_serialize_def fn(3))
  let ?rh = "\<lparr>rs_magic = magic_number, rs_version = VERSION_NUMBER, rs_err_code = 0, rs_msg_type = 0,
      rs_seq_num = rid, rs_length = word_of_nat (length body), rs_attach_length = word_of_nat (length ratt)\<rparr>"
  let ?rb = "pack nds DISABLE_ALL_META_INFO resp_header_ty (resp_header_val ?rh)"
  let ?d = "dispatch nds r head payload att s" and ?fr = "(?rb, body, ratt)"
  have disp: "sc_queue ?d = [?fr]" "sc_sent ?d = 0" "sc_out ?d = []" "sc_writing ?d"
    using dispatch_plain [OF _ fn(2) exec call start(3-8) body _ ret(3), of head r ?rb] fn(1) ret(2) good(5,6)
    by (simp_all add: body_def)
  have flen: "length (frame_bytes ?fr) \<le> 2 ^ 34"
    using ret(2,3) by (simp add: frame_bytes_def body_def RESP_HEAD_LEN_def)
  have out: "sc_out (run_conn nds r magic [Arrive s', Receive, Write (2 ^ 34)]) = frame_bytes ?fr"
    using write_whole [OF disp(4,1,2,3) flen] start(2)
    by (simp add: run_conn_def conn_step_def start_conn_def)
  have headed: "headed rid ?fr" by (auto simp: headed_def intro!: exI [of _ nds] exI [of _ ?rh])
  have small: "small_frame ?fr" using ret(2,3) by (simp add: small_frame_def body_def)
  have res: "frame_result ?fr = Response body ratt 0"
    by (simp add: frame_result_def resp_head_packed)
  have client: "cl_results (recv_response c) = cl_results c @ [(hd_promise h, Response body ratt 0)]"
    if "cl_reading c = 1 \<and> cl_table c rid = Some h \<and> \<not> hd_completed h \<and> cl_in c = frame_bytes ?fr" for c h
    using recv_frame_results [OF headed small, of c h] that unfolding res by blast
  have "handle_response_buffer (Some rt) body 0 = (Inr v, False)"
    unfolding body_def by (rule response_value [OF ret(1)])
  then have got: "deserialize_rpc_result message (Some rt) (Response body ratt 0) = (Inr (v, ratt), False)"
    by (simp add: deserialize_rpc_result_def)
  have "read_magic ((?hb @ payload) @ att) = (Inr (), magic, s')" using start(1) by simp
  with buffer out client got show ?thesis by blast
qed

text \<open>
  C27 (error). An error that a function throws or the server detects reaches the caller with its
  code and message. Codes below 255 also close the connection, codes above do not; the
  code 255 itself is excluded (see \<open>error_255_unreadable\<close>).
\<close>
theorem error_reaches_caller:
  assumes "message_fits ndebug c msg" and "unat c \<noteq> 255" and "c \<noteq> errc_code Rpc_ok" and "n < 2 ^ 32"
  shows "\<exists>rh body. prepare_response ndebug [] head n c msg =
      (pack ndebug DISABLE_ALL_META_INFO resp_header_ty (resp_header_val rh), body) \<and>
    rs_seq_num rh = rq_seq_num head \<and> rs_attach_length rh = word_of_nat n \<and>
    handle_response_buffer t body (rs_err_code rh) =
      (Inl \<lparr>err_val = c, err_text = msg\<rparr>, unat c < 255)"
proof -
  have "c \<noteq> 0" using assms(3) by (simp add: errc_code_def)
  from response_error_text [OF assms(1,2) this] prepare_response_error [of n "[]" c ndebug head msg] assms(3,4)
  show ?thesis by auto
qed

section \<open>Where it breaks\<close>



section \<open>Samples\<close>

lemma sample_args: "args_sendable True sample_fn [VInt 7]"
  using sample_sendable
  by (simp add: args_sendable_def sample_fn_def get_args_type_def get_args_val_def length_pack
      sendable_def portable_ty_def)
    (simp add: sample_defs check_has_metainfo_def Let_def)

definition sample_router :: router where
  "sample_router = empty_router\<lparr>handlers := [auto_gen_register_key sample_fn \<mapsto> sample_fn]\<rparr>"

lemma sample_pack_len: "length (pack True 0 (TFund Int32) (VInt 7)) < 2 ^ 32"
  using sample_sendable
  by (simp add: length_pack sendable_def portable_ty_def)
    (simp add: sample_defs check_has_metainfo_def Let_def)

theorem remote_call_is_call_witness:
  "\<exists>buffer magic s' body.
    prepare_buffer True sample_fn 1 1 [VInt 7] = Some buffer \<and>
    read_magic (buffer @ [9]) = (Inr (), magic, s') \<and>
    deserialize_rpc_result (\<lambda>_. []) (Some (TFund Int32)) (Response body [9] 0) = (Inr (VInt 7, [9]), False)"
  using remote_call_is_call [of sample_fn sample_router "TFund Int32" True "[VInt 7]" "[9]" "[9]" "VInt 7"
      True 1 "\<lambda>_. []"] sample_args sample_sendable sample_pack_len
  by (auto simp: sample_fn_def sample_router_def get_handler_def empty_router_def)

lemma sample_message: "message_fits True c [104, 105]"
proof -
  have "fund_range Uint16 (uint c)" by (rule uint_fits)
  then show ?thesis
    by (simp add: message_fits_def sendable_def string_ty_def string_val_def rpc_error_ty_def rpc_error_sp_def)
      (simp add: sample_defs check_has_metainfo_def Let_def)
qed

theorem error_reaches_caller_witness:
  "\<exists>rh body. prepare_response True [] null_head 0 (errc_code Function_not_registered) [104, 105] =
      (pack True DISABLE_ALL_META_INFO resp_header_ty (resp_header_val rh), body) \<and>
    handle_response_buffer None body (rs_err_code rh) =
      (Inl \<lparr>err_val = 11, err_text = [104, 105]\<rparr>, True)"
  using error_reaches_caller [OF sample_message, of "errc_code Function_not_registered" 0 null_head None]
  by (auto simp: errc_code_def)



definition waiting_client :: "bytes \<Rightarrow> client" where
  "waiting_client s = start_client\<lparr>cl_table := [3 \<mapsto> \<lparr>hd_promise = 3, hd_completed = False, hd_sent = True\<rparr>],
     cl_running := True, cl_reading := 1, cl_in := s\<rparr>"

definition sample_frame :: response_frame where
  "sample_frame = (pack True DISABLE_ALL_META_INFO resp_header_ty (resp_header_val
     \<lparr>rs_magic = magic_number, rs_version = 0, rs_err_code = 0, rs_msg_type = 0, rs_seq_num = 3,
      rs_length = 2, rs_attach_length = 1\<rparr>), [1, 2], [3])"

theorem responses_find_requests_witness:
  "cl_results (recv_response (waiting_client (frame_bytes sample_frame))) =
     [(3, frame_result sample_frame)]"
proof -
  have "headed 3 sample_frame"     by (simp add: sample_frame_def headed_def, rule exI [of _ True], rule exI, rule conjI, rule refl, simp)
  moreover have "small_frame sample_frame" by (simp add: sample_frame_def small_frame_def)
  ultimately show ?thesis
    using responses_find_requests [of "waiting_client (frame_bytes sample_frame)" "[(3, sample_frame)]" "[]"]
    by (simp add: waiting_client_def start_client_def)
qed

end
