(* ===== verification/SpEvolution.thy ===== *)
theory SpEvolution
  imports SpCompatRoundtrip
begin

text \<open>
  Evolution of a struct by a compatible member: the old version is \<open>TStruct cfg (xs @ ys)\<close>,
  the new one has \<open>compatible<t, n>\<close> inserted between \<open>xs\<close> and \<open>ys\<close>. Old writers work with
  new readers and new writers with old readers.
\<close>

section \<open>What the insertion does not change\<close>

lemma insert_has_types:
  assumes "length as = length xs"
  shows "has_types (xs @ ys) (as @ bs) \<Longrightarrow> has_type (TCompat t n) w \<Longrightarrow>
      has_types (xs @ TCompat t n # ys) (as @ w # bs)"
    and "has_types (xs @ TCompat t n # ys) (as @ w # bs) \<Longrightarrow> has_types (xs @ ys) (as @ bs)"
  using assms by (induction as xs rule: list_induct2) simp_all

lemma insert_serialize_many:
  "length as = length xs \<Longrightarrow> serialize_many sw c (xs @ TCompat t n # ys) (as @ w # bs) =
     serialize_many sw c (xs @ ys) (as @ bs)"
  by (induction as xs rule: list_induct2) simp_all

lemma insert_fast_members:
  "length as = length xs \<Longrightarrow> fast_members c (xs @ TCompat t n # ys) (as @ w # bs) =
     fast_members c (xs @ ys) (as @ bs)"
  by (induction as xs rule: list_induct2) (auto split: option.splits)

lemma insert_trivial:
  "all_trivial_serializable (xs @ TCompat t n # ys) True c = all_trivial_serializable (xs @ ys) True c"
  by (induction xs) simp_all

lemma insert_not_trivial: "\<not> all_trivial_serializable (xs @ TCompat t n # ys) False c"
  by (induction xs) simp_all

lemma insert_wf_tys: "wf_tys (xs @ TCompat t n # ys) \<longleftrightarrow> wf_ty t \<and> wf_tys (xs @ ys)"
  by (induction xs) auto

lemma insert_max_size:
  "length as = length xs \<Longrightarrow> max_size (calculate_payload_size c (xs @ ys) (as @ bs)) \<le>
     max_size (calculate_payload_size c (xs @ TCompat t n # ys) (as @ w # bs))"
  by (induction as xs rule: list_induct2) (auto simp: max.coboundedI2)

lemma insert_main_vals:
  "length as = length xs \<Longrightarrow> main_vals (xs @ TCompat t n # ys) (as @ w # bs) =
     take (length xs) (main_vals (xs @ ys) (as @ bs)) @ VOpt None #
     drop (length xs) (main_vals (xs @ ys) (as @ bs))"
  by (induction as xs rule: list_induct2) simp_all

lemma insert_code: "get_types_code (TStruct cfg (xs @ TCompat t n # ys)) = get_types_code (TStruct cfg (xs @ ys))"
  by (simp only: get_types_code_def get_types_literal_def insert_compat_literal)

lemma disable_struct:
  "check_if_disable_hash_head conf (TStruct cfg ts) = check_if_disable_hash_head conf (TStruct cfg us)"
  by (simp add: check_if_disable_hash_head_def get_type_config_def)

lemma deserialize_to_reader_skip:
  assumes "deserialize_with_len conf t item r = (Ok, n, v, advance k r)" "k \<le> n" "n \<le> length (rest r)"
  shows "deserialize_to_reader conf t item r = (Ok, v, advance n r)"
proof -
  have "rd_ignore (n - k) (advance k r) = Some (advance n r)"
    using assms(2,3) by (simp add: rd_ignore_def)
  with assms show ?thesis by (auto simp: deserialize_to_reader_def rd_tellg_def Let_def)
qed

text \<open>The header is read alike by both versions.\<close>

lemma insert_metainfo:
  assumes "\<not> check_if_disable_hash_head conf (TStruct cfg (xs @ ys))"
  shows "deserialize_metainfo conf (TStruct cfg (xs @ TCompat t n # ys)) r =
    deserialize_metainfo conf (TStruct cfg (xs @ ys)) r"
proof -
  have "\<not> check_if_disable_hash_head conf (TStruct cfg (xs @ TCompat t n # ys))"
    using assms disable_struct by blast
  moreover have "deserialize_type_literal (TStruct cfg (xs @ TCompat t n # ys)) =
      deserialize_type_literal (TStruct cfg (xs @ ys))"
    by (rule ext) (simp only: deserialize_type_literal_def get_types_literal_def insert_compat_literal)
  ultimately show ?thesis
    using assms by (simp only: deserialize_metainfo_def insert_code if_False)
qed

lemma insert_serialize:
  assumes "length as = length xs" "\<not> all_trivial_serializable (xs @ ys) True cfg"
  shows "serialize_one sw tag (TStruct cfg (xs @ TCompat t n # ys)) (VList (as @ w # bs)) =
    serialize_one sw tag (TStruct cfg (xs @ ys)) (VList (as @ bs))"
  using assms insert_not_trivial trivial_weaken(2)
  by (auto simp: insert_trivial insert_fast_members insert_serialize_many)

section \<open>A member of a version that nobody wrote\<close>

lemma compat_many_missing:
  assumes "\<not> compatible_element_exist_many None xs" "length as = length xs" "dl \<le> now r"
  shows "deserialize_compat_many sw dl n (xs @ TCompat t n # ys) (as @ VOpt None # bs) (m, r) =
    (NoBufferSpace, as @ VOpt None # bs, (True, r))"
  using assms(2,1)
proof (induction as xs rule: list_induct2)
  case Nil
  show ?case
    using assms(3) by (simp add: des_many_step_def if_compat_def compat_member_def rd_tellg_def)
next
  case (Cons a as x xs)
  then have "\<not> compatible_element_exist (Some n) x" using no_compat_versions(1) by simp
  with Cons show ?case by (simp add: des_many_step_def deserialize_compat_absent)
qed

section \<open>Old writer, new reader\<close>

lemma old_portable:
  assumes "portable_ty conf (TStruct cfg (xs @ TCompat t n # ys))"
  shows "portable_ty conf (TStruct cfg (xs @ ys))"
proof -
  have flat: "flat_compat_many (xs @ TCompat t n # ys) \<Longrightarrow> flat_compat_many (xs @ ys)"
    by (induction xs) auto
  have maps: "compat_outside_maps_many (xs @ TCompat t n # ys) \<Longrightarrow> compat_outside_maps_many (xs @ ys)"
    by (induction xs) auto
  have "exist_compatible_member (TStruct cfg (xs @ TCompat t n # ys))"
    unfolding exist_compatible_member_def by (simp, induction xs) simp_all
  then have "\<not> check_if_disable_hash_head conf (TStruct cfg (xs @ TCompat t n # ys))"
    using assms by (auto simp: portable_ty_def well_configured_def)
  then have "\<not> check_if_disable_hash_head conf (TStruct cfg (xs @ ys))"
    using disable_struct by blast
  with assms flat maps show ?thesis
    by (auto simp: portable_ty_def well_configured_def insert_wf_tys insert_trivial varint_t_def)
qed

lemma new_not_disabled:
  assumes "portable_ty conf (TStruct cfg (xs @ TCompat t n # ys))"
  shows "\<not> check_if_disable_hash_head conf (TStruct cfg (xs @ ys))"
    and "exist_compatible_member (TStruct cfg (xs @ TCompat t n # ys))"
proof -
  show ex: "exist_compatible_member (TStruct cfg (xs @ TCompat t n # ys))"
    unfolding exist_compatible_member_def by (simp, induction xs) simp_all
  then have "\<not> check_if_disable_hash_head conf (TStruct cfg (xs @ TCompat t n # ys))"
    using assms by (auto simp: portable_ty_def well_configured_def)
  then show "\<not> check_if_disable_hash_head conf (TStruct cfg (xs @ ys))"
    using disable_struct by blast
qed

lemma only_version:
  assumes "\<not> compatible_element_exist_many None (xs @ ys)"
  shows "compatible_version_number (TStruct cfg (xs @ TCompat t n # ys)) = [n]"
proof -
  have no: "\<not> compatible_element_exist_many (Some k) (xs @ ys)" for k
    using assms no_compat_versions(2) by blast
  have ins: "compatible_element_exist_many (Some k) (xs @ TCompat t n # ys) \<longleftrightarrow>
      n = k \<or> compatible_element_exist_many (Some k) (xs @ ys)" for k
    by (induction xs) auto
  let ?l = "compatible_version_number (TStruct cfg (xs @ TCompat t n # ys))"
  have "set ?l = {n}"
    using no ins by (auto simp: compatible_version_number_facts(2))
  moreover have "distinct ?l"
    using compatible_version_number_facts(1) strict_sorted_iff by blast
  ultimately show ?thesis
    by (cases ?l) (auto simp: insert_eq_iff intro: ccontr [OF _] dest: subset_singletonD)
qed

lemma no_compat_left: "\<not> compatible_element_exist_many None (xs @ ys) \<Longrightarrow>
    \<not> compatible_element_exist_many None xs"
  by (induction xs) auto

text \<open>
  C17 (functional). Backward compatibility: what an old writer, which does not know the
  \<open>compatible\<close> member, has serialized is deserialized without error by a reader that
  knows it; every other member has the written value, the compatible one is empty, and the
  reader stops behind the object. (Structs that are copied as a block are excluded.)
\<close>
theorem old_writer_new_reader:
  assumes new: "portable_ty conf (TStruct cfg (xs @ TCompat t n # ys))"
    and old: "\<not> exist_compatible_member (TStruct cfg (xs @ ys))"
    and nt: "\<not> all_trivial_serializable (xs @ ys) True cfg"
    and ty: "has_type (TStruct cfg (xs @ ys)) (VList (as @ bs))" and as: "length as = length xs"
    and sz: "max_size (calculate_one_size 0 (TStruct cfg (xs @ ys)) (VList (as @ bs))) < 2 ^ 64"
    and info: "info = get_serialize_runtime_info ndebug conf (TStruct cfg (xs @ ys)) (VList (as @ bs))"
    and len: "buf_len info < 2 ^ 64"
    and r: "rest r = serialize_to ndebug conf info (TStruct cfg (xs @ ys)) (VList (as @ bs)) @ sfx"
  shows "deserialize conf (TStruct cfg (xs @ TCompat t n # ys))
      (default_val (TStruct cfg (xs @ TCompat t n # ys))) r =
    (Ok, VList (as @ VOpt None # bs), advance (buf_len info) r)"
proof -
  let ?old = "TStruct cfg (xs @ ys)" and ?new = "TStruct cfg (xs @ TCompat t n # ys)"
  let ?v = "VList (as @ bs)" and ?w = "VList (as @ VOpt None # bs)"
  let ?st = "size_code ?old (calculate_one_size 0 ?old ?v)"
  let ?sw = "size_width ?st"
  let ?main = "serialize_one ?sw 0 ?old ?v"
  have nocompat: "\<not> compatible_element_exist_many None (xs @ ys)"
    using old by (simp add: exist_compatible_member_def)
  obtain head where out: "serialize_to ndebug conf info ?old ?v = head @ ?main @ []"
    and hd: "\<And>r sfx. rest r = head @ sfx \<Longrightarrow>
       deserialize_metainfo conf ?old r = (Ok, 0, ?st, advance (length head) r)"
    by (rule serialize_to_parts [OF old_portable [OF new] ty info len refl refl],
        unfold if_not_P [OF old], rule that)
  have flat: "flat_compat ?old" "well_configured conf ?old"
    using old_portable [OF new] by (simp_all only: portable_ty_def)
  have total: "length head + length ?main = buf_len info"
    using length_serialize_to [OF ty flat, of ndebug] out info by simp
  let ?r1 = "advance (length head) r" and ?r2 = "advance (length head + length ?main) r"
  have hdr: "deserialize_metainfo conf ?new r = (Ok, 0, ?st, ?r1)"
    unfolding insert_metainfo [OF new_not_disabled(1) [OF new]]
    by (rule hd [where sfx = "?main @ sfx"]) (use r out in simp)
  have tyw: "has_type ?new ?w"
    using insert_has_types(1) [OF as, of ys bs t n "VOpt None"] ty by simp
  have nt3: "\<not> all_trivial_serializable (xs @ TCompat t n # ys) False cfg"
    "\<not> all_trivial_serializable (xs @ ys) False cfg"
    using nt insert_not_trivial trivial_weaken(2) by blast+
  have "max_size (calculate_payload_size cfg (xs @ TCompat t n # ys) (as @ VOpt None # bs)) =
      max_size (calculate_payload_size cfg (xs @ ys) (as @ bs))"
    using as by (induction as xs rule: list_induct2) simp_all
  then have "max_size (calculate_one_size 0 ?new ?w) = max_size (calculate_one_size 0 ?old ?v)"
    using nt nt3 by (simp add: insert_trivial)
  then have sw: "max_size (calculate_one_size 0 ?new ?w) < 256 ^ ?sw"
    using chosen_width_suffices [OF sz] by (simp only:)
  have wf: "wf_ty ?new" using new by (simp only: portable_ty_def)
  have same: "serialize_one ?sw 0 ?new ?w = ?main"
    by (rule insert_serialize [OF as nt])
  have mv: "main_val ?new ?w = ?w"
  proof -
    have "main_vals (xs @ ys) (as @ bs) = as @ bs"
      using main_val_id(2) [OF nocompat] ty by simp
    then show ?thesis using insert_main_vals [OF as, of t n ys "VOpt None" bs] as by simp
  qed
  have rd: "reads (deserialize_one ?sw 0 ?new (default_val ?new)) (serialize_one ?sw 0 ?new ?w)
      (main_val ?new ?w)"
    by (rule codec_okD [OF codec_ok_all wf tyw sw target_default(1) [OF tyw]]) simp
  have main: "deserialize_one ?sw 0 ?new (default_val ?new) ?r1 = (Ok, ?w, ?r2)"
    using readsD [OF rd, where r = ?r1 and sfx = sfx] r out unfolding same mv by simp
  have ex: "compatible_element_exist (Some n) ?new"
    by (simp, induction xs) simp_all
  have "deserialize_compat ?sw (now r) n ?new ?w (False, ?r2) = (NoBufferSpace, ?w, (True, ?r2))"
    using compat_many_missing [OF no_compat_left [OF nocompat] as, of "now r" ?r2 ?sw n t ys bs False] ex
    by (simp add: if_compat_def des_list_def)
  then have "deserialize_compatibles ?sw (now r) ?new ?w ?r2 = (Ok, ?w, ?r2)"
    by (simp add: deserialize_compatibles_def only_version [OF nocompat])
  then have "deserialize_with_len conf ?new (default_val ?new) r = (Ok, 0, ?w, ?r2)"
    using hdr main new_not_disabled(2) [OF new]
    by (simp add: deserialize_with_len_def Let_def rd_tellg_def del: deserialize_one.simps default_val.simps)
  then show ?thesis using total by (simp add: deserialize_def del: default_val.simps)
qed

section \<open>New writer, old reader\<close>

text \<open>
  C18 (functional). Forward compatibility: a reader that does not know the compatible member
  deserializes what a new writer has serialized, whatever that member holds; every member
  it knows has the written value, and from a stream it skips the rest, so that it stands
  behind the whole object, ready for the next one.
\<close>
theorem new_writer_old_reader:
  assumes new: "portable_ty conf (TStruct cfg (xs @ TCompat t n # ys))"
    and old: "\<not> exist_compatible_member (TStruct cfg (xs @ ys))"
    and nt: "\<not> all_trivial_serializable (xs @ ys) True cfg"
    and ty: "has_type (TStruct cfg (xs @ TCompat t n # ys)) (VList (as @ w # bs))"
    and as: "length as = length xs"
    and sz: "max_size (calculate_one_size 0 (TStruct cfg (xs @ TCompat t n # ys))
      (VList (as @ w # bs))) < 2 ^ 64"
    and info: "info = get_serialize_runtime_info ndebug conf
      (TStruct cfg (xs @ TCompat t n # ys)) (VList (as @ w # bs))"
    and len: "buf_len info < 2 ^ 64"
    and r: "rest r = serialize_to ndebug conf info
      (TStruct cfg (xs @ TCompat t n # ys)) (VList (as @ w # bs)) @ sfx"
  shows "deserialize_to_reader conf (TStruct cfg (xs @ ys)) (default_val (TStruct cfg (xs @ ys))) r =
    (Ok, VList (as @ bs), advance (buf_len info) r)"
proof -
  let ?old = "TStruct cfg (xs @ ys)" and ?new = "TStruct cfg (xs @ TCompat t n # ys)"
  let ?v = "VList (as @ bs)" and ?w = "VList (as @ w # bs)"
  let ?st = "size_code ?new (calculate_one_size 0 ?new ?w)"
  let ?sw = "size_width ?st"
  let ?main = "serialize_one ?sw 0 ?new ?w"
  let ?compat = "concat (map (\<lambda>ver. serialize_compat ?sw ver ?new ?w) (compatible_version_number ?new))"
  have ex: "exist_compatible_member ?new" by (rule new_not_disabled(2) [OF new])
  have nocompat: "\<not> compatible_element_exist_many None (xs @ ys)"
    using old by (simp add: exist_compatible_member_def)
  obtain head where out: "serialize_to ndebug conf info ?new ?w = head @ ?main @ ?compat"
    and hd: "\<And>r sfx. rest r = head @ sfx \<Longrightarrow>
       deserialize_metainfo conf ?new r = (Ok, buf_len info, ?st, advance (length head) r)"
    by (rule serialize_to_parts [OF new ty info len refl refl], unfold if_P [OF ex], rule that)
  have flat: "flat_compat ?new" "well_configured conf ?new"
    using new by (simp_all only: portable_ty_def)
  have total: "length head + length ?main + length ?compat = buf_len info"
    using length_serialize_to [OF ty flat, of ndebug] out info by simp
  have outlen: "length (rest r) \<ge> buf_len info" using r out total by simp
  let ?r1 = "advance (length head) r" and ?r2 = "advance (length head + length ?main) r"
  have hdr: "deserialize_metainfo conf ?old r = (Ok, buf_len info, ?st, ?r1)"
    unfolding insert_metainfo [OF new_not_disabled(1) [OF new], of t n, symmetric]
    by (rule hd [where sfx = "?main @ ?compat @ sfx"]) (use r out in simp)
  have tyv: "has_type ?old ?v" using insert_has_types(2) [OF as] ty by simp
  have nt3: "\<not> all_trivial_serializable (xs @ TCompat t n # ys) False cfg"
    "\<not> all_trivial_serializable (xs @ ys) False cfg"
    using nt insert_not_trivial trivial_weaken(2) by blast+
  have "max_size (calculate_one_size 0 ?old ?v) \<le> max_size (calculate_one_size 0 ?new ?w)"
    using nt nt3 insert_max_size [OF as] by (simp add: insert_trivial)
  then have sw: "max_size (calculate_one_size 0 ?old ?v) < 256 ^ ?sw"
    using chosen_width_suffices [OF sz] by (rule le_less_trans)
  have wf: "wf_ty ?old" using old_portable [OF new] by (simp only: portable_ty_def)
  have same: "serialize_one ?sw 0 ?old ?v = ?main"
    by (rule insert_serialize [OF as nt, symmetric])
  have mv: "main_val ?old ?v = ?v" using main_val_id(1) [OF _ tyv] old
    by (simp add: exist_compatible_member_def)
  have rd: "reads (deserialize_one ?sw 0 ?old (default_val ?old)) (serialize_one ?sw 0 ?old ?v)
      (main_val ?old ?v)"
    by (rule codec_okD [OF codec_ok_all wf tyv sw target_default(1) [OF tyv]]) simp
  have main: "deserialize_one ?sw 0 ?old (default_val ?old) ?r1 = (Ok, ?v, ?r2)"
    using readsD [OF rd, where r = ?r1 and sfx = "?compat @ sfx"] r out unfolding same mv by simp
  have "deserialize_with_len conf ?old (default_val ?old) r = (Ok, buf_len info, ?v, ?r2)"
    using hdr main old
    by (simp add: deserialize_with_len_def Let_def del: deserialize_one.simps default_val.simps)
  then show ?thesis
    by (rule deserialize_to_reader_skip) (use total outlen in linarith)+
qed

definition old_ty :: sp_ty where
  "old_ty = TStruct 0 ([TString Char8] @ [TFund Int32])"
definition old_val :: sp_val where
  "old_val = VList ([VList [VInt 104, VInt 105]] @ [VInt (-2)])"

lemma sample_split:
  "sample_ty = TStruct 0 ([TString Char8] @ TCompat (TFund Int8) 3 # [TFund Int32])"
  "sample_val = VList ([VList [VInt 104, VInt 105]] @ VOpt (Some (VInt 1)) # [VInt (-2)])"
  by (simp_all add: sample_ty_def sample_val_def)

lemma old_facts:
  "\<not> exist_compatible_member old_ty" "has_type old_ty old_val"
  "\<not> all_trivial_serializable ([TString Char8] @ [TFund Int32]) True 0"
  "max_size (calculate_one_size 0 old_ty old_val) < 2 ^ 64"
  "buf_len (get_serialize_runtime_info True 0 old_ty old_val) < 2 ^ 64"
  by (simp_all add: old_ty_def old_val_def sample_defs Let_def)

theorem old_writer_new_reader_witness:
  "\<exists>r. deserialize 0 sample_ty (default_val sample_ty) (mk_reader
     (serialize_to True 0 (get_serialize_runtime_info True 0 old_ty old_val) old_ty old_val @ [9])) =
   (Ok, VList [VList [VInt 104, VInt 105], VOpt None, VInt (-2)], r)"
  using old_writer_new_reader [OF sample_portable [unfolded sample_split]
      old_facts(1) [unfolded old_ty_def] old_facts(3) old_facts(2) [unfolded old_ty_def old_val_def]
      _ old_facts(4) [unfolded old_ty_def old_val_def] refl old_facts(5) [unfolded old_ty_def old_val_def],
      where sfx = "[9]" and r = "mk_reader (serialize_to True 0
        (get_serialize_runtime_info True 0 old_ty old_val) old_ty old_val @ [9])"]
  by (simp add: mk_reader_def old_ty_def old_val_def sample_split del: append.simps)

theorem new_writer_old_reader_witness:
  "\<exists>r. deserialize_to_reader 0 old_ty (default_val old_ty) (mk_reader
     (serialize_to True 0 (get_serialize_runtime_info True 0 sample_ty sample_val) sample_ty sample_val
        @ [9])) = (Ok, old_val, r)"
  using new_writer_old_reader [OF sample_portable [unfolded sample_split]
      old_facts(1) [unfolded old_ty_def] old_facts(3) sample_typed [unfolded sample_split]
      _ sample_size [unfolded sample_split] refl sample_len [unfolded sample_split],
      where sfx = "[9]" and r = "mk_reader (serialize_to True 0
        (get_serialize_runtime_info True 0 sample_ty sample_val) sample_ty sample_val @ [9])"]
  by (simp add: mk_reader_def old_ty_def old_val_def sample_split del: append.simps)

end
