(* ===== verification/SpField.thy ===== *)
theory SpField
  imports SpEvolution
begin

text \<open>
  Reading single members: \<open>skip_one\<close> moves over exactly what \<open>serialize_one\<close> wrote, and
  \<open>get_field\<close> (\<open>unpacker.hpp\<close>) skips the members in front of the wanted one. The second part
  states for which structs that gives the member, and where it does not.
\<close>

section \<open>Skipping\<close>

definition skips :: "(memory_reader \<Rightarrow> errc \<times> memory_reader) \<Rightarrow> bytes \<Rightarrow> bool" where
  "skips d bs \<longleftrightarrow> (\<forall>r sfx. rest r = bs @ sfx \<longrightarrow> d r = (Ok, advance (length bs) r))"

lemma skipsD: "skips d bs \<Longrightarrow> rest r = bs @ sfx \<Longrightarrow> d r = (Ok, advance (length bs) r)"
  by (simp add: skips_def)

lemma skipsI: "(\<And>r sfx. rest r = bs @ sfx \<Longrightarrow> d r = (Ok, advance (length bs) r)) \<Longrightarrow> skips d bs"
  by (simp add: skips_def)

lemma skips_bytes: "n = length bs \<Longrightarrow> skips (ignore_bytes n) bs"
  by (simp add: skips_def ignore_bytes_def rd_ignore_def)

lemma skips_padding: "skips (ignore_padding n) (replicate n 0)"
  using skips_bytes [of n "replicate n 0"] by (auto simp: skips_def ignore_padding_def)

lemma skips_times:
  "\<forall>v \<in> set vs. skips d (enc v) \<Longrightarrow> skips (skip_times d (length vs)) (concat (map enc vs))"
proof (induction vs)
  case Nil
  show ?case by (simp add: skips_def)
next
  case (Cons v vs)
  have one: "skips d (enc v)" and all: "skips (skip_times d (length vs)) (concat (map enc vs))"
    using Cons by simp_all
  show ?case
  proof (rule skipsI)
    fix r :: memory_reader and sfx
    assume r: "rest r = concat (map enc (v # vs)) @ sfx"
    have "d r = (Ok, advance (length (enc v)) r)"
      by (rule skipsD [OF one, where sfx = "concat (map enc vs) @ sfx"]) (use r in simp)
    moreover have "skip_times d (length vs) (advance (length (enc v)) r) =
        (Ok, advance (length (concat (map enc vs))) (advance (length (enc v)) r))"
      by (rule skipsD [OF all, where sfx = sfx]) (use r in simp)
    ultimately show "skip_times d (length (v # vs)) r =
        (Ok, advance (length (concat (map enc (v # vs)))) r)" by simp
  qed
qed

lemma skip_varint: "skips (\<lambda>r. case deserialize_varint False k 0 r of (ec, _, r') \<Rightarrow> (ec, r'))
    (serialize_varint k i)"
  by (rule skipsI) (simp add: skip_serialize_varint)

definition skip_ok :: "sp_ty \<Rightarrow> bool" where
  "skip_ok t \<longleftrightarrow> (\<forall>sw tag v. wf_ty t \<longrightarrow> has_type t v \<longrightarrow>
     max_size (calculate_one_size tag t v) < 256 ^ sw \<longrightarrow>
     skips (skip_one sw tag t) (serialize_one sw tag t v))"

lemma skip_okD:
  "skip_ok t \<Longrightarrow> wf_ty t \<Longrightarrow> has_type t v \<Longrightarrow> max_size (calculate_one_size tag t v) < 256 ^ sw \<Longrightarrow>
   skips (skip_one sw tag t) (serialize_one sw tag t v)"
  by (simp add: skip_ok_def)

lemma skip_okI:
  "(\<And>sw tag v. wf_ty t \<Longrightarrow> has_type t v \<Longrightarrow> max_size (calculate_one_size tag t v) < 256 ^ sw \<Longrightarrow>
     skips (skip_one sw tag t) (serialize_one sw tag t v)) \<Longrightarrow> skip_ok t"
  by (simp add: skip_ok_def)

lemma skip_fund: "skip_ok (TFund f)"
proof (rule skip_okI)
  fix sw :: nat and tag :: u64 and v
  show "skips (skip_one sw tag (TFund f)) (serialize_one sw tag (TFund f) v)"
  proof (cases "varint_kind (TFund f) tag")
    case None
    then show ?thesis using skips_bytes [of "fund_size f" "int_bytes (fund_size f) (val_int v)"]
      by (simp add: skips_def)
  next
    case (Some k)
    then show ?thesis using skip_varint [of k "val_int v"] by (simp add: skips_def)
  qed
qed

lemma skip_varint_ty: "skip_ok (TVarint k)"
  by (rule skip_okI) (use skip_varint in \<open>simp add: skips_def\<close>)

lemma skip_array: "skip_ok t \<Longrightarrow> skip_ok (TArray t n)"
proof (rule skip_okI)
  fix sw :: nat and tag :: u64 and v
  assume t: "skip_ok t" and wf: "wf_ty (TArray t n)" and v: "has_type (TArray t n) v"
    and sz: "max_size (calculate_one_size tag (TArray t n) v) < 256 ^ sw"
  obtain vs where vs: "v = VList vs" "length vs = n" "\<forall>x \<in> set vs. has_type t x"
    using v by (auto split: sp_val.splits simp: list_all_iff)
  show "skips (skip_one sw tag (TArray t n)) (serialize_one sw tag (TArray t n) v)"
  proof (cases "is_trivial_serializable t False 0")
    case True
    then have "length (obj_bytes (TArray t n) v) = n * ty_size t"
      using length_obj_bytes(1) [of "TArray t n" 0 v] v by simp
    then show ?thesis
      using skips_bytes [of "n * ty_size t" "obj_bytes (TArray t n) v"] True
      by (simp add: skips_def del: obj_bytes.simps)
  next
    case False
    have "skips (skip_times (skip_one sw 0 t) (length vs)) (concat (map (serialize_one sw 0 t) vs))"
      by (rule skips_times) (use t wf vs sz False in \<open>auto intro!: skip_okD simp: max_size_each_less\<close>)
    with False vs show ?thesis by (simp add: skips_def)
  qed
qed

text \<open>The branches that read a container size first.\<close>

lemma skips_container:
  assumes "n < 256 ^ sw" "n \<noteq> 0 \<Longrightarrow> skips (d n) bs" "n = 0 \<Longrightarrow> bs = []"
  shows "skips (\<lambda>r. case read_size sw r of None \<Rightarrow> (NoBufferSpace, r)
      | Some (n, r') \<Rightarrow> if n = 0 then (Ok, r') else d n r') (write_size sw n @ bs)"
proof (rule skipsI)
  fix r :: memory_reader and sfx
  assume r: "rest r = (write_size sw n @ bs) @ sfx"
  have rd: "read_size sw r = Some (n, advance sw r)"
    by (rule read_size_append [where sfx = "bs @ sfx"]) (use assms r in simp_all)
  show "(case read_size sw r of None \<Rightarrow> (NoBufferSpace, r)
      | Some (n, r') \<Rightarrow> if n = 0 then (Ok, r') else d n r') =
      (Ok, advance (length (write_size sw n @ bs)) r)"
  proof (cases "n = 0")
    case True
    with rd assms(3) show ?thesis by (simp add: write_size_def)
  next
    case False
    have "d n (advance sw r) = (Ok, advance (length bs) (advance sw r))"
      by (rule skipsD [OF assms(2) [OF False], where sfx = sfx])
        (use r in \<open>simp add: write_size_def\<close>)
    with rd False show ?thesis by (simp add: write_size_def)
  qed
qed

lemma skips_block:
  assumes "length bs = n * m" "n * m < 2 ^ 64"
  shows "skips (\<lambda>r. if size_overflow n m then (NoBufferSpace, r) else ignore_bytes (n * m) r) bs"
proof -
  have "n * m \<le> SIZE_MAX" using assms(2) by (simp add: SIZE_MAX_def)
  then have "n \<le> SIZE_MAX div m" if "0 < m" using that by (simp add: less_eq_div_iff_mult_less_eq)
  then have "\<not> size_overflow n m" by (cases m) (simp_all add: size_overflow_def not_less)
  with skips_bytes [of "n * m" bs] assms(1) show ?thesis by (simp add: skips_def)
qed

lemma skip_string: "skip_ok (TString f)"
proof (rule skip_okI)
  fix sw :: nat and tag :: u64 and v
  assume v: "has_type (TString f) v"
    and sz: "max_size (calculate_one_size tag (TString f) v) < 256 ^ sw"
  obtain vs where vs: "v = VList vs" "length vs * fund_size f < 2 ^ 64"
    using v by (auto split: sp_val.splits)
  let ?bs = "concat (map (\<lambda>x. int_bytes (fund_size f) (val_int x)) vs)"
  have "length ?bs = length vs * fund_size f" by (rule length_concat_const) simp
  from skips_block [OF this vs(2)] have
    "skips (\<lambda>r. if size_overflow (length vs) (fund_size f) then (NoBufferSpace, r)
       else ignore_bytes (length vs * fund_size f) r) ?bs" .
  from skips_container [where n = "length vs" and sw = sw and bs = ?bs and
      d = "\<lambda>n r. if size_overflow n (fund_size f) then (NoBufferSpace, r)
       else ignore_bytes (n * fund_size f) r", OF _ this] sz vs
  show "skips (skip_one sw tag (TString f)) (serialize_one sw tag (TString f) v)"
    by (simp add: skips_def)
qed

lemma skips_elements:
  assumes t: "skip_ok t" "wf_ty t"
    and vs: "\<forall>x \<in> set vs. has_type t x \<and> max_size (calculate_one_size 0 t x) < 256 ^ sw"
  shows "skips (skip_times (skip_one sw 0 t) (length vs)) (concat (map (serialize_one sw 0 t) vs))"
  by (rule skips_times) (use t vs in \<open>auto intro!: skip_okD\<close>)

lemma length_objs:
  assumes "is_trivial_serializable t False 0" "\<forall>x \<in> set vs. has_type t x"
  shows "length (concat (map (obj_bytes t) vs)) = length vs * ty_size t"
  by (rule length_concat_const) (use assms length_obj_bytes(1) in blast)

lemma skips_trivial_elements:
  "is_trivial_serializable t False 0 \<Longrightarrow> skip_one sw tag (TSeq True t) =
     (\<lambda>r. case read_size sw r of None \<Rightarrow> (NoBufferSpace, r)
      | Some (n, r') \<Rightarrow> if n = 0 then (Ok, r')
          else if size_overflow n (ty_size t) then (NoBufferSpace, r') else ignore_bytes (n * ty_size t) r')"
  "is_trivial_serializable t False 0 \<Longrightarrow> skip_one sw tag (TSet t) =
     (\<lambda>r. case read_size sw r of None \<Rightarrow> (NoBufferSpace, r)
      | Some (n, r') \<Rightarrow> if n = 0 then (Ok, r')
          else if size_overflow n (ty_size t) then (NoBufferSpace, r') else ignore_bytes (n * ty_size t) r')"
  by (rule ext, simp only: skip_one.simps simp_thms if_True)+

lemma skips_looped_elements:
  "\<not> (c \<and> is_trivial_serializable t False 0) \<Longrightarrow> skip_one sw tag (TSeq c t) =
     (\<lambda>r. case read_size sw r of None \<Rightarrow> (NoBufferSpace, r)
      | Some (n, r') \<Rightarrow> if n = 0 then (Ok, r') else skip_times (skip_one sw 0 t) n r')"
  "\<not> is_trivial_serializable t False 0 \<Longrightarrow> skip_one sw tag (TSet t) =
     (\<lambda>r. case read_size sw r of None \<Rightarrow> (NoBufferSpace, r)
      | Some (n, r') \<Rightarrow> if n = 0 then (Ok, r') else skip_times (skip_one sw 0 t) n r')"
  by (rule ext, simp only: skip_one.simps if_False)+

lemma skip_seq: "skip_ok t \<Longrightarrow> skip_ok (TSeq c t)"
proof (rule skip_okI)
  fix sw :: nat and tag :: u64 and v
  assume t: "skip_ok t" and wf: "wf_ty (TSeq c t)" and v: "has_type (TSeq c t) v"
    and sz: "max_size (calculate_one_size tag (TSeq c t) v) < 256 ^ sw"
  obtain vs where vs: "v = VList vs" "length vs * ty_size t < 2 ^ 64" "\<forall>x \<in> set vs. has_type t x"
    using v by (auto split: sp_val.splits simp: list_all_iff)
  have len: "length vs < 256 ^ sw"
    using sz vs by (auto simp: max_size_each_less split: if_splits)
  show "skips (skip_one sw tag (TSeq c t)) (serialize_one sw tag (TSeq c t) v)"
  proof (cases "c \<and> is_trivial_serializable t False 0")
    case True
    have "skips (\<lambda>r. if size_overflow (length vs) (ty_size t) then (NoBufferSpace, r)
       else ignore_bytes (length vs * ty_size t) r) (concat (map (obj_bytes t) vs))"
      by (rule skips_block) (use True vs length_objs in simp_all)
    from skips_container [where n = "length vs" and d = "\<lambda>n r. if size_overflow n (ty_size t)
       then (NoBufferSpace, r) else ignore_bytes (n * ty_size t) r", OF len this] vs
    show ?thesis by (simp add: skips_trivial_elements(1) [OF conjunct2 [OF True]] True skips_def del: skip_one.simps)
  next
    case False
    have "skips (skip_times (skip_one sw 0 t) (length vs)) (concat (map (serialize_one sw 0 t) vs))"
      by (rule skips_elements) (use t wf vs sz False in \<open>auto simp: max_size_each_less\<close>)
    from skips_container [where n = "length vs" and d = "skip_times (skip_one sw 0 t)", OF len this]
      vs
    show ?thesis using False by (auto simp: skips_looped_elements(1) [OF False] del: skip_one.simps)
  qed
qed

lemma skip_set: "skip_ok t \<Longrightarrow> skip_ok (TSet t)"
proof (rule skip_okI)
  fix sw :: nat and tag :: u64 and v
  assume t: "skip_ok t" and wf: "wf_ty (TSet t)" and v: "has_type (TSet t) v"
    and sz: "max_size (calculate_one_size tag (TSet t) v) < 256 ^ sw"
  obtain vs where vs: "v = VList vs" "length vs * ty_size t < 2 ^ 64" "\<forall>x \<in> set vs. has_type t x"
    using v by (auto split: sp_val.splits simp: list_all_iff)
  have len: "length vs < 256 ^ sw" using sz vs by (simp add: max_size_each_less)
  show "skips (skip_one sw tag (TSet t)) (serialize_one sw tag (TSet t) v)"
  proof (cases "is_trivial_serializable t False 0")
    case True
    have "t \<noteq> TMono" using wf by (auto simp: set_elem_def)
    then have obj: "serialize_one sw 0 t = obj_bytes t" using serialize_trivial [OF True] by blast
    have "skips (\<lambda>r. if size_overflow (length vs) (ty_size t) then (NoBufferSpace, r)
       else ignore_bytes (length vs * ty_size t) r) (concat (map (obj_bytes t) vs))"
      by (rule skips_block) (use True vs length_objs in simp_all)
    from skips_container [where n = "length vs" and d = "\<lambda>n r. if size_overflow n (ty_size t)
       then (NoBufferSpace, r) else ignore_bytes (n * ty_size t) r", OF len this] vs obj
    show ?thesis by (simp add: skips_trivial_elements(2) [OF True] True skips_def del: skip_one.simps)
  next
    case False
    have "skips (skip_times (skip_one sw 0 t) (length vs)) (concat (map (serialize_one sw 0 t) vs))"
      by (rule skips_elements) (use t wf vs sz False in \<open>auto simp: max_size_each_less\<close>)
    from skips_container [where n = "length vs" and d = "skip_times (skip_one sw 0 t)", OF len this]
      vs
    show ?thesis by (simp add: skips_looped_elements(2) [OF False] del: skip_one.simps)
  qed
qed

lemma skips_then:
  assumes "skips d bs" "skips e cs"
  shows "skips (\<lambda>r. let (ec, r') = d r in if is_err ec then (ec, r') else e r') (bs @ cs)"
proof (rule skipsI)
  fix r :: memory_reader and sfx
  assume r: "rest r = (bs @ cs) @ sfx"
  have "d r = (Ok, advance (length bs) r)"
    by (rule skipsD [OF assms(1), where sfx = "cs @ sfx"]) (use r in simp)
  moreover have "e (advance (length bs) r) = (Ok, advance (length cs) (advance (length bs) r))"
    by (rule skipsD [OF assms(2), where sfx = sfx]) (use r in simp)
  ultimately show "(let (ec, r') = d r in if is_err ec then (ec, r') else e r') =
      (Ok, advance (length (bs @ cs)) r)" by simp
qed

lemma skips_nothing: "skips (\<lambda>r. (Ok, r)) []"
  by (simp add: skips_def)

text \<open>The flag byte, and a payload whose result is dropped.\<close>

lemma skips_flag:
  assumes "skips d bs" "b \<noteq> 0"
  shows "skips (\<lambda>r. case rd_read 1 r of None \<Rightarrow> (NoBufferSpace, r)
      | Some (bs, r') \<Rightarrow> if hd bs = 0 then (Ok, r') else (Ok, snd (d r'))) (b # bs)"
  using reads_flag skipsD [OF assms(1)] assms(2) by (auto simp: skips_def)

lemma skip_nullable:
  assumes "skip_ok t"
  shows "skip_ok (TOptional t)" and "skip_ok (TUnique t)"
proof -
  have *: "skips (skip_one sw tag ty) (serialize_one sw tag ty v)"
    if ty: "ty = TOptional t \<or> ty = TUnique t" and wf: "wf_ty ty" and v: "has_type ty v"
      and sz: "max_size (calculate_one_size tag ty v) < 256 ^ sw" for sw tag ty v
  proof (cases "val_opt v")
    case None
    then have "serialize_one sw tag ty v = [0]" using ty by auto
    then show ?thesis using ty rd_read_append [of _ "[0]" _ 1] by (auto simp: skips_def)
  next
    case (Some x)
    then have out: "serialize_one sw tag ty v = 1 # serialize_one sw 0 t x" using ty by auto
    have "skips (skip_one sw 0 t) (serialize_one sw 0 t x)"
      by (rule skip_okD [OF assms]) (use ty wf v sz Some in \<open>auto split: sp_val.splits option.splits\<close>)
    from skips_flag [OF this, of 1] ty out show ?thesis by (auto simp: skips_def)
  qed
  show "skip_ok (TOptional t)" "skip_ok (TUnique t)" by (rule skip_okI, rule *, simp_all)+
qed

lemma skip_expected: "skip_ok t \<Longrightarrow> skip_ok e \<Longrightarrow> skip_ok (TExpected t e)"
proof (rule skip_okI)
  fix sw :: nat and tag :: u64 and v
  assume t: "skip_ok t" and e: "skip_ok e" and wf: "wf_ty (TExpected t e)"
    and v: "has_type (TExpected t e) v"
    and sz: "max_size (calculate_one_size tag (TExpected t e) v) < 256 ^ sw"
  obtain b x where x: "v = VExp b x" using v by (auto split: sp_val.splits)
  have "skips (skip_one sw 0 (if b then t else e)) (serialize_one sw 0 (if b then t else e) x)"
    by (rule skip_okD) (use t e wf v sz x in \<open>auto split: if_splits\<close>)
  with x show "skips (skip_one sw tag (TExpected t e)) (serialize_one sw tag (TExpected t e) v)"
    using reads_flag by (cases b) (auto simp: skips_def)
qed

lemma skip_alt_ok:
  assumes "\<forall>t \<in> set ts. skip_ok t"
  shows "wf_tys ts \<Longrightarrow> has_alt ts i x \<Longrightarrow> max_size (calculate_alt_size ts i x) < 256 ^ sw \<Longrightarrow>
    rest r = serialize_alt sw ts i x @ sfx \<Longrightarrow>
    i < length ts \<and> skip_alt sw ts i r = advance (length (serialize_alt sw ts i x)) r"
  using assms
proof (induction ts arbitrary: i)
  case (Cons t ts)
  show ?case
  proof (cases i)
    case 0
    have rd: "skips (skip_one sw 0 t) (serialize_one sw 0 t x)"
      by (rule skip_okD) (use Cons.prems 0 in auto)
    have "skip_one sw 0 t r = (Ok, advance (length (serialize_one sw 0 t x)) r)"
      by (rule skipsD [OF rd, where sfx = sfx]) (use Cons.prems 0 in simp)
    with 0 show ?thesis by simp
  next
    case (Suc j)
    with Cons show ?thesis by simp
  qed
qed simp

lemma skip_variant: "\<forall>t \<in> set ts. skip_ok t \<Longrightarrow> skip_ok (TVariant ts)"
proof (rule skip_okI)
  fix sw :: nat and tag :: u64 and v
  assume ts: "\<forall>t \<in> set ts. skip_ok t" and wf: "wf_ty (TVariant ts)"
    and v: "has_type (TVariant ts) v"
    and sz: "max_size (calculate_one_size tag (TVariant ts) v) < 256 ^ sw"
  obtain i x where x: "v = VVar i x" "has_alt ts i x" "length ts < 256"
    using v by (auto split: sp_val.splits)
  show "skips (skip_one sw tag (TVariant ts)) (serialize_one sw tag (TVariant ts) v)"
  proof (rule skipsI)
    fix r :: memory_reader and sfx
    assume r: "rest r = serialize_one sw tag (TVariant ts) v @ sfx"
    then have f: "rd_read 1 r = Some ([word_of_nat i], advance 1 r)"
      "rest (advance 1 r) = serialize_alt sw ts i x @ sfx"
      using reads_flag [of r "word_of_nat i" "serialize_alt sw ts i x" sfx] x by simp_all
    have "i < length ts \<and> skip_alt sw ts i (advance 1 r) =
        advance (length (serialize_alt sw ts i x)) (advance 1 r)"
      by (rule skip_alt_ok [OF ts]) (use wf x sz f in auto)
    moreover have "unat (word_of_nat i :: byte) = i"
      using calculation x(3) by (simp only: unat_byte_of_nat) simp
    ultimately show "skip_one sw tag (TVariant ts) r =
        (Ok, advance (length (serialize_one sw tag (TVariant ts) v)) r)"
      using x f by simp
  qed
qed

text \<open>Maps whose pairs are copied as a whole are skipped as a block.\<close>

definition skip_pair :: "nat \<Rightarrow> sp_ty \<Rightarrow> sp_ty \<Rightarrow> memory_reader \<Rightarrow> errc \<times> memory_reader" where
  "skip_pair sw k t r =
     (let padded = is_trivial_serializable (pair_ty k t) True 0;
          (ec, r1) = skip_one sw 0 k r
      in if is_err ec then (ec, r1)
         else
           let (ec, r2) = (if padded then ignore_padding (calculate_padding_size [k, t] ! 1) r1
                           else (Ok, r1))
           in if is_err ec then (ec, r2)
              else
                let (ec, r3) = skip_one sw 0 t r2
                in if is_err ec then (ec, r3)
                   else if padded then ignore_padding (calculate_padding_size [k, t] ! 2) r3
                   else (Ok, r3))"

lemma skip_one_map:
  "is_trivial_serializable (pair_ty k t) False 0 \<Longrightarrow> skip_one sw tag (TMap k t) =
     (\<lambda>r. case read_size sw r of None \<Rightarrow> (NoBufferSpace, r)
      | Some (n, r') \<Rightarrow> if n = 0 then (Ok, r')
          else if size_overflow n (ty_size (pair_ty k t)) then (NoBufferSpace, r')
          else ignore_bytes (n * ty_size (pair_ty k t)) r')"
  "\<not> is_trivial_serializable (pair_ty k t) False 0 \<Longrightarrow> skip_one sw tag (TMap k t) =
     (\<lambda>r. case read_size sw r of None \<Rightarrow> (NoBufferSpace, r)
      | Some (n, r') \<Rightarrow> if n = 0 then (Ok, r') else skip_times (skip_pair sw k t) n r')"
  by (rule ext, simp only: skip_one.simps skip_pair_def [abs_def] if_True if_False)+

lemma skips_pair:
  assumes wf: "wf_ty (TMap k t)"
    and "skips (skip_one sw 0 k) (serialize_one sw 0 k a)"
    and "skips (skip_one sw 0 t) (serialize_one sw 0 t b)"
  shows "skips (skip_pair sw k t) (serialize_one sw 0 k a @ serialize_one sw 0 t b)"
proof -
  have pads: "ignore_padding (calculate_padding_size [k, t] ! 1) r = (Ok, r)"
    "ignore_padding (calculate_padding_size [k, t] ! 2) r = (Ok, r)"
    if "is_trivial_serializable (pair_ty k t) True 0" for r
    using that wf pair_paddings [of k t] by (auto simp: ignore_padding_def)
  have "skip_pair sw k t r = (let (ec, r') = skip_one sw 0 k r in
      if is_err ec then (ec, r') else skip_one sw 0 t r')" if "rest r =
        (serialize_one sw 0 k a @ serialize_one sw 0 t b) @ sfx" for r sfx
  proof -
    have "skip_one sw 0 k r = (Ok, advance (length (serialize_one sw 0 k a)) r)"
      by (rule skipsD [OF assms(2), where sfx = "serialize_one sw 0 t b @ sfx"]) (use that in simp)
    then show ?thesis
      using pads by (cases "is_trivial_serializable (pair_ty k t) True 0")
        (auto simp: skip_pair_def Let_def is_err_def split: prod.splits)
  qed
  with skips_then [OF assms(2,3)] show ?thesis by (auto simp: skips_def)
qed

lemma skip_map: "skip_ok k \<Longrightarrow> skip_ok t \<Longrightarrow> skip_ok (TMap k t)"
proof (rule skip_okI)
  fix sw :: nat and tag :: u64 and v
  assume k: "skip_ok k" and t: "skip_ok t" and wf: "wf_ty (TMap k t)"
    and v: "has_type (TMap k t) v"
    and sz: "max_size (calculate_one_size tag (TMap k t) v) < 256 ^ sw"
  obtain kvs where kvs: "v = VMap kvs" "length kvs * ty_size (pair_ty k t) < 2 ^ 64"
      "\<forall>x \<in> set kvs. has_type k (fst x) \<and> has_type t (snd x)"
    using v by (auto split: sp_val.splits simp: list_all_iff)
  have len: "length kvs < 256 ^ sw" using sz kvs by (simp add: max_size_each_less)
  show "skips (skip_one sw tag (TMap k t)) (serialize_one sw tag (TMap k t) v)"
  proof (cases "is_trivial_serializable (pair_ty k t) False 0")
    case True
    let ?vs = "map (\<lambda>x. VList [fst x, snd x]) kvs"
    let ?bs = "concat (map (obj_bytes (pair_ty k t)) ?vs)"
    have out: "serialize_one sw tag (TMap k t) v = write_size sw (length kvs) @ ?bs"
      using True kvs(1) by (simp add: o_def del: obj_bytes.simps is_trivial_serializable.simps)
    have "length ?bs = length kvs * ty_size (pair_ty k t)"
      using length_objs [OF True, of ?vs] kvs(3) by simp
    from skips_container [where d = "\<lambda>n r. if size_overflow n (ty_size (pair_ty k t))
       then (NoBufferSpace, r) else ignore_bytes (n * ty_size (pair_ty k t)) r",
        OF len skips_block [OF this kvs(2)]]
    show ?thesis unfolding skip_one_map(1) [OF True] out by simp
  next
    case False
    let ?e = "\<lambda>x. serialize_one sw 0 k (fst x) @ serialize_one sw 0 t (snd x)"
    have sizes: "max_size (calculate_one_size 0 k (fst x)) < 256 ^ sw"
        "max_size (calculate_one_size 0 t (snd x)) < 256 ^ sw" if "x \<in> set kvs" for x
      using sz kvs that False by (auto simp: max_size_each_less simp del: is_trivial_serializable.simps)
    have "\<forall>x \<in> set kvs. skips (skip_pair sw k t) (?e x)"
    proof
      fix x
      assume x: "x \<in> set kvs"
      have "skips (skip_one sw 0 k) (serialize_one sw 0 k (fst x))"
        by (rule skip_okD [OF k]) (use wf kvs(3) x sizes in auto)
      moreover have "skips (skip_one sw 0 t) (serialize_one sw 0 t (snd x))"
        by (rule skip_okD [OF t]) (use wf kvs(3) x sizes in auto)
      ultimately show "skips (skip_pair sw k t) (?e x)" by (rule skips_pair [OF wf])
    qed
    from skips_container [where d = "skip_times (skip_pair sw k t)", OF len skips_times [OF this]]
    show ?thesis unfolding skip_one_map(2) [OF False] kvs(1) serialize_map [OF wf] by simp
  qed
qed

lemma skip_many_ok:
  assumes "\<forall>t \<in> set ts. skip_ok t"
  shows "wf_tys ts \<Longrightarrow> has_types ts vs \<Longrightarrow> max_size (calculate_payload_size tag ts vs) < 256 ^ sw \<Longrightarrow>
    skips (skip_many sw tag ts) (serialize_many sw tag ts vs)"
  using assms
proof (induction ts arbitrary: vs)
  case Nil
  then show ?case by (simp add: skips_def)
next
  case (Cons t ts)
  have "skips (skip_one sw tag t) (serialize_one sw tag t (hd vs))"
    by (rule skip_okD) (use Cons.prems in \<open>auto split: list.splits\<close>)
  moreover have "skips (skip_many sw tag ts) (serialize_many sw tag ts (tl vs))"
    by (rule Cons.IH) (use Cons.prems in \<open>auto split: list.splits\<close>)
  ultimately show ?case using skips_then by (simp add: skips_def)
qed

lemma skip_padded_ok:
  assumes "\<forall>t \<in> set ts. skip_ok t"
  shows "wf_tys ts \<Longrightarrow> has_types ts vs \<Longrightarrow> max_size (calculate_payload_size 0 ts vs) < 256 ^ sw \<Longrightarrow>
    skips (skip_padded sw ts pads) (serialize_padded sw ts vs pads)"
  using assms
proof (induction ts arbitrary: vs pads)
  case Nil
  then show ?case by (simp add: skips_def)
next
  case (Cons t ts)
  have "skips (skip_one sw 0 t) (serialize_one sw 0 t (hd vs))"
    by (rule skip_okD) (use Cons.prems in \<open>auto split: list.splits\<close>)
  moreover have "skips (skip_padded sw ts (tl pads)) (serialize_padded sw ts (tl vs) (tl pads))"
    by (rule Cons.IH) (use Cons.prems in \<open>auto split: list.splits\<close>)
  ultimately show ?case
    using skips_then [OF _ skips_then [OF skips_padding]] by (simp add: skips_def)
qed

lemma skip_tuple: "\<forall>t \<in> set ts. skip_ok t \<Longrightarrow> skip_ok (TTuple ts)"
  by (rule skip_okI) (use skip_many_ok in \<open>auto simp: skips_def split: sp_val.splits\<close>)

lemma skip_class: "\<forall>t \<in> set ts. skip_ok t \<Longrightarrow> skip_ok (TStruct cfg ts)"
proof (rule skip_okI)
  fix sw :: nat and tag :: u64 and v
  assume ts: "\<forall>t \<in> set ts. skip_ok t" and wf: "wf_ty (TStruct cfg ts)"
    and v: "has_type (TStruct cfg ts) v"
    and sz: "max_size (calculate_one_size tag (TStruct cfg ts) v) < 256 ^ sw"
  obtain vs where vs: "v = VList vs" "has_types ts vs" using v by (auto split: sp_val.splits)
  show "skips (skip_one sw tag (TStruct cfg ts)) (serialize_one sw tag (TStruct cfg ts) v)"
  proof (cases "all_trivial_serializable ts False cfg")
    case True
    then have triv: "is_trivial_serializable (TStruct cfg ts) False tag" by simp
    from skips_bytes [OF length_obj_bytes(1) [OF this v, symmetric]] True
    show ?thesis by (simp add: skips_def del: obj_bytes.simps ty_size.simps)
  next
    case nt: False
    show ?thesis
    proof (cases "all_trivial_serializable ts True cfg")
      case True
      have "skips (skip_padded sw ts (tl (calculate_padding_size ts)))
          (serialize_padded sw ts vs (tl (calculate_padding_size ts)))"
        by (rule skip_padded_ok [OF ts]) (use wf vs sz nt True in auto)
      with nt True vs show ?thesis by (simp add: skips_def)
    next
      case nt2: False
      have many: "skips (skip_many sw cfg ts) (serialize_many sw cfg ts vs)"
        by (rule skip_many_ok [OF ts]) (use wf vs sz nt nt2 in auto)
      show ?thesis
      proof (cases "is_enable_fast_varint_coding cfg")
        case False
        with many nt nt2 vs show ?thesis by (simp add: skips_def)
      next
        case fast: True
        have ne: "fast_members cfg ts vs \<noteq> []" using wf fast nt2 by (intro fast_members_nonempty) auto
        have "skips (\<lambda>r. case deserialize_fast_varint False (fast_members cfg ts (default_vals ts)) r
            of (ec, _, r') \<Rightarrow> (ec, r')) (serialize_fast_varint (fast_members cfg ts vs))"
          by (rule skipsI)
            (simp add: skip_fast_varint_block [OF ne fast_members_range [OF vs(2)] fast_members_fst])
        note block = skips_then [OF this many]
        have "skip_one sw tag (TStruct cfg ts) = (\<lambda>r.
            let (ec, r') = (case deserialize_fast_varint False (fast_members cfg ts (default_vals ts)) r
              of (ec, _, r') \<Rightarrow> (ec, r'))
            in if is_err ec then (ec, r') else skip_many sw cfg ts r')"
          by (rule ext) (use fast nt nt2 in \<open>simp split: prod.splits\<close>)
        moreover have "serialize_one sw tag (TStruct cfg ts) v =
            serialize_fast_varint (fast_members cfg ts vs) @ serialize_many sw cfg ts vs"
          using fast nt nt2 vs by simp
        ultimately show ?thesis using block by (simp only:)
      qed
    qed
  qed
qed

lemma skip_ok_all: "skip_ok t"
proof (induction t)
  case TMono
  then show ?case by (intro skip_okI) (simp add: skips_def)
next
  case (TCompat t n)
  then show ?case by (intro skip_okI) (simp add: skips_def)
next
  case (TVariant ts)
  then show ?case by (intro skip_variant) blast
next
  case (TTuple ts)
  then show ?case by (intro skip_tuple) blast
next
  case (TStruct cfg ts)
  then show ?case by (intro skip_class) blast
qed (simp_all add: skip_fund skip_varint_ty skip_array skip_string skip_seq skip_set skip_map
    skip_nullable skip_expected)

section \<open>Reading one member\<close>

text \<open>
  The compatible pass with \<open>NotSkip = false\<close>, over a default-constructed object: its optionals
  and unique pointers are empty, an \<open>expected\<close> holds a value, a variant its first alternative;
  the source does not accept containers with compatible members here.
\<close>

fun skip_compat :: "nat \<Rightarrow> nat \<Rightarrow> nat \<Rightarrow> sp_ty \<Rightarrow> cstate \<Rightarrow> errc \<times> cstate"
  and skip_compat_many :: "nat \<Rightarrow> nat \<Rightarrow> nat \<Rightarrow> sp_ty list \<Rightarrow> cstate \<Rightarrow> errc \<times> cstate" where
  "skip_compat sw dl ver (TCompat t n) = (\<lambda>(missing, r).
     if ver \<noteq> n then (Ok, (missing, r))
     else if rd_tellg r \<ge> dl then (NoBufferSpace, (True, r))
     else
       (case rd_read 1 r of None \<Rightarrow> (NoBufferSpace, (missing, r))
        | Some (bs, r') \<Rightarrow>
            if hd bs = 0 then (Ok, (missing, r')) else (Ok, (missing, snd (skip_one sw 0 t r')))))"
| "skip_compat sw dl ver (TArray t n) =
     (\<lambda>st. if n = 0 then (Ok, st)
       else foldl (\<lambda>(ec, st) _. if is_err ec then (ec, st) else skip_compat sw dl ver t st)
         (Ok, st) [0..<n])"
| "skip_compat sw dl ver (TTuple ts) = skip_compat_many sw dl ver ts"
| "skip_compat sw dl ver (TStruct cfg ts) = skip_compat_many sw dl ver ts"
| "skip_compat sw dl ver (TExpected t e) = (\<lambda>st. (Ok, snd (skip_compat sw dl ver t st)))"
| "skip_compat sw dl ver (TVariant ts) =
     (case ts of [] \<Rightarrow> (\<lambda>st. (Ok, st)) | t # ts' \<Rightarrow> (\<lambda>st. (Ok, snd (skip_compat sw dl ver t st))))"
| "skip_compat sw dl ver _ = (\<lambda>st. (Ok, st))"
| "skip_compat_many sw dl ver [] = (\<lambda>st. (Ok, st))"
| "skip_compat_many sw dl ver (t # ts) = (\<lambda>st.
     case skip_compat sw dl ver t st of
       (ec, st') \<Rightarrow> if is_err ec then (ec, st') else skip_compat_many sw dl ver ts st')"

text \<open>
  \<open>for_each\<close> with \<open>set_value\<close>: the members in front of the wanted one are skipped, whatever their
  error code, which the next member overwrites; the wanted one is deserialized and ends the
  loop.
\<close>

definition ty_members :: "sp_ty \<Rightarrow> sp_ty list" where
  "ty_members t = (case t of TTuple ts \<Rightarrow> ts | TStruct cfg ts \<Rightarrow> ts | _ \<Rightarrow> [])"

fun for_each :: "nat \<Rightarrow> sp_ty list \<Rightarrow> nat \<Rightarrow> sp_val \<Rightarrow> sp_val des" where
  "for_each sw [] i field r = (Ok, field, r)"
| "for_each sw (t # ts) 0 field r = deserialize_one sw 0 t field r"
| "for_each sw (t # ts) (Suc i) field r = for_each sw ts i field (snd (skip_one sw 0 t r))"

fun for_each_compat :: "nat \<Rightarrow> nat \<Rightarrow> nat \<Rightarrow> sp_ty list \<Rightarrow> nat \<Rightarrow> sp_val \<Rightarrow> (cstate, sp_val) desr" where
  "for_each_compat sw dl ver [] i field st = (Ok, field, st)"
| "for_each_compat sw dl ver (t # ts) 0 field st = deserialize_compat sw dl ver t field st"
| "for_each_compat sw dl ver (t # ts) (Suc i) field st =
     for_each_compat sw dl ver ts i field (snd (skip_compat sw dl ver t st))"

text \<open>\<open>deserialize_compatible_fields\<close>: one pass per version, while there is no error.\<close>

primrec field_passes ::
  "nat \<Rightarrow> nat \<Rightarrow> sp_ty list \<Rightarrow> nat \<Rightarrow> nat list \<Rightarrow> sp_val \<Rightarrow> (cstate, sp_val) desr" where
  "field_passes sw dl ts i [] field st = (Ok, field, st)"
| "field_passes sw dl ts i (ver # vers) field st =
     (case for_each_compat sw dl ver ts i field st of
        (ec, field', st') \<Rightarrow>
          if is_err ec then (ec, field', st') else field_passes sw dl ts i vers field' st')"

definition deserialize_compatible_fields :: "nat \<Rightarrow> nat \<Rightarrow> sp_ty \<Rightarrow> nat \<Rightarrow> sp_val \<Rightarrow> sp_val des" where
  "deserialize_compatible_fields sw dl t i field r =
     (case field_passes sw dl (ty_members t) i (compatible_version_number t) field (False, r) of
        (ec, field', (missing, r')) \<Rightarrow> (if missing then Ok else ec, field', r'))"

definition get_field :: "u64 \<Rightarrow> sp_ty \<Rightarrow> nat \<Rightarrow> sp_val \<Rightarrow> sp_val des" where
  "get_field conf t i field r =
     (case deserialize_metainfo conf t r of
        (ec, buffer_len, size_type, r1) \<Rightarrow>
          if is_err ec then (ec, field, r1)
          else
            let sw = size_width size_type; data_len = rd_tellg r + buffer_len in
            (case for_each sw (ty_members t) i field r1 of
               (ec, field', r2) \<Rightarrow>
                 if \<not> exist_compatible_member t then (ec, field', r2)
                 else if is_err ec then (ec, field', r2)
                 else deserialize_compatible_fields sw data_len t i field' r2))"

subsection \<open>When that is right\<close>

text \<open>
  The types whose members lie one behind the other in the encoding that the tag 0 of
  \<open>set_value\<close> selects: tuples, and classes that are not copied as a whole and whose
  configuration does not turn their integers into varints.
\<close>

definition separable :: "sp_ty \<Rightarrow> bool" where
  "separable t \<longleftrightarrow>
     (case t of TTuple ts \<Rightarrow> True
      | TStruct cfg ts \<Rightarrow> \<not> all_trivial_serializable ts True cfg \<and>
          \<not> is_enable_fast_varint_coding cfg \<and> list_all (\<lambda>t. varint_kind t cfg = varint_kind t 0) ts
      | _ \<Rightarrow> False)"

lemma serialize_one_tag:
  "\<not> is_enable_fast_varint_coding cfg \<Longrightarrow> varint_kind t cfg = varint_kind t 0 \<Longrightarrow>
   serialize_one sw cfg t v = serialize_one sw 0 t v"
  "\<not> is_enable_fast_varint_coding cfg \<Longrightarrow> varint_kind t cfg = varint_kind t 0 \<Longrightarrow>
   calculate_one_size cfg t v = calculate_one_size 0 t v"
  by (cases t; simp split: option.splits)+

lemma serialize_many_tag:
  "\<not> is_enable_fast_varint_coding cfg \<Longrightarrow> list_all (\<lambda>t. varint_kind t cfg = varint_kind t 0) ts \<Longrightarrow>
   serialize_many sw cfg ts vs = serialize_many sw 0 ts vs"
  "\<not> is_enable_fast_varint_coding cfg \<Longrightarrow> list_all (\<lambda>t. varint_kind t cfg = varint_kind t 0) ts \<Longrightarrow>
   calculate_payload_size cfg ts vs = calculate_payload_size 0 ts vs"
  by (induction ts arbitrary: vs) (simp_all add: serialize_one_tag [of cfg])

lemma separable_parts:
  assumes "separable t" "has_type t v"
  obtains ts vs where "ty_members t = ts" "v = VList vs" "has_types ts vs"
    "serialize_one sw 0 t v = serialize_many sw 0 ts vs"
    "max_size (calculate_one_size 0 t v) = max_size (calculate_payload_size 0 ts vs)"
    "wf_ty t \<Longrightarrow> wf_tys ts"
    "exist_compatible_member t \<longleftrightarrow> compatible_element_exist_many None ts"
proof (cases t)
  case (TTuple ts)
  with assms(2) that show ?thesis
    by (auto simp: ty_members_def exist_compatible_member_def split: sp_val.splits)
next
  case (TStruct cfg ts)
  with assms have c: "\<not> all_trivial_serializable ts True cfg" "\<not> is_enable_fast_varint_coding cfg"
    "list_all (\<lambda>t. varint_kind t cfg = varint_kind t 0) ts"
    by (simp_all add: separable_def)
  moreover have "\<not> all_trivial_serializable ts False cfg" using c(1) trivial_weaken(2) by blast
  ultimately show ?thesis
    using TStruct assms(2) that serialize_many_tag [OF c(2,3)]
    by (auto simp: ty_members_def exist_compatible_member_def split: sp_val.splits)
qed (use assms in \<open>auto simp: separable_def\<close>)

lemma for_each_serialize:
  assumes "wf_tys ts" "has_types ts vs" "max_size (calculate_payload_size 0 ts vs) < 256 ^ sw"
    and "i < length ts" "\<not> compatible_element_exist_many None ts"
    and "rest r = serialize_many sw 0 ts vs @ sfx"
  shows "\<exists>r'. for_each sw ts i (default_val (ts ! i)) r = (Ok, vs ! i, r')"
  using assms
proof (induction ts arbitrary: i vs r)
  case (Cons t ts)
  obtain v vs' where vs: "vs = v # vs'" "has_type t v" "has_types ts vs'"
    using Cons.prems(2) by (auto split: list.splits)
  have sz: "max_size (calculate_one_size 0 t v) < 256 ^ sw"
    "max_size (calculate_payload_size 0 ts vs') < 256 ^ sw"
    using Cons.prems(3) vs(1) by simp_all
  show ?case
  proof (cases i)
    case 0
    have rd: "reads (deserialize_one sw 0 t (default_val t)) (serialize_one sw 0 t v) (main_val t v)"
      by (rule codec_okD [OF codec_ok_all _ vs(2) sz(1) target_default(1) [OF vs(2)]])
        (use Cons.prems(1) in simp_all)
    have "deserialize_one sw 0 t (default_val t) r =
        (Ok, main_val t v, advance (length (serialize_one sw 0 t v)) r)"
      by (rule readsD [OF rd, where sfx = "serialize_many sw 0 ts vs' @ sfx"])
        (use Cons.prems(6) vs(1) in simp)
    moreover have "main_val t v = v" using main_val_id(1) [OF _ vs(2)] Cons.prems(5) by simp
    ultimately show ?thesis using 0 vs(1) by simp
  next
    case (Suc j)
    have "skips (skip_one sw 0 t) (serialize_one sw 0 t v)"
      by (rule skip_okD [OF skip_ok_all _ vs(2) sz(1)]) (use Cons.prems(1) in simp)
    then have "skip_one sw 0 t r = (Ok, advance (length (serialize_one sw 0 t v)) r)"
      by (rule skipsD [where sfx = "serialize_many sw 0 ts vs' @ sfx"]) (use Cons.prems(6) vs(1) in simp)
    moreover have "\<exists>r'. for_each sw ts j (default_val (ts ! j))
        (advance (length (serialize_one sw 0 t v)) r) = (Ok, vs' ! j, r')"
      by (rule Cons.IH [OF _ vs(3) sz(2)]) (use Cons.prems Suc vs(1) in auto)
    ultimately show ?thesis using Suc vs(1) by simp
  qed
qed simp



subsection \<open>When it is not\<close>

text \<open>With all meta information disabled and no containers, the buffer is the main pass.\<close>

lemma bare_serialize:
  assumes "\<not> check_if_has_container t" "\<not> exist_compatible_member t"
  shows "serialize_to ndebug 3 info t v = serialize_one 1 0 t v"
proof -
  have "check_if_disable_hash_head 3 t"
    by (simp add: check_if_disable_hash_head_def DISABLE_ALL_META_INFO_def)
  then show ?thesis
    using assms
    by (simp add: serialize_to_def serialize_def serialize_metainfo_def even_hash_head
        check_has_metainfo_def size_width_def Let_def)
qed

lemma bare_get_field:
  assumes "\<not> check_if_has_container t" "\<not> exist_compatible_member t"
  shows "get_field 3 t i field r = for_each 1 (ty_members t) i field r"
proof -
  have "check_if_disable_hash_head 3 t"
    by (simp add: check_if_disable_hash_head_def DISABLE_ALL_META_INFO_def)
  then show ?thesis
    using assms
    by (simp add: get_field_def deserialize_metainfo_def size_width_def Let_def is_err_def
        split: prod.splits)
qed

lemma le_bytes_widths:
  "le_bytes (Suc 0) v = [word_of_nat v]"
  "le_bytes 4 v = [word_of_nat v, word_of_nat (v div 256), word_of_nat (v div 65536),
     word_of_nat (v div 16777216)]"
proof -
  show "le_bytes (Suc 0) v = [word_of_nat v]" by simp
  have "(4 :: nat) = Suc (Suc (Suc (Suc 0)))" by simp
  then show "le_bytes 4 v = [word_of_nat v, word_of_nat (v div 256), word_of_nat (v div 65536),
     word_of_nat (v div 16777216)]"
    by (simp only: le_bytes.simps) (simp add: div_mult2_eq [symmetric])
qed

lemma replicate_3: "replicate 3 x = [x, x, x]"
  by (simp add: numeral_3_eq_3)

lemmas member_eval = le_bytes_widths ty_members_def ignore_bytes_def rd_ignore_def rd_read_def des_fund_def
  des_trivial_def int_bytes_def int_of_bytes_def varint_kind_def is_enable_fast_varint_coding_def
  fund_size_def fund_signed_def mk_reader_def advance_def pad_to_def
  serialize_varint_def replicate_3 Let_def varint_to_u64_def

text \<open>
  Three encodings that \<open>get_field\<close> does not follow: a class that is copied as
  a whole has padding in front of its second member, which is read instead of the member
  (1 is read as 16777216); in a class with \<open>ENCODING_WITH_VARINT\<close> the members are read as
  fixed-width integers; and the error of a member that cannot be skipped is lost, so that a
  buffer that ends inside the first member still gives a value for the second one.
\<close>
theorem get_field_wrong_encoding:
  "(case get_field 3 (TStruct 0 [TFund Int8, TFund Int32]) 1 (VInt 0)
      (mk_reader (serialize_to True 3
         (get_serialize_runtime_info True 3 (TStruct 0 [TFund Int8, TFund Int32])
            (VList [VInt 5, VInt 1])) (TStruct 0 [TFund Int8, TFund Int32]) (VList [VInt 5, VInt 1])))
    of (ec, v, _) \<Rightarrow> ec = Ok \<and> v = VInt 16777216) \<and>
   (case get_field 3 (TStruct 4 [TFund Int32, TFund Int32]) 1 (VInt 0)
      (mk_reader (serialize_to True 3
         (get_serialize_runtime_info True 3 (TStruct 4 [TFund Int32, TFund Int32])
            (VList [VInt 5, VInt 1])) (TStruct 4 [TFund Int32, TFund Int32]) (VList [VInt 5, VInt 1])))
    of (ec, v, _) \<Rightarrow> ec = NoBufferSpace) \<and>
   (case get_field 3 (TTuple [TFund Int64, TFund Int8]) 1 (VInt 0) (mk_reader [7])
    of (ec, v, _) \<Rightarrow> ec = Ok \<and> v = VInt 7)"
proof -
  let ?a = "TStruct 0 [TFund Int8, TFund Int32]" and ?b = "TStruct 4 [TFund Int32, TFund Int32]"
    and ?c = "TTuple [TFund Int64, TFund Int8]"
  have a: "\<not> check_if_has_container ?a" "\<not> exist_compatible_member ?a"
    and b: "\<not> check_if_has_container ?b" "\<not> exist_compatible_member ?b"
    and c: "\<not> check_if_has_container ?c" "\<not> exist_compatible_member ?c"
    by (simp_all add: exist_compatible_member_def)
  have "for_each 1 (ty_members ?a) 1 (VInt 0)
      (mk_reader (serialize_one 1 0 ?a (VList [VInt 5, VInt 1]))) =
      (Ok, VInt 16777216, \<lparr>now = 5, rest = [0, 0, 0]\<rparr>)"
    by (simp add: member_eval)
  moreover have "length (serialize_one 1 0 ?b (VList [VInt 5, VInt 1])) = 2"
    by (simp add: varint_kind_def is_enable_fast_varint_coding_def fund_size_def
        fund_signed_def ENCODING_WITH_VARINT_def USE_FAST_VARINT_def)
      (simp add: serialize_varint_def varint_to_u64_def write_varint.simps [of 5]
        write_varint.simps [of 1] word_le_nat_alt)
  then have "fst (for_each 1 (ty_members ?b) 1 (VInt 0)
      (mk_reader (serialize_one 1 0 ?b (VList [VInt 5, VInt 1])))) = NoBufferSpace"
    by (simp add: member_eval del: serialize_one.simps)
  moreover have "for_each 1 (ty_members ?c) 1 (VInt 0) (mk_reader [7]) =
      (Ok, VInt 7, \<lparr>now = 1, rest = []\<rparr>)"
    by (simp add: member_eval)
  ultimately show ?thesis
    unfolding bare_serialize [OF a] bare_serialize [OF b] bare_get_field [OF a] bare_get_field [OF b]
      bare_get_field [OF c] by (simp add: case_prod_unfold)
qed

end
